(* ===== verification/Kernel_Prelude.thy ===== *)
theory Kernel_Prelude
  imports Main "HOL-Library.Word"
begin

text \<open>
  Shared vocabulary of the development: the machine integers of the C code, the two ways a
  kernel routine can fail to return (it spins for ever, or it stops the machine), and the
  collections of simplification rules the component theories fill and use.
\<close>

unbundle bit_operations_syntax

type_synonym u8 = "8 word"
type_synonym u16 = "16 word"
type_synonym u32 = "32 word"
type_synonym u64 = "64 word"

section \<open>Outcomes of a kernel routine\<close>

text \<open>
  \<open>Abort msg\<close> is the idiom \<open>printf(msg); abort();\<close> of the library (\<open>abort\<close> prints its own
  banner and hangs the machine), \<open>Panic msg\<close> is \<open>printf(msg); hcf();\<close> and \<open>Hcf\<close> a bare call of
  \<open>hcf()\<close>. A routine is a value of
  \<open>'a run\<close>: \<open>None\<close> is a loop that never ends, \<open>Some (Inl h)\<close> a machine stopped on purpose
  and \<open>Some (Inr v)\<close> a normal return.
\<close>

datatype halt = Abort string | Panic string | Hcf

type_synonym 'a run = "(halt + 'a) option"

definition ret :: "'a \<Rightarrow> 'a run" where
  "ret x = Some (Inr x)"

definition stop :: "halt \<Rightarrow> 'a run" where
  "stop h = Some (Inl h)"

definition run_bind :: "'a run \<Rightarrow> ('a \<Rightarrow> 'b run) \<Rightarrow> 'b run" where
  "run_bind r k = (case r of None \<Rightarrow> None | Some (Inl h) \<Rightarrow> Some (Inl h) | Some (Inr x) \<Rightarrow> k x)"

lemma run_bind_ret [simp]: "run_bind (ret x) k = k x"
  by (simp add: run_bind_def ret_def)

lemma run_bind_stop [simp]: "run_bind (stop h) k = stop h"
  by (simp add: run_bind_def stop_def)

lemma run_bind_None [simp]: "run_bind None k = None"
  by (simp add: run_bind_def)

lemma ret_inject [simp]: "ret x = ret y \<longleftrightarrow> x = y"
  by (simp add: ret_def)

lemma stop_inject [simp]: "stop h = stop h' \<longleftrightarrow> h = h'"
  by (simp add: stop_def)

lemma ret_not_stop [simp]: "ret x \<noteq> stop h" "stop h \<noteq> ret x"
  by (simp_all add: ret_def stop_def)

lemma ret_not_None [simp]: "ret x \<noteq> None" "None \<noteq> ret x"
  by (simp_all add: ret_def)

lemma stop_not_None [simp]: "stop h \<noteq> None" "None \<noteq> stop h"
  by (simp_all add: stop_def)

lemma run_cases [case_names spins stops returns]:
  obtains "r = None" | h where "r = stop h" | x where "r = ret x"
  by (cases r) (auto simp: ret_def stop_def split: sum.splits elim: sumE)

lemma run_bind_eq_ret:
  "run_bind r k = ret y \<longleftrightarrow> (\<exists>x. r = ret x \<and> k x = ret y)"
  by (cases r rule: run_cases) auto

lemma run_bind_mono [partial_function_mono]:
  fixes B :: "('a \<Rightarrow> 'b option) \<Rightarrow> 'c run" and C :: "'c \<Rightarrow> ('a \<Rightarrow> 'b option) \<Rightarrow> 'd run"
  assumes B: "mono_option B" and C: "\<And>y. mono_option (\<lambda>f. C y f)"
  shows "mono_option (\<lambda>f. run_bind (B f) (\<lambda>y. C y f))"
proof (rule monotoneI)
  fix f g :: "'a \<Rightarrow> 'b option"
  assume fg: "option.le_fun f g"
  have b: "option_ord (B f) (B g)"
    using B fg by (rule monotoneD [of _ _ _ f g])
  have c: "option_ord (C y f) (C y g)" for y
    using C fg by (rule monotoneD [of _ _ _ f g])
  from b c show "option_ord (run_bind (B f) (\<lambda>y. C y f)) (run_bind (B g) (\<lambda>y. C y g))"
    by (cases "B g" rule: run_cases) (fastforce simp: flat_ord_def)+
qed

text \<open>A \<open>for\<close> loop whose body may stop the machine: the indices still to visit, in order.\<close>

primrec for_each :: "('i \<Rightarrow> 's \<Rightarrow> 's run) \<Rightarrow> 'i list \<Rightarrow> 's \<Rightarrow> 's run" where
  "for_each body [] s = ret s"
| "for_each body (i # is) s = run_bind (body i s) (for_each body is)"

section \<open>Routines that return\<close>

text \<open>
  \<open>returns r\<close>: the routine comes back or stops the machine on purpose, it does not loop for ever. The rules of the
  collection \<open>returning\<close> prove it along the structure of a routine.
\<close>

named_theorems returning \<open>introduction rules for routines that do not loop for ever\<close>

definition returns :: "'a run \<Rightarrow> bool" where
  "returns r \<longleftrightarrow> r \<noteq> None"

lemma returns_ret [returning]: "returns (ret x)"
  by (simp add: returns_def)

lemma returns_stop [returning]: "returns (stop h)"
  by (simp add: returns_def)

lemma returns_bind [returning]: "returns r \<Longrightarrow> (\<And>x. r = ret x \<Longrightarrow> returns (k x)) \<Longrightarrow> returns (run_bind r k)"
  by (cases r rule: run_cases) (auto simp: returns_def)

lemma returns_if [returning]: "(b \<Longrightarrow> returns r) \<Longrightarrow> (\<not> b \<Longrightarrow> returns r') \<Longrightarrow> returns (if b then r else r')"
  by simp

lemma returns_prod [returning]: "(\<And>a b. p = (a, b) \<Longrightarrow> returns (k a b)) \<Longrightarrow> returns (case p of (a, b) \<Rightarrow> k a b)"
  by (cases p) simp

lemma returns_for_each [returning]:
  "(\<And>i s. i \<in> set xs \<Longrightarrow> returns (body i s)) \<Longrightarrow> returns (for_each body xs s)"
  by (induction xs arbitrary: s) (auto intro!: returning)

section \<open>Words read as natural numbers\<close>

lemma unat_add_no_wrap:
  fixes a b :: "'a::len word"
  assumes "unat a + unat b < 2 ^ LENGTH('a)"
  shows "unat (a + b) = unat a + unat b"
  using assms by (simp add: unat_word_ariths)

lemma unat_add_le:
  fixes a b :: "'a::len word"
  shows "unat (a + b) \<le> unat a + unat b"
  by (simp add: unat_word_ariths)

lemma unat_sub_no_wrap:
  fixes a b :: "'a::len word"
  assumes "unat b \<le> unat a"
  shows "unat (a - b) = unat a - unat b"
  using assms by (simp add: unat_sub_if')

lemma unat_of_nat_small:
  assumes "n < 2 ^ LENGTH('a)"
  shows "unat (of_nat n :: 'a::len word) = n"
  using assms by (simp add: unsigned_of_nat take_bit_nat_eq_self)

lemma unat_of_nat_u64: "n < 18446744073709551616 \<Longrightarrow> unat (of_nat n :: u64) = n"
  by (rule unat_of_nat_small) simp

lemma word_eq_iff_unat: "a = b \<longleftrightarrow> unat a = unat b" for a b :: "'a::len word"
  by (simp add: word_unat_eq_iff)

lemma unat_lt_2p: "unat (a :: 'a::len word) < 2 ^ LENGTH('a)"
  by simp

lemma unat_u64_lt: "unat (a :: u64) < 18446744073709551616"
  using unat_lt_2p [of a] by simp

lemma unat_u64_add:
  "unat a + unat b < 18446744073709551616 \<Longrightarrow> unat (a + b) = unat a + unat b" for a b :: u64
  by (rule unat_add_no_wrap) simp

lemma unat_diff_both_ways:
  fixes a b :: u64
  assumes "a \<noteq> b"
  shows "unat (a - b) + unat (b - a) = 18446744073709551616"
proof -
  have ne: "unat a \<noteq> unat b"
    using assms by (simp add: word_eq_iff_unat)
  have "unat (a - b) = (if unat b \<le> unat a then unat a - unat b else unat a + 18446744073709551616 - unat b)"
    by (simp add: unat_sub_if')
  moreover have "unat (b - a) = (if unat a \<le> unat b then unat b - unat a else unat b + 18446744073709551616 - unat a)"
    by (simp add: unat_sub_if')
  ultimately show ?thesis
    using ne unat_u64_lt [of a] unat_u64_lt [of b] by (simp split: if_splits)
qed

lemma bit_masked_high:
  fixes w :: "'a::len word"
  assumes "bit w n"
  shows "n < LENGTH('a)"
  using assms by (rule bit_imp_le_length)

section \<open>Index ranges\<close>

lemma range_below [simp]: "{a ..< n} \<subseteq> {..< n :: nat}"
  by auto

end
