(* ===== verification/Byte_Memory.thy ===== *)
theory Byte_Memory
  imports Kernel_Prelude
begin

text \<open>
  The address space the C code works in: a byte for every 64-bit address. Pointers are
  \<open>u64\<close> values, a struct is read and written field by field at its byte offsets, and wider
  accesses are little-endian, as on x86-64. \<open>span a n\<close> is the set of the \<open>n\<close> addresses from
  \<open>a\<close> on (modulo \<open>2^64\<close>); two accesses whose spans are disjoint do not see each other.
\<close>

type_synonym mem = "u64 \<Rightarrow> u8"

section \<open>Little-endian loads and stores\<close>

primrec load_le :: "nat \<Rightarrow> mem \<Rightarrow> u64 \<Rightarrow> u64" where
  "load_le 0 m a = 0"
| "load_le (Suc n) m a = ucast (m a) OR push_bit 8 (load_le n m (a + 1))"

definition store_le :: "nat \<Rightarrow> mem \<Rightarrow> u64 \<Rightarrow> u64 \<Rightarrow> mem" where
  "store_le n m a v = (\<lambda>x. if unat (x - a) < n then ucast (drop_bit (8 * unat (x - a)) v) else m x)"

definition load8 :: "mem \<Rightarrow> u64 \<Rightarrow> u8" where
  "load8 m a = m a"

definition load16 :: "mem \<Rightarrow> u64 \<Rightarrow> u16" where
  "load16 m a = ucast (load_le 2 m a)"

definition load32 :: "mem \<Rightarrow> u64 \<Rightarrow> u32" where
  "load32 m a = ucast (load_le 4 m a)"

definition load64 :: "mem \<Rightarrow> u64 \<Rightarrow> u64" where
  "load64 m a = load_le 8 m a"

definition store8 :: "mem \<Rightarrow> u64 \<Rightarrow> u8 \<Rightarrow> mem" where
  "store8 m a v = m(a := v)"

definition store16 :: "mem \<Rightarrow> u64 \<Rightarrow> u16 \<Rightarrow> mem" where
  "store16 m a v = store_le 2 m a (ucast v)"

definition store32 :: "mem \<Rightarrow> u64 \<Rightarrow> u32 \<Rightarrow> mem" where
  "store32 m a v = store_le 4 m a (ucast v)"

definition store64 :: "mem \<Rightarrow> u64 \<Rightarrow> u64 \<Rightarrow> mem" where
  "store64 m a v = store_le 8 m a v"

section \<open>Spans of addresses\<close>

definition span :: "u64 \<Rightarrow> nat \<Rightarrow> u64 set" where
  "span a n = {x. unat (x - a) < n}"

lemma mem_span [simp]: "x \<in> span a n \<longleftrightarrow> unat (x - a) < n"
  by (simp add: span_def)

lemma span_0 [simp]: "span a 0 = {}"
  by (simp add: span_def)

lemma span_no_wrap:
  assumes "unat a + n \<le> 18446744073709551616"
  shows "x \<in> span a n \<longleftrightarrow> unat a \<le> unat x \<and> unat x < unat a + n"
proof (cases "unat a \<le> unat x")
  case True
  then show ?thesis by (auto simp: unat_sub_no_wrap)
next
  case False
  then have "unat (x - a) = unat x + 18446744073709551616 - unat a"
    by (simp add: unat_sub_if')
  with assms have "\<not> unat (x - a) < n" by linarith
  with False show ?thesis unfolding mem_span by blast
qed

lemma span_disjoint_no_wrap:
  assumes "unat a + n \<le> unat b" "unat b + k \<le> 18446744073709551616"
  shows "span a n \<inter> span b k = {}"
proof -
  have a: "unat a + n \<le> 18446744073709551616"
    using assms unat_u64_lt [of b] by linarith
  have "x \<notin> span b k" if "x \<in> span a n" for x
    using that assms unfolding span_no_wrap [OF a] span_no_wrap [OF assms(2)] by linarith
  then show ?thesis by blast
qed

lemma span_sub:
  assumes "unat d + k \<le> n"
  shows "span (a + d) k \<subseteq> span a n"
proof
  fix x
  assume x: "x \<in> span (a + d) k"
  have "unat (x - a) = unat ((x - (a + d)) + d)"
    by (simp add: algebra_simps)
  also have "\<dots> \<le> unat (x - (a + d)) + unat d"
    by (rule unat_add_le)
  also have "\<dots> < n"
    using x assms by simp
  finally show "x \<in> span a n" by simp
qed

lemma span_mono: "n \<le> k \<Longrightarrow> span a n \<subseteq> span a k"
  by auto

lemma span_disjoint_sub:
  assumes "span a n \<inter> span b k = {}" "unat d + i \<le> n" "unat e + j \<le> k"
  shows "span (a + d) i \<inter> span (b + e) j = {}"
  using assms span_sub [of d i n a] span_sub [of e j k b] by blast

lemma span_offset_mem:
  assumes "i < n" "n \<le> 18446744073709551616"
  shows "a + of_nat i \<in> span a n"
  using assms by (simp add: unat_of_nat_small)

section \<open>Reading what was written\<close>

lemma bit_load_le:
  "n \<le> 8 \<Longrightarrow> bit (load_le n m a) k \<longleftrightarrow> k < 8 * n \<and> bit (m (a + of_nat (k div 8))) (k mod 8)"
proof (induction n arbitrary: a k)
  case 0
  then show ?case by simp
next
  case (Suc n)
  show ?case
  proof (cases "k < 8")
    case True
    then show ?thesis
      by (auto simp: bit_or_iff bit_ucast_iff bit_push_bit_iff)
  next
    case False
    have k: "k div 8 = Suc ((k - 8) div 8)" "k mod 8 = (k - 8) mod 8"
      using False by (auto simp: le_div_geq le_mod_geq)
    have "\<not> bit (m a) k"
      using False bit_masked_high by fastforce
    then show ?thesis
      using Suc.prems False
      by (auto simp: bit_or_iff bit_ucast_iff bit_push_bit_iff Suc.IH k add.assoc)
  qed
qed

lemma load_le_cong:
  assumes "\<And>x. x \<in> span a n \<Longrightarrow> m x = m' x" "n \<le> 8"
  shows "load_le n m a = load_le n m' a"
proof (rule bit_word_eqI)
  fix k
  have "m (a + of_nat (k div 8)) = m' (a + of_nat (k div 8))" if "k < 8 * n"
    by (rule assms(1), rule span_offset_mem) (use that assms(2) in auto)
  then show "bit (load_le n m a) k \<longleftrightarrow> bit (load_le n m' a) k"
    using assms(2) by (auto simp: bit_load_le)
qed

lemma load_store_le_same:
  assumes "n \<le> 8"
  shows "load_le n (store_le n m a v) a = take_bit (8 * n) v"
proof (rule bit_word_eqI)
  fix k
  assume "k < LENGTH(64)"
  then have "unat (of_nat (k div 8) :: u64) = k div 8"
    by (simp add: unat_of_nat_small)
  then show "bit (load_le n (store_le n m a v) a) k \<longleftrightarrow> bit (take_bit (8 * n) v) k"
    using assms
    by (auto simp: bit_load_le store_le_def bit_ucast_iff bit_drop_bit_eq bit_take_bit_iff
        less_mult_imp_div_less mult.commute)
qed

lemma load_store_le_disjoint:
  assumes "span a n \<inter> span b k = {}" "n \<le> 8"
  shows "load_le n (store_le k m b v) a = load_le n m a"
proof (rule load_le_cong [OF _ assms(2)])
  fix x
  assume "x \<in> span a n"
  with assms(1) have "x \<notin> span b k" by blast
  then show "store_le k m b v x = m x" by (simp add: store_le_def)
qed

lemma store_le_outside: "x \<notin> span a n \<Longrightarrow> store_le n m a v x = m x"
  by (simp add: store_le_def)

lemma load64_cong: "(\<And>x. x \<in> span a 8 \<Longrightarrow> m x = m' x) \<Longrightarrow> load64 m a = load64 m' a"
  unfolding load64_def by (rule load_le_cong) auto

lemma load32_cong: "(\<And>x. x \<in> span a 4 \<Longrightarrow> m x = m' x) \<Longrightarrow> load32 m a = load32 m' a"
  unfolding load32_def using load_le_cong [of a 4 m m'] by simp

lemma ucast_take_bit_ucast:
  fixes v :: "'a::len word"
  assumes "LENGTH('a) \<le> n" "LENGTH('a) \<le> LENGTH('b::len)"
  shows "ucast (take_bit n (ucast v :: 'b word)) = v"
  using assms by (intro bit_word_eqI) (auto simp: bit_ucast_iff bit_take_bit_iff)

lemma load64_store64_same [simp]: "load64 (store64 m a v) a = v"
  by (simp add: load64_def store64_def load_store_le_same take_bit_word_eq_self)

lemma load32_store32_same [simp]: "load32 (store32 m a v) a = v"
  by (simp add: load32_def store32_def load_store_le_same ucast_take_bit_ucast)

lemma load16_store16_same [simp]: "load16 (store16 m a v) a = v"
  by (simp add: load16_def store16_def load_store_le_same ucast_take_bit_ucast)

lemma load8_store8 [simp]: "load8 (store8 m a v) b = (if b = a then v else load8 m b)"
  by (simp add: load8_def store8_def)

section \<open>Separation\<close>

text \<open>
  \<open>apart a n b k\<close>: the \<open>n\<close> bytes from \<open>a\<close> and the \<open>k\<close> bytes from \<open>b\<close> have none in common. On the
  circle of 64-bit addresses that is two comparisons, so for two fields of one object (a
  common base, numeral offsets) it evaluates.
\<close>

definition apart :: "u64 \<Rightarrow> nat \<Rightarrow> u64 \<Rightarrow> nat \<Rightarrow> bool" where
  "apart a n b k \<longleftrightarrow> n \<le> unat (b - a) \<and> k \<le> unat (a - b)"

lemma apart_sym: "apart a n b k \<longleftrightarrow> apart b k a n"
  by (auto simp: apart_def)

lemma apart_span: "apart a n b k \<Longrightarrow> span a n \<inter> span b k = {}"
proof -
  assume ap: "apart a n b k"
  have "\<not> unat (x - b) < k" if x: "unat (x - a) < n" for x
  proof -
    have lt: "unat (x - a) < unat (b - a)"
      using ap x unfolding apart_def by linarith
    have "unat ((b - a) - (x - a)) = unat (b - a) - unat (x - a)"
      using lt by (intro unat_sub_no_wrap) simp
    then have bx: "unat (b - x) = unat (b - a) - unat (x - a)"
      by simp
    have ne: "b \<noteq> a" "b \<noteq> x"
      using lt by auto
    have "unat (x - b) + unat (b - x) = 18446744073709551616"
      by (rule unat_diff_both_ways) (use ne in metis)
    moreover have "unat (a - b) + unat (b - a) = 18446744073709551616"
      by (rule unat_diff_both_ways) (use ne in metis)
    moreover have "k \<le> unat (a - b)"
      using ap by (simp add: apart_def)
    ultimately show ?thesis
      using bx lt by linarith
  qed
  then show ?thesis by auto
qed

lemma span_apart:
  assumes "span a n \<inter> span b k = {}" "0 < n" "0 < k"
  shows "apart a n b k"
proof -
  have "a \<in> span a n" "b \<in> span b k"
    using assms by auto
  then have "b \<notin> span a n" "a \<notin> span b k"
    using assms(1) by blast+
  then show ?thesis by (simp add: apart_def)
qed

lemma apart_field:
  assumes "apart a n b k" "unat d + i \<le> n" "unat e + j \<le> k" "0 < i" "0 < j"
  shows "apart (a + d) i (b + e) j"
  using span_disjoint_sub [OF apart_span [OF assms(1)] assms(2,3)] assms(4,5) by (rule span_apart)

lemma apart_field_left:
  assumes "apart a n b k" "unat d + i \<le> n" "0 < i" "0 < j" "j \<le> k"
  shows "apart (a + d) i b j"
  using apart_field [of a n b k d i 0 j] assms by simp

lemma apart_field_right:
  assumes "apart a n b k" "unat e + j \<le> k" "0 < i" "0 < j" "i \<le> n"
  shows "apart a i (b + e) j"
  using apart_field [of a n b k 0 i e j] assms by simp

lemma apart_mono: "apart a n b k \<Longrightarrow> i \<le> n \<Longrightarrow> j \<le> k \<Longrightarrow> apart a i b j"
  by (auto simp: apart_def)

lemma apart_no_wrap:
  assumes "unat a + n \<le> unat b" "unat b + k \<le> 18446744073709551616" "0 < n"
  shows "apart a n b k"
proof -
  have "unat (b - a) = unat b - unat a"
    using assms by (intro unat_sub_no_wrap) linarith
  moreover have "unat (a - b) = unat a + 18446744073709551616 - unat b"
    using assms by (simp add: unat_sub_if')
  ultimately show ?thesis
    using assms unfolding apart_def by linarith
qed

lemma apart_base [simp]:
  "apart (p + d) i (p + e) j \<longleftrightarrow> apart d i e j"
  "apart p i (p + e) j \<longleftrightarrow> apart 0 i e j"
  "apart (p + d) i p j \<longleftrightarrow> apart d i 0 j"
  by (simp_all add: apart_def)

lemma apart_numeral [simp]:
  "apart (numeral d) i (numeral e) j \<longleftrightarrow> i \<le> unat (numeral e - numeral d :: u64) \<and> j \<le> unat (numeral d - numeral e :: u64)"
  "apart 0 i (numeral e) j \<longleftrightarrow> i \<le> unat (numeral e :: u64) \<and> j \<le> unat (- numeral e :: u64)"
  "apart (numeral d) i 0 j \<longleftrightarrow> i \<le> unat (- numeral d :: u64) \<and> j \<le> unat (numeral d :: u64)"
  by (simp_all add: apart_def)

lemma load64_store64_apart [simp]: "apart a 8 b 8 \<Longrightarrow> load64 (store64 m b v) a = load64 m a"
  unfolding load64_def store64_def by (rule load_store_le_disjoint [OF apart_span]) simp_all

lemma load64_store32_apart [simp]: "apart a 8 b 4 \<Longrightarrow> load64 (store32 m b v) a = load64 m a"
  unfolding load64_def store32_def by (rule load_store_le_disjoint [OF apart_span]) simp_all

lemma load32_store64_apart [simp]: "apart a 4 b 8 \<Longrightarrow> load32 (store64 m b v) a = load32 m a"
  unfolding load32_def store64_def by (simp add: load_store_le_disjoint [OF apart_span])

lemma load32_store32_apart [simp]: "apart a 4 b 4 \<Longrightarrow> load32 (store32 m b v) a = load32 m a"
  unfolding load32_def store32_def by (simp add: load_store_le_disjoint [OF apart_span])

lemma store64_outside: "x \<notin> span a 8 \<Longrightarrow> store64 m a v x = m x"
  unfolding store64_def by (rule store_le_outside)

lemma store64_same_byte: "m' x = m x \<Longrightarrow> store64 m' a v x = store64 m a v x"
  by (simp add: store64_def store_le_def)

lemma store32_outside: "x \<notin> span a 4 \<Longrightarrow> store32 m a v x = m x"
  unfolding store32_def by (rule store_le_outside)

lemma store16_outside: "x \<notin> span a 2 \<Longrightarrow> store16 m a v x = m x"
  unfolding store16_def by (rule store_le_outside)

lemma store8_is_store_le: "store8 m a v = store_le 1 m a (ucast v)"
proof
  fix x
  have "unat (x - a) = 0 \<longleftrightarrow> x = a" by (simp add: unat_eq_0)
  moreover have "v = ucast (ucast v :: u64)" by (rule bit_word_eqI) (auto simp: bit_simps)
  ultimately show "store8 m a v x = store_le 1 m a (ucast v) x" by (simp add: store8_def store_le_def)
qed

text \<open>The narrower accesses, apart from each other.\<close>

lemma unat_minus_1 [simp]: "unat (- 1 :: u64) = 18446744073709551615"
  using unsigned_minus_1_eq_mask [where 'a = nat and 'b = 64] by (simp add: mask_eq_exp_minus_1)

lemma load16_store_apart [simp]:
  "apart a 2 b 2 \<Longrightarrow> load16 (store16 m b v) a = load16 m a"
  "apart a 2 b 4 \<Longrightarrow> load16 (store32 m b w) a = load16 m a"
  "apart a 2 b 1 \<Longrightarrow> load16 (store8 m b x) a = load16 m a"
  unfolding load16_def store16_def store32_def store8_is_store_le by (simp_all add: load_store_le_disjoint [OF apart_span])

lemma load16_store64_apart [simp]: "apart a 2 b 8 \<Longrightarrow> load16 (store64 m b v) a = load16 m a"
  unfolding load16_def store64_def by (simp add: load_store_le_disjoint [OF apart_span])

lemma load64_store16_apart [simp]: "apart a 8 b 2 \<Longrightarrow> load64 (store16 m b v) a = load64 m a"
  unfolding load64_def store16_def by (simp add: load_store_le_disjoint [OF apart_span])

lemma load32_store_apart [simp]:
  "apart a 4 b 2 \<Longrightarrow> load32 (store16 m b v) a = load32 m a"
  "apart a 4 b 1 \<Longrightarrow> load32 (store8 m b x) a = load32 m a"
  unfolding load32_def store16_def store8_is_store_le by (simp_all add: load_store_le_disjoint [OF apart_span])

lemma load8_store_apart [simp]:
  "apart a 1 b 2 \<Longrightarrow> load8 (store16 m b v) a = load8 m a"
  "apart a 1 b 4 \<Longrightarrow> load8 (store32 m b w) a = load8 m a"
  "apart a 1 b 1 \<Longrightarrow> load8 (store8 m b x) a = load8 m a"
  unfolding load8_def store16_def store32_def store8_is_store_le apart_def by (simp_all add: store_le_outside)

lemma load8_store8_same [simp]: "load8 (store8 m a v) a = v"
  by (simp add: load8_def store8_def)

lemma load_store8_apart:
  "apart a 8 b 1 \<Longrightarrow> load64 (store8 m b x) a = load64 m a"
  "apart a 1 b 8 \<Longrightarrow> load8 (store64 m b v) a = load8 m a"
  unfolding load64_def store8_is_store_le load8_def store64_def apart_def
  by (rule load_store_le_disjoint [OF apart_span]) (simp_all add: apart_def store_le_outside)

section \<open>Loads in terms of bytes\<close>

lemma load32_bytes:
  assumes "\<And>i. i < 4 \<Longrightarrow> m (a + of_nat i) = ucast (drop_bit (8 * i) w)"
  shows "load32 m a = w"
proof (rule bit_word_eqI)
  fix k
  assume k: "k < LENGTH(32)"
  then have "m (a + of_nat (k div 8)) = ucast (drop_bit (8 * (k div 8)) w)" by (intro assms) simp
  with k show "bit (load32 m a) k = bit w k"
    by (simp add: load32_def bit_ucast_iff bit_load_le bit_drop_bit_eq)
qed

text \<open>A 16-bit load and its two bytes.\<close>

lemma load16_bytes: "load16 m a = ucast (load8 m a) OR push_bit 8 (ucast (load8 m (a + 1)))"
  by (rule bit_word_eqI) (auto simp: load16_def load8_def numeral_2_eq_2 bit_simps)

lemma load16_high: "load8 m (a + 1) = ucast (drop_bit 8 (load16 m a))"
  by (rule bit_word_eqI) (auto simp: load16_bytes bit_simps dest: bit_masked_high)

end
