(* ===== verification/C_String.thy ===== *)
theory C_String
  imports Byte_Memory
begin

text \<open>
  The memory and string routines of \<open>libc/src/string\<close>, each loop translated as written:
  \<open>memset\<close>, \<open>memsetLong\<close>, \<open>memcpy\<close>, \<open>memmove\<close>, \<open>memcmp\<close>, \<open>strlen\<close> and \<open>strcmp\<close>. The
  routines that return their first argument are modelled by the memory they leave.
  The lemmas give each loop a closed form, by which the other components reason.
\<close>

section \<open>Filling memory\<close>

text \<open>\<open>memset_loop n\<close> is the state after the iterations \<open>i = 0, \<dots>, n - 1\<close> of the loop.\<close>

primrec memset_loop :: "nat \<Rightarrow> u64 \<Rightarrow> u8 \<Rightarrow> mem \<Rightarrow> mem" where
  "memset_loop 0 buf value m = m"
| "memset_loop (Suc i) buf value m = store8 (memset_loop i buf value m) (buf + of_nat i) value"

definition memset :: "u64 \<Rightarrow> u32 \<Rightarrow> u64 \<Rightarrow> mem \<Rightarrow> mem" where
  "memset bufptr value n m = memset_loop (unat n) bufptr (ucast value) m"

primrec memsetLong_loop :: "nat \<Rightarrow> u64 \<Rightarrow> u64 \<Rightarrow> mem \<Rightarrow> mem" where
  "memsetLong_loop 0 buf value m = m"
| "memsetLong_loop (Suc i) buf value m =
     store64 (memsetLong_loop i buf value m) (buf + 8 * of_nat i) value"

definition memsetLong :: "u64 \<Rightarrow> u64 \<Rightarrow> u64 \<Rightarrow> mem \<Rightarrow> mem" where
  "memsetLong bufptr value n m = memsetLong_loop (unat (n div 8)) bufptr value m"

section \<open>Copying memory\<close>

text \<open>\<open>memcpy_loop n\<close>: the iterations \<open>i = 0, \<dots>, n - 1\<close> in ascending order.\<close>

primrec memcpy_loop :: "nat \<Rightarrow> u64 \<Rightarrow> u64 \<Rightarrow> mem \<Rightarrow> mem" where
  "memcpy_loop 0 dst src m = m"
| "memcpy_loop (Suc i) dst src m =
     (let m' = memcpy_loop i dst src m
      in store8 m' (dst + of_nat i) (load8 m' (src + of_nat i)))"

definition memcpy :: "u64 \<Rightarrow> u64 \<Rightarrow> u64 \<Rightarrow> mem \<Rightarrow> mem" where
  "memcpy dstptr srcptr n m = memcpy_loop (unat n) dstptr srcptr m"

text \<open>\<open>memmove_down n\<close>: the iterations \<open>i = n, \<dots>, 1\<close> in descending order.\<close>

primrec memmove_down :: "nat \<Rightarrow> u64 \<Rightarrow> u64 \<Rightarrow> mem \<Rightarrow> mem" where
  "memmove_down 0 dst src m = m"
| "memmove_down (Suc i) dst src m =
     memmove_down i dst src (store8 m (dst + of_nat i) (load8 m (src + of_nat i)))"

definition memmove :: "u64 \<Rightarrow> u64 \<Rightarrow> u64 \<Rightarrow> mem \<Rightarrow> mem" where
  "memmove dstptr srcptr n m =
     (if dstptr < srcptr then memcpy_loop (unat n) dstptr srcptr m
      else memmove_down (unat n) dstptr srcptr m)"

section \<open>Comparing memory and strings\<close>

text \<open>\<open>memcmp_loop m a b i n\<close>: the \<open>n\<close> iterations from index \<open>i\<close> on.\<close>

fun memcmp_loop :: "mem \<Rightarrow> u64 \<Rightarrow> u64 \<Rightarrow> nat \<Rightarrow> nat \<Rightarrow> int" where
  "memcmp_loop m a b i 0 = 0"
| "memcmp_loop m a b i (Suc n) =
     (if load8 m (a + of_nat i) < load8 m (b + of_nat i) then -1
      else if load8 m (b + of_nat i) < load8 m (a + of_nat i) then 1
      else memcmp_loop m a b (Suc i) n)"

definition memcmp :: "mem \<Rightarrow> u64 \<Rightarrow> u64 \<Rightarrow> u64 \<Rightarrow> int" where
  "memcmp m aptr bptr n = memcmp_loop m aptr bptr 0 (unat n)"

partial_function (option) strlen_loop :: "mem \<Rightarrow> u64 \<Rightarrow> u64 \<Rightarrow> u64 option" where
  "strlen_loop m str len =
     (if load8 m (str + len) = 0 then Some len else strlen_loop m str (len + 1))"

definition strlen :: "mem \<Rightarrow> u64 \<Rightarrow> u64 option" where
  "strlen m str = strlen_loop m str 0"

text \<open>A \<open>char\<close> is a signed byte; \<open>c - d\<close> is computed in \<open>int\<close>.\<close>

partial_function (option) strcmp_loop :: "mem \<Rightarrow> u64 \<Rightarrow> u64 \<Rightarrow> u8 \<Rightarrow> u8 \<Rightarrow> int option" where
  "strcmp_loop m a b c d =
     (if c = d then
        if load8 m a = 0 then Some (sint (load8 m a) - sint (load8 m b))
        else strcmp_loop m (a + 1) (b + 1) (load8 m a) (load8 m b)
      else Some (sint c - sint d))"

definition strcmp :: "mem \<Rightarrow> u64 \<Rightarrow> u64 \<Rightarrow> int option" where
  "strcmp m a b =
     Option.bind (strlen m a) (\<lambda>la.
     Option.bind (strlen m b) (\<lambda>lb.
       let aL = sint (ucast la :: u32); bL = sint (ucast lb :: u32)
       in if aL \<noteq> bL then Some (aL - bL) else strcmp_loop m a b 0 0))"

section \<open>What the fills do\<close>

lemma of_nat_diff_iff:
  fixes x a :: u64
  assumes "i < 18446744073709551616"
  shows "x = a + of_nat i \<longleftrightarrow> unat (x - a) = i"
proof
  assume "x = a + of_nat i"
  then show "unat (x - a) = i" using assms by (simp add: unat_of_nat_small)
next
  assume "unat (x - a) = i"
  then have "x - a = of_nat i" using assms
    by (subst word_eq_iff_unat) (simp add: unat_of_nat_small)
  then show "x = a + of_nat i" by (simp add: algebra_simps)
qed

lemma memset_loop_eq:
  assumes "n \<le> 18446744073709551616"
  shows "memset_loop n buf v m = (\<lambda>x. if x \<in> span buf n then v else m x)"
  using assms
proof (induction n)
  case 0
  then show ?case by simp
next
  case (Suc n)
  then show ?case
    by (auto simp: store8_def fun_eq_iff less_Suc_eq of_nat_diff_iff unat_of_nat_small)
qed

lemma memset_eq:
  "memset buf v n m = (\<lambda>x. if x \<in> span buf (unat n) then ucast v else m x)"
  unfolding memset_def by (rule memset_loop_eq) (use unat_u64_lt [of n] in simp)

lemma memset_outside: "x \<notin> span buf (unat n) \<Longrightarrow> memset buf v n m x = m x"
  by (simp add: memset_eq)

lemma load64_memset_apart: "apart a 8 buf (unat n) \<Longrightarrow> load64 (memset buf v n m) a = load64 m a"
  by (rule load64_cong) (use apart_span [of a 8 buf "unat n"] in \<open>auto simp: memset_eq\<close>)

lemma load_memset_apart:
  "apart a 4 b (unat n) \<Longrightarrow> load32 (memset b v n m) a = load32 m a"
  "apart a 2 b (unat n) \<Longrightarrow> load16 (memset b v n m) a = load16 m a"
  "apart a 1 b (unat n) \<Longrightarrow> load8 (memset b v n m) a = load8 m a"
proof -
  have out: "memset b v n m x = m x" if "apart a k b (unat n)" "x \<in> span a k" for x k
    using that apart_span [OF that(1)] by (auto simp: memset_eq)
  show "apart a 4 b (unat n) \<Longrightarrow> load32 (memset b v n m) a = load32 m a"
    by (rule load32_cong) (rule out)
  show "apart a 2 b (unat n) \<Longrightarrow> load16 (memset b v n m) a = load16 m a"
    unfolding load16_def by (subst load_le_cong [of a 2 "memset b v n m" m]) (use out in \<open>simp_all del: mem_span\<close>)
  show "apart a 1 b (unat n) \<Longrightarrow> load8 (memset b v n m) a = load8 m a"
    unfolding load8_def by (rule out [where k = 1]) simp_all
qed

lemma load_le_zero:
  assumes "n \<le> 8" "\<And>x. x \<in> span a n \<Longrightarrow> m x = 0"
  shows "load_le n m a = 0"
proof (rule bit_word_eqI)
  fix k
  have "m (a + of_nat (k div 8)) = 0" if "k < 8 * n"
    by (rule assms(2), rule span_offset_mem) (use that assms(1) in auto)
  then show "bit (load_le n m a) k \<longleftrightarrow> bit 0 k"
    using assms(1) by (auto simp: bit_load_le)
qed

lemma load64_zero: "(\<And>x. x \<in> span a 8 \<Longrightarrow> m x = 0) \<Longrightarrow> load64 m a = 0"
  unfolding load64_def by (rule load_le_zero) simp_all

lemma memsetLong_loop_outside:
  "8 * n \<le> 18446744073709551616 \<Longrightarrow> x \<notin> span buf (8 * n) \<Longrightarrow> memsetLong_loop n buf v m x = m x"
proof (induction n)
  case 0
  then show ?case by simp
next
  case (Suc n)
  have "span (buf + 8 * of_nat n) 8 \<subseteq> span buf (8 * Suc n)"
    by (rule span_sub) (use Suc.prems(1) in \<open>simp add: unat_word_ariths unsigned_of_nat take_bit_nat_def\<close>)
  then have "x \<notin> span (buf + 8 * of_nat n) 8"
    using Suc.prems(2) by blast
  moreover have "x \<notin> span buf (8 * n)"
    using Suc.prems(2) by simp
  ultimately show ?case
    using Suc by (simp add: store64_outside)
qed

lemma memsetLong_loop_load:
  "8 * n \<le> 18446744073709551616 \<Longrightarrow> i < n \<Longrightarrow> load64 (memsetLong_loop n buf v m) (buf + 8 * of_nat i) = v"
proof (induction n)
  case 0
  then show ?case by simp
next
  case (Suc n)
  show ?case
  proof (cases "i = n")
    case True
    then show ?thesis by simp
  next
    case False
    then have lt: "i < n" using Suc.prems by simp
    have off: "unat (8 * of_nat j :: u64) = 8 * j" if "j \<le> n" for j
    proof -
      have "unat (of_nat (8 * j) :: u64) = 8 * j"
        by (rule unat_of_nat_small) (use that Suc.prems(1) in simp)
      then show ?thesis by simp
    qed
    have "apart (8 * of_nat i) 8 (8 * of_nat n) 8"
      by (rule apart_no_wrap) (use off [of i] off [of n] lt Suc.prems(1) in auto)
    then have "apart (buf + 8 * of_nat i) 8 (buf + 8 * of_nat n) 8"
      by simp
    then show ?thesis
      using Suc.IH lt Suc.prems(1) by simp
  qed
qed

lemma memsetLong_load:
  "i < unat n div 8 \<Longrightarrow> load64 (memsetLong buf v n m) (buf + 8 * of_nat i) = v"
  unfolding memsetLong_def using unat_u64_lt [of n]
  by (intro memsetLong_loop_load) (auto simp: unat_div)

section \<open>What the copies do\<close>

lemma memcpy_loop_eq:
  assumes "n \<le> 18446744073709551616"
    and safe: "\<And>i j. i < j \<Longrightarrow> j < n \<Longrightarrow> dst + of_nat i \<noteq> src + of_nat j"
  shows "memcpy_loop n dst src m = (\<lambda>x. if x \<in> span dst n then m (src + (x - dst)) else m x)"
  using assms
proof (induction n)
  case 0
  then show ?case by simp
next
  case (Suc n)
  let ?m = "memcpy_loop n dst src m"
  have IH: "?m = (\<lambda>x. if x \<in> span dst n then m (src + (x - dst)) else m x)"
    using Suc.prems by (intro Suc.IH) auto
  have n: "n < 18446744073709551616"
    using Suc.prems by simp
  have "src + of_nat n \<notin> span dst n"
  proof
    assume "src + of_nat n \<in> span dst n"
    then obtain i where i: "unat (src + of_nat n - dst) = i" "i < n" by simp
    then have "src + of_nat n = dst + of_nat i"
      using n of_nat_diff_iff [of i "src + of_nat n" dst] by simp
    then show False using Suc.prems(2) [of i n] i by simp
  qed
  then have rd: "?m (src + of_nat n) = m (src + of_nat n)"
    by (simp only: IH if_False)
  show ?case
    by (auto simp: Let_def store8_def load8_def rd fun_eq_iff of_nat_diff_iff [OF n] less_Suc_eq)
      (auto simp: IH of_nat_diff_iff [OF n] algebra_simps)
qed

lemma memmove_down_eq:
  assumes "n \<le> 18446744073709551616"
    and safe: "\<And>i j. i < j \<Longrightarrow> j < n \<Longrightarrow> dst + of_nat j \<noteq> src + of_nat i"
  shows "memmove_down n dst src m = (\<lambda>x. if x \<in> span dst n then m (src + (x - dst)) else m x)"
  using assms
proof (induction n arbitrary: m)
  case 0
  then show ?case by simp
next
  case (Suc n)
  let ?m = "store8 m (dst + of_nat n) (load8 m (src + of_nat n))"
  have n: "n < 18446744073709551616"
    using Suc.prems by simp
  have IH: "memmove_down n dst src ?m = (\<lambda>x. if x \<in> span dst n then ?m (src + (x - dst)) else ?m x)"
    using Suc.prems by (intro Suc.IH) auto
  have src: "?m (src + (x - dst)) = m (src + (x - dst))" if "unat (x - dst) < n" for x
    using Suc.prems(2) [of "unat (x - dst)" n] that by (auto simp: store8_def)
  show ?case
  proof (rule ext)
    fix x
    show "memmove_down (Suc n) dst src m x = (if x \<in> span dst (Suc n) then m (src + (x - dst)) else m x)"
      using of_nat_diff_iff [OF n, of x dst]
      by (auto simp: IH src less_Suc_eq) (auto simp: store8_def load8_def algebra_simps)
  qed
qed

text \<open>The two directions of \<open>memmove\<close> are each safe where it takes them.\<close>

lemma memmove_snapshot:
  assumes "unat dst + unat n \<le> 18446744073709551616" "unat src + unat n \<le> 18446744073709551616"
  shows "memmove dst src n m = (\<lambda>x. if x \<in> span dst (unat n) then m (src + (x - dst)) else m x)"
proof -
  have un: "unat (a + of_nat i) = unat a + i"
    if "unat a + unat n \<le> 18446744073709551616" "i < unat n" for a :: u64 and i
    using that unat_u64_lt [of n] by (subst unat_u64_add) (simp_all add: unat_of_nat_small)
  have n: "unat n \<le> 18446744073709551616"
    using unat_u64_lt [of n] by simp
  show ?thesis
  proof (cases "dst < src")
    case True
    have "dst + of_nat i \<noteq> src + of_nat j" if "i < j" "j < unat n" for i j
      using True that un [OF assms(1), of i] un [OF assms(2), of j] by (auto simp: word_less_nat_alt dest: arg_cong [where f = unat])
    with True n show ?thesis by (simp add: memmove_def memcpy_loop_eq)
  next
    case False
    have "dst + of_nat j \<noteq> src + of_nat i" if "i < j" "j < unat n" for i j
      using False that un [OF assms(1), of j] un [OF assms(2), of i] by (auto simp: word_less_nat_alt dest: arg_cong [where f = unat])
    with False n show ?thesis by (simp add: memmove_def memmove_down_eq)
  qed
qed

section \<open>What the comparisons decide\<close>

lemma memcmp_loop_zero:
  "memcmp_loop m a b i n = 0 \<longleftrightarrow> (\<forall>j<n. load8 m (a + of_nat (i + j)) = load8 m (b + of_nat (i + j)))"
proof (induction m a b i n rule: memcmp_loop.induct)
  case (1 m a b i)
  then show ?case by simp
next
  case (2 m a b i n)
  let ?P = "\<lambda>k. load8 m (a + of_nat k) = load8 m (b + of_nat k)"
  have "(\<forall>j<Suc n. Q (i + j)) \<longleftrightarrow> Q i \<and> (\<forall>j<n. Q (Suc i + j))" for Q
    by (auto simp: less_Suc_eq_0_disj)
  note step = this [of ?P]
  show ?case
  proof (cases "?P i")
    case True
    then have "memcmp_loop m a b i (Suc n) = memcmp_loop m a b (Suc i) n" by simp
    with True step 2 show ?thesis by simp
  next
    case False
    then have "memcmp_loop m a b i (Suc n) \<noteq> 0" by auto
    with False step show ?thesis by blast
  qed
qed

lemma memcmp_zero:
  "memcmp m a b n = 0 \<longleftrightarrow> (\<forall>j<unat n. load8 m (a + of_nat j) = load8 m (b + of_nat j))"
  using memcmp_loop_zero [of m a b 0 "unat n"] by (simp add: memcmp_def)

lemma memcmp_loop_range: "memcmp_loop m a b i n \<in> {-1, 0, 1}"
  by (induction m a b i n rule: memcmp_loop.induct) auto

lemma first_from_Suc:
  "(\<exists>j<Suc n. L (i + j) \<and> (\<forall>k<j. E (i + k))) \<longleftrightarrow>
     L i \<or> E i \<and> (\<exists>j<n. L (Suc i + j) \<and> (\<forall>k<j. E (Suc i + k)))"
proof -
  have all: "(\<forall>k<Suc j. E (i + k)) \<longleftrightarrow> E i \<and> (\<forall>k<j. E (Suc i + k))" for j
    by (auto simp: less_Suc_eq_0_disj)
  have "(\<exists>j<Suc n. Q j) \<longleftrightarrow> Q 0 \<or> (\<exists>j<n. Q (Suc j))" for Q
    by (auto simp: less_Suc_eq_0_disj)
  note this [of "\<lambda>j. L (i + j) \<and> (\<forall>k<j. E (i + k))"]
  then show ?thesis unfolding all by auto
qed

lemma memcmp_loop_less:
  "memcmp_loop m a b i n = -1 \<longleftrightarrow>
     (\<exists>j<n. load8 m (a + of_nat (i + j)) < load8 m (b + of_nat (i + j)) \<and>
       (\<forall>k<j. load8 m (a + of_nat (i + k)) = load8 m (b + of_nat (i + k))))"
proof (induction m a b i n rule: memcmp_loop.induct)
  case (1 m a b i)
  then show ?case by simp
next
  case (2 m a b i n)
  let ?lt = "\<lambda>k. load8 m (a + of_nat k) < load8 m (b + of_nat k)"
  let ?eq = "\<lambda>k. load8 m (a + of_nat k) = load8 m (b + of_nat k)"
  note step = first_from_Suc [of n ?lt i ?eq]
  show ?case
    unfolding step using 2 by (cases "?eq i") auto
qed

text \<open>\<open>cstr m p s\<close>: at \<open>p\<close> lies the string with the bytes \<open>s\<close>, none of them NUL, and its NUL.\<close>

primrec cstr :: "mem \<Rightarrow> u64 \<Rightarrow> u8 list \<Rightarrow> bool" where
  "cstr m p [] \<longleftrightarrow> load8 m p = 0"
| "cstr m p (c # cs) \<longleftrightarrow> c \<noteq> 0 \<and> load8 m p = c \<and> cstr m (p + 1) cs"

lemma strlen_loop_cstr:
  "cstr m (p + k) s \<Longrightarrow> strlen_loop m p k = Some (k + of_nat (length s))"
proof (induction s arbitrary: k)
  case Nil
  then show ?case by (simp add: strlen_loop.simps)
next
  case (Cons c s)
  then have "strlen_loop m p (k + 1) = Some (k + 1 + of_nat (length s))"
    by (intro Cons.IH) (simp add: add.assoc)
  with Cons.prems show ?case
    by (subst strlen_loop.simps) (simp add: algebra_simps)
qed

lemma strlen_cstr: "cstr m p s \<Longrightarrow> strlen m p = Some (of_nat (length s))"
  using strlen_loop_cstr [of m p 0 s] by (simp add: strlen_def)

lemma sint_eq_iff: "sint c = sint d \<longleftrightarrow> c = d" for c d :: "'a::len word"
  using signed_word_eqI by auto

lemma strcmp_loop_cstr:
  assumes "cstr m a s" "cstr m b t" "length s = length t"
  shows "\<exists>r. strcmp_loop m a b c c = Some r \<and> (r = 0 \<longleftrightarrow> s = t)"
  using assms
proof (induction s arbitrary: a b c t)
  case Nil
  then show ?case by (simp add: strcmp_loop.simps)
next
  case (Cons x s)
  then obtain y t' where t: "t = y # t'" by (cases t) auto
  show ?case
  proof (cases "x = y")
    case True
    obtain r where "strcmp_loop m (a + 1) (b + 1) x x = Some r \<and> (r = 0 \<longleftrightarrow> s = t')"
      using Cons.IH [of "a + 1" "b + 1" t' x] Cons.prems t by auto
    with Cons.prems t True show ?thesis by (subst strcmp_loop.simps) simp
  next
    case False
    have "strcmp_loop m (a + 1) (b + 1) x y = Some (sint x - sint y)"
      using False by (simp add: strcmp_loop.simps)
    with Cons.prems t False show ?thesis
      by (subst strcmp_loop.simps) (simp add: sint_eq_iff)
  qed
qed

lemma sint_length:
  assumes "n < 2147483648"
  shows "sint (ucast (of_nat n :: u64) :: u32) = int n"
proof -
  have "sint (of_nat n :: u32) = int n"
    using assms by (simp add: signed_of_nat signed_take_bit_int_eq_self)
  moreover have "ucast (of_nat n :: u64) = (of_nat n :: u32)"
    using assms by (simp add: unsigned_of_nat take_bit_nat_eq_self)
  ultimately show ?thesis by simp
qed

lemma strcmp_cstr:
  assumes "cstr m a s" "cstr m b t" "length s < 2147483648" "length t < 2147483648"
  shows "\<exists>r. strcmp m a b = Some r \<and> (r = 0 \<longleftrightarrow> s = t)"
proof (cases "length s = length t")
  case True
  with assms show ?thesis
    using strcmp_loop_cstr [of m a s b t 0] by (simp add: strcmp_def strlen_cstr Let_def)
next
  case False
  with assms show ?thesis
    by (auto simp: strcmp_def strlen_cstr Let_def sint_length)
qed

section \<open>Properties\<close>

text \<open>
  C16: memmove copies the source as it was before the call, for every overlap of the two
  ranges, and changes no byte outside the destination.
\<close>

theorem memmove_copies:
  assumes "unat dst + unat n \<le> 18446744073709551616" "unat src + unat n \<le> 18446744073709551616"
  shows "(\<forall>i < unat n. load8 (memmove dst src n m) (dst + of_nat i) = load8 m (src + of_nat i)) \<and>
    (\<forall>x. x \<notin> span dst (unat n) \<longrightarrow> memmove dst src n m x = m x)"
proof -
  have "unat (of_nat i :: u64) = i" if "i < unat n" for i
    using that unat_u64_lt [of n] by (intro unat_of_nat_small) simp
  then show ?thesis
    by (simp add: memmove_snapshot [OF assms] load8_def)
qed

theorem memmove_copies_witness:
  "load8 (memmove 1001 1000 2 (\<lambda>x. ucast x)) 1002 = load8 (\<lambda>x. ucast x) 1001"
  using conjunct1 [OF memmove_copies [of 1001 2 1000 "\<lambda>x. ucast x"], rule_format, of 1] by simp

text \<open>
  Strcmp decides equality. On two NUL-terminated strings shorter than \<open>2^31\<close> it returns,
  and it returns 0 exactly when the strings are equal.
\<close>

lemma strcmp_decides:
  assumes "cstr m a s" "cstr m b t" "length s < 2147483648" "length t < 2147483648"
  shows "\<exists>r. strcmp m a b = Some r \<and> (r = 0 \<longleftrightarrow> s = t)"
  using assms by (rule strcmp_cstr)

lemma strcmp_decides_example:
  "\<exists>r. strcmp ((\<lambda>_. 0)(100 := 65, 101 := 66, 200 := 65, 201 := 67)) 100 200 = Some r \<and> r \<noteq> 0"
  using strcmp_decides [of "(\<lambda>_. 0)(100 := 65, 101 := 66, 200 := 65, 201 := 67)" 100 "[65, 66]" 200 "[65, 67]"]
  by (simp add: load8_def)

text \<open>
  Memcmp decides equality of two byte ranges, and its sign is the order of the first
  bytes that differ.
\<close>

lemma memcmp_decides:
  "(memcmp m a b n = 0 \<longleftrightarrow> (\<forall>j < unat n. load8 m (a + of_nat j) = load8 m (b + of_nat j))) \<and>
   (memcmp m a b n = -1 \<longleftrightarrow> (\<exists>j < unat n. load8 m (a + of_nat j) < load8 m (b + of_nat j) \<and>
      (\<forall>i < j. load8 m (a + of_nat i) = load8 m (b + of_nat i)))) \<and> memcmp m a b n \<in> {-1, 0, 1}"
  using memcmp_loop_zero [of m a b 0 "unat n"] memcmp_loop_less [of m a b 0 "unat n"]
    memcmp_loop_range [of m a b 0 "unat n"]
  unfolding memcmp_def add_0 by blast

lemma memcmp_decides_example:
  "memcmp ((\<lambda>_. 0)(101 := 3, 201 := 4)) 100 200 2 = -1"
  using memcmp_decides [of "(\<lambda>_. 0)(101 := 3, 201 := 4)" 100 200 2]
  by (auto simp: load8_def intro!: exI [of _ 1])

end
