(* ===== verification/Free_List.thy ===== *)
theory Free_List
  imports Kernel_Prelude
begin

text \<open>
  The allocator the kernel heap implements, without pointers: free memory is a list of
  intervals in address order, allocation carves a request off the high end of the first
  interval that holds it, and releasing an interval merges it with the neighbours it touches.
\<close>

section \<open>The abstract allocator\<close>

text \<open>Free memory as a list of (address, length) intervals over the natural numbers.\<close>

type_synonym block = "nat \<times> nat"

fun carve :: "nat \<Rightarrow> block list \<Rightarrow> (nat \<times> block list) option" where
  "carve need [] = None"
| "carve need ((a, k) # bs) =
     (if need \<le> k then Some (a + k - need, (a, k - need) # bs)
      else map_option (\<lambda>(p, bs'). (p, (a, k) # bs')) (carve need bs))"

text \<open>Giving an interval back: in address order, merged with both neighbours it touches.\<close>

fun absorb :: "block \<Rightarrow> block list \<Rightarrow> block list" where
  "absorb (a, k) [] = [(a, k)]"
| "absorb (a, k) ((b, j) # bs) = (if a + k = b then (a, k + j) # bs else (a, k) # (b, j) # bs)"

fun release :: "block \<Rightarrow> block list \<Rightarrow> block list" where
  "release (u, n) [] = [(u, n)]"
| "release (u, n) ((a, k) # bs) =
     (if u < a then absorb (u, n) ((a, k) # bs)
      else if a + k = u then absorb (a, k + n) bs
      else (a, k) # release (u, n) bs)"

text \<open>
  \<open>spaced lo bs hi\<close>: the blocks lie in order inside \<open>[lo, hi]\<close>, hold a header each, and no
  two touch (free memory is fully coalesced).
\<close>

fun spaced :: "nat \<Rightarrow> block list \<Rightarrow> nat \<Rightarrow> bool" where
  "spaced lo [] hi \<longleftrightarrow> True"
| "spaced lo ((a, k) # bs) hi \<longleftrightarrow> lo \<le> a \<and> 16 \<le> k \<and> a + k \<le> hi \<and> spaced (Suc (a + k)) bs hi"

definition free_bytes :: "block list \<Rightarrow> nat" where
  "free_bytes bs = sum_list (map snd bs)"

text \<open>The interval \<open>(u, n)\<close> meets no free block.\<close>

definition unshared :: "block \<Rightarrow> block list \<Rightarrow> bool" where
  "unshared u bs \<longleftrightarrow> (\<forall>b \<in> set bs. fst b + snd b \<le> fst u \<or> fst u + snd u \<le> fst b)"

section \<open>Facts about the abstract allocator\<close>

text \<open>The block \<open>carve\<close> takes from keeps room for its header.\<close>

fun roomy :: "nat \<Rightarrow> block list \<Rightarrow> bool" where
  "roomy need [] \<longleftrightarrow> True"
| "roomy need ((a, k) # bs) \<longleftrightarrow> (if need \<le> k then need + 16 \<le> k else roomy need bs)"

lemma spaced_iff:
  "spaced lo bs hi \<longleftrightarrow>
     (\<forall>b \<in> set bs. lo \<le> fst b \<and> 16 \<le> snd b \<and> fst b + snd b \<le> hi) \<and>
     sorted_wrt (\<lambda>b c. fst b + snd b < fst c) bs"
proof (induction lo bs hi rule: spaced.induct)
  case (1 lo hi)
  then show ?case by simp
next
  case (2 lo a k bs hi)
  then show ?case by (fastforce simp: Suc_le_eq)
qed

lemma carve_Some:
  "carve need bs = Some (p, bs') \<Longrightarrow>
     \<exists>pre a k post. bs = pre @ (a, k) # post \<and> (\<forall>b \<in> set pre. snd b < need) \<and> need \<le> k \<and>
       p = a + k - need \<and> bs' = pre @ (a, k - need) # post"
proof (induction need bs arbitrary: bs' rule: carve.induct)
  case (1 need)
  then show ?case by simp
next
  case (2 need a k bs)
  show ?case
  proof (cases "need \<le> k")
    case True
    with "2.prems" show ?thesis
      by (intro exI [of _ "[]"] exI [of _ a] exI [of _ k] exI [of _ bs]) auto
  next
    case False
    with "2.prems" obtain cs where "carve need bs = Some (p, cs)" "bs' = (a, k) # cs" by auto
    with "2.IH" [OF False] obtain pre a' k' post where
      "bs = pre @ (a', k') # post" "\<forall>b \<in> set pre. snd b < need" "need \<le> k'" "p = a' + k' - need"
      "bs' = ((a, k) # pre) @ (a', k' - need) # post"
      by fastforce
    with False show ?thesis
      by (intro exI [of _ "(a, k) # pre"] exI [of _ a'] exI [of _ k'] exI [of _ post]) auto
  qed
qed

lemma carve_None: "carve need bs = None \<longleftrightarrow> (\<forall>b \<in> set bs. snd b < need)"
  by (induction need bs rule: carve.induct) auto

lemma roomy_split:
  "roomy need (pre @ (a, k) # post) \<Longrightarrow> \<forall>b \<in> set pre. snd b < need \<Longrightarrow> need \<le> k \<Longrightarrow> need + 16 \<le> k"
  by (induction pre) auto

lemma carve_free_bytes:
  "carve need bs = Some (p, bs') \<Longrightarrow> free_bytes bs' + need = free_bytes bs"
  using carve_Some [of need bs p bs'] by (auto simp: free_bytes_def)

lemma carve_spaced:
  assumes "carve need bs = Some (p, bs')" "roomy need bs" "spaced lo bs hi"
  shows "spaced lo bs' hi"
proof -
  obtain pre a k post where c: "bs = pre @ (a, k) # post" "\<forall>b \<in> set pre. snd b < need" "need \<le> k"
    "bs' = pre @ (a, k - need) # post"
    using carve_Some [OF assms(1)] by blast
  then have "need + 16 \<le> k"
    using roomy_split assms(2) by blast
  with assms(3) c show ?thesis
    by (fastforce simp: spaced_iff sorted_wrt_append)
qed

lemma carve_unshared:
  assumes "carve need bs = Some (p, bs')" "spaced lo bs hi"
  shows "unshared (p, need) bs'" "\<exists>b \<in> set bs. fst b \<le> p \<and> p + need = fst b + snd b"
proof -
  obtain pre a k post where c: "bs = pre @ (a, k) # post" "\<forall>b \<in> set pre. snd b < need" "need \<le> k"
    "p = a + k - need" "bs' = pre @ (a, k - need) # post"
    using carve_Some [OF assms(1)] by blast
  with assms(2) show "unshared (p, need) bs'"
    by (fastforce simp: spaced_iff sorted_wrt_append unshared_def)
  from c show "\<exists>b \<in> set bs. fst b \<le> p \<and> p + need = fst b + snd b"
    by fastforce
qed

lemma roomy_iff:
  "\<forall>b \<in> set pre. snd b < need \<Longrightarrow> need \<le> k \<Longrightarrow> roomy need (pre @ (a, k) # post) \<longleftrightarrow> need + 16 \<le> k"
  by (induction pre) auto

text \<open>Giving back what was just carved restores the free list, block for block.\<close>

lemma release_carve:
  assumes "carve need bs = Some (p, bs')" "roomy need bs" "spaced lo bs hi"
  shows "release (p, need) bs' = bs"
proof -
  obtain pre a k post where c: "bs = pre @ (a, k) # post" "\<forall>b \<in> set pre. snd b < need" "need \<le> k"
    "p = a + k - need" "bs' = pre @ (a, k - need) # post"
    using carve_Some [OF assms(1)] by blast
  then have k: "need + 16 \<le> k"
    using roomy_split assms(2) by blast
  have tail: "absorb (a, k) post = (a, k) # post"
    using assms(3) c(1) by (cases post) (auto simp: spaced_iff sorted_wrt_append)
  from assms(3) c(1) have "\<forall>b \<in> set pre. fst b + snd b < a"
    by (auto simp: spaced_iff sorted_wrt_append)
  then have "release (p, need) (pre @ (a, k - need) # post) = pre @ (a, k) # post"
    using k c(4) tail by (induction pre) auto
  with c show ?thesis by simp
qed

lemma absorb_free_bytes: "free_bytes (absorb b bs) = snd b + free_bytes bs"
  by (cases "(b, bs)" rule: absorb.cases) (auto simp: free_bytes_def)

lemma release_free_bytes: "free_bytes (release b bs) = snd b + free_bytes bs"
  by (induction b bs rule: release.induct) (auto simp: absorb_free_bytes, auto simp: free_bytes_def)

lemma release_split:
  assumes "\<forall>b \<in> set pre. fst b + snd b < a" "a + k \<le> u" "post = [] \<or> u < fst (hd post)"
  shows "release (u, n) (pre @ (a, k) # post) =
    pre @ (if a + k = u then absorb (a, k + n) post else (a, k) # absorb (u, n) post)"
proof -
  have "release (u, n) post = absorb (u, n) post"
    using assms(3) by (cases post) auto
  with assms(1,2) show ?thesis by (induction pre) auto
qed

text \<open>Where \<open>(u, n)\<close> goes: behind the last block below it.\<close>

lemma insertion_point:
  assumes "spaced lo bs hi" "bs \<noteq> []" "fst (hd bs) = lo" "lo \<le> u" "0 < n" "unshared (u, n) bs"
  obtains pre a k post where "bs = pre @ (a, k) # post" "a + k \<le> u"
    "\<forall>b \<in> set pre. fst b + snd b < a" "\<forall>b \<in> set post. u + n \<le> fst b"
proof -
  let ?low = "\<lambda>b. fst b < u"
  have split: "takeWhile ?low bs @ dropWhile ?low bs = bs" by simp
  have fits: "fst b + snd b \<le> u \<or> u + n \<le> fst b" "16 \<le> snd b" if "b \<in> set bs" for b
    using assms(1,6) that by (auto simp: unshared_def spaced_iff)
  have "hd bs \<in> set bs" using assms(2) by simp
  then have "fst (hd bs) < u"
    using fits [of "hd bs"] assms(3,4,5) by linarith
  then have "takeWhile ?low bs \<noteq> []"
    using assms(2) by (cases bs) auto
  then obtain pre b where tw: "takeWhile ?low bs = pre @ [b]"
    by (metis rev_exhaust)
  then have bs: "bs = pre @ b # dropWhile ?low bs"
    using split by simp
  have b: "b \<in> set bs" "fst b < u"
    using tw set_takeWhileD [of b ?low bs] by auto
  have order: "sorted_wrt (\<lambda>b c. fst b + snd b < fst c) (pre @ b # dropWhile ?low bs)"
    using assms(1) bs by (simp add: spaced_iff)
  have "u + n \<le> fst c" if "c \<in> set (dropWhile ?low bs)" for c
  proof -
    from that obtain d ds where ds: "dropWhile ?low bs = d # ds" by (cases "dropWhile ?low bs") auto
    then have "\<not> fst d < u" using hd_dropWhile [of ?low bs] by simp
    moreover have "fst d \<le> fst c"
      using that order ds by (auto simp: sorted_wrt_append)
    moreover have "c \<in> set bs" using that by (rule set_dropWhileD)
    ultimately show ?thesis using fits [of c] by linarith
  qed
  moreover have "fst b + snd b \<le> u"
    using fits [OF b(1)] b(2) by linarith
  moreover have "\<forall>c \<in> set pre. fst c + snd c < fst b"
    using order by (auto simp: sorted_wrt_append)
  ultimately show ?thesis
    using that [of pre "fst b" "snd b" "dropWhile ?low bs"] bs by auto
qed

lemma absorb_spaced:
  assumes "\<forall>b \<in> set bs. a + k \<le> fst b" "spaced l bs hi" "lo \<le> a" "16 \<le> k" "a + k \<le> hi"
  shows "spaced lo (absorb (a, k) bs) hi"
  using assms by (cases bs) (auto simp: add.assoc)

lemma spaced_append:
  "spaced lo (xs @ (a, k) # ys) hi \<longleftrightarrow>
     spaced lo xs hi \<and> (\<forall>b \<in> set xs. fst b + snd b < a) \<and> spaced lo ((a, k) # ys) hi"
  by (fastforce simp: spaced_iff sorted_wrt_append)

lemma absorb_head: "\<exists>k' ys. absorb (a, k) bs = (a, k') # ys"
  by (cases bs) auto

lemma release_wf:
  assumes "spaced lo bs hi" "bs \<noteq> []" "fst (hd bs) = lo" "lo \<le> u" "0 < n" "u + n \<le> hi"
    "unshared (u, n) bs" and size: "16 \<le> n \<or> (\<exists>b \<in> set bs. fst b + snd b = u)"
  shows "spaced lo (release (u, n) bs) hi \<and> release (u, n) bs \<noteq> [] \<and> fst (hd (release (u, n) bs)) = lo"
proof -
  obtain pre a k post where ip: "bs = pre @ (a, k) # post" "a + k \<le> u"
    "\<forall>b \<in> set pre. fst b + snd b < a" "\<forall>b \<in> set post. u + n \<le> fst b"
    using insertion_point [of lo bs hi u n thesis] assms by auto
  have "post = [] \<or> u < fst (hd post)"
    using ip(4) assms(5) by (cases post) auto
  note rel = release_split [OF ip(3,2) this, of n]
  have sp: "spaced lo pre hi" "spaced lo ((a, k) # post) hi"
    using assms(1) ip(1) by (simp_all add: spaced_append)
  show ?thesis
  proof (cases "a + k = u")
    case True
    obtain k' ys where h: "absorb (a, k + n) post = (a, k') # ys" using absorb_head by blast
    have "spaced lo (absorb (a, k + n) post) hi"
      by (rule absorb_spaced [where l = "Suc (a + k)"]) (use sp ip True assms in auto)
    with sp ip assms(3) rel True h show ?thesis
      by (cases pre) (auto simp: spaced_append)
  next
    case False
    then have "16 \<le> n" using size ip assms(5) by fastforce
    obtain k' ys where h: "absorb (u, n) post = (u, k') # ys" using absorb_head by blast
    have "spaced (Suc (a + k)) (absorb (u, n) post) hi"
      by (rule absorb_spaced [where l = "Suc (a + k)"]) (use sp ip False assms \<open>16 \<le> n\<close> in auto)
    with sp ip assms(3) rel False h show ?thesis
      by (cases pre) (auto simp: spaced_append)
  qed
qed

end
