(* ===== verification/Kernel_Heap.thy ===== *)
theory Kernel_Heap
  imports C_String Free_List
begin

text \<open>
  The kernel heap of \<open>libc/src/memory/heap.c\<close>: a singly linked list of free blocks, each
  with its header (\<open>next_block\<close>, \<open>size\<close>) in its first 16 bytes, allocation by first fit from
  the high end of a block, and \<open>free\<close> with coalescing on both sides. The state is the byte
  memory plus the static \<open>free_mem\<close>. The theory holds the C operations, the
  list structure in memory, the refinement of the abstract allocator of \<open>Free_List\<close>, and the
  interface \<open>allocator\<close> through which the other components use \<open>malloc\<close>.
\<close>

section \<open>State and operations\<close>

text \<open>
  \<open>machine\<close>: the memory, the control register CR3 (read by \<open>get_page_pointer\<close>) and the
  characters sent to the console by routines that go on afterwards, and the model-specific registers.
\<close>

record machine =
  bytes :: mem
  cr3 :: u64
  console :: string
  msr :: "u64 \<Rightarrow> u64"

record heap_state = machine +
  free_mem_next :: u64
  free_mem_size :: u64

definition init_heap :: "u64 \<Rightarrow> u64 \<Rightarrow> 'a heap_state_scheme \<Rightarrow> 'a heap_state_scheme" where
  "init_heap start n s =
     s\<lparr>free_mem_size := 0, free_mem_next := start,
       bytes := store64 (store64 (bytes s) start 0) (start + 8) n\<rparr>"

text \<open>The first loop of \<open>malloc\<close>: the first block that is large enough, and the one before it.\<close>

partial_function (option) malloc_search :: "mem \<Rightarrow> u64 \<Rightarrow> u64 \<Rightarrow> u64 \<Rightarrow> (u64 \<times> u64) option" where
  "malloc_search m n previous next_free =
     (if next_free \<noteq> 0 then
        if load64 m (next_free + 8) \<ge> n + 8 then Some (previous, next_free)
        else malloc_search m n next_free (load64 m next_free)
      else Some (previous, next_free))"

text \<open>
  The body after the loop. The comparison that opens the second branch is the code's own: it
  compares the block's \<^emph>\<open>address\<close> with the size asked for.
\<close>

definition malloc_take :: "u64 \<Rightarrow> u64 \<Rightarrow> u64 \<Rightarrow> mem \<Rightarrow> u64 \<times> mem" where
  "malloc_take n previous next_free m =
     (if next_free = n + 8 then
        let ptr = next_free + 8;
            m1 = memset ptr 0 n m;
            m2 = store64 m1 previous (load64 m1 next_free);
            m3 = store64 m2 next_free (n + 8)
        in (ptr, m3)
      else
        let meta = next_free + load64 m (next_free + 8) - n - 8;
            ptr = meta + 8;
            m1 = memset ptr 0 n m;
            m2 = store64 m1 (next_free + 8) (load64 m1 (next_free + 8) - (n + 8));
            m3 = store64 m2 meta (n + 8)
        in (ptr, m3))"

definition malloc :: "u64 \<Rightarrow> 'a heap_state_scheme \<Rightarrow> (u64 \<times> 'a heap_state_scheme) run" where
  "malloc n s =
     (case malloc_search (bytes s) n 0 (free_mem_next s) of
        None \<Rightarrow> None
      | Some (previous, next_free) \<Rightarrow>
          if next_free = 0 then stop (Abort ''Heap out of space'')
          else (case malloc_take n previous next_free (bytes s) of
                  (ptr, m) \<Rightarrow> ret (ptr, s\<lparr>bytes := m\<rparr>)))"

text \<open>The loop of \<open>free\<close>: the last block below \<open>ptr\<close>.\<close>

partial_function (option) free_search :: "mem \<Rightarrow> u64 \<Rightarrow> u64 \<Rightarrow> u64 \<Rightarrow> u64 option" where
  "free_search m ptr prev nxt =
     (if nxt < ptr \<and> nxt \<noteq> 0 then free_search m ptr nxt (load64 m nxt) else Some prev)"

text \<open>The last step of \<open>free\<close>: absorb the block that follows, if it is adjacent.\<close>

definition free_merge :: "u64 \<Rightarrow> mem \<Rightarrow> mem" where
  "free_merge assigned m =
     (if assigned + load64 m (assigned + 8) = load64 m assigned then
        let proc = load64 m assigned;
            m3 = store64 m (assigned + 8) (load64 m (assigned + 8) + load64 m (load64 m assigned + 8));
            m4 = store64 m3 assigned (load64 m3 (load64 m3 assigned));
            m5 = store64 m4 proc 0
        in store64 m5 (proc + 8) 0
      else m)"

definition free_put :: "u64 \<Rightarrow> u64 \<Rightarrow> mem \<Rightarrow> mem" where
  "free_put ptr prev m =
     (let meta = ptr - 8;
          m1 = memset ptr 0 (load64 m meta - 8) m
      in if prev + load64 m1 (prev + 8) = meta then
           free_merge prev (store64 m1 (prev + 8) (load64 m1 (prev + 8) + load64 m1 meta))
         else
           let sz = load64 m1 meta;
               a1 = store64 m1 meta (load64 m1 prev);
               a2 = store64 a1 (meta + 8) sz;
               a3 = store64 a2 prev meta
           in free_merge meta a3)"

definition free :: "u64 \<Rightarrow> 'a heap_state_scheme \<Rightarrow> 'a heap_state_scheme run" where
  "free ptr s =
     (case free_search (bytes s) ptr 0 (free_mem_next s) of
        None \<Rightarrow> None
      | Some prev \<Rightarrow>
          ret (s\<lparr>bytes := free_put ptr (if prev = 0 then free_mem_next s else prev) (bytes s)\<rparr>))"

section \<open>The list in memory\<close>

text \<open>\<open>seg m p bs q\<close>: following \<open>next_block\<close> from \<open>p\<close> meets exactly the blocks \<open>bs\<close> and ends at \<open>q\<close>.\<close>

primrec seg :: "mem \<Rightarrow> u64 \<Rightarrow> block list \<Rightarrow> u64 \<Rightarrow> bool" where
  "seg m p [] q \<longleftrightarrow> p = q"
| "seg m p (b # bs) q \<longleftrightarrow>
     p \<noteq> 0 \<and> unat p = fst b \<and> unat (load64 m (p + 8)) = snd b \<and> seg m (load64 m p) bs q"

definition heap_wf :: "nat \<Rightarrow> nat \<Rightarrow> block list \<Rightarrow> 'a heap_state_scheme \<Rightarrow> bool" where
  "heap_wf lo hi bs s \<longleftrightarrow>
     seg (bytes s) (free_mem_next s) bs 0 \<and> spaced lo bs hi \<and>
     0 < lo \<and> hi < 18446744073709551616 \<and> bs \<noteq> [] \<and> fst (hd bs) = lo"

section \<open>The refinement\<close>

lemma seg_append: "seg m p (xs @ ys) q \<longleftrightarrow> (\<exists>r. seg m p xs r \<and> seg m r ys q)"
  by (induction xs arbitrary: p) auto

lemma seg_cong:
  assumes "seg m p bs q"
    "\<And>r. unat r \<in> fst ` set bs \<Longrightarrow> load64 m' r = load64 m r \<and> load64 m' (r + 8) = load64 m (r + 8)"
  shows "seg m' p bs q"
  using assms by (induction bs arbitrary: p) auto

lemma seg_head: "seg m p bs q \<Longrightarrow> bs \<noteq> [] \<Longrightarrow> unat p = fst (hd bs) \<and> p \<noteq> 0"
  by (cases bs) auto

text \<open>The search passes the blocks that are too small.\<close>

lemma malloc_search_skip:
  assumes "seg m p pre r" "\<forall>b \<in> set pre. snd b < unat n + 8" "unat n + 8 < 18446744073709551616"
  shows "\<exists>prev'. malloc_search m n prev p = malloc_search m n prev' r"
  using assms
proof (induction pre arbitrary: p prev)
  case Nil
  then show ?case by auto
next
  case (Cons b pre)
  have "unat (n + 8) = unat n + 8"
    using Cons.prems(3) by (subst unat_u64_add) auto
  then have "\<not> n + 8 \<le> load64 m (p + 8)"
    using Cons.prems(1,2) by (simp add: word_le_nat_alt)
  then have "malloc_search m n prev p = malloc_search m n p (load64 m p)"
    using Cons.prems(1) by (subst malloc_search.simps) simp
  with Cons.IH [of "load64 m p" p] Cons.prems show ?case by simp
qed

lemma malloc_search_stop:
  "q \<noteq> 0 \<Longrightarrow> n + 8 \<le> load64 m (q + 8) \<Longrightarrow> malloc_search m n prev q = Some (prev, q)"
  "malloc_search m n prev 0 = Some (prev, 0)"
  by (simp_all add: malloc_search.simps)

lemma store64_far:
  assumes "unat a + 8 \<le> 18446744073709551616" "unat x < unat a \<or> unat a + 8 \<le> unat x"
  shows "store64 m a v x = m x"
  by (rule store64_outside) (use assms in \<open>auto simp: span_no_wrap [OF assms(1)] simp del: mem_span\<close>)

text \<open>The second branch of the body on memory: a block of \<open>n + 8\<close> bytes off the high end.\<close>

lemma high_block_addresses:
  fixes q K n :: u64
  assumes fit: "unat n + 24 \<le> unat K" and nw: "unat q + unat K < 18446744073709551616"
  shows "unat (q + K - n) = unat q + unat K - unat n" "unat (q + K - n - 8) = unat q + unat K - unat n - 8" "unat (q + 8) = unat q + 8"
proof -
  have "unat (q + K) = unat q + unat K"
    using nw by (rule unat_u64_add)
  then show up: "unat (q + K - n) = unat q + unat K - unat n"
    using fit by (subst unat_sub_no_wrap) auto
  show "unat (q + K - n - 8) = unat q + unat K - unat n - 8"
    using fit up by (subst unat_sub_no_wrap) auto
  show "unat (q + 8) = unat q + 8"
    using nw fit by (subst unat_u64_add) auto
qed

lemma high_block_stores:
  fixes q K n u v :: u64 and m :: mem
  assumes fit: "unat n + 24 \<le> unat K" and nw: "unat q + unat K < 18446744073709551616"
  defines "meta \<equiv> q + K - n - 8"
  defines "m1 \<equiv> memset (meta + 8) 0 n m"
  defines "m3 \<equiv> store64 (store64 m1 (q + 8) v) meta u"
  shows "\<not> (unat q + unat K - unat n \<le> unat x \<and> unat x < unat q + unat K) \<Longrightarrow> m1 x = m x"
    "\<not> (unat q + 8 \<le> unat x \<and> unat x < unat q + 16) \<Longrightarrow> \<not> (unat meta \<le> unat x \<and> unat x < unat meta + 8) \<Longrightarrow> m3 x = m1 x"
    "unat x < unat q + 8 \<or> unat q + 16 \<le> unat x \<Longrightarrow> unat x < unat meta \<or> unat q + unat K \<le> unat x \<Longrightarrow> m3 x = m x"
proof -
  note ad = high_block_addresses [OF fit nw, folded meta_def]
  have um8: "unat (meta + 8) = unat q + unat K - unat n" using ad(1) by (simp add: meta_def)
  then have nw1: "unat (meta + 8) + unat n \<le> 18446744073709551616" "unat meta + 8 \<le> 18446744073709551616"
    "unat (q + 8) + 8 \<le> 18446744073709551616"
    using ad nw fit by simp_all
  show m1: "m1 x = m x" if "\<not> (unat q + unat K - unat n \<le> unat x \<and> unat x < unat q + unat K)" for x
    unfolding m1_def by (rule memset_outside) (use that um8 fit in \<open>simp add: span_no_wrap [OF nw1(1)] del: mem_span\<close>)
  show m3: "m3 x = m1 x" if "\<not> (unat q + 8 \<le> unat x \<and> unat x < unat q + 16)"
    "\<not> (unat meta \<le> unat x \<and> unat x < unat meta + 8)" for x
  proof -
    have "x \<notin> span (q + 8) 8" "x \<notin> span meta 8"
      using that ad(3) by (auto simp: span_no_wrap [OF nw1(3)] span_no_wrap [OF nw1(2)] simp del: mem_span)
    then show ?thesis by (simp add: m3_def store64_outside)
  qed
  show "m3 x = m x" if "unat x < unat q + 8 \<or> unat q + 16 \<le> unat x" "unat x < unat meta \<or> unat q + unat K \<le> unat x"
  proof -
    have "m3 x = m1 x" by (rule m3) (use that ad fit in linarith)+
    also have "m1 x = m x" by (rule m1) (use that ad fit in linarith)
    finally show ?thesis .
  qed
qed

lemma malloc_take_high:
  assumes K: "load64 m (q + 8) = K" and fit: "unat n + 24 \<le> unat K"
    and nw: "unat q + unat K < 18446744073709551616" and ne: "q \<noteq> n + 8"
  obtains m' where "malloc_take n prev q m = (q + K - n, m')"
    "unat (q + K - n) = unat q + unat K - unat n"
    "load64 m' q = load64 m q" "load64 m' (q + 8) = K - (n + 8)" "load64 m' (q + K - n - 8) = n + 8"
    "\<And>x. unat x < unat q + 8 \<Longrightarrow> m' x = m x"
    "\<And>x. unat q + 16 \<le> unat x \<Longrightarrow> unat x < unat q + unat K - unat n - 8 \<Longrightarrow> m' x = m x"
    "\<And>x. unat q + unat K \<le> unat x \<Longrightarrow> m' x = m x"
    "\<And>x. x \<in> span (q + K - n) (unat n) \<Longrightarrow> m' x = 0"
proof -
  define meta where "meta = q + K - n - 8"
  define m1 where "m1 = memset (meta + 8) 0 n m"
  define m2 where "m2 = store64 m1 (q + 8) (load64 m1 (q + 8) - (n + 8))"
  define m3 where "m3 = store64 m2 meta (n + 8)"
  note ad = high_block_addresses [OF fit nw]
  note um = ad(2) [folded meta_def] and uq8 = ad(3)
  have m8: "meta + 8 = q + K - n"
    by (simp add: meta_def)
  have um8: "unat (meta + 8) = unat q + unat K - unat n"
    using m8 ad(1) by simp
  have nw1: "unat (meta + 8) + unat n \<le> 18446744073709551616" "unat meta + 8 \<le> 18446744073709551616"
    "unat (q + 8) + 8 \<le> 18446744073709551616" "unat q + 8 \<le> 18446744073709551616"
    using um8 um uq8 nw fit by simp_all
  note stores = high_block_stores [OF fit nw, where m = m, folded meta_def, folded m1_def]
  note m1 = stores(1) and m3 = stores(2) [where v = "load64 m1 (q + 8) - (n + 8)" and u = "n + 8", folded m2_def, folded m3_def]
    and m31 = stores(3) [where v = "load64 m1 (q + 8) - (n + 8)" and u = "n + 8", folded m2_def, folded m3_def]
  have ap: "apart (q + 8) 8 meta 8"
    by (rule apart_no_wrap) (use uq8 um fit nw1 in auto)
  have "load64 m1 (q + 8) = load64 m (q + 8)"
    by (rule load64_cong, rule m1) (use uq8 fit in \<open>auto simp: span_no_wrap [OF nw1(3)] simp del: mem_span\<close>)
  then have l8: "load64 m3 (q + 8) = K - (n + 8)"
    using ap K by (simp add: m3_def m2_def)
  have lq: "load64 m3 q = load64 m q"
  proof (rule load64_cong)
    fix x
    assume "x \<in> span q 8"
    then have "unat x < unat q + 8" by (simp add: span_no_wrap [OF nw1(4)] del: mem_span)
    then show "m3 x = m x" using um fit by (intro m31) linarith+
  qed
  have z: "m3 x = 0" if "x \<in> span (q + K - n) (unat n)" for x
  proof -
    have "unat q + unat K - unat n \<le> unat x"
      using that um8 unfolding m8 [symmetric] by (simp add: span_no_wrap [OF nw1(1)] del: mem_span)
    then have "m3 x = m1 x" using um fit by (intro m3) auto
    moreover have "m1 x = 0" unfolding m1_def memset_eq m8 using that by simp
    ultimately show ?thesis by simp
  qed
  show thesis
  proof (rule that [of m3])
    show "malloc_take n prev q m = (q + K - n, m3)"
      using ne K by (simp add: malloc_take_def Let_def m3_def m2_def m1_def meta_def)
    show "load64 m3 (q + K - n - 8) = n + 8"
      unfolding meta_def [symmetric] by (simp add: m3_def)
    show "m3 x = m x" if "unat x < unat q + 8" for x
      using that um fit by (intro m31) linarith+
    show "m3 x = m x" if "unat q + 16 \<le> unat x" "unat x < unat q + unat K - unat n - 8" for x
      using that um fit by (intro m31) linarith+
    show "m3 x = m x" if "unat q + unat K \<le> unat x" for x
      using that um fit by (intro m31) linarith+
  qed (fact ad(1) lq l8 z)+
qed

lemma load64_cong_unat:
  assumes "unat r + 8 \<le> 18446744073709551616"
    "\<And>x. unat r \<le> unat x \<Longrightarrow> unat x < unat r + 8 \<Longrightarrow> m' x = m x"
  shows "load64 m' r = load64 m r"
  by (rule load64_cong, rule assms(2)) (auto simp: span_no_wrap [OF assms(1)] simp del: mem_span)

lemma header_cong:
  assumes "unat r + 16 \<le> 18446744073709551616"
    "\<And>x. unat r \<le> unat x \<Longrightarrow> unat x < unat r + 16 \<Longrightarrow> m' x = m x"
  shows "load64 m' r = load64 m r \<and> load64 m' (r + 8) = load64 m (r + 8)"
proof -
  have "unat (r + 8) = unat r + 8"
    using assms(1) by (subst unat_u64_add) auto
  then show ?thesis
    using assms by (auto intro!: load64_cong_unat)
qed

text \<open>Addresses that belong to the free list, and those that do not.\<close>

definition free_addr :: "block list \<Rightarrow> u64 \<Rightarrow> bool" where
  "free_addr bs x \<longleftrightarrow> (\<exists>b \<in> set bs. fst b \<le> unat x \<and> unat x < fst b + snd b)"

lemma heap_wf_block:
  assumes "heap_wf lo hi bs s" "b \<in> set bs"
  shows "lo \<le> fst b" "16 \<le> snd b" "fst b + snd b \<le> hi" "hi < 18446744073709551616"
  using assms by (auto simp: heap_wf_def spaced_iff)

lemma heap_wf_split:
  assumes "heap_wf lo hi (pre @ (a, k) # post) s"
  obtains q where "seg (bytes s) (free_mem_next s) pre q" "q \<noteq> 0" "unat q = a"
    "unat (load64 (bytes s) (q + 8)) = k" "seg (bytes s) (load64 (bytes s) q) post 0"
    "\<forall>b \<in> set pre. fst b + snd b < a" "\<forall>b \<in> set post. a + k < fst b" "a + k \<le> hi" "16 \<le> k"
    "hi < 18446744073709551616"
  using assms by (auto simp: heap_wf_def seg_append spaced_iff sorted_wrt_append)

text \<open>
  A memory that changed only the \<open>size\<close> (or the \<open>next_block\<close>) of one block, as seen by the list.
\<close>

lemma seg_frame:
  assumes "seg m p bs q"
    "\<And>b x. b \<in> set bs \<Longrightarrow> fst b \<le> unat x \<Longrightarrow> unat x < fst b + 16 \<Longrightarrow> m' x = m x"
    "\<And>b. b \<in> set bs \<Longrightarrow> fst b + 16 \<le> 18446744073709551616"
  shows "seg m' p bs q"
  by (rule seg_cong [OF assms(1)], rule header_cong) (use assms(2,3) in fastforce)+

text \<open>
  When the chosen block leaves fewer than 16 bytes, what is handed out still is the high end of the block and nothing
  outside the block changes, but the header that stays behind reaches into it.
\<close>

lemma malloc_take_within:
  assumes K: "load64 m (q + 8) = K" and fit: "unat n + 8 \<le> unat K" "16 \<le> unat K"
    and nw: "unat q + unat K < 18446744073709551616" and ne: "q \<noteq> n + 8"
  obtains m' where "malloc_take n prev q m = (q + K - n, m')" "unat (q + K - n) = unat q + unat K - unat n"
    "load64 m' (q + K - n - 8) = n + 8" "\<And>x. unat x < unat q \<or> unat q + unat K \<le> unat x \<Longrightarrow> m' x = m x"
proof -
  define meta where "meta = q + K - n - 8"
  define m1 where "m1 = memset (meta + 8) 0 n m"
  define m2 where "m2 = store64 m1 (q + 8) (load64 m1 (q + 8) - (n + 8))"
  define m3 where "m3 = store64 m2 meta (n + 8)"
  have "unat (q + K) = unat q + unat K" using nw by (rule unat_u64_add)
  then have up: "unat (q + K - n) = unat q + unat K - unat n"
    using fit by (subst unat_sub_no_wrap) auto
  then have um: "unat meta = unat q + unat K - unat n - 8"
    unfolding meta_def using fit by (subst unat_sub_no_wrap) auto
  have um8: "unat (meta + 8) = unat q + unat K - unat n" using up by (simp add: meta_def)
  have uq8: "unat (q + 8) = unat q + 8" using nw fit by (subst unat_u64_add) auto
  have nw1: "unat (meta + 8) + unat n \<le> 18446744073709551616" using um8 nw fit by simp
  have "m3 x = m x" if x: "unat x < unat q \<or> unat q + unat K \<le> unat x" for x
  proof -
    have "m3 x = m2 x" unfolding m3_def by (rule store64_far) (use x um fit nw in linarith)+
    also have "\<dots> = m1 x" unfolding m2_def by (rule store64_far) (use x uq8 fit nw in linarith)+
    also have "\<dots> = m x"
      unfolding m1_def by (rule memset_outside) (use x um8 fit in \<open>simp add: span_no_wrap [OF nw1] del: mem_span, linarith\<close>)
    finally show ?thesis .
  qed
  moreover have "malloc_take n prev q m = (q + K - n, m3)"
    using ne K by (simp add: malloc_take_def Let_def m3_def m2_def m1_def meta_def)
  moreover have "load64 m3 (q + K - n - 8) = n + 8"
    unfolding meta_def [symmetric] by (simp add: m3_def)
  ultimately show thesis using up that by blast
qed

text \<open>The first loop finds the block that \<open>carve\<close> takes from.\<close>

lemma malloc_chooses:
  assumes wf: "heap_wf lo hi bs s" and small: "unat n + 8 < lo" and carve: "carve (unat n + 8) bs = Some (p, bs')"
  obtains pre a k post q prev where "bs = pre @ (a, k) # post" "\<forall>b \<in> set pre. snd b < unat n + 8" "unat n + 8 \<le> k"
    "p = a + k - (unat n + 8)" "bs' = pre @ (a, k - (unat n + 8)) # post"
    "seg (bytes s) (free_mem_next s) pre q" "q \<noteq> 0" "unat q = a" "unat (load64 (bytes s) (q + 8)) = k"
    "seg (bytes s) (load64 (bytes s) q) post 0" "\<forall>b \<in> set pre. fst b + snd b < a" "\<forall>b \<in> set post. a + k < fst b"
    "lo \<le> a" "a + k \<le> hi" "16 \<le> k" "hi < 18446744073709551616" "unat (n + 8) = unat n + 8" "q \<noteq> n + 8"
    "malloc_search (bytes s) n 0 (free_mem_next s) = Some (prev, q)"
proof -
  obtain pre a k post where c: "bs = pre @ (a, k) # post" "\<forall>b \<in> set pre. snd b < unat n + 8"
    "unat n + 8 \<le> k" "p = a + k - (unat n + 8)" "bs' = pre @ (a, k - (unat n + 8)) # post"
    using carve_Some [OF carve] by blast
  obtain q where q: "seg (bytes s) (free_mem_next s) pre q" "q \<noteq> 0" "unat q = a"
    "unat (load64 (bytes s) (q + 8)) = k" "seg (bytes s) (load64 (bytes s) q) post 0"
    "\<forall>b \<in> set pre. fst b + snd b < a" "\<forall>b \<in> set post. a + k < fst b" "a + k \<le> hi" "16 \<le> k"
    "hi < 18446744073709551616"
    using heap_wf_split [of lo hi pre a k post s] wf c(1) by blast
  have lo: "lo \<le> a" using heap_wf_block [OF wf, of "(a, k)"] c(1) by simp
  have n8: "unat (n + 8) = unat n + 8"
    using c(3) q(8,10) by (subst unat_u64_add) auto
  obtain prev' where "malloc_search (bytes s) n 0 (free_mem_next s) = malloc_search (bytes s) n prev' q"
    using malloc_search_skip [OF q(1) c(2), of 0] c(3) q(8,10) by auto
  then have "malloc_search (bytes s) n 0 (free_mem_next s) = Some (prev', q)"
    using malloc_search_stop(1) [of q n] q(2,4) n8 c(3) by (simp add: word_le_nat_alt)
  moreover have "q \<noteq> n + 8" using n8 small lo q(3) by auto
  ultimately show thesis using that c q lo n8 by blast
qed

lemma malloc_refines:
  assumes wf: "heap_wf lo hi bs s" and small: "unat n + 8 < lo"
    and carve: "carve (unat n + 8) bs = Some (p, bs')" and roomy: "roomy (unat n + 8) bs"
  obtains ptr m' where "malloc n s = ret (ptr, s\<lparr>bytes := m'\<rparr>)" "unat ptr = p + 8"
    "heap_wf lo hi bs' (s\<lparr>bytes := m'\<rparr>)" "load64 m' (ptr - 8) = n + 8"
    "\<And>x. x \<in> span ptr (unat n) \<Longrightarrow> m' x = 0" "\<And>x. \<not> free_addr bs x \<Longrightarrow> m' x = bytes s x"
proof -
  obtain pre a k post q prev' where c: "bs = pre @ (a, k) # post" "\<forall>b \<in> set pre. snd b < unat n + 8" "unat n + 8 \<le> k"
    "p = a + k - (unat n + 8)" "bs' = pre @ (a, k - (unat n + 8)) # post"
    and q: "seg (bytes s) (free_mem_next s) pre q" "q \<noteq> 0" "unat q = a"
    "unat (load64 (bytes s) (q + 8)) = k" "seg (bytes s) (load64 (bytes s) q) post 0"
    "\<forall>b \<in> set pre. fst b + snd b < a" "\<forall>b \<in> set post. a + k < fst b"
    and lo: "lo \<le> a" and q': "a + k \<le> hi" "16 \<le> k" "hi < 18446744073709551616"
    and n8: "unat (n + 8) = unat n + 8" and ne: "q \<noteq> n + 8"
    and search: "malloc_search (bytes s) n 0 (free_mem_next s) = Some (prev', q)"
    by (rule malloc_chooses [OF wf small carve]) blast
  note q = q q'
  have k: "unat n + 24 \<le> k"
    using roomy_split [of "unat n + 8" pre a k post] roomy c by auto
  have blocks: "\<And>b. b \<in> set bs \<Longrightarrow> lo \<le> fst b \<and> 16 \<le> snd b \<and> fst b + snd b \<le> hi"
    using heap_wf_block [OF wf] by blast
  let ?K = "load64 (bytes s) (q + 8)"
  from ne obtain m' where m': "malloc_take n prev' q (bytes s) = (q + ?K - n, m')"
    "unat (q + ?K - n) = unat q + unat ?K - unat n"
    "load64 m' q = load64 (bytes s) q" "load64 m' (q + 8) = ?K - (n + 8)" "load64 m' (q + ?K - n - 8) = n + 8"
    "\<And>x. unat x < unat q + 8 \<Longrightarrow> m' x = bytes s x"
    "\<And>x. unat q + 16 \<le> unat x \<Longrightarrow> unat x < unat q + unat ?K - unat n - 8 \<Longrightarrow> m' x = bytes s x"
    "\<And>x. unat q + unat ?K \<le> unat x \<Longrightarrow> m' x = bytes s x"
    "\<And>x. x \<in> span (q + ?K - n) (unat n) \<Longrightarrow> m' x = 0"
    using malloc_take_high [of "bytes s" q ?K n prev' thesis] k q by auto
  have frame: "m' x = bytes s x" if "unat x < a \<or> a + k \<le> unat x" for x
    using m'(6,8) that q(3,4) by auto
  have "seg m' (free_mem_next s) pre q"
    by (rule seg_frame [OF q(1)]) (use frame blocks q(6,8,10) c(1) in fastforce)+
  moreover have "seg m' (load64 (bytes s) q) post 0"
    by (rule seg_frame [OF q(5)]) (use frame blocks q(7,8,10) c(1) in fastforce)+
  moreover have "unat (?K - (n + 8)) = k - (unat n + 8)"
    using q(4) n8 c(3) by (subst unat_sub_no_wrap) auto
  ultimately have "seg m' (free_mem_next s) bs' 0"
    using c(5) q(2,3) m'(3,4) by (auto simp: seg_append)
  moreover have "spaced lo bs' hi"
    using carve_spaced [OF carve roomy] wf by (simp add: heap_wf_def)
  moreover have "bs' \<noteq> [] \<and> fst (hd bs') = lo"
    using wf c(1,5) by (cases pre) (auto simp: heap_wf_def)
  ultimately have "heap_wf lo hi bs' (s\<lparr>bytes := m'\<rparr>)"
    using wf by (simp add: heap_wf_def)
  moreover have "m' x = bytes s x" if "\<not> free_addr bs x" for x
    using that frame [of x] c(1) by (auto simp: free_addr_def)
  ultimately show thesis
    using that [of "q + ?K - n" m'] search q(2,3,4) m' c(3,4) by (auto simp: malloc_def)
qed

text \<open>What the list in memory holds is determined as far as it is followed.\<close>

lemma seg_prefix:
  "seg m p pre q \<Longrightarrow> q \<noteq> 0 \<Longrightarrow> seg m p bs 0 \<Longrightarrow> \<exists>post. bs = pre @ post \<and> seg m q post 0"
proof (induction pre arbitrary: p bs)
  case (Cons b pre)
  then obtain c cs where bs: "bs = c # cs" by (cases bs) auto
  with Cons.prems have "c = b" by (simp add: prod_eq_iff)
  with bs Cons show ?case by auto
qed simp

text \<open>In the cramped case no list fits the memory that keeps clear of the block handed out.\<close>

lemma malloc_cramped:
  assumes wf: "heap_wf lo hi bs s" and small: "unat n + 8 < lo"
    and carve: "carve (unat n + 8) bs = Some (p, bs')" and cramped: "\<not> roomy (unat n + 8) bs"
  obtains ptr m' where "malloc n s = ret (ptr, s\<lparr>bytes := m'\<rparr>)" "unat ptr = p + 8" "load64 m' (ptr - 8) = n + 8"
    "\<And>x. \<not> free_addr bs x \<Longrightarrow> m' x = bytes s x"
    "\<And>cs. heap_wf lo hi cs (s\<lparr>bytes := m'\<rparr>) \<Longrightarrow> \<not> unshared (p, unat n + 8) cs"
proof -
  obtain pre a k post q prev where c: "bs = pre @ (a, k) # post" "\<forall>b \<in> set pre. snd b < unat n + 8" "unat n + 8 \<le> k"
    "p = a + k - (unat n + 8)" "bs' = pre @ (a, k - (unat n + 8)) # post"
    and q: "seg (bytes s) (free_mem_next s) pre q" "q \<noteq> 0" "unat q = a" "unat (load64 (bytes s) (q + 8)) = k"
    "\<forall>b \<in> set pre. fst b + snd b < a"
    and k: "lo \<le> a" "a + k \<le> hi" "16 \<le> k" "hi < 18446744073709551616" and ne: "q \<noteq> n + 8"
    and search: "malloc_search (bytes s) n 0 (free_mem_next s) = Some (prev, q)"
    by (rule malloc_chooses [OF wf small carve]) blast
  have short: "k < unat n + 24" using cramped roomy_iff [OF c(2,3)] c(1) by simp
  let ?K = "load64 (bytes s) (q + 8)"
  have "unat q + unat ?K < 18446744073709551616" using q(3,4) k(2,4) by simp
  then obtain m' where m': "malloc_take n prev q (bytes s) = (q + ?K - n, m')" "unat (q + ?K - n) = unat q + unat ?K - unat n"
    "load64 m' (q + ?K - n - 8) = n + 8" "\<And>x. unat x < unat q \<or> unat q + unat ?K \<le> unat x \<Longrightarrow> m' x = bytes s x"
    using malloc_take_within [of "bytes s" q ?K n prev thesis] c(3) k(3) q(4) ne by auto
  have frame: "m' x = bytes s x" if "unat x < a \<or> a + k \<le> unat x" for x
    using m'(4) that q(3,4) by simp
  have blocks: "\<And>b. b \<in> set bs \<Longrightarrow> lo \<le> fst b \<and> 16 \<le> snd b \<and> fst b + snd b \<le> hi"
    using heap_wf_block [OF wf] by blast
  have pre: "seg m' (free_mem_next s) pre q"
    by (rule seg_frame [OF q(1)]) (use frame blocks q(5) k(2,4) c(1) in fastforce)+
  have "\<not> unshared (p, unat n + 8) cs" if cs: "heap_wf lo hi cs (s\<lparr>bytes := m'\<rparr>)" for cs
  proof -
    have "seg m' (free_mem_next s) cs 0" using cs by (simp add: heap_wf_def)
    from seg_prefix [OF pre q(2) this] obtain post' where post': "cs = pre @ post'" "seg m' q post' 0" by blast
    then obtain k' rest where "post' = (a, k') # rest" using q(2,3) by (cases post') auto
    then have b: "(a, k') \<in> set cs" using post'(1) by simp
    then have "16 \<le> k'" using heap_wf_block [OF cs, of "(a, k')"] by simp
    then show ?thesis using b short c(3,4) by (fastforce simp: unshared_def)
  qed
  moreover have "m' x = bytes s x" if "\<not> free_addr bs x" for x
    using that frame [of x] c(1) by (auto simp: free_addr_def)
  moreover have "malloc n s = ret (q + ?K - n, s\<lparr>bytes := m'\<rparr>)" using search q(2) m'(1) by (simp add: malloc_def)
  moreover have "unat (q + ?K - n) = p + 8" using m'(2) q(3,4) c(3,4) by simp
  ultimately show thesis using that m'(3) by blast
qed

lemma malloc_exhausted:
  assumes wf: "heap_wf lo hi bs s" and small: "unat n + 8 < lo" and none: "carve (unat n + 8) bs = None"
  shows "malloc n s = stop (Abort ''Heap out of space'')"
proof -
  have "lo \<le> hi" "hi < 18446744073709551616"
    using wf by (cases bs; auto simp: heap_wf_def)+
  moreover have "seg (bytes s) (free_mem_next s) bs 0" "\<forall>b \<in> set bs. snd b < unat n + 8"
    using wf none by (auto simp: heap_wf_def carve_None)
  ultimately obtain prev' where
    "malloc_search (bytes s) n 0 (free_mem_next s) = malloc_search (bytes s) n prev' 0"
    using malloc_search_skip [of "bytes s" "free_mem_next s" bs 0 n 0] small by auto
  then show ?thesis by (simp add: malloc_def malloc_search_stop)
qed

subsection \<open>Giving a block back\<close>

lemma free_search_skip:
  assumes "seg m p pre q" "\<forall>b \<in> set pre. fst b < unat ptr"
  shows "\<exists>prev'. free_search m ptr prev p = free_search m ptr prev' q"
  using assms
proof (induction pre arbitrary: p prev)
  case Nil
  then show ?case by auto
next
  case (Cons b pre)
  then have "free_search m ptr prev p = free_search m ptr p (load64 m p)"
    by (subst free_search.simps) (simp add: word_less_nat_alt)
  with Cons.IH [of "load64 m p" p] Cons.prems show ?case by simp
qed

lemma free_search_found:
  assumes "seg m p pre q" "\<forall>b \<in> set pre. fst b < unat ptr" "q \<noteq> 0" "unat q < unat ptr"
    "seg m (load64 m q) post 0" "\<forall>b \<in> set post. unat ptr \<le> fst b"
  shows "free_search m ptr prev p = Some q"
proof -
  obtain prev' where "free_search m ptr prev p = free_search m ptr prev' q"
    using free_search_skip [OF assms(1,2)] by blast
  also have "\<dots> = free_search m ptr q (load64 m q)"
    using assms(3,4) by (subst free_search.simps) (simp add: word_less_nat_alt)
  also have "\<dots> = Some q"
    using assms(5,6) by (cases post) (auto simp: free_search.simps [of m ptr q] word_less_nat_alt)
  finally show ?thesis .
qed

lemma free_merge_adjacent:
  assumes g: "unat g = ga" "load64 m g = r" "g + load64 m (g + 8) = r"
    and r: "unat r = c" and nw: "ga + 16 \<le> c" "c + 16 \<le> 18446744073709551616"
  shows "load64 (free_merge g m) g = load64 m r"
    "load64 (free_merge g m) (g + 8) = load64 m (g + 8) + load64 m (r + 8)"
    "\<And>x. unat x < ga \<or> ga + 16 \<le> unat x \<Longrightarrow> unat x < c \<or> c + 16 \<le> unat x \<Longrightarrow> free_merge g m x = m x"
proof -
  define m3 where "m3 = store64 m (g + 8) (load64 m (g + 8) + load64 m (r + 8))"
  define m4 where "m4 = store64 m3 g (load64 m3 (load64 m3 g))"
  define m5 where "m5 = store64 (store64 m4 r 0) (r + 8) 0"
  have fm: "free_merge g m = m5"
    using g by (simp add: free_merge_def Let_def m3_def m4_def m5_def)
  have u8: "unat (g + 8) = ga + 8" "unat (r + 8) = c + 8"
    using g r nw by (subst unat_u64_add; simp)+
  have ap: "apart g 16 r 16"
    by (rule apart_no_wrap) (use g r nw in auto)
  have aps: "apart r 8 (g + 8) 8" "apart g 8 r 8" "apart g 8 (r + 8) 8" "apart (g + 8) 8 r 8"
    "apart (g + 8) 8 (r + 8) 8"
    using apart_field [OF ap, of 0 8 0 8] apart_field [OF ap, of 0 8 8 8]
      apart_field [OF ap, of 8 8 0 8] apart_field [OF ap, of 8 8 8 8] by (simp_all add: apart_sym)
  have m3: "load64 m3 g = r" "load64 m3 r = load64 m r"
    using aps(1) g(2) by (simp_all add: m3_def)
  show "load64 (free_merge g m) g = load64 m r"
    using aps m3 by (simp add: fm m5_def m4_def)
  show "load64 (free_merge g m) (g + 8) = load64 m (g + 8) + load64 m (r + 8)"
    using aps m3 by (simp add: fm m5_def m4_def) (simp add: m3_def)
  show "free_merge g m x = m x" if "unat x < ga \<or> ga + 16 \<le> unat x" "unat x < c \<or> c + 16 \<le> unat x" for x
  proof -
    have n1: "unat g + 8 \<le> 18446744073709551616" "unat (g + 8) + 8 \<le> 18446744073709551616"
      "unat r + 8 \<le> 18446744073709551616" "unat (r + 8) + 8 \<le> 18446744073709551616"
      using g r u8 nw by simp_all
    have "x \<notin> span g 8" "x \<notin> span (g + 8) 8" "x \<notin> span r 8" "x \<notin> span (r + 8) 8"
      unfolding span_no_wrap [OF n1(1)] span_no_wrap [OF n1(2)] span_no_wrap [OF n1(3)] span_no_wrap [OF n1(4)]
      using that u8 g(1) r by linarith+
    then show ?thesis by (simp add: fm m5_def m4_def m3_def store64_outside del: mem_span)
  qed
qed

lemma free_merge_seg:
  assumes g: "g \<noteq> 0" "unat g = ga" "unat (load64 m (g + 8)) = gs" "16 \<le> gs"
    and post: "seg m (load64 m g) post 0" "spaced l post hi" "\<forall>b \<in> set post. ga + gs \<le> fst b"
    and hi: "ga + gs \<le> hi" "hi < 18446744073709551616"
  shows "seg (free_merge g m) g (absorb (ga, gs) post) 0 \<and>
    (\<forall>x. unat x < ga \<or> ga + 16 \<le> unat x \<longrightarrow> \<not> free_addr post x \<longrightarrow> free_merge g m x = m x)"
proof -
  let ?r = "load64 m g"
  have un: "unat (g + load64 m (g + 8)) = ga + gs"
    using g hi by (subst unat_u64_add) auto
  show ?thesis
  proof (cases "\<exists>j rest. post = (ga + gs, j) # rest")
    case False
    then have "g + load64 m (g + 8) \<noteq> ?r"
      using un g post(1) by (cases post) auto
    moreover have "absorb (ga, gs) post = (ga, gs) # post"
      using False by (cases post) auto
    ultimately show ?thesis using g post by (simp add: free_merge_def)
  next
    case True
    then obtain j rest where p: "post = (ga + gs, j) # rest" by blast
    have r: "?r \<noteq> 0" "unat ?r = ga + gs" "unat (load64 m (?r + 8)) = j" "seg m (load64 m ?r) rest 0"
      using post(1) p by auto
    have j: "16 \<le> j" "ga + gs + j \<le> hi"
      "\<forall>d \<in> set rest. ga + gs + j < fst d \<and> 16 \<le> snd d \<and> fst d + snd d \<le> hi"
      using post(2) p by (auto simp: spaced_iff)
    have eq: "g + load64 m (g + 8) = ?r"
      using un r(2) by (simp add: word_eq_iff_unat)
    note adj = free_merge_adjacent [OF g(2) refl eq r(2)]
    have adj': "load64 (free_merge g m) g = load64 m ?r"
      "load64 (free_merge g m) (g + 8) = load64 m (g + 8) + load64 m (?r + 8)"
      "\<And>x. unat x < ga \<or> ga + 16 \<le> unat x \<Longrightarrow> unat x < ga + gs \<or> ga + gs + 16 \<le> unat x \<Longrightarrow> free_merge g m x = m x"
      using adj g(4) j hi by auto
    have "seg (free_merge g m) (load64 m ?r) rest 0"
      by (rule seg_frame [OF r(4)]) (use adj'(3) j g(4) hi in fastforce)+
    moreover have "unat (load64 m (g + 8) + load64 m (?r + 8)) = gs + j"
      using g r j hi by (subst unat_u64_add) auto
    ultimately have "seg (free_merge g m) g (absorb (ga, gs) post) 0"
      using p g adj' by simp
    moreover have "free_merge g m x = m x" if "unat x < ga \<or> ga + 16 \<le> unat x" "\<not> free_addr post x" for x
      by (rule adj'(3)) (use that p j in \<open>auto simp: free_addr_def\<close>)
    ultimately show ?thesis by blast
  qed
qed

text \<open>The memory before the merge step, in the two cases of the code.\<close>

lemma free_clear:
  assumes "unat u + unat (load64 m u) < 18446744073709551616" "8 \<le> unat (load64 m u)"
    and m1: "m1 = memset (u + 8) 0 (load64 m u - 8) m"
  shows "\<And>x. unat x < unat u + 8 \<or> unat u + unat (load64 m u) \<le> unat x \<Longrightarrow> m1 x = m x"
    "load64 m1 u = load64 m u"
proof -
  have u8: "unat (u + 8) = unat u + 8"
    using assms unat_u64_lt [of u] by (subst unat_u64_add) auto
  have n8: "unat (load64 m u - 8) = unat (load64 m u) - 8"
    using assms by (subst unat_sub_no_wrap) auto
  have nw: "unat (u + 8) + unat (load64 m u - 8) \<le> 18446744073709551616"
    using u8 n8 assms by linarith
  show out: "m1 x = m x" if "unat x < unat u + 8 \<or> unat u + unat (load64 m u) \<le> unat x" for x
  proof -
    have "x \<notin> span (u + 8) (unat (load64 m u - 8))"
      unfolding span_no_wrap [OF nw] using that u8 n8 assms(2) by linarith
    then show ?thesis unfolding m1 by (rule memset_outside)
  qed
  show "load64 m1 u = load64 m u"
    by (rule load64_cong_unat) (use assms out in auto)
qed

text \<open>
  \<open>free_put\<close> at a block \<open>u\<close> of length \<open>n\<close> whose predecessor in the list is \<open>q\<close>: the list from
  \<open>q\<close> on, and the bytes outside.
\<close>

lemma free_put_touching:
  assumes q: "q \<noteq> 0" "unat q = a" "unat (load64 m (q + 8)) = k" "seg m (load64 m q) post 0" "16 \<le> k"
    and u: "unat u = a + k" "unat (load64 m u) = n" "8 \<le> n" "a + k + n \<le> hi"
    and post: "spaced l post hi" "\<forall>b \<in> set post. a + k + n \<le> fst b" and hi: "hi < 18446744073709551616"
  shows "seg (free_put (u + 8) q m) q (absorb (a, k + n) post) 0 \<and>
    (\<forall>x. unat x < a \<or> a + 16 \<le> unat x \<longrightarrow> unat x < unat u \<or> unat u + n \<le> unat x \<longrightarrow>
      \<not> free_addr post x \<longrightarrow> free_put (u + 8) q m x = m x)"
proof -
  define m1 where "m1 = memset (u + 8) 0 (load64 m u - 8) m"
  have m1: "\<And>x. unat x < unat u + 8 \<or> unat u + n \<le> unat x \<Longrightarrow> m1 x = m x" "load64 m1 u = load64 m u"
    using free_clear [of u m m1] u hi by (auto simp: m1_def)
  define m2 where "m2 = store64 m1 (q + 8) (load64 m1 (q + 8) + load64 m1 u)"
  have q8: "unat (q + 8) = a + 8"
    using q u hi by (subst unat_u64_add) auto
  have hq: "load64 m1 q = load64 m q \<and> load64 m1 (q + 8) = load64 m (q + 8)"
    by (rule header_cong) (use q u hi m1(1) in auto)
  have join: "q + load64 m1 (q + 8) = u"
    using q u hi hq by (simp add: word_eq_iff_unat unat_u64_add)
  then have fp: "free_put (u + 8) q m = free_merge q m2"
    by (simp add: free_put_def Let_def m1_def [symmetric] m2_def)
  have m2: "m2 x = m x" if "unat x < a + 8 \<or> a + 16 \<le> unat x" "unat x < unat u + 8 \<or> unat u + n \<le> unat x" for x
    unfolding m2_def using that q8 q(5) u hi by (subst store64_far) (auto intro: m1)
  have "unat (load64 m2 (q + 8)) = k + n"
    unfolding m2_def using hq m1(2) q u hi by (simp add: unat_u64_add)
  moreover have l: "load64 m2 q = load64 m q"
    unfolding m2_def using hq by simp
  moreover have "seg m2 (load64 m2 q) post 0"
    unfolding l by (rule seg_frame [OF q(4)]) (use m2 post q u hi in \<open>fastforce simp: spaced_iff\<close>)+
  ultimately show ?thesis
    unfolding fp using free_merge_seg [of q a m2 "k + n" post l hi] q u post hi m2
    by (auto simp: add.assoc)
qed

text \<open>The memory before the merge step, when no free block ends at \<open>u\<close>.\<close>

lemma free_put_before_merge:
  assumes q: "unat q = a" "unat (load64 m (q + 8)) = k" "16 \<le> k"
    and u: "a + k < unat u" "unat (load64 m u) = n" "8 \<le> n" "unat u + n < 18446744073709551616" "unat u + 16 \<le> 18446744073709551616"
  defines "m1 \<equiv> memset (u + 8) 0 (load64 m u - 8) m"
  defines "m2 \<equiv> store64 (store64 (store64 m1 u (load64 m1 q)) (u + 8) (load64 m1 u)) q u"
  shows "free_put (u + 8) q m = free_merge u m2"
    "load64 m2 u = load64 m q" "load64 m2 (u + 8) = load64 m u" "load64 m2 q = u" "load64 m2 (q + 8) = load64 m (q + 8)"
    "unat x < a \<or> a + 8 \<le> unat x \<Longrightarrow> unat x < unat u \<or> unat u + n \<le> unat x \<and> unat u + 16 \<le> unat x \<Longrightarrow> m2 x = m x"
proof -
  have m1: "\<And>x. unat x < unat u + 8 \<or> unat u + n \<le> unat x \<Longrightarrow> m1 x = m x" "load64 m1 u = load64 m u"
    using free_clear [of u m m1] u by (auto simp: m1_def)
  have u8: "unat (u + 8) = unat u + 8" "unat (q + 8) = a + 8"
    using q u by (subst unat_u64_add; simp)+
  have hq: "load64 m1 q = load64 m q \<and> load64 m1 (q + 8) = load64 m (q + 8)"
    by (rule header_cong) (use q u m1(1) in auto)
  have ap: "apart q 16 u 16"
    by (rule apart_no_wrap) (use q u in auto)
  have aps: "apart u 8 q 8" "apart (u + 8) 8 q 8" "apart (q + 8) 8 u 8" "apart (q + 8) 8 (u + 8) 8"
    using apart_field [OF ap, of 0 8 0 8] apart_field [OF ap, of 0 8 8 8]
      apart_field [OF ap, of 8 8 0 8] apart_field [OF ap, of 8 8 8 8] by (simp_all add: apart_sym)
  have "unat (q + load64 m1 (q + 8)) = a + k"
    using q u hq by (subst unat_u64_add) auto
  then have "q + load64 m1 (q + 8) \<noteq> u"
    using u(1) by auto
  then show "free_put (u + 8) q m = free_merge u m2"
    by (simp add: free_put_def Let_def m1_def [symmetric] m2_def)
  show "load64 m2 u = load64 m q" "load64 m2 (u + 8) = load64 m u" "load64 m2 q = u" "load64 m2 (q + 8) = load64 m (q + 8)"
    unfolding m2_def using aps hq m1(2) by simp_all
  show "m2 x = m x" if "unat x < a \<or> a + 8 \<le> unat x" "unat x < unat u \<or> unat u + n \<le> unat x \<and> unat u + 16 \<le> unat x"
  proof -
    have "m2 x = m1 x"
      unfolding m2_def using that q(1) u u8 by (elim disjE) (simp_all add: store64_far)
    then show ?thesis using that(2) m1(1) [of x] by auto
  qed
qed

lemma free_put_apart:
  assumes q: "q \<noteq> 0" "unat q = a" "unat (load64 m (q + 8)) = k" "seg m (load64 m q) post 0" "16 \<le> k"
    and u: "a + k < unat u" "unat (load64 m u) = n" "16 \<le> n" "unat u + n \<le> hi"
    and post: "spaced l post hi" "\<forall>b \<in> set post. unat u + n \<le> fst b" and hi: "hi < 18446744073709551616"
  shows "seg (free_put (u + 8) q m) q ((a, k) # absorb (unat u, n) post) 0 \<and>
    (\<forall>x. unat x < a \<or> a + 16 \<le> unat x \<longrightarrow> unat x < unat u \<or> unat u + n \<le> unat x \<longrightarrow>
      \<not> free_addr post x \<longrightarrow> free_put (u + 8) q m x = m x)"
proof -
  define m1 where "m1 = memset (u + 8) 0 (load64 m u - 8) m"
  define m2 where "m2 = store64 (store64 (store64 m1 u (load64 m1 q)) (u + 8) (load64 m1 u)) q u"
  have wide: "8 \<le> n" "unat u + n < 18446744073709551616" "unat u + 16 \<le> 18446744073709551616" using u hi by auto
  note before = free_put_before_merge [OF q(2,3,5) u(1,2) wide, folded m1_def, folded m2_def]
  note fp = before(1) and l = before(2-5)
  have m2: "m2 x = m x" if "unat x < a \<or> a + 8 \<le> unat x" "unat x < unat u \<or> unat u + n \<le> unat x" for x
    using that u(3) by (intro before(6)) auto
  have "seg m2 (load64 m2 u) post 0"
    unfolding l by (rule seg_frame [OF q(4)]) (use m2 post q u hi in \<open>fastforce simp: spaced_iff\<close>)+
  then have mg: "seg (free_merge u m2) u (absorb (unat u, n) post) 0 \<and>
      (\<forall>x. unat x < unat u \<or> unat u + 16 \<le> unat x \<longrightarrow> \<not> free_addr post x \<longrightarrow> free_merge u m2 x = m2 x)"
    by (intro free_merge_seg) (use l u post hi in auto)
  have "load64 (free_merge u m2) q = load64 m2 q \<and> load64 (free_merge u m2) (q + 8) = load64 m2 (q + 8)"
  proof (rule header_cong)
    fix x :: u64
    assume "unat q \<le> unat x" "unat x < unat q + 16"
    moreover from this have "\<not> free_addr post x"
      using post(2) q(2,5) u(1) by (fastforce simp: free_addr_def)
    ultimately show "free_merge u m2 x = m2 x"
      using mg q(2,5) u(1) by simp
  qed (use q u hi in simp)
  then show ?thesis
    unfolding fp using mg l q u m2 by auto
qed

lemma free_refines_any:
  assumes wf: "heap_wf lo hi bs s" and N: "unat (load64 (bytes s) u) = n" and n: "8 \<le> n"
    and size: "16 \<le> n \<or> (\<exists>b \<in> set bs. fst b + snd b = unat u)"
    and u: "lo \<le> unat u" "unat u + n \<le> hi" "unshared (unat u, n) bs"
  obtains m' where "free (u + 8) s = ret (s\<lparr>bytes := m'\<rparr>)"
    "heap_wf lo hi (release (unat u, n) bs) (s\<lparr>bytes := m'\<rparr>)"
    "\<And>x. \<not> free_addr bs x \<Longrightarrow> unat x < unat u \<or> unat u + n \<le> unat x \<Longrightarrow> m' x = bytes s x"
proof -
  have sp: "spaced lo bs hi" "bs \<noteq> []" "fst (hd bs) = lo" "0 < lo" "hi < 18446744073709551616"
    using wf by (auto simp: heap_wf_def)
  obtain pre a k post where ip: "bs = pre @ (a, k) # post" "a + k \<le> unat u"
    "\<forall>b \<in> set pre. fst b + snd b < a" "\<forall>b \<in> set post. unat u + n \<le> fst b"
    by (rule insertion_point [OF sp(1-3) u(1) _ u(3)]) (use n in auto)
  obtain q where q: "seg (bytes s) (free_mem_next s) pre q" "q \<noteq> 0" "unat q = a"
    "unat (load64 (bytes s) (q + 8)) = k" "seg (bytes s) (load64 (bytes s) q) post 0" "16 \<le> k" "a + k \<le> hi"
    using heap_wf_split [of lo hi pre a k post s] wf ip(1) by blast
  have blocks: "\<And>b. b \<in> set bs \<Longrightarrow> lo \<le> fst b \<and> 16 \<le> snd b \<and> fst b + snd b \<le> hi"
    using heap_wf_block [OF wf] by blast
  have u8: "unat (u + 8) = unat u + 8"
    using u n sp(5) by (subst unat_u64_add) auto
  let ?m' = "free_put (u + 8) q (bytes s)"
  have "free_search (bytes s) (u + 8) 0 (free_mem_next s) = Some q"
    by (rule free_search_found [OF q(1) _ q(2) _ q(5)]) (use ip q u8 n in fastforce)+
  then have run: "free (u + 8) s = ret (s\<lparr>bytes := ?m'\<rparr>)"
    using q(2) by (simp add: free_def)
  have postsp: "spaced lo post hi"
    using sp(1) ip(1) by (auto simp: spaced_iff sorted_wrt_append)
  let ?tail = "if a + k = unat u then absorb (a, k + n) post else (a, k) # absorb (unat u, n) post"
  have put: "seg ?m' q ?tail 0 \<and>
    (\<forall>x. unat x < a \<or> a + 16 \<le> unat x \<longrightarrow> unat x < unat u \<or> unat u + n \<le> unat x \<longrightarrow>
      \<not> free_addr post x \<longrightarrow> ?m' x = bytes s x)"
  proof (cases "a + k = unat u")
    case True
    then show ?thesis
      using free_put_touching [OF q(2-6) _ N n _ postsp _ sp(5)] ip u by simp
  next
    case False
    then have n: "16 \<le> n" using size ip n by fastforce
    from False show ?thesis
      using free_put_apart [OF q(2-6) _ N n u(2) postsp _ sp(5)] ip by simp
  qed
  have "post = [] \<or> unat u < fst (hd post)"
    using ip(4) n by (cases post) auto
  then have rel: "release (unat u, n) bs = pre @ ?tail"
    using release_split [OF ip(3,2)] ip(1) by simp
  have "seg ?m' (free_mem_next s) pre q"
  proof (rule seg_frame [OF q(1)])
    fix b and x :: u64
    assume b: "b \<in> set pre" "fst b \<le> unat x" "unat x < fst b + 16"
    have "fst b + snd b < a" "16 \<le> snd b" using ip(1,3) b(1) blocks [of b] by auto
    then have x: "unat x < a" using b by linarith
    then have "\<not> free_addr post x"
      using ip(2,4) by (fastforce simp: free_addr_def)
    then show "?m' x = bytes s x"
      using put x ip(2) by simp
  qed (use blocks ip(1) sp(5) in fastforce)
  then have "seg ?m' (free_mem_next s) (release (unat u, n) bs) 0"
    using put rel by (auto simp: seg_append)
  then have "heap_wf lo hi (release (unat u, n) bs) (s\<lparr>bytes := ?m'\<rparr>)"
    using release_wf [OF sp(1-3) u(1) _ u(2,3) size] n sp(4,5) by (simp add: heap_wf_def)
  moreover have "?m' x = bytes s x" if "\<not> free_addr bs x" "unat x < unat u \<or> unat u + n \<le> unat x" for x
    using that put ip(1) q(6) by (auto simp: free_addr_def)
  ultimately show thesis using that run by blast
qed

lemma free_refines:
  assumes "heap_wf lo hi bs s" "unat (load64 (bytes s) u) = n" "16 \<le> n" "lo \<le> unat u" "unat u + n \<le> hi" "unshared (unat u, n) bs"
  obtains m' where "free (u + 8) s = ret (s\<lparr>bytes := m'\<rparr>)"
    "heap_wf lo hi (release (unat u, n) bs) (s\<lparr>bytes := m'\<rparr>)"
    "\<And>x. \<not> free_addr bs x \<Longrightarrow> unat x < unat u \<or> unat u + n \<le> unat x \<Longrightarrow> m' x = bytes s x"
  using free_refines_any [OF assms(1,2) _ _ assms(4-6)] assms(3) by auto

lemma free_returns:
  assumes wf: "heap_wf lo hi bs s" and n: "unat (load64 (bytes s) u) = n" "8 \<le> n"
    and u: "lo \<le> unat u" "unat u + n \<le> hi" "unshared (unat u, n) bs"
  obtains m' where "free (u + 8) s = ret (s\<lparr>bytes := m'\<rparr>)"
proof -
  have sp: "spaced lo bs hi" "bs \<noteq> []" "fst (hd bs) = lo" "hi < 18446744073709551616"
    using wf by (auto simp: heap_wf_def)
  obtain pre a k post where ip: "bs = pre @ (a, k) # post" "a + k \<le> unat u"
    "\<forall>b \<in> set pre. fst b + snd b < a" "\<forall>b \<in> set post. unat u + n \<le> fst b"
    by (rule insertion_point [OF sp(1-3) u(1) _ u(3)]) (use n in auto)
  obtain q where q: "seg (bytes s) (free_mem_next s) pre q" "q \<noteq> 0" "unat q = a" "seg (bytes s) (load64 (bytes s) q) post 0"
    using heap_wf_split [OF wf [unfolded ip(1)]] by metis
  have u8: "unat (u + 8) = unat u + 8" using u n(2) sp(4) by (subst unat_u64_add) auto
  have "\<forall>b \<in> set pre. fst b < unat (u + 8)" "unat q < unat (u + 8)" using ip(2,3) u8 q(3) by fastforce+
  moreover have "\<forall>b \<in> set post. unat (u + 8) \<le> fst b" using ip(4) u8 n(2) by fastforce
  ultimately have "free_search (bytes s) (u + 8) 0 (free_mem_next s) = Some q"
    using free_search_found [OF q(1) _ q(2) _ q(4)] by blast
  then have "free (u + 8) s = ret (s\<lparr>bytes := free_put (u + 8) q (bytes s)\<rparr>)" using q(2) by (simp add: free_def)
  then show thesis by (rule that)
qed

text \<open>
  A block of fewer than 16 bytes that touches no free block gets a header that does not fit it: the last bytes of the header
  lie in what follows, and the list has a block that is too short.
\<close>

lemma free_short:
  assumes wf: "heap_wf lo hi bs s" and N: "unat (load64 (bytes s) u) = n" and n: "8 \<le> n" "n < 16"
    and u: "lo \<le> unat u" "unat u + n \<le> hi" "unshared (unat u, n) bs" "unat u + 16 \<le> 18446744073709551616"
    and gap: "\<forall>b \<in> set bs. fst b + snd b \<noteq> unat u \<and> fst b \<noteq> unat u + n"
  obtains m' where "free (u + 8) s = ret (s\<lparr>bytes := m'\<rparr>)" "load64 m' (u + 8) = of_nat n"
    "\<And>cs. \<not> heap_wf lo hi cs (s\<lparr>bytes := m'\<rparr>)"
proof -
  let ?m = "bytes s"
  have sp: "spaced lo bs hi" "bs \<noteq> []" "fst (hd bs) = lo" "0 < lo" "hi < 18446744073709551616"
    using wf by (auto simp: heap_wf_def)
  obtain pre a k post where ip: "bs = pre @ (a, k) # post" "a + k \<le> unat u"
    "\<forall>b \<in> set pre. fst b + snd b < a" "\<forall>b \<in> set post. unat u + n \<le> fst b"
    by (rule insertion_point [OF sp(1-3) u(1) _ u(3)]) (use n in auto)
  obtain q where q: "seg ?m (free_mem_next s) pre q" "q \<noteq> 0" "unat q = a"
    "unat (load64 ?m (q + 8)) = k" "seg ?m (load64 ?m q) post 0" "16 \<le> k" "a + k \<le> hi"
    using heap_wf_split [of lo hi pre a k post s] wf ip(1) by blast
  have ak: "a + k < unat u" using gap ip(1,2) by (fastforce simp: le_less)
  have nw: "unat u + n < 18446744073709551616" using u(2) sp(5) by simp
  define m1 where "m1 = memset (u + 8) 0 (load64 ?m u - 8) ?m"
  define m2 where "m2 = store64 (store64 (store64 m1 u (load64 m1 q)) (u + 8) (load64 m1 u)) q u"
  note before = free_put_before_merge [OF q(3,4,6) ak N n(1) nw u(4), folded m1_def, folded m2_def]
  have hdr: "load64 ?m u = of_nat n" using N by (metis of_nat_unat ucast_id)
  have "unat (u + of_nat n) = unat u + n"
    using n nw by (subst unat_u64_add; subst unat_of_nat_u64) auto
  moreover have "load64 ?m q = 0 \<or> unat (load64 ?m q) \<noteq> unat u + n"
    using q(5) gap ip(1) by (cases post) auto
  ultimately have "u + load64 m2 (u + 8) \<noteq> load64 m2 u" using n before(2,3) hdr by auto
  then have put: "free_put (u + 8) q ?m = m2" using before(1) by (simp add: free_merge_def)
  have blocks: "\<And>b. b \<in> set bs \<Longrightarrow> lo \<le> fst b \<and> 16 \<le> snd b \<and> fst b + snd b \<le> hi"
    using heap_wf_block [OF wf] by blast
  have pre: "seg m2 (free_mem_next s) pre q"
    by (rule seg_frame [OF q(1)]) (use before(6) ak blocks ip(1,3) sp(5) in fastforce)+
  have "\<not> heap_wf lo hi cs (s\<lparr>bytes := m2\<rparr>)" for cs
  proof
    assume cs: "heap_wf lo hi cs (s\<lparr>bytes := m2\<rparr>)"
    then have "seg m2 (free_mem_next s) cs 0" by (simp add: heap_wf_def)
    from seg_prefix [OF pre q(2) this] obtain post' where post': "cs = pre @ post'" "seg m2 q post' 0" by blast
    then obtain rest where "post' = (a, k) # rest" "seg m2 u rest 0"
      using q(2,3,4) before(4,5) by (cases post') auto
    moreover from this obtain rest' where "rest = (unat u, n) # rest'"
      using ak before(3) N by (cases rest) auto
    ultimately have "(unat u, n) \<in> set cs" using post'(1) by simp
    then show False using heap_wf_block [OF cs] n(2) by fastforce
  qed
  moreover have "unat (u + 8) = unat u + 8" using u n sp(5) by (subst unat_u64_add) auto
  then have "free_search ?m (u + 8) 0 (free_mem_next s) = Some q"
    by (intro free_search_found [OF q(1) _ q(2) _ q(5)]) (use ip q n in fastforce)+
  then have "free (u + 8) s = ret (s\<lparr>bytes := m2\<rparr>)" using q(2) put by (simp add: free_def)
  ultimately show thesis using that before(3) hdr by metis
qed

section \<open>The fresh heap\<close>

lemma init_heap_wf:
  assumes "start \<noteq> 0" "16 \<le> unat n" "unat start + unat n < 18446744073709551616"
  shows "heap_wf (unat start) (unat start + unat n) [(unat start, unat n)] (init_heap start n s)"
  using assms by (simp add: heap_wf_def init_heap_def unat_gt_0)

section \<open>The allocator as the other components see it\<close>

text \<open>
  \<open>alloc n s\<close> returns \<open>n\<close> zeroed bytes that no one owns and keeps every byte already owned;
  \<open>inv s U\<close> says that the allocator is well-formed and leaves the addresses \<open>U\<close> alone, and
  \<open>budget s\<close> how much it can still hand out. Writing to owned memory does not disturb it.
\<close>

locale allocator =
  fixes alloc :: "u64 \<Rightarrow> 'a machine_scheme \<Rightarrow> (u64 \<times> 'a machine_scheme) run"
    and inv :: "'a machine_scheme \<Rightarrow> u64 set \<Rightarrow> bool"
    and budget :: "'a machine_scheme \<Rightarrow> nat"
  assumes alloc_law: "inv s U \<Longrightarrow> unat n + 24 \<le> budget s \<Longrightarrow>
      \<exists>p m'. alloc n s = ret (p, s\<lparr>bytes := m'\<rparr>) \<and> p \<noteq> 0 \<and> unat p + unat n < 18446744073709551616 \<and>
        span p (unat n) \<inter> U = {} \<and> inv (s\<lparr>bytes := m'\<rparr>) (U \<union> span p (unat n)) \<and>
        budget (s\<lparr>bytes := m'\<rparr>) = budget s - (unat n + 8) \<and>
        (\<forall>x \<in> U. m' x = bytes s x) \<and> (\<forall>x \<in> span p (unat n). m' x = 0)"
    and inv_write: "inv s U \<Longrightarrow> (\<And>x. x \<notin> U \<Longrightarrow> m' x = bytes s x) \<Longrightarrow>
      inv (s\<lparr>bytes := m'\<rparr>) U \<and> budget (s\<lparr>bytes := m'\<rparr>) = budget s"
    and inv_subset: "inv s U \<Longrightarrow> V \<subseteq> U \<Longrightarrow> inv s V"
begin

lemma allocE:
  assumes "inv s U" "unat n + 24 \<le> budget s"
  obtains p m' where "alloc n s = ret (p, s\<lparr>bytes := m'\<rparr>)" "p \<noteq> 0"
    "unat p + unat n < 18446744073709551616" "span p (unat n) \<inter> U = {}"
    "inv (s\<lparr>bytes := m'\<rparr>) (U \<union> span p (unat n))" "budget (s\<lparr>bytes := m'\<rparr>) = budget s - (unat n + 8)"
    "\<And>x. x \<in> U \<Longrightarrow> m' x = bytes s x" "\<And>x. x \<in> span p (unat n) \<Longrightarrow> m' x = 0"
  using alloc_law [OF assms] by blast

text \<open>Two allocations in a row never overlap.\<close>

lemma alloc_twice:
  assumes "inv s U" "unat n + unat k + 32 \<le> budget s" "0 < n" "0 < k"
  obtains p q s1 s2 where "alloc n s = ret (p, s1)" "alloc k s1 = ret (q, s2)" "apart p (unat n) q (unat k)"
    "inv s2 (U \<union> span p (unat n) \<union> span q (unat k))"
proof -
  obtain p m1 where p: "alloc n s = ret (p, s\<lparr>bytes := m1\<rparr>)"
    "inv (s\<lparr>bytes := m1\<rparr>) (U \<union> span p (unat n))" "budget (s\<lparr>bytes := m1\<rparr>) = budget s - (unat n + 8)"
    using allocE [OF assms(1), of n thesis] assms(2) by auto
  have "unat k + 24 \<le> budget (s\<lparr>bytes := m1\<rparr>)"
    using p(3) assms(2) by linarith
  then obtain q m2 where q: "alloc k (s\<lparr>bytes := m1\<rparr>) = ret (q, s\<lparr>bytes := m2\<rparr>)"
    "span q (unat k) \<inter> (U \<union> span p (unat n)) = {}"
    "inv (s\<lparr>bytes := m2\<rparr>) (U \<union> span p (unat n) \<union> span q (unat k))"
    using allocE [OF p(2), of k thesis] by auto
  have "apart p (unat n) q (unat k)"
    using q(2) assms(3,4) by (intro span_apart) (auto simp: unat_gt_0 simp del: mem_span)
  with p(1) q(1,3) show thesis using that by blast
qed

end

text \<open>
  A scratch buffer: what is allocated, written and released again leaves the allocator as it
  was, with every owned byte untouched. \<open>dealloc\<close> must find the block as \<open>alloc\<close> left it but for
  its contents.
\<close>

locale scratch_allocator = allocator alloc inv budget
  for alloc :: "u64 \<Rightarrow> 'a machine_scheme \<Rightarrow> (u64 \<times> 'a machine_scheme) run" and inv budget +
  fixes dealloc :: "u64 \<Rightarrow> 'a machine_scheme \<Rightarrow> 'a machine_scheme run"
  assumes scratch_law: "inv s U \<Longrightarrow> unat n + 24 \<le> budget s \<Longrightarrow> 8 \<le> unat n \<Longrightarrow>
      \<exists>p m'. alloc n s = ret (p, s\<lparr>bytes := m'\<rparr>) \<and> span p (unat n) \<inter> U = {} \<and>
        (\<forall>x \<in> U. m' x = bytes s x) \<and>
        (\<forall>m2. (\<forall>x. x \<notin> span p (unat n) \<longrightarrow> m2 x = m' x) \<longrightarrow>
          (\<exists>m3. dealloc p (s\<lparr>bytes := m2\<rparr>) = ret (s\<lparr>bytes := m3\<rparr>) \<and> inv (s\<lparr>bytes := m3\<rparr>) U \<and>
            budget (s\<lparr>bytes := m3\<rparr>) = budget s \<and> (\<forall>x \<in> U. m3 x = bytes s x)))"
begin

lemma scratchE:
  assumes "inv s U" "unat n + 24 \<le> budget s" "8 \<le> unat n"
  obtains p m' where "alloc n s = ret (p, s\<lparr>bytes := m'\<rparr>)" "span p (unat n) \<inter> U = {}"
    "\<And>x. x \<in> U \<Longrightarrow> m' x = bytes s x"
    "\<And>m2. (\<And>x. x \<notin> span p (unat n) \<Longrightarrow> m2 x = m' x) \<Longrightarrow>
      \<exists>m3. dealloc p (s\<lparr>bytes := m2\<rparr>) = ret (s\<lparr>bytes := m3\<rparr>) \<and> inv (s\<lparr>bytes := m3\<rparr>) U \<and>
        budget (s\<lparr>bytes := m3\<rparr>) = budget s \<and> (\<forall>x \<in> U. m3 x = bytes s x)"
  using scratch_law [OF assms] by blast

end

definition heap_budget :: "'a heap_state_scheme \<Rightarrow> nat" where
  "heap_budget s = unat (load64 (bytes s) (free_mem_next s + 8))"

definition heap_inv :: "nat \<Rightarrow> nat \<Rightarrow> 'a heap_state_scheme \<Rightarrow> u64 set \<Rightarrow> bool" where
  "heap_inv lo hi s U \<longleftrightarrow>
     (\<exists>bs. heap_wf lo hi bs s \<and> hi \<le> 2 * lo \<and> (\<forall>x \<in> U. \<not> free_addr bs x))"

lemma heap_inv_alloc:
  assumes "heap_inv lo hi s U" "unat n + 24 \<le> heap_budget s"
  shows "\<exists>p m'. malloc n s = ret (p, s\<lparr>bytes := m'\<rparr>) \<and> p \<noteq> 0 \<and> unat p + unat n < 18446744073709551616 \<and>
    span p (unat n) \<inter> U = {} \<and> heap_inv lo hi (s\<lparr>bytes := m'\<rparr>) (U \<union> span p (unat n)) \<and>
    heap_budget (s\<lparr>bytes := m'\<rparr>) = heap_budget s - (unat n + 8) \<and>
    (\<forall>x \<in> U. m' x = bytes s x) \<and> (\<forall>x \<in> span p (unat n). m' x = 0)"
proof -
  obtain bs where wf: "heap_wf lo hi bs s" and hi: "hi \<le> 2 * lo" and U: "\<forall>x \<in> U. \<not> free_addr bs x"
    using assms(1) by (auto simp: heap_inv_def)
  obtain a k rest where bs: "bs = (a, k) # rest"
    using wf by (cases bs) (auto simp: heap_wf_def)
  have k: "k = heap_budget s" "a = lo" "a + k \<le> hi" "hi < 18446744073709551616"
    using wf bs by (auto simp: heap_wf_def heap_budget_def)
  have fit: "unat n + 24 \<le> k" using assms(2) k(1) by simp
  let ?bs' = "(a, k - (unat n + 8)) # rest"
  have carve: "carve (unat n + 8) bs = Some (a + k - (unat n + 8), ?bs')" and "roomy (unat n + 8) bs"
    using bs fit by auto
  moreover have "unat n + 8 < lo" using fit k hi by linarith
  ultimately obtain ptr m' where m': "malloc n s = ret (ptr, s\<lparr>bytes := m'\<rparr>)"
    "unat ptr = a + k - (unat n + 8) + 8" "heap_wf lo hi ?bs' (s\<lparr>bytes := m'\<rparr>)"
    "\<And>x. x \<in> span ptr (unat n) \<Longrightarrow> m' x = 0" "\<And>x. \<not> free_addr bs x \<Longrightarrow> m' x = bytes s x"
    using malloc_refines [OF wf] by metis
  have nw: "unat ptr + unat n \<le> 18446744073709551616" "unat ptr + unat n < 18446744073709551616"
    using m'(2) k fit by linarith+
  have sp: "x \<in> span ptr (unat n) \<longleftrightarrow> a + k - unat n \<le> unat x \<and> unat x < a + k" for x
    unfolding span_no_wrap [OF nw(1)] using m'(2) fit by auto
  have rest: "\<forall>b \<in> set rest. a + k < fst b"
    using wf bs by (auto simp: heap_wf_def spaced_iff)
  have "\<not> free_addr ?bs' x" if "x \<in> span ptr (unat n)" for x
    using that rest unfolding sp by (fastforce simp: free_addr_def)
  moreover have "\<not> free_addr ?bs' x" if "x \<in> U" for x
    using U that bs by (fastforce simp: free_addr_def)
  ultimately have "heap_inv lo hi (s\<lparr>bytes := m'\<rparr>) (U \<union> span ptr (unat n))"
    unfolding heap_inv_def using m'(3) hi by blast
  moreover have "span ptr (unat n) \<inter> U = {}"
    using U bs fit sp by (fastforce simp: free_addr_def simp del: mem_span)
  moreover have "heap_budget (s\<lparr>bytes := m'\<rparr>) = k - (unat n + 8)"
    using m'(3) by (simp add: heap_wf_def heap_budget_def)
  moreover have "ptr \<noteq> 0" using m'(2) by auto
  ultimately show ?thesis
    using m'(1,4,5) nw U k(1) by blast
qed

lemma heap_wf_write:
  assumes "heap_wf lo hi bs s" "\<And>x. free_addr bs x \<Longrightarrow> m' x = bytes s x"
  shows "heap_wf lo hi bs (s\<lparr>bytes := m'\<rparr>) \<and> heap_budget (s\<lparr>bytes := m'\<rparr>) = heap_budget s"
proof -
  have "seg m' (free_mem_next s) bs 0"
  proof (rule seg_frame)
    show "seg (bytes s) (free_mem_next s) bs 0" using assms(1) by (simp add: heap_wf_def)
    show "m' x = bytes s x" if "b \<in> set bs" "fst b \<le> unat x" "unat x < fst b + 16" for b and x :: u64
      using that heap_wf_block [OF assms(1), of b] by (intro assms(2)) (force simp: free_addr_def)
  qed (use heap_wf_block [OF assms(1)] in fastforce)
  moreover from this have "heap_budget (s\<lparr>bytes := m'\<rparr>) = heap_budget s"
    using assms(1) by (cases bs) (auto simp: heap_budget_def heap_wf_def word_eq_iff_unat)
  ultimately show ?thesis using assms(1) by (simp add: heap_wf_def)
qed

text \<open>The block that \<open>malloc\<close> carves off the first free one, as a span of addresses.\<close>

lemma scratch_span:
  assumes wf: "heap_wf lo hi ((a, k) # rest) s" and fit: "unat n + 24 \<le> k"
    and ptr: "unat ptr = a + k - (unat n + 8) + 8"
  shows "x \<in> span ptr (unat n) \<longleftrightarrow> a + k - (unat n + 8) + 8 \<le> unat x \<and> unat x < a + k"
    "x \<in> span ptr (unat n) \<Longrightarrow> free_addr ((a, k) # rest) x"
    "x \<in> span ptr (unat n) \<Longrightarrow> \<not> free_addr ((a, k - (unat n + 8)) # rest) x"
proof -
  have k: "a + k \<le> hi" "hi < 18446744073709551616" "\<forall>b \<in> set rest. a + k < fst b"
    using wf by (auto simp: heap_wf_def spaced_iff)
  have nw: "unat ptr + unat n \<le> 18446744073709551616"
    using ptr k(1,2) fit by linarith
  show sp: "x \<in> span ptr (unat n) \<longleftrightarrow> a + k - (unat n + 8) + 8 \<le> unat x \<and> unat x < a + k" for x
    unfolding span_no_wrap [OF nw] using ptr fit by auto
  show "free_addr ((a, k) # rest) x" if "x \<in> span ptr (unat n)"
    using that fit unfolding sp free_addr_def by auto
  show "\<not> free_addr ((a, k - (unat n + 8)) # rest) x" if "x \<in> span ptr (unat n)"
    using that k(3) unfolding sp free_addr_def by fastforce
qed

text \<open>Freeing it restores the list, whatever was written to it.\<close>

lemma scratch_free:
  assumes wf: "heap_wf lo hi ((a, k) # rest) s" and fit: "unat n + 24 \<le> k" and n8: "8 \<le> unat n"
    and ptr: "unat ptr = a + k - (unat n + 8) + 8"
    and m': "heap_wf lo hi ((a, k - (unat n + 8)) # rest) (s\<lparr>bytes := m'\<rparr>)" "load64 m' (ptr - 8) = n + 8"
      "\<And>x. \<not> free_addr ((a, k) # rest) x \<Longrightarrow> m' x = bytes s x"
    and m2: "\<And>x. x \<notin> span ptr (unat n) \<Longrightarrow> m2 x = m' x"
  shows "\<exists>m3. free ptr (s\<lparr>bytes := m2\<rparr>) = ret (s\<lparr>bytes := m3\<rparr>) \<and> heap_wf lo hi ((a, k) # rest) (s\<lparr>bytes := m3\<rparr>) \<and>
    (\<forall>x. \<not> free_addr ((a, k) # rest) x \<longrightarrow> m3 x = bytes s x)"
proof -
  let ?p = "a + k - (unat n + 8)" and ?bs = "(a, k) # rest" and ?bs' = "(a, k - (unat n + 8)) # rest" and ?s2 = "s\<lparr>bytes := m2\<rparr>"
  note sp = scratch_span [OF wf fit ptr]
  have k: "a = lo" "a + k \<le> hi" "hi < 18446744073709551616" "spaced lo ?bs hi"
    using wf by (auto simp: heap_wf_def)
  have carve: "carve (unat n + 8) ?bs = Some (?p, ?bs')" and roomy: "roomy (unat n + 8) ?bs"
    using fit by auto
  have u: "unat (ptr - 8) = ?p" using ptr by (subst unat_sub_no_wrap) auto
  have wf2: "heap_wf lo hi ?bs' ?s2"
    using conjunct1 [OF heap_wf_write [OF m'(1), of m2]] m2 sp(3) by auto
  have "load64 m2 (ptr - 8) = load64 m' (ptr - 8)"
    by (rule load64_cong_unat) (use m2 sp(1) u k fit in auto)
  moreover have "unat (n + 8) = unat n + 8" using fit k by (subst unat_u64_add) auto
  ultimately have hdr: "unat (load64 (bytes ?s2) (ptr - 8)) = unat n + 8" using m'(2) by simp
  have n16: "16 \<le> unat n + 8" and range: "lo \<le> ?p" "?p + (unat n + 8) \<le> hi" using n8 k fit by auto
  obtain m3 where m3: "free (ptr - 8 + 8) ?s2 = ret (?s2\<lparr>bytes := m3\<rparr>)"
    "heap_wf lo hi (release (?p, unat n + 8) ?bs') (?s2\<lparr>bytes := m3\<rparr>)"
    "\<And>x. \<not> free_addr ?bs' x \<Longrightarrow> unat x < ?p \<or> ?p + (unat n + 8) \<le> unat x \<Longrightarrow> m3 x = bytes ?s2 x"
    using free_refines [OF wf2 hdr n16, unfolded u, OF range carve_unshared(1) [OF carve k(4)]] by metis
  have "m3 x = bytes s x" if x: "\<not> free_addr ?bs x" for x
  proof -
    have "\<not> free_addr ?bs' x" "unat x < a \<or> a + k \<le> unat x" "x \<notin> span ptr (unat n)"
      using x sp(2) by (auto simp: free_addr_def simp del: mem_span)
    then show ?thesis using m3(3) m2 m'(3) x fit by auto
  qed
  moreover have "heap_wf lo hi ?bs (s\<lparr>bytes := m3\<rparr>)"
    using m3(2) release_carve [OF carve roomy k(4)] by simp
  ultimately show ?thesis using m3(1) by auto
qed

lemma heap_inv_scratch:
  assumes "heap_inv lo hi s U" "unat n + 24 \<le> heap_budget s" "8 \<le> unat n"
  shows "\<exists>p m'. malloc n s = ret (p, s\<lparr>bytes := m'\<rparr>) \<and> span p (unat n) \<inter> U = {} \<and>
    (\<forall>x \<in> U. m' x = bytes s x) \<and>
    (\<forall>m2. (\<forall>x. x \<notin> span p (unat n) \<longrightarrow> m2 x = m' x) \<longrightarrow>
      (\<exists>m3. free p (s\<lparr>bytes := m2\<rparr>) = ret (s\<lparr>bytes := m3\<rparr>) \<and> heap_inv lo hi (s\<lparr>bytes := m3\<rparr>) U \<and>
        heap_budget (s\<lparr>bytes := m3\<rparr>) = heap_budget s \<and> (\<forall>x \<in> U. m3 x = bytes s x)))"
proof -
  obtain bs where "heap_wf lo hi bs s" and hi: "hi \<le> 2 * lo" and "\<forall>x \<in> U. \<not> free_addr bs x"
    using assms(1) by (auto simp: heap_inv_def)
  then obtain a k rest where wf: "heap_wf lo hi ((a, k) # rest) s" and U: "\<forall>x \<in> U. \<not> free_addr ((a, k) # rest) x"
    by (cases bs) (auto simp: heap_wf_def)
  have k: "k = heap_budget s" "a = lo" "a + k \<le> hi"
    using wf by (auto simp: heap_wf_def heap_budget_def)
  have fit: "unat n + 24 \<le> k" using assms(2) k(1) by simp
  let ?p = "a + k - (unat n + 8)" and ?bs' = "(a, k - (unat n + 8)) # rest"
  have "carve (unat n + 8) ((a, k) # rest) = Some (?p, ?bs')" "roomy (unat n + 8) ((a, k) # rest)" "unat n + 8 < lo"
    using fit k hi by auto
  then obtain ptr m' where m': "malloc n s = ret (ptr, s\<lparr>bytes := m'\<rparr>)" "unat ptr = ?p + 8"
    "heap_wf lo hi ?bs' (s\<lparr>bytes := m'\<rparr>)" "load64 m' (ptr - 8) = n + 8"
    "\<And>x. \<not> free_addr ((a, k) # rest) x \<Longrightarrow> m' x = bytes s x"
    using malloc_refines [OF wf] by metis
  have "\<exists>m3. free ptr (s\<lparr>bytes := m2\<rparr>) = ret (s\<lparr>bytes := m3\<rparr>) \<and> heap_inv lo hi (s\<lparr>bytes := m3\<rparr>) U \<and>
        heap_budget (s\<lparr>bytes := m3\<rparr>) = heap_budget s \<and> (\<forall>x \<in> U. m3 x = bytes s x)"
    if m2: "\<forall>x. x \<notin> span ptr (unat n) \<longrightarrow> m2 x = m' x" for m2
  proof -
    obtain m3 where m3: "free ptr (s\<lparr>bytes := m2\<rparr>) = ret (s\<lparr>bytes := m3\<rparr>)" "heap_wf lo hi ((a, k) # rest) (s\<lparr>bytes := m3\<rparr>)"
      "\<forall>x. \<not> free_addr ((a, k) # rest) x \<longrightarrow> m3 x = bytes s x"
      using scratch_free [OF wf fit assms(3) m'(2-5), of m2] m2 by blast
    moreover have "heap_inv lo hi (s\<lparr>bytes := m3\<rparr>) U"
      unfolding heap_inv_def using m3(2) hi U by blast
    moreover have "heap_budget (s\<lparr>bytes := m3\<rparr>) = heap_budget s"
      using m3(2) k(1) by (simp add: heap_wf_def heap_budget_def)
    ultimately show ?thesis using U by blast
  qed
  moreover have "span ptr (unat n) \<inter> U = {}" using scratch_span(2) [OF wf fit m'(2)] U by blast
  moreover have "\<forall>x \<in> U. m' x = bytes s x" using m'(5) U by blast
  ultimately show ?thesis using m'(1) by blast
qed

interpretation kheap: allocator malloc "heap_inv lo hi" heap_budget for lo hi
proof unfold_locales
  show "heap_inv lo hi (s\<lparr>bytes := m'\<rparr>) U \<and> heap_budget (s\<lparr>bytes := m'\<rparr>) = heap_budget s"
    if "heap_inv lo hi s U" "\<And>x. x \<notin> U \<Longrightarrow> m' x = bytes s x"
    for s :: "'b heap_state_scheme" and U m'
    using that heap_wf_write unfolding heap_inv_def by metis
  show "heap_inv lo hi s V" if "heap_inv lo hi s U" "V \<subseteq> U"
    for s :: "'b heap_state_scheme" and U V
    using that unfolding heap_inv_def by blast
qed (rule heap_inv_alloc)

interpretation kscratch: scratch_allocator malloc "heap_inv lo hi" heap_budget free for lo hi
  by unfold_locales (rule heap_inv_scratch)

section \<open>The block that fits exactly\<close>



section \<open>Properties\<close>

definition blank_heap :: heap_state where
  "blank_heap = \<lparr>bytes = (\<lambda>_. 0), cr3 = 0, console = [], msr = (\<lambda>_. 0), free_mem_next = 0, free_mem_size = 0\<rparr>"

lemma heap_4096_wf: "heap_wf 4096 8192 [(4096, 4096)] (init_heap 4096 4096 blank_heap)"
  using init_heap_wf [of 4096 4096 blank_heap] by simp

text \<open>
  C2: malloc implements first-fit carving, as far as the block it takes from keeps room for its header. On a well-formed heap that
  lies above the size asked for, a request for which some block is large enough returns: the result points behind the header of the
  high end of the first such block, the header holds the size, and no byte outside the free blocks changes. When at least 16 bytes
  of the block remain (\<open>roomy\<close>), the heap stays well-formed, its free list is the one of the abstract allocator and keeps clear of
  the block, exactly \<open>n + 8\<close> bytes are taken, and the memory handed out is zero. When fewer remain, an exact fit included, the list
  is broken: whatever free list the heap then holds, if any, meets the block that was handed out.
\<close>

theorem malloc_refines_carve:
  assumes "heap_wf lo hi bs s" "unat n + 8 < lo" "carve (unat n + 8) bs = Some (p, bs')"
  shows "\<exists>ptr m'. malloc n s = ret (ptr, s\<lparr>bytes := m'\<rparr>) \<and> unat ptr = p + 8 \<and> load64 m' (ptr - 8) = n + 8 \<and>
    (\<forall>x. \<not> free_addr bs x \<longrightarrow> m' x = bytes s x) \<and>
    (if roomy (unat n + 8) bs
     then heap_wf lo hi bs' (s\<lparr>bytes := m'\<rparr>) \<and> unshared (p, unat n + 8) bs' \<and> free_bytes bs' + (unat n + 8) = free_bytes bs \<and>
       (\<forall>x. x \<in> span ptr (unat n) \<longrightarrow> m' x = 0)
     else \<forall>cs. heap_wf lo hi cs (s\<lparr>bytes := m'\<rparr>) \<longrightarrow> \<not> unshared (p, unat n + 8) cs)"
proof (cases "roomy (unat n + 8) bs")
  case True
  have "unshared (p, unat n + 8) bs'" using carve_unshared(1) [OF assms(3)] assms(1) by (auto simp: heap_wf_def)
  with True show ?thesis
    using malloc_refines [OF assms True] carve_free_bytes [OF assms(3)] by metis
next
  case False
  with malloc_cramped [OF assms False] show ?thesis by metis
qed

theorem malloc_refines_carve_witness:
  "(\<exists>ptr m'. malloc 100 (init_heap 4096 4096 blank_heap) =
      ret (ptr, (init_heap 4096 4096 blank_heap)\<lparr>bytes := m'\<rparr>) \<and> unat ptr = 8092) \<and>
   (\<exists>m'. malloc 4080 (init_heap 8192 4096 blank_heap) = ret (8208, (init_heap 8192 4096 blank_heap)\<lparr>bytes := m'\<rparr>) \<and>
      (\<forall>cs. heap_wf 8192 12288 cs ((init_heap 8192 4096 blank_heap)\<lparr>bytes := m'\<rparr>) \<longrightarrow> \<not> unshared (8200, 4088) cs))"
proof
  show "\<exists>ptr m'. malloc 100 (init_heap 4096 4096 blank_heap) =
      ret (ptr, (init_heap 4096 4096 blank_heap)\<lparr>bytes := m'\<rparr>) \<and> unat ptr = 8092"
    using malloc_refines_carve [OF heap_4096_wf, of 100 8084 "[(4096, 3988)]"] by auto
  have wf: "heap_wf 8192 12288 [(8192, 4096)] (init_heap 8192 4096 blank_heap)"
    using init_heap_wf [of 8192 4096 blank_heap] by simp
  have "unat ptr = 8208 \<Longrightarrow> ptr = 8208" for ptr :: u64 by (simp add: word_eq_iff_unat)
  then show "\<exists>m'. malloc 4080 (init_heap 8192 4096 blank_heap) = ret (8208, (init_heap 8192 4096 blank_heap)\<lparr>bytes := m'\<rparr>) \<and>
      (\<forall>cs. heap_wf 8192 12288 cs ((init_heap 8192 4096 blank_heap)\<lparr>bytes := m'\<rparr>) \<longrightarrow> \<not> unshared (8200, 4088) cs)"
    using malloc_refines_carve [OF wf, of 4080 8200 "[(8192, 8)]"] by auto
qed

text \<open>
  C14: malloc reports exhaustion, and only that. On a well-formed heap that lies above the size asked for, \<open>malloc\<close> stops the
  machine with its message if and only if no free block is large enough.
\<close>

theorem malloc_out_of_space:
  assumes "heap_wf lo hi bs s" "unat n + 8 < lo"
  shows "malloc n s = stop (Abort ''Heap out of space'') \<longleftrightarrow> (\<forall>b \<in> set bs. snd b < unat n + 8)"
proof (cases "carve (unat n + 8) bs")
  case None
  then show ?thesis using malloc_exhausted [OF assms None] by (simp add: carve_None)
next
  case (Some pb)
  then obtain p bs' where c: "carve (unat n + 8) bs = Some (p, bs')" by (cases pb) auto
  obtain r where "malloc n s = ret r"
    using malloc_refines [OF assms c] malloc_cramped [OF assms c] by metis
  moreover have "\<not> (\<forall>b \<in> set bs. snd b < unat n + 8)" using c carve_None [of "unat n + 8" bs] by simp
  ultimately show ?thesis by (simp add: ret_def stop_def)
qed

theorem malloc_out_of_space_witness:
  "malloc 4089 (init_heap 8192 4096 blank_heap) = stop (Abort ''Heap out of space'') \<and>
   malloc 4088 (init_heap 8192 4096 blank_heap) \<noteq> stop (Abort ''Heap out of space'')"
proof -
  have "heap_wf 8192 12288 [(8192, 4096)] (init_heap 8192 4096 blank_heap)"
    using init_heap_wf [of 8192 4096 blank_heap] by simp
  from malloc_out_of_space [OF this, of 4089] malloc_out_of_space [OF this, of 4088] show ?thesis by simp
qed

text \<open>
  C3: free implements coalescing release, for every block that can hold the header it gets. \<open>free\<close> returns for a block \<open>malloc\<close> may
  have made (8 bytes or more, in the heap, meeting no free block). When the block has 16 bytes or a free block ends where it starts,
  the free list becomes the abstract \<open>release\<close> (in address order, merged with every free neighbour it touches), and no byte outside
  the block and the free list changes. A shorter block that touches no free block on either side breaks the heap: the last bytes of its
  size are written over what follows it, and no free list fits the memory any more. (A shorter block with a free block only behind
  it: \<open>free\<close> returns.)
\<close>

theorem free_refines_release:
  assumes "heap_wf lo hi bs s" "unat (load64 (bytes s) u) = n" "8 \<le> n"
    "lo \<le> unat u" "unat u + n \<le> hi" "unshared (unat u, n) bs"
  shows "\<exists>m'. free (u + 8) s = ret (s\<lparr>bytes := m'\<rparr>) \<and>
    (if 16 \<le> n \<or> (\<exists>b \<in> set bs. fst b + snd b = unat u)
     then heap_wf lo hi (release (unat u, n) bs) (s\<lparr>bytes := m'\<rparr>) \<and>
       (\<forall>x. \<not> free_addr bs x \<longrightarrow> unat x < unat u \<or> unat u + n \<le> unat x \<longrightarrow> m' x = bytes s x)
     else (\<forall>b \<in> set bs. fst b \<noteq> unat u + n) \<and> unat u + 16 \<le> 18446744073709551616 \<longrightarrow>
       load64 m' (u + 8) = of_nat n \<and> (\<forall>cs. \<not> heap_wf lo hi cs (s\<lparr>bytes := m'\<rparr>)))"
proof (cases "16 \<le> n \<or> (\<exists>b \<in> set bs. fst b + snd b = unat u)")
  case True
  then show ?thesis using free_refines_any [OF assms(1-3) True assms(4-6)] by metis
next
  case False
  obtain m' where m': "free (u + 8) s = ret (s\<lparr>bytes := m'\<rparr>)"
    by (rule free_returns [OF assms])
  show ?thesis
  proof (cases "(\<forall>b \<in> set bs. fst b \<noteq> unat u + n) \<and> unat u + 16 \<le> 18446744073709551616")
    case True
    then have "\<forall>b \<in> set bs. fst b + snd b \<noteq> unat u \<and> fst b \<noteq> unat u + n" "n < 16" using False by auto
    with True obtain m' where "free (u + 8) s = ret (s\<lparr>bytes := m'\<rparr>)" "load64 m' (u + 8) = of_nat n"
      "\<And>cs. \<not> heap_wf lo hi cs (s\<lparr>bytes := m'\<rparr>)"
      using free_short [OF assms(1-3) _ assms(4-6), of thesis] by blast
    with False show ?thesis by auto
  qed (use m' False in auto)
qed

definition used_block_heap :: heap_state where
  "used_block_heap =
     (let s = init_heap 4096 4000 blank_heap in s\<lparr>bytes := store64 (bytes s) 8096 96\<rparr>)"

theorem free_refines_release_witness:
  "\<exists>m'. free 8104 used_block_heap = ret (used_block_heap\<lparr>bytes := m'\<rparr>) \<and>
    heap_wf 4096 8192 [(4096, 4096)] (used_block_heap\<lparr>bytes := m'\<rparr>)"
proof -
  have "heap_wf 4096 8192 [(4096, 4000)] used_block_heap"
    by (simp add: used_block_heap_def init_heap_def heap_wf_def Let_def)
  moreover have "unat (load64 (bytes used_block_heap) 8096) = 96"
    by (simp add: used_block_heap_def Let_def)
  moreover have "unshared (unat (8096 :: u64), 96) [(4096, 4000)]"
    by (simp add: unshared_def)
  ultimately show ?thesis
    using free_refines_release [of 4096 8192 "[(4096, 4000)]" used_block_heap 8096 96] by auto
qed

text \<open>
  Allocation and release are inverse. Freeing the block just allocated succeeds and leaves
  a heap with the free list it had before, block for block: nothing leaks and nothing
  fragments.
\<close>

lemma malloc_free_restores:
  assumes wf: "heap_wf lo hi bs s" and n: "8 \<le> unat n" "unat n + 8 < lo"
    and fits: "carve (unat n + 8) bs \<noteq> None" and roomy: "roomy (unat n + 8) bs"
  shows "\<exists>ptr s1 s2. malloc n s = ret (ptr, s1) \<and> free ptr s1 = ret s2 \<and> heap_wf lo hi bs s2"
proof -
  obtain p bs' where carve: "carve (unat n + 8) bs = Some (p, bs')"
    using fits by auto
  obtain ptr m' where m': "malloc n s = ret (ptr, s\<lparr>bytes := m'\<rparr>)" "unat ptr = p + 8"
    "heap_wf lo hi bs' (s\<lparr>bytes := m'\<rparr>)" "load64 m' (ptr - 8) = n + 8"
    by (rule malloc_refines [OF wf n(2) carve roomy])
  have sp: "spaced lo bs hi" "hi < 18446744073709551616"
    using wf by (simp_all add: heap_wf_def)
  have un: "unshared (p, unat n + 8) bs'"
    by (rule carve_unshared(1) [OF carve sp(1)])
  have u: "unat (ptr - 8) = p"
    using m'(2) by (subst unat_sub_no_wrap) auto
  obtain b where b: "b \<in> set bs" "fst b \<le> p" "p + (unat n + 8) = fst b + snd b"
    using carve_unshared(2) [OF carve sp(1)] by blast
  then have range: "lo \<le> p" "p + (unat n + 8) \<le> hi"
    using heap_wf_block [OF wf b(1)] by linarith+
  then have n8: "unat (n + 8) = unat n + 8"
    using sp(2) by (subst unat_u64_add) auto
  have hdr: "unat (load64 (bytes (s\<lparr>bytes := m'\<rparr>)) (ptr - 8)) = unat n + 8"
    using m'(4) n8 by simp
  have n16: "16 \<le> unat n + 8"
    using n(1) by simp
  obtain m2 where "free (ptr - 8 + 8) (s\<lparr>bytes := m'\<rparr>) = ret (s\<lparr>bytes := m'\<rparr>\<lparr>bytes := m2\<rparr>)"
    "heap_wf lo hi (release (p, unat n + 8) bs') (s\<lparr>bytes := m'\<rparr>\<lparr>bytes := m2\<rparr>)"
    using free_refines [OF m'(3) hdr n16, unfolded u, OF range un] by blast
  moreover have "release (p, unat n + 8) bs' = bs"
    by (rule release_carve [OF carve roomy sp(1)])
  ultimately show ?thesis
    using m'(1) by (metis diff_add_cancel)
qed

lemma malloc_free_restores_example:
  "\<exists>ptr s1 s2. malloc 100 (init_heap 4096 4096 blank_heap) = ret (ptr, s1) \<and> free ptr s1 = ret s2 \<and>
    heap_wf 4096 8192 [(4096, 4096)] s2"
  using malloc_free_restores [OF heap_4096_wf, of 100] by simp



end
