(* ===== verification/Heap_Machine.thy ===== *)
theory Heap_Machine
  imports Kernel_Heap
begin

text \<open>
  The heap of \<open>libc/src/memory/heap.c\<close> as its users see it: a store of separate objects. A client
  asks for objects, writes and reads their bytes and gives them back, in any order. \<open>object_ops\<close> runs
  such a client without pointers, on a list of objects and the free intervals of \<open>Free_List\<close>, and
  rejects a client that breaks the rules of \<open>malloc\<close> and \<open>free\<close>; \<open>heap_ops\<close> runs it
  on the memory with the C routines.
\<close>

section \<open>Clients\<close>

text \<open>\<open>Put p i v\<close> is the store \<open>((uint8_t*) p)[i] = v\<close>, \<open>Get p i\<close> the load.\<close>

datatype heap_op = Malloc u64 | Free u64 | Put u64 u64 u8 | Get u64 u64

fun heap_op_step :: "heap_op \<Rightarrow> 'a heap_state_scheme \<Rightarrow> (u64 \<times> 'a heap_state_scheme) run" where
  "heap_op_step (Malloc n) s = malloc n s"
| "heap_op_step (Free p) s = run_bind (free p s) (\<lambda>s. ret (0, s))"
| "heap_op_step (Put p i v) s = ret (0, s\<lparr>bytes := store8 (bytes s) (p + i) v\<rparr>)"
| "heap_op_step (Get p i) s = ret (ucast (load8 (bytes s) (p + i)), s)"

primrec heap_ops :: "heap_op list \<Rightarrow> 'a heap_state_scheme \<Rightarrow> (u64 list \<times> 'a heap_state_scheme) run" where
  "heap_ops [] s = ret ([], s)"
| "heap_ops (x # xs) s =
     run_bind (heap_op_step x s) (\<lambda>(r, s). run_bind (heap_ops xs s) (\<lambda>(rs, s). ret (r # rs, s)))"

section \<open>The store of objects\<close>

text \<open>
  An object is the address of its header and its bytes; its user sees the address 8 above. A store is
  the free intervals and the objects in use.
\<close>

type_synonym object = "nat \<times> u8 list"
type_synonym store = "block list \<times> object list"

definition drop_object :: "nat \<Rightarrow> object list \<Rightarrow> object list" where
  "drop_object u live = filter (\<lambda>e. fst e \<noteq> u) live"

text \<open>\<open>None\<close>: the client broke a rule. A request too large for the free intervals stops the machine.\<close>

fun object_step :: "nat \<Rightarrow> heap_op \<Rightarrow> store \<Rightarrow> (halt + u64 \<times> store) option" where
  "object_step lo (Malloc n) (bs, live) =
     (if 8 \<le> unat n \<and> unat n + 8 < lo \<and> roomy (unat n + 8) bs then
        Some (case carve (unat n + 8) bs of
          None \<Rightarrow> Inl (Abort ''Heap out of space'')
        | Some (u, bs') \<Rightarrow> Inr (of_nat (u + 8), bs', (u, replicate (unat n) 0) # live))
      else None)"
| "object_step lo (Free p) (bs, live) =
     (case map_of live (unat p - 8) of
        None \<Rightarrow> None
      | Some xs \<Rightarrow> Some (Inr (0, release (unat p - 8, length xs + 8) bs, drop_object (unat p - 8) live)))"
| "object_step lo (Put p i v) (bs, live) =
     (case map_of live (unat p - 8) of
        None \<Rightarrow> None
      | Some xs \<Rightarrow>
          if unat i < length xs
          then Some (Inr (0, bs, (unat p - 8, xs[unat i := v]) # drop_object (unat p - 8) live))
          else None)"
| "object_step lo (Get p i) (bs, live) =
     (case map_of live (unat p - 8) of
        None \<Rightarrow> None
      | Some xs \<Rightarrow> if unat i < length xs then Some (Inr (ucast (xs ! unat i), bs, live)) else None)"

fun object_ops :: "nat \<Rightarrow> heap_op list \<Rightarrow> store \<Rightarrow> (halt + u64 list \<times> store) option" where
  "object_ops lo [] st = Some (Inr ([], st))"
| "object_ops lo (x # xs) st =
     (case object_step lo x st of
        None \<Rightarrow> None
      | Some (Inl h) \<Rightarrow> Some (Inl h)
      | Some (Inr (r, st)) \<Rightarrow>
          (case object_ops lo xs st of
             None \<Rightarrow> None
           | Some (Inl h) \<Rightarrow> Some (Inl h)
           | Some (Inr (rs, st)) \<Rightarrow> Some (Inr (r # rs, st))))"

section \<open>What the memory holds\<close>

text \<open>One object in memory: in range, off the free list, its header and its bytes in place.\<close>

definition object_at :: "nat \<Rightarrow> nat \<Rightarrow> block list \<Rightarrow> mem \<Rightarrow> object \<Rightarrow> bool" where
  "object_at lo hi bs m e \<longleftrightarrow>
     lo \<le> fst e \<and> 8 \<le> length (snd e) \<and> fst e + 8 + length (snd e) \<le> hi \<and>
     unshared (fst e, length (snd e) + 8) bs \<and>
     load64 m (of_nat (fst e)) = of_nat (length (snd e) + 8) \<and>
     (\<forall>i < length (snd e). m (of_nat (fst e + 8 + i)) = snd e ! i)"

definition objects_apart :: "object \<Rightarrow> object \<Rightarrow> bool" where
  "objects_apart e f \<longleftrightarrow> fst e + 8 + length (snd e) \<le> fst f \<or> fst f + 8 + length (snd f) \<le> fst e"

definition used_bytes :: "object list \<Rightarrow> nat" where
  "used_bytes live = sum_list (map (\<lambda>e. length (snd e) + 8) live)"

text \<open>
  The heap \<open>[lo, hi)\<close> holds a store: the free intervals are its free list, the objects are where
  their addresses say, no two overlap, and free and used bytes add up to all of it.
\<close>

definition holds_store :: "nat \<Rightarrow> nat \<Rightarrow> store \<Rightarrow> 'a heap_state_scheme \<Rightarrow> bool" where
  "holds_store lo hi st s \<longleftrightarrow>
     (case st of (bs, live) \<Rightarrow>
        heap_wf lo hi bs s \<and> (\<forall>e \<in> set live. object_at lo hi bs (bytes s) e) \<and>
        sorted_wrt objects_apart live \<and> free_bytes bs + used_bytes live = hi - lo)"

section \<open>Objects and their bytes\<close>

lemma objects_apart_sym: "objects_apart e f \<Longrightarrow> objects_apart f e"
  by (auto simp: objects_apart_def)

lemma apart_keys_distinct: "sorted_wrt objects_apart live \<Longrightarrow> distinct (map fst live)"
  by (induction live) (auto simp: objects_apart_def)

lemma sorted_wrt_drop: "sorted_wrt P live \<Longrightarrow> sorted_wrt P (drop_object u live)"
  by (simp add: drop_object_def sorted_wrt_filter)

lemma set_drop_object: "e \<in> set (drop_object u live) \<longleftrightarrow> e \<in> set live \<and> fst e \<noteq> u"
  by (auto simp: drop_object_def)

text \<open>Any two objects of a store are apart, whatever their order in the list.\<close>

lemma apart_others:
  assumes "sorted_wrt objects_apart live" "e \<in> set live" "f \<in> set live" "e \<noteq> f"
  shows "objects_apart e f"
  using assms by (induction live) (auto dest: objects_apart_sym)

lemma used_bytes_drop:
  assumes "distinct (map fst live)" "map_of live u = Some xs"
  shows "used_bytes (drop_object u live) + (length xs + 8) = used_bytes live"
  using assms
proof (induction live)
  case (Cons e live)
  show ?case
  proof (cases "fst e = u")
    case True
    then have "u \<notin> fst ` set live" using Cons.prems(1) by auto
    then have "drop_object u live = live"
      by (auto simp: drop_object_def filter_id_conv)
    with True Cons.prems(2) show ?thesis
      by (auto simp: drop_object_def used_bytes_def split: if_splits)
  qed (use Cons in \<open>auto simp: drop_object_def used_bytes_def\<close>)
qed simp

text \<open>The bytes of an object as addresses; writes elsewhere leave it alone.\<close>

definition object_addr :: "object \<Rightarrow> u64 \<Rightarrow> bool" where
  "object_addr e x \<longleftrightarrow> fst e \<le> unat x \<and> unat x < fst e + 8 + length (snd e)"

lemma object_at_frame:
  assumes "object_at lo hi bs m e" "hi < 18446744073709551616"
    "unshared (fst e, length (snd e) + 8) bs'"
    "\<And>x. object_addr e x \<Longrightarrow> m' x = m x"
  shows "object_at lo hi bs' m' e"
proof -
  have top: "fst e + 8 + length (snd e) \<le> hi" using assms(1) by (simp add: object_at_def)
  have u: "unat (of_nat (fst e) :: u64) = fst e"
    using top assms(2) by (intro unat_of_nat_u64) simp
  have "load64 m' (of_nat (fst e)) = load64 m (of_nat (fst e))"
    by (rule load64_cong_unat, unfold u, use top assms(2) in simp, rule assms(4))
      (use assms(1) in \<open>auto simp: object_addr_def object_at_def\<close>)
  moreover have "m' (of_nat (fst e + 8 + i)) = m (of_nat (fst e + 8 + i))" if "i < length (snd e)" for i
  proof -
    have "unat (of_nat (fst e + 8 + i) :: u64) = fst e + 8 + i"
      using that top assms(2) by (intro unat_of_nat_u64) simp
    then show ?thesis using that by (intro assms(4)) (simp add: object_addr_def)
  qed
  ultimately show ?thesis
    using assms(1,3) by (simp add: object_at_def)
qed

lemma object_not_free:
  assumes "object_at lo hi bs m e" "object_addr e x"
  shows "\<not> free_addr bs x"
  using assms by (fastforce simp: object_at_def object_addr_def free_addr_def unshared_def)

lemma apart_not_addr: "objects_apart e f \<Longrightarrow> object_addr e x \<Longrightarrow> \<not> object_addr f x"
  by (auto simp: objects_apart_def object_addr_def)

text \<open>The object a pointer names.\<close>

lemma holds_store_lookup:
  assumes "holds_store lo hi (bs, live) s" "map_of live (unat p - 8) = Some xs"
  obtains u where "unat p = u + 8" "unat p - 8 = u" "p = of_nat u + 8" "(u, xs) \<in> set live" "object_at lo hi bs (bytes s) (u, xs)"
    "hi < 18446744073709551616"
proof -
  have m: "(unat p - 8, xs) \<in> set live" using assms(2) by (rule map_of_SomeD)
  with assms(1) have o: "object_at lo hi bs (bytes s) (unat p - 8, xs)" and wf: "heap_wf lo hi bs s"
    by (auto simp: holds_store_def)
  have "0 < lo" using wf by (simp add: heap_wf_def)
  with o have "8 < unat p" by (auto simp: object_at_def)
  then have e: "unat p = (unat p - 8) + 8" by simp
  have "p = of_nat (unat p)" by simp
  also have "\<dots> = of_nat (unat p - 8) + 8" using e by (metis of_nat_add of_nat_numeral)
  finally show thesis
    using that [of "unat p - 8"] m o wf e by (simp add: heap_wf_def)
qed

section \<open>Free intervals and the objects between them\<close>

lemma unshared_Cons:
  "unshared e (b # bs) \<longleftrightarrow> (fst b + snd b \<le> fst e \<or> fst e + snd e \<le> fst b) \<and> unshared e bs"
  by (simp add: unshared_def)

lemma carve_keeps_unshared:
  assumes "carve need bs = Some (p, bs')" "unshared e bs"
  shows "unshared e bs'"
  using assms
  by (induction need bs arbitrary: bs' rule: carve.induct) (auto simp: unshared_Cons split: if_splits)

lemma absorb_keeps_unshared:
  "unshared e (b # bs) \<Longrightarrow> 0 < snd e \<Longrightarrow> unshared e (absorb b bs)"
  by (cases "(b, bs)" rule: absorb.cases) (auto simp: unshared_Cons)

lemma release_keeps_unshared:
  "unshared e (b # bs) \<Longrightarrow> 0 < snd e \<Longrightarrow> unshared e (release b bs)"
  by (induction b bs rule: release.induct)
    (auto intro!: absorb_keeps_unshared simp: unshared_Cons)

section \<open>One step\<close>

lemma malloc_step:
  assumes st: "holds_store lo hi (bs, live) s" and n: "8 \<le> unat n" "unat n + 8 < lo"
    and room: "roomy (unat n + 8) bs" and carve: "carve (unat n + 8) bs = Some (u, bs')"
  obtains s' where "malloc n s = ret (of_nat (u + 8), s')"
    "holds_store lo hi (bs', (u, replicate (unat n) 0) # live) s'"
proof -
  have wf: "heap_wf lo hi bs s" and objs: "\<And>e. e \<in> set live \<Longrightarrow> object_at lo hi bs (bytes s) e"
    and ap: "sorted_wrt objects_apart live" and tot: "free_bytes bs + used_bytes live = hi - lo"
    using st by (auto simp: holds_store_def)
  have sp: "spaced lo bs hi" and hi: "hi < 18446744073709551616"
    using wf by (simp_all add: heap_wf_def)
  obtain ptr m' where m': "malloc n s = ret (ptr, s\<lparr>bytes := m'\<rparr>)" "unat ptr = u + 8"
    "heap_wf lo hi bs' (s\<lparr>bytes := m'\<rparr>)" "load64 m' (ptr - 8) = n + 8"
    "\<And>x. x \<in> span ptr (unat n) \<Longrightarrow> m' x = 0" "\<And>x. \<not> free_addr bs x \<Longrightarrow> m' x = bytes s x"
    by (rule malloc_refines [OF wf n(2) carve room]) blast
  obtain b where b: "b \<in> set bs" "fst b \<le> u" "u + (unat n + 8) = fst b + snd b"
    using carve_unshared(2) [OF carve sp] by blast
  have range: "lo \<le> u" "u + (unat n + 8) \<le> hi"
    using heap_wf_block [OF wf b(1)] b(2,3) by linarith+
  have "unat (of_nat (u + 8) :: u64) = u + 8"
    using range hi n(1) by (intro unat_of_nat_u64) simp
  with m'(2) have ptr: "ptr = of_nat (u + 8)"
    by (simp only: word_eq_iff_unat)
  let ?new = "(u, replicate (unat n) (0 :: u8))"
  have "object_at lo hi bs' m' ?new"
  proof -
    have "load64 m' (of_nat u) = of_nat (unat n + 8)"
      using m'(4) ptr by simp
    moreover have "m' (of_nat (u + 8 + i)) = 0" if "i < unat n" for i
    proof -
      have "(of_nat (u + 8 + i) :: u64) - of_nat (u + 8) = of_nat i"
        by simp
      moreover have "unat (of_nat i :: u64) = i"
        using that range hi by (intro unat_of_nat_u64) simp
      ultimately have "of_nat (u + 8 + i) \<in> span ptr (unat n)"
        using that ptr by simp
      then show ?thesis by (rule m'(5))
    qed
    ultimately show ?thesis
      using carve_unshared(1) [OF carve sp] range n(1) by (simp add: object_at_def)
  qed
  moreover have "object_at lo hi bs' m' e" if "e \<in> set live" for e
  proof (rule object_at_frame [OF objs [OF that] hi])
    show "unshared (fst e, length (snd e) + 8) bs'"
      using objs [OF that] by (intro carve_keeps_unshared [OF carve]) (simp add: object_at_def)
    show "m' x = bytes s x" if "object_addr e x" for x
      using m'(6) object_not_free objs [OF \<open>e \<in> set live\<close>] that by blast
  qed
  moreover have "objects_apart ?new e" if "e \<in> set live" for e
    using objs [OF that] b by (auto simp: object_at_def unshared_def objects_apart_def)
  moreover have "free_bytes bs' + used_bytes (?new # live) = hi - lo"
    using tot carve_free_bytes [OF carve] by (simp add: used_bytes_def)
  ultimately have "holds_store lo hi (bs', ?new # live) (s\<lparr>bytes := m'\<rparr>)"
    using m'(3) ap by (simp add: holds_store_def)
  with m'(1) ptr show thesis by (intro that) auto
qed

lemma free_step:
  assumes st: "holds_store lo hi (bs, live) s" and e: "map_of live (unat p - 8) = Some xs"
  obtains s' where "free p s = ret s'"
    "holds_store lo hi (release (unat p - 8, length xs + 8) bs, drop_object (unat p - 8) live) s'"
proof -
  have wf: "heap_wf lo hi bs s" and objs: "\<And>e. e \<in> set live \<Longrightarrow> object_at lo hi bs (bytes s) e"
    and ap: "sorted_wrt objects_apart live" and tot: "free_bytes bs + used_bytes live = hi - lo"
    using st by (auto simp: holds_store_def)
  obtain u where u: "unat p = u + 8" "unat p - 8 = u" "p = of_nat u + 8" "(u, xs) \<in> set live"
    "object_at lo hi bs (bytes s) (u, xs)" "hi < 18446744073709551616"
    by (rule holds_store_lookup [OF st e])
  let ?n = "length xs + 8" and ?w = "of_nat u :: u64"
  have o: "lo \<le> u" "8 \<le> length xs" "u + ?n \<le> hi" "unshared (u, ?n) bs" "load64 (bytes s) ?w = of_nat ?n"
    using u(5) by (simp_all add: object_at_def)
  have w: "unat ?w = u" and n: "unat (load64 (bytes s) ?w) = ?n"
    unfolding o(5) using o(3) u(6) by (intro unat_of_nat_u64; simp)+
  have n16: "16 \<le> ?n" using o(2) by simp
  obtain m' where m': "free p s = ret (s\<lparr>bytes := m'\<rparr>)"
    "heap_wf lo hi (release (u, ?n) bs) (s\<lparr>bytes := m'\<rparr>)"
    "\<And>x. \<not> free_addr bs x \<Longrightarrow> unat x < u \<or> u + ?n \<le> unat x \<Longrightarrow> m' x = bytes s x"
    using free_refines [OF wf n n16, unfolded w, OF o(1,3,4)] u(3) by metis
  have "object_at lo hi (release (u, ?n) bs) m' f" if "f \<in> set (drop_object u live)" for f
  proof -
    from that have f: "f \<in> set live" "fst f \<noteq> u" by (simp_all add: set_drop_object)
    then have a: "objects_apart f (u, xs)"
      using apart_others [OF ap f(1) u(4)] by (metis fst_conv)
    show ?thesis
    proof (rule object_at_frame [OF objs [OF f(1)] u(6)])
      show "unshared (fst f, length (snd f) + 8) (release (u, ?n) bs)"
        using objs [OF f(1)] a
        by (intro release_keeps_unshared) (auto simp: object_at_def unshared_Cons objects_apart_def)
      show "m' x = bytes s x" if x: "object_addr f x" for x
      proof (rule m'(3))
        show "\<not> free_addr bs x" by (rule object_not_free [OF objs [OF f(1)] x])
        show "unat x < u \<or> u + ?n \<le> unat x"
          using apart_not_addr [OF a x] by (auto simp: object_addr_def)
      qed
    qed
  qed
  moreover have "free_bytes (release (u, ?n) bs) + used_bytes (drop_object u live) = hi - lo"
    using tot used_bytes_drop [OF apart_keys_distinct [OF ap], of u xs] e u(2)
    by (simp add: release_free_bytes)
  ultimately have "holds_store lo hi (release (u, ?n) bs, drop_object u live) (s\<lparr>bytes := m'\<rparr>)"
    using m'(2) sorted_wrt_drop [OF ap] by (simp add: holds_store_def)
  with m'(1) u(2) show thesis by (intro that) auto
qed

lemma object_byte:
  assumes "object_at lo hi bs m (u, xs)" "hi < 18446744073709551616" "unat i < length xs"
  shows "m (of_nat u + 8 + i) = xs ! unat i" "unat (of_nat u + 8 + i) = u + 8 + unat i"
proof -
  have e: "of_nat u + 8 + i = (of_nat (u + 8 + unat i) :: u64)"
    by simp
  show "m (of_nat u + 8 + i) = xs ! unat i"
    unfolding e using assms by (simp add: object_at_def del: of_nat_add)
  show "unat (of_nat u + 8 + i) = u + 8 + unat i"
    unfolding e using assms by (intro unat_of_nat_u64) (simp add: object_at_def)
qed

lemma object_at_put:
  assumes o: "object_at lo hi bs m (u, xs)" and hi: "hi < 18446744073709551616" and i: "unat i < length xs"
  shows "object_at lo hi bs (store8 m (of_nat u + 8 + i) v) (u, xs[unat i := v])"
proof -
  let ?a = "of_nat u + 8 + i :: u64"
  have a: "unat ?a = u + 8 + unat i" by (rule object_byte(2) [OF o hi i])
  have top: "u + 8 + length xs \<le> hi" using o by (simp add: object_at_def)
  have u: "unat (of_nat u :: u64) = u" using top hi by (intro unat_of_nat_u64) simp
  have hd: "load64 (store8 m ?a v) (of_nat u) = load64 m (of_nat u)"
    by (rule load64_cong_unat) (use u a top hi in \<open>auto simp: store8_def\<close>)
  have "store8 m ?a v (of_nat (u + 8 + j)) = xs[unat i := v] ! j" if j: "j < length xs" for j
  proof -
    have "unat (of_nat (u + 8 + j) :: u64) = u + 8 + j"
      using j top hi by (intro unat_of_nat_u64) simp
    then have "of_nat (u + 8 + j) = ?a \<longleftrightarrow> j = unat i"
      unfolding word_eq_iff_unat [of _ ?a] a by auto
    moreover have "m (of_nat (u + 8 + j)) = xs ! j"
      using o j by (simp add: object_at_def del: of_nat_add)
    ultimately show ?thesis
      using i by (auto simp: store8_def nth_list_update simp del: of_nat_add)
  qed
  with hd show ?thesis using o by (simp add: object_at_def)
qed

lemma put_step:
  assumes st: "holds_store lo hi (bs, live) s" and e: "map_of live (unat p - 8) = Some xs" and i: "unat i < length xs"
  shows "holds_store lo hi (bs, (unat p - 8, xs[unat i := v]) # drop_object (unat p - 8) live)
    (s\<lparr>bytes := store8 (bytes s) (p + i) v\<rparr>)"
proof -
  have wf: "heap_wf lo hi bs s" and objs: "\<And>e. e \<in> set live \<Longrightarrow> object_at lo hi bs (bytes s) e"
    and ap: "sorted_wrt objects_apart live" and tot: "free_bytes bs + used_bytes live = hi - lo"
    using st by (auto simp: holds_store_def)
  obtain u where u: "unat p = u + 8" "unat p - 8 = u" "p = of_nat u + 8" "(u, xs) \<in> set live"
    "object_at lo hi bs (bytes s) (u, xs)" "hi < 18446744073709551616"
    by (rule holds_store_lookup [OF st e])
  let ?m = "store8 (bytes s) (p + i) v" and ?new = "(u, xs[unat i := v])"
  have addr: "object_addr (u, xs) (p + i)"
    using object_byte(2) [OF u(5,6) i] i u(3) by (simp add: object_addr_def)
  have frame: "?m x = bytes s x" if "\<not> object_addr (u, xs) x" for x
    using that addr by (auto simp: store8_def)
  have "free_addr bs x \<Longrightarrow> ?m x = bytes s x" for x
    using frame object_not_free [OF u(5)] by blast
  then have "heap_wf lo hi bs (s\<lparr>bytes := ?m\<rparr>)"
    using heap_wf_write [OF wf, of ?m] by blast
  moreover have "object_at lo hi bs ?m ?new"
    using object_at_put [OF u(5,6) i] u(3) by simp
  moreover have "object_at lo hi bs ?m f \<and> objects_apart ?new f" if "f \<in> set (drop_object u live)" for f
  proof -
    from that have f: "f \<in> set live" "fst f \<noteq> u" by (simp_all add: set_drop_object)
    then have a: "objects_apart f (u, xs)"
      using apart_others [OF ap f(1) u(4)] by (metis fst_conv)
    have "object_at lo hi bs ?m f"
      by (rule object_at_frame [OF objs [OF f(1)] u(6)])
        (use objs [OF f(1)] frame apart_not_addr [OF a] in \<open>auto simp: object_at_def\<close>)
    with a show ?thesis by (auto simp: objects_apart_def)
  qed
  moreover have "free_bytes bs + used_bytes (?new # drop_object u live) = hi - lo"
    using tot used_bytes_drop [OF apart_keys_distinct [OF ap], of u xs] e u(2)
    by (simp add: used_bytes_def)
  ultimately show ?thesis
    using sorted_wrt_drop [OF ap] u(2) by (simp add: holds_store_def)
qed

lemma get_step:
  assumes st: "holds_store lo hi (bs, live) s" and e: "map_of live (unat p - 8) = Some xs" and i: "unat i < length xs"
  shows "load8 (bytes s) (p + i) = xs ! unat i"
proof -
  obtain u where u: "unat p = u + 8" "unat p - 8 = u" "p = of_nat u + 8" "(u, xs) \<in> set live"
    "object_at lo hi bs (bytes s) (u, xs)" "hi < 18446744073709551616"
    by (rule holds_store_lookup [OF st e])
  show ?thesis
    using object_byte(1) [OF u(5,6) i] u(3) by (simp add: load8_def)
qed

text \<open>What the C run makes of an abstract result: the same stop, or the same values and a heap that holds the new store.\<close>

definition implements :: "nat \<Rightarrow> nat \<Rightarrow> ('r \<times> 'a heap_state_scheme) run \<Rightarrow> halt + 'r \<times> store \<Rightarrow> bool" where
  "implements lo hi c a \<longleftrightarrow>
     (case a of
        Inl h \<Rightarrow> c = stop h
      | Inr (r, st) \<Rightarrow> \<exists>s. c = ret (r, s) \<and> holds_store lo hi st s)"

lemma heap_op_refines:
  assumes st: "holds_store lo hi (bs, live) s" and a: "object_step lo x (bs, live) = Some a"
  shows "implements lo hi (heap_op_step x s) a"
proof (cases x)
  case (Malloc n)
  with a have g: "8 \<le> unat n" "unat n + 8 < lo" "roomy (unat n + 8) bs"
    by (auto split: if_splits)
  show ?thesis
  proof (cases "carve (unat n + 8) bs")
    case None
    have "heap_wf lo hi bs s" using st by (simp add: holds_store_def)
    from malloc_exhausted [OF this g(2) None] show ?thesis
      using a g None Malloc by (auto simp: implements_def)
  next
    case (Some r)
    then obtain u bs' where c: "carve (unat n + 8) bs = Some (u, bs')" by (cases r) auto
    obtain s' where "malloc n s = ret (of_nat (u + 8), s')"
      "holds_store lo hi (bs', (u, replicate (unat n) 0) # live) s'"
      by (rule malloc_step [OF st g c])
    then show ?thesis using a g c Malloc by (auto simp: implements_def)
  qed
next
  case (Free p)
  with a obtain xs where xs: "map_of live (unat p - 8) = Some xs"
    by (auto split: option.splits)
  obtain s' where "free p s = ret s'"
    "holds_store lo hi (release (unat p - 8, length xs + 8) bs, drop_object (unat p - 8) live) s'"
    by (rule free_step [OF st xs])
  then show ?thesis using a xs Free by (auto simp: implements_def)
next
  case (Put p i v)
  with a obtain xs where xs: "map_of live (unat p - 8) = Some xs" "unat i < length xs"
    by (auto split: option.splits if_splits)
  then show ?thesis using put_step [OF st xs, of v] a Put by (auto simp: implements_def)
next
  case (Get p i)
  with a obtain xs where xs: "map_of live (unat p - 8) = Some xs" "unat i < length xs"
    by (auto split: option.splits if_splits)
  then show ?thesis using get_step [OF st xs] st a Get by (auto simp: implements_def)
qed

text \<open>The heap as \<open>init_heap\<close> leaves it holds the store without objects.\<close>

lemma init_heap_store:
  assumes "start \<noteq> 0" "16 \<le> unat n" "unat start + unat n < 18446744073709551616"
  shows "holds_store (unat start) (unat start + unat n) ([(unat start, unat n)], []) (init_heap start n s)"
  using init_heap_wf [OF assms] by (simp add: holds_store_def free_bytes_def used_bytes_def)

section \<open>Blocks smaller than a free header\<close>

text \<open>
  The rule that an object has 8 bytes or more is needed: \<open>free\<close> writes 16 bytes at the block's
  address, so those of a smaller block reach into what follows it.
\<close>

lemma load64_of_low_byte:
  assumes "unat (load64 m a) < 256" "x \<in> span a 8" "x \<noteq> a"
  shows "m x = 0"
proof (rule bit_word_eqI)
  fix k assume "k < LENGTH(8)"
  then have k: "k < 8" by simp
  let ?d = "unat (x - a)"
  have d: "0 < ?d" "?d < 8" using assms(2,3) by (simp_all add: unat_gt_0)
  have "take_bit 8 (load64 m a) = load64 m a"
    using assms(1) by (simp add: take_bit_word_eq_self word_eq_iff_unat unsigned_take_bit_eq take_bit_nat_eq_self)
  then have "\<not> bit (load64 m a) (8 * ?d + k)"
    using d(1) bit_take_bit_iff [of 8 "load64 m a" "8 * ?d + k"] by simp
  then have "\<not> bit (m (a + of_nat ?d)) k"
    unfolding load64_def using d(2) k by (simp add: bit_load_le del: of_nat_unat ucast_id)
  then show "bit (m x) k \<longleftrightarrow> bit (0 :: u8) k" by simp
qed

lemma small_store64_high:
  assumes "unat v < 256" "x \<in> span a 8" "x \<noteq> a"
  shows "store64 m a v x = 0"
  by (rule load64_of_low_byte [of "store64 m a v" a]) (use assms in \<open>simp_all del: mem_span\<close>)

lemma free_put_small:
  assumes q: "unat q + unat (load64 m (q + 8)) < unat u" "16 \<le> unat (load64 m (q + 8))"
    and n: "1 \<le> n" "n < 8" "load64 m u = of_nat (n + 8)"
    and top: "unat u + n + 24 < 18446744073709551616" and nx: "u + of_nat (n + 8) \<noteq> load64 m q"
    and nb: "unat (load64 m (u + 8 + of_nat n)) < 256"
  shows "load64 (free_put (u + 8) q m) (u + 8 + of_nat n) = 0"
proof -
  let ?w = "u + 8 + of_nat n :: u64"
  have un: "unat (of_nat n :: u64) = n" using n by (intro unat_of_nat_u64) simp
  have u8: "unat (u + 8) = unat u + 8" "unat (q + 8) = unat q + 8" "unat ?w = unat u + 8 + n"
    using n q top un by (simp_all add: unat_u64_add)
  define m1 where "m1 = memset (u + 8) 0 (load64 m u - 8) m"
  have m1: "m1 x = m x" if "unat x < unat u + 8 \<or> unat u + 8 + n \<le> unat x" for x
    unfolding m1_def n(3)
    by (rule memset_outside) (use that u8 un top in \<open>auto simp: span_no_wrap simp del: mem_span\<close>)
  have l1: "load64 m1 u = of_nat (n + 8)"
    unfolding n(3) [symmetric] by (rule load64_cong_unat) (use m1 top in auto)
  have hq: "load64 m1 q = load64 m q \<and> load64 m1 (q + 8) = load64 m (q + 8)"
    by (rule header_cong) (use q top m1 in auto)
  define m2 where "m2 = store64 (store64 (store64 m1 u (load64 m1 q)) (u + 8) (of_nat (n + 8))) q u"
  have "unat (q + load64 m1 (q + 8)) = unat q + unat (load64 m (q + 8))"
    using q top hq by (subst unat_u64_add) auto
  then have put: "free_put (u + 8) q m = free_merge u m2"
    using q(1) by (auto simp: free_put_def Let_def m1_def [symmetric] m2_def l1)
  have ap: "apart q 16 u 16"
    by (rule apart_no_wrap) (use q top in auto)
  have "load64 m2 u = load64 m q" "load64 m2 (u + 8) = of_nat (n + 8)"
    using apart_field [OF ap, of 0 8 0 8] apart_field [OF ap, of 0 8 8 8] hq
    by (simp_all add: m2_def apart_sym)
  then have mg: "free_put (u + 8) q m = m2"
    unfolding put using nx by (simp add: free_merge_def)
  have "m2 x = 0" if x: "x \<in> span ?w 8" for x
  proof -
    have r: "unat u + 8 + n \<le> unat x" "unat x < unat u + 16 + n"
      using x u8(3) top by (auto simp: span_no_wrap simp del: mem_span)
    have nq: "m2 x = store64 (store64 m1 u (load64 m1 q)) (u + 8) (of_nat (n + 8)) x"
      unfolding m2_def by (rule store64_far) (use r q u8 top in auto)
    show ?thesis
    proof (cases "unat x < unat u + 16")
      case True
      have "unat (of_nat (n + 8) :: u64) < 256" using n by (subst unat_of_nat_u64) auto
      moreover have "x \<in> span (u + 8) 8" "x \<noteq> u + 8"
        using True r u8(1) n top by (auto simp: span_no_wrap simp del: mem_span)
      ultimately show ?thesis unfolding nq by (rule small_store64_high)
    next
      case False
      then have "m2 x = m x"
        using nq m1 [of x] r u8 top by (simp add: store64_far)
      also have "\<dots> = 0"
        by (rule load64_of_low_byte [OF nb x]) (use False u8(3) n in auto)
      finally show ?thesis .
    qed
  qed
  then show ?thesis unfolding mg by (rule load64_zero)
qed

lemma small_free_breaks_neighbour:
  assumes wf: "heap_wf lo hi bs s" and n: "1 \<le> n" "n < 8" and hdr: "load64 (bytes s) u = of_nat (n + 8)"
    and u: "lo \<le> unat u" "unat u + n + 24 \<le> hi" "unshared (unat u, n + 24) bs"
    and gap: "\<forall>b \<in> set bs. fst b + snd b \<noteq> unat u"
    and nb: "unat (load64 (bytes s) (u + 8 + of_nat n)) < 256"
  shows "\<exists>m'. free (u + 8) s = ret (s\<lparr>bytes := m'\<rparr>) \<and> load64 m' (u + 8 + of_nat n) = 0"
proof -
  have sp: "spaced lo bs hi" "bs \<noteq> []" "fst (hd bs) = lo" "0 < lo" "hi < 18446744073709551616"
    using wf by (auto simp: heap_wf_def)
  obtain pre a k post where ip: "bs = pre @ (a, k) # post" "a + k \<le> unat u"
    "\<forall>b \<in> set pre. fst b + snd b < a" "\<forall>b \<in> set post. unat u + (n + 24) \<le> fst b"
    by (rule insertion_point [OF sp(1-3) u(1) _ u(3)]) auto
  obtain q where q: "seg (bytes s) (free_mem_next s) pre q" "q \<noteq> 0" "unat q = a"
    "unat (load64 (bytes s) (q + 8)) = k" "seg (bytes s) (load64 (bytes s) q) post 0" "16 \<le> k"
    using heap_wf_split [of lo hi pre a k post s] wf ip(1) by blast
  have ak: "a + k < unat u" using gap ip(1,2) by (fastforce simp: le_less)
  have u8: "unat (u + 8) = unat u + 8"
    using u sp(5) by (subst unat_u64_add) auto
  have "unat (u + of_nat (n + 8)) = unat u + (n + 8)"
    using n u sp(5) by (subst unat_u64_add; subst unat_of_nat_u64) auto
  moreover have "load64 (bytes s) q = 0 \<or> unat u + n + 24 \<le> unat (load64 (bytes s) q)"
    using q(5) ip(4) by (cases post) auto
  ultimately have "u + of_nat (n + 8) \<noteq> load64 (bytes s) q" by auto
  then have "load64 (free_put (u + 8) q (bytes s)) (u + 8 + of_nat n) = 0"
    by (intro free_put_small) (use q ak n hdr u sp(5) nb in auto)
  moreover have "free_search (bytes s) (u + 8) 0 (free_mem_next s) = Some q"
    by (rule free_search_found [OF q(1) _ q(2) _ q(5)]) (use ip q u8 in fastforce)+
  ultimately show ?thesis
    using q(2) by (auto simp: free_def)
qed

section \<open>Properties\<close>

text \<open>
  C1: the heap is a store of separate objects. Any sequence of allocations, releases, writes and
  reads by a client that keeps the rules gives the results of the store of objects, ends with the same
  message when the store is full, and leaves every object in use where it was, with the bytes last
  written to it, apart from all others and from the free list; no byte of the heap is lost.
\<close>

theorem heap_is_object_store:
  assumes "holds_store lo hi st s" "object_ops lo xs st = Some a"
  shows "implements lo hi (heap_ops xs s) a"
  using assms
proof (induction xs arbitrary: st s a)
  case Nil
  then show ?case by (auto simp: implements_def)
next
  case (Cons x xs)
  obtain bs live where bl: "st = (bs, live)" by (cases st)
  from Cons.prems(2) obtain a1 where a1: "object_step lo x st = Some a1"
    by (auto split: option.splits)
  have s1: "implements lo hi (heap_op_step x s) a1"
    using heap_op_refines Cons.prems(1) a1 unfolding bl by blast
  show ?case
  proof (cases a1)
    case (Inl h)
    with s1 a1 Cons.prems(2) show ?thesis by (auto simp: implements_def)
  next
    case (Inr q)
    obtain r st1 where q: "q = (r, st1)" by (cases q)
    then obtain t where t: "heap_op_step x s = ret (r, t)" "holds_store lo hi st1 t"
      using s1 Inr by (auto simp: implements_def)
    obtain a2 where a2: "object_ops lo xs st1 = Some a2"
      using Cons.prems(2) a1 Inr q by (auto split: option.splits)
    have "implements lo hi (heap_ops xs t) a2"
      by (rule Cons.IH [OF t(2) a2])
    with t(1) a1 a2 Inr q Cons.prems(2) show ?thesis
      by (cases a2) (auto simp: implements_def)
  qed
qed

text \<open>Two objects, written, read, and given back in the order of their allocation: all memory is free again.\<close>

definition two_objects :: "heap_op list" where
  "two_objects =
     [Malloc 16, Malloc 8, Put 8176 15 65, Put 8160 0 66, Get 8176 15, Free 8176, Malloc 24, Get 8160 0,
      Free 8160, Get 8128 23, Free 8128]"

theorem heap_is_object_store_witness:
  "\<exists>s. heap_ops two_objects (init_heap 4096 4096 blank_heap) =
      ret ([8176, 8160, 0, 0, 65, 0, 8128, 66, 0, 0, 0], s) \<and> holds_store 4096 8192 ([(4096, 4096)], []) s"
proof -
  have "object_ops 4096 two_objects ([(4096, 4096)], []) =
      Some (Inr ([8176, 8160, 0, 0, 65, 0, 8128, 66, 0, 0, 0], [(4096, 4096)], []))"
    by (simp add: two_objects_def drop_object_def)
  moreover have "holds_store 4096 8192 ([(4096, 4096)], []) (init_heap 4096 4096 blank_heap)"
    using init_heap_store [of 4096 4096 blank_heap] by simp
  ultimately show ?thesis
    using heap_is_object_store [of 4096 8192 "([(4096, 4096)], [])" "init_heap 4096 4096 blank_heap" two_objects]
    by (simp add: implements_def)
qed

end
