(* ===== verification/Virtual_Address.thy ===== *)
theory Virtual_Address
  imports Kernel_Heap
begin

text \<open>
  Virtual addresses as the paging code takes them apart: four table indices and an offset
  (\<open>kernel/arch/x86_64/memory.c\<close>, \<open>libc/src/memory/memory.c\<close>). The two functions that put
  an address together again, written differently in the two files, agree on table indices and
  are inverse to taking it apart on the canonical page addresses.
\<close>

section \<open>The code\<close>

record Memory_Virtual_Address =
  pml4 :: u16
  pdpt :: u16
  pd :: u16
  pt :: u16

definition PAGE_VIRT_OFFSET :: u64 where
  "PAGE_VIRT_OFFSET = 0xffff800000000000"

definition MEMORY_MAPPED_IO_FLAGS :: u64 where
  "MEMORY_MAPPED_IO_FLAGS = 0b11011"

definition MEMORY_INVALID_RETURN :: u64 where
  "MEMORY_INVALID_RETURN = 0x3FFC000000000000"

definition MEMORY_END_OF_TRAVERSAL_RETURN :: u64 where
  "MEMORY_END_OF_TRAVERSAL_RETURN = 0x1FFC000000000000"

definition disassemble_virtual_address :: "u64 \<Rightarrow> Memory_Virtual_Address" where
  "disassemble_virtual_address addr =
     \<lparr>pml4 = ucast (drop_bit 39 addr AND 0x1FF), pdpt = ucast (drop_bit 30 addr AND 0x1FF),
      pd = ucast (drop_bit 21 addr AND 0x1FF), pt = ucast (drop_bit 12 addr AND 0x1FF)\<rparr>"

definition convertToAddr :: "u64 \<Rightarrow> Memory_Virtual_Address" where
  "convertToAddr int_addr =
     \<lparr>pml4 = ucast (drop_bit 39 int_addr AND 0x1FF), pdpt = ucast (drop_bit 30 int_addr AND 0x1FF),
      pd = ucast (drop_bit 21 int_addr AND 0x1FF), pt = ucast (drop_bit 12 int_addr AND 0x1FF)\<rparr>"

text \<open>
  The first two shifts are computed in \<open>int\<close> (a \<open>uint16_t\<close> is promoted) and sign-extended
  when they are or-ed into the 64-bit pointer.
\<close>

definition get_virtual_address :: "Memory_Virtual_Address \<Rightarrow> u64" where
  "get_virtual_address addr =
     (let ptr1 = 0 OR scast (push_bit 12 (ucast (pt addr) :: u32));
          ptr2 = ptr1 OR scast (push_bit 21 (ucast (pd addr) :: u32));
          ptr3 = ptr2 OR push_bit 30 (ucast (pdpt addr));
          ptr4 = ptr3 OR push_bit 39 (ucast (pml4 addr))
      in ptr4 OR drop_bit 8 (ucast (pml4 addr)) * 0xFFFF000000000000)"

definition translateAddrToInt :: "Memory_Virtual_Address \<Rightarrow> u64" where
  "translateAddrToInt addrStr =
     (let addr0 = scast ((ucast (pml4 addrStr) :: u32) OR (ucast (pml4 addrStr) AND 0x100) * 0x1FFFE);
          addr1 = push_bit 9 addr0 OR ucast (pdpt addrStr);
          addr2 = push_bit 9 addr1 OR ucast (pd addrStr);
          addr3 = push_bit 9 addr2 OR ucast (pt addrStr)
      in push_bit 12 addr3)"

definition FRAME_MASK :: u64 where
  "FRAME_MASK = 0xFFFFFFFFFFFFF000"

text \<open>\<open>((uint64_t*) table)[i]\<close>\<close>

definition entry :: "mem \<Rightarrow> u64 \<Rightarrow> nat \<Rightarrow> u64" where
  "entry m table i = load64 m (table + 8 * of_nat i)"

section \<open>Bit by bit\<close>

text \<open>The indices of an address are table indices: nine bits each.\<close>

definition table_indices :: "Memory_Virtual_Address \<Rightarrow> bool" where
  "table_indices a \<longleftrightarrow> pml4 a < 512 \<and> pdpt a < 512 \<and> pd a < 512 \<and> pt a < 512"

text \<open>Bits 48 to 63 repeat bit 47.\<close>

definition canonical :: "u64 \<Rightarrow> bool" where
  "canonical v \<longleftrightarrow> drop_bit 47 v = 0 \<or> drop_bit 47 v = 0x1FFFF"

lemma index_bits:
  fixes x :: u16
  assumes "x < 512" "bit x n"
  shows "n < 9"
proof -
  have "unat x < 512"
    using assms(1) by (simp add: word_less_nat_alt)
  then have "take_bit 9 x = x"
    by (simp add: word_eq_iff_unat unsigned_take_bit_eq take_bit_nat_eq_self)
  with assms(2) show "n < 9"
    by (metis bit_take_bit_iff)
qed

text \<open>The masks of the code, as the simplifier leaves them: bits of integer numerals.\<close>

lemma bit_mask_9: "bit (0x1FF :: int) n \<longleftrightarrow> n < 9"
proof -
  have "(0x1FF :: int) = mask 9"
    by (simp add: mask_eq_exp_minus_1)
  then show ?thesis
    by (simp only: bit_mask_iff) simp
qed

lemma bit_high_16: "bit (0xFFFF000000000000 :: int) n \<longleftrightarrow> 48 \<le> n \<and> n < 64"
proof -
  have "(0xFFFF000000000000 :: int) = push_bit 48 (mask 16)"
    by (simp add: mask_eq_exp_minus_1 push_bit_eq_mult)
  then show ?thesis
    by (simp only: bit_push_bit_iff bit_mask_iff) auto
qed

lemma bit_256: "bit (0x100 :: int) n \<longleftrightarrow> n = 8"
proof -
  have "(0x100 :: int) = push_bit 8 1"
    by (simp add: push_bit_eq_mult)
  then show ?thesis
    by (simp only: bit_push_bit_iff bit_1_iff) auto
qed

lemma bit_scast_push:
  fixes x :: u16
  assumes "x < 512" "k \<le> 21"
  shows "bit (scast (push_bit k (ucast x :: u32)) :: u64) n \<longleftrightarrow> k \<le> n \<and> bit x (n - k)"
proof -
  have "\<not> bit (push_bit k (ucast x :: u32)) 31"
    using index_bits [OF assms(1), of "31 - k"] assms(2) by (auto simp: bit_push_bit_iff bit_ucast_iff)
  then show ?thesis
    using index_bits [OF assms(1), of "n - k"] assms(2) bit_imp_le_length [of "push_bit k (ucast x :: u32)" n]
    by (auto simp: bit_signed_iff bit_push_bit_iff bit_ucast_iff min_def)
qed

text \<open>What each bit of the assembled address is.\<close>

lemma sign_part:
  assumes "x < 512"
  shows "bit (drop_bit 8 (ucast (x :: u16)) * 0xFFFF000000000000 :: u64) n \<longleftrightarrow> 48 \<le> n \<and> n < 64 \<and> bit x 8"
proof -
  have "drop_bit 8 (ucast x :: u64) = (if bit x 8 then 1 else 0)"
  proof (rule bit_word_eqI)
    fix n
    show "bit (drop_bit 8 (ucast x :: u64)) n \<longleftrightarrow> bit (if bit x 8 then 1 else 0 :: u64) n"
      using index_bits [OF assms, of "8 + n"] by (cases n) (auto simp: bit_drop_bit_eq bit_ucast_iff bit_1_iff)
  qed
  then show ?thesis
    by (auto simp: bit_high_16)
qed

lemma bit_get_virtual_address:
  assumes "table_indices a" "n < 64"
  shows "bit (get_virtual_address a) n \<longleftrightarrow>
    (if n < 12 then False else if n < 21 then bit (pt a) (n - 12) else if n < 30 then bit (pd a) (n - 21)
     else if n < 39 then bit (pdpt a) (n - 30) else if n < 48 then bit (pml4 a) (n - 39) else bit (pml4 a) 8)"
  using assms index_bits [of "pt a" "n - 12"] index_bits [of "pd a" "n - 21"]
    index_bits [of "pdpt a" "n - 30"] index_bits [of "pml4 a" "n - 39"]
  by (auto simp: get_virtual_address_def Let_def table_indices_def bit_or_iff bit_scast_push
      bit_push_bit_iff bit_ucast_iff sign_part)

lemma bit_pml4_sign:
  fixes x :: u16
  assumes "x < 512"
  shows "bit (scast ((ucast x :: u32) OR (ucast x AND 0x100) * 0x1FFFE) :: u64) n \<longleftrightarrow>
    (if n < 9 then bit x n else n < 25 \<and> bit x 8)"
proof -
  have "(ucast x AND 0x100 :: u32) = (if bit x 8 then 0x100 else 0)"
  proof (rule bit_word_eqI)
    fix n
    show "bit (ucast x AND 0x100 :: u32) n \<longleftrightarrow> bit (if bit x 8 then 0x100 else 0 :: u32) n"
      by (auto simp: bit_and_iff bit_ucast_iff bit_256)
  qed
  moreover have "(0x100 * 0x1FFFE :: u32) = push_bit 9 (mask 16)"
    by (simp add: mask_eq_exp_minus_1 push_bit_eq_mult)
  ultimately have w: "(ucast x :: u32) OR (ucast x AND 0x100) * 0x1FFFE =
      ucast x OR (if bit x 8 then push_bit 9 (mask 16) else 0)"
    by simp
  show ?thesis
    unfolding w using index_bits [OF assms, of n] index_bits [OF assms, of 31]
    by (auto simp: bit_signed_iff bit_or_iff bit_push_bit_iff bit_ucast_iff bit_mask_iff min_def)
qed

lemma bit_translateAddrToInt:
  assumes "table_indices a" "n < 64"
  shows "bit (translateAddrToInt a) n \<longleftrightarrow>
    (if n < 12 then False else if n < 21 then bit (pt a) (n - 12) else if n < 30 then bit (pd a) (n - 21)
     else if n < 39 then bit (pdpt a) (n - 30) else if n < 48 then bit (pml4 a) (n - 39) else bit (pml4 a) 8)"
  using assms index_bits [of "pt a" "n - 12"] index_bits [of "pd a" "n - 21"]
    index_bits [of "pdpt a" "n - 30"] index_bits [of "pml4 a" "n - 39"]
  by (auto simp: translateAddrToInt_def Let_def table_indices_def bit_or_iff bit_pml4_sign
      bit_push_bit_iff bit_ucast_iff)

lemma bit_index:
  "bit (ucast (drop_bit k (v :: u64) AND 0x1FF) :: u16) n \<longleftrightarrow> n < 9 \<and> bit v (k + n)"
  by (auto simp: bit_ucast_iff bit_and_iff bit_mask_9 bit_drop_bit_eq)

lemma index_less: "(ucast (drop_bit k (v :: u64) AND 0x1FF) :: u16) < 512"
proof -
  have "(ucast (drop_bit k v AND 0x1FF) :: u16) = take_bit 9 (ucast (drop_bit k v))"
  proof (rule bit_word_eqI)
    fix n
    show "bit (ucast (drop_bit k v AND 0x1FF) :: u16) n \<longleftrightarrow> bit (take_bit 9 (ucast (drop_bit k v)) :: u16) n"
      unfolding bit_index by (auto simp: bit_take_bit_iff bit_ucast_iff bit_drop_bit_eq)
  qed
  then show ?thesis
    by (simp add: word_less_nat_alt unsigned_take_bit_eq take_bit_nat_less_exp [of 9, simplified])
qed

lemma disassemble_fields:
  "pml4 (disassemble_virtual_address v) = ucast (drop_bit 39 v AND 0x1FF)"
  "pdpt (disassemble_virtual_address v) = ucast (drop_bit 30 v AND 0x1FF)"
  "pd (disassemble_virtual_address v) = ucast (drop_bit 21 v AND 0x1FF)"
  "pt (disassemble_virtual_address v) = ucast (drop_bit 12 v AND 0x1FF)"
  by (simp_all add: disassemble_virtual_address_def)

lemma table_indices_disassemble: "table_indices (disassemble_virtual_address v)"
  by (simp add: table_indices_def disassemble_virtual_address_def index_less)

lemma canonical_bits:
  assumes "canonical v" "47 \<le> n" "n < 64"
  shows "bit v n \<longleftrightarrow> bit v 47"
proof -
  have m: "(0x1FFFF :: u64) = mask 17"
    by (simp add: mask_eq_exp_minus_1)
  have b: "bit v k \<longleftrightarrow> bit (drop_bit 47 v) (k - 47)" if "47 \<le> k" for k
    using that by (simp add: bit_drop_bit_eq)
  from assms(1) show ?thesis
    unfolding canonical_def m using b [of n] b [of 47] assms(2,3)
    by (auto simp: bit_mask_iff)
qed

lemma index_eqI:
  fixes x :: u16
  assumes "x < 512" "\<And>n. n < 9 \<Longrightarrow> bit v (k + n) \<longleftrightarrow> bit x n"
  shows "ucast (drop_bit k (v :: u64) AND 0x1FF) = x"
proof (rule bit_word_eqI)
  fix n
  show "bit (ucast (drop_bit k v AND 0x1FF) :: u16) n \<longleftrightarrow> bit x n"
    unfolding bit_index using assms index_bits [of x n] by blast
qed

section \<open>Properties\<close>

text \<open>
  Taking an assembled address apart gives back its four indices.
\<close>

lemma disassemble_get:
  assumes "table_indices a"
  shows "disassemble_virtual_address (get_virtual_address a) = a \<and> convertToAddr (get_virtual_address a) = a"
proof -
  note bits = bit_get_virtual_address [OF assms]
  have "ucast (drop_bit 39 (get_virtual_address a) AND 0x1FF) = pml4 a"
    "ucast (drop_bit 30 (get_virtual_address a) AND 0x1FF) = pdpt a"
    "ucast (drop_bit 21 (get_virtual_address a) AND 0x1FF) = pd a"
    "ucast (drop_bit 12 (get_virtual_address a) AND 0x1FF) = pt a"
    using assms by (auto intro!: index_eqI simp: bits table_indices_def)
  then show ?thesis
    by (simp add: disassemble_virtual_address_def convertToAddr_def)
qed

lemma disassemble_get_example:
  "disassemble_virtual_address (get_virtual_address \<lparr>pml4 = 511, pdpt = 510, pd = 3, pt = 7\<rparr>) =
     \<lparr>pml4 = 511, pdpt = 510, pd = 3, pt = 7\<rparr>"
  using disassemble_get [of "\<lparr>pml4 = 511, pdpt = 510, pd = 3, pt = 7\<rparr>"] by (simp add: table_indices_def)

text \<open>
  Every canonical page address is rebuilt from its indices, by either function.
\<close>

lemma get_disassemble:
  assumes "canonical v" "take_bit 12 v = 0"
  shows "get_virtual_address (disassemble_virtual_address v) = v \<and>
    translateAddrToInt (disassemble_virtual_address v) = v"
proof -
  note ti = table_indices_disassemble [of v]
  have low: "\<not> bit v n" if "n < 12" for n
    using assms(2) that by (metis bit_0_eq bit_take_bit_iff bot_apply bot_bool_def)
  have "bit (get_virtual_address (disassemble_virtual_address v)) n \<longleftrightarrow> bit v n" if "n < 64" for n
    using that low [of n] canonical_bits [OF assms(1), of n]
    by (simp only: bit_get_virtual_address [OF ti] disassemble_fields bit_index, auto)
  moreover have "bit (translateAddrToInt (disassemble_virtual_address v)) n \<longleftrightarrow> bit v n" if "n < 64" for n
    using that low [of n] canonical_bits [OF assms(1), of n]
    by (simp only: bit_translateAddrToInt [OF ti] disassemble_fields bit_index, auto)
  ultimately show ?thesis
    by (auto intro!: bit_word_eqI)
qed

lemma get_disassemble_example:
  "get_virtual_address (disassemble_virtual_address 0xFFFF800000001000) = 0xFFFF800000001000"
  using get_disassemble [of "0xFFFF800000001000"] by (simp add: canonical_def)

text \<open>
  C19: the kernel's \<open>get_virtual_address\<close> and the library's \<open>translateAddrToInt\<close>, written
  differently, are the same function on table indices, and the address is canonical and
  page-aligned.
\<close>

theorem address_builders_agree:
  assumes "table_indices a"
  shows "translateAddrToInt a = get_virtual_address a \<and> canonical (get_virtual_address a) \<and>
    take_bit 12 (get_virtual_address a) = 0"
proof (intro conjI)
  show "translateAddrToInt a = get_virtual_address a"
    by (rule bit_word_eqI) (simp add: bit_get_virtual_address [OF assms] bit_translateAddrToInt [OF assms])
  show "take_bit 12 (get_virtual_address a) = 0"
    by (rule bit_word_eqI) (auto simp: bit_take_bit_iff bit_get_virtual_address [OF assms])
  have "drop_bit 47 (get_virtual_address a) = (if bit (pml4 a) 8 then mask 17 else 0)"
  proof (rule bit_word_eqI)
    fix n
    show "bit (drop_bit 47 (get_virtual_address a)) n \<longleftrightarrow> bit (if bit (pml4 a) 8 then mask 17 else 0 :: u64) n"
      using bit_get_virtual_address [OF assms, of "47 + n"] bit_imp_le_length [of "get_virtual_address a" "47 + n"]
      by (cases "n < 17") (auto simp: bit_drop_bit_eq bit_mask_iff)
  qed
  then show "canonical (get_virtual_address a)"
    by (auto simp: canonical_def mask_eq_exp_minus_1)
qed

theorem address_builders_agree_witness:
  "translateAddrToInt \<lparr>pml4 = 256, pdpt = 0, pd = 0, pt = 1\<rparr> = get_virtual_address \<lparr>pml4 = 256, pdpt = 0, pd = 0, pt = 1\<rparr>"
  using address_builders_agree [of "\<lparr>pml4 = 256, pdpt = 0, pd = 0, pt = 1\<rparr>"] by (simp add: table_indices_def)

end
