(* ===== verification/Translator.thy ===== *)
theory Translator
  imports Virtual_Address
begin

text \<open>
  The address-space translator (\<open>libc/src/memory/address_translater_v3.c\<close>): a linked list of
  entries (virtual address, physical address, length) with a cache of the entry last used.
  The routines that allocate take the allocator as an argument, and their lemmas are proved in
  the interface \<open>allocator\<close>. The theory also holds the abstract map the list stands for, and the
  cases in which the code's answers differ from it.
\<close>

section \<open>The structs\<close>

text \<open>
  \<open>struct address_space_translator\<close>: \<open>size\<close> at 0, \<open>first\<close> at 8, \<open>cache\<close> at 16.
  \<open>struct address_space_translator_entry\<close>: \<open>virtual_address\<close> at 0, \<open>physical_address\<close> at 8,
  \<open>length\<close> at 16, \<open>next\<close> at 24.
\<close>

definition tr_size :: "mem \<Rightarrow> u64 \<Rightarrow> u32" where "tr_size m t = load32 m t"
definition tr_first :: "mem \<Rightarrow> u64 \<Rightarrow> u64" where "tr_first m t = load64 m (t + 8)"
definition tr_cache :: "mem \<Rightarrow> u64 \<Rightarrow> u64" where "tr_cache m t = load64 m (t + 16)"
definition e_virt :: "mem \<Rightarrow> u64 \<Rightarrow> u64" where "e_virt m e = load64 m e"
definition e_phys :: "mem \<Rightarrow> u64 \<Rightarrow> u64" where "e_phys m e = load64 m (e + 8)"
definition e_len :: "mem \<Rightarrow> u64 \<Rightarrow> u64" where "e_len m e = load64 m (e + 16)"
definition e_next :: "mem \<Rightarrow> u64 \<Rightarrow> u64" where "e_next m e = load64 m (e + 24)"

definition set_cache :: "u64 \<Rightarrow> u64 \<Rightarrow> 'a machine_scheme \<Rightarrow> 'a machine_scheme" where
  "set_cache t e s = s\<lparr>bytes := store64 (bytes s) (t + 16) e\<rparr>"

lemma set_cache_same: "load64 (bytes s) (t + 16) = e \<Longrightarrow> set_cache t e s = s"
proof -
  have "store64 m a (load64 m a) = m" for m :: mem and a
  proof
    fix x
    have "bit (store64 m a (load64 m a) x) n = bit (m x) n" if "n < 8" for n
    proof (cases "unat (x - a) < 8")
      case True
      with that have k: "n + 8 * unat (x - a) < 64" "(8 * unat (x - a) + n) div 8 = unat (x - a)" "(8 * unat (x - a) + n) mod 8 = n"
        by auto
      with True that show ?thesis
        by (simp add: store64_def store_le_def load64_def bit_ucast_iff bit_drop_bit_eq bit_load_le)
    qed (simp add: store64_def store_le_def)
    then show "store64 m a (load64 m a) x = m x" by (intro bit_word_eqI) simp
  qed
  then show "load64 (bytes s) (t + 16) = e \<Longrightarrow> set_cache t e s = s" by (auto simp: set_cache_def)
qed

section \<open>Looking up\<close>

text \<open>The loop of the five lookup routines: the first of the next \<open>n\<close> entries that matches.\<close>

primrec tr_search :: "mem \<Rightarrow> (u64 \<Rightarrow> bool) \<Rightarrow> u64 \<Rightarrow> nat \<Rightarrow> u64 option" where
  "tr_search m matches e 0 = None"
| "tr_search m matches e (Suc n) = (if matches e then Some e else tr_search m matches (e_next m e) n)"

definition virt_in :: "mem \<Rightarrow> u64 \<Rightarrow> u64 \<Rightarrow> bool" where
  "virt_in m a e \<longleftrightarrow> e_virt m e \<le> a \<and> e_virt m e + e_len m e \<ge> a"

definition phys_in :: "mem \<Rightarrow> u64 \<Rightarrow> u64 \<Rightarrow> bool" where
  "phys_in m a e \<longleftrightarrow> e_phys m e \<le> a \<and> e_phys m e + e_len m e \<ge> a"

definition translator_translate_virtual :: "u64 \<Rightarrow> u64 \<Rightarrow> 'a machine_scheme \<Rightarrow> u64 \<times> 'a machine_scheme" where
  "translator_translate_virtual tr virt s =
     (let m = bytes s;
          virtual_address = virt AND NOT 0xFFF;
          off = virt AND 0xFFF;
          c = tr_cache m tr
      in if e_virt m c = virtual_address
         then (e_phys m c + (virtual_address - e_virt m c) + off, s)
         else case tr_search m (virt_in m virtual_address) (tr_first m tr) (unat (tr_size m tr)) of
                Some e \<Rightarrow> (e_phys m e + (virtual_address - e_virt m e) + off, set_cache tr e s)
              | None \<Rightarrow> (MEMORY_INVALID_RETURN, s))"

definition translator_translate_physical :: "u64 \<Rightarrow> u64 \<Rightarrow> 'a machine_scheme \<Rightarrow> u64 \<times> 'a machine_scheme" where
  "translator_translate_physical tr phys s =
     (let m = bytes s;
          physical_address = phys AND NOT 0xFFF;
          off = phys AND 0xFFF;
          c = tr_cache m tr
      in if e_phys m c = physical_address
         then (e_virt m c + (physical_address - e_phys m c) + off, s)
         else case tr_search m (phys_in m physical_address) (tr_first m tr) (unat (tr_size m tr)) of
                Some e \<Rightarrow> (e_virt m e + (physical_address - e_phys m e) + off, set_cache tr e s)
              | None \<Rightarrow> (MEMORY_INVALID_RETURN, s))"

text \<open>The cache test reads \<open>a & mask == addr\<close>, which C parses as \<open>a & (mask == addr)\<close>.\<close>

definition translator_contains_immideate_virtual_addr :: "u64 \<Rightarrow> u64 \<Rightarrow> u8 \<Rightarrow> 'a machine_scheme \<Rightarrow> bool \<times> 'a machine_scheme" where
  "translator_contains_immideate_virtual_addr tr addr0 level s =
     (let m = bytes s;
          mask = push_bit (9 * (4 - unat level)) (NOT 0xFFF);
          addr = addr0 AND mask
      in if e_virt m (tr_cache m tr) AND (if mask = addr then 1 else 0) \<noteq> 0 then (True, s)
         else case tr_search m (\<lambda>e. e_virt m e AND mask \<le> addr \<and> e_virt m e + e_len m e \<ge> addr)
                     (tr_first m tr) (unat (tr_size m tr)) of
                Some e \<Rightarrow> (True, set_cache tr e s)
              | None \<Rightarrow> (False, s))"

definition translator_contains_virtual_addr :: "u64 \<Rightarrow> Memory_Virtual_Address \<Rightarrow> u8 \<Rightarrow> 'a machine_scheme \<Rightarrow> bool \<times> 'a machine_scheme" where
  "translator_contains_virtual_addr tr addrStr level s =
     translator_contains_immideate_virtual_addr tr (translateAddrToInt addrStr) level s"

definition translator_contains_virtual :: "u64 \<Rightarrow> u64 \<Rightarrow> 'a machine_scheme \<Rightarrow> bool \<times> 'a machine_scheme" where
  "translator_contains_virtual tr virt s =
     (let m = bytes s;
          virtual_address = virt AND NOT 0xFFF
      in if e_virt m (tr_cache m tr) = virtual_address then (True, s)
         else case tr_search m (virt_in m virtual_address) (tr_first m tr) (unat (tr_size m tr)) of
                Some e \<Rightarrow> (True, set_cache tr e s)
              | None \<Rightarrow> (False, s))"

text \<open>Here the cache test is an expression statement without effect.\<close>

definition translator_contains_physically :: "u64 \<Rightarrow> u64 \<Rightarrow> 'a machine_scheme \<Rightarrow> bool \<times> 'a machine_scheme" where
  "translator_contains_physically tr phys s =
     (let m = bytes s;
          physical_address = phys AND NOT 0xFFF
      in case tr_search m (phys_in m physical_address) (tr_first m tr) (unat (tr_size m tr)) of
           Some e \<Rightarrow> (True, set_cache tr e s)
         | None \<Rightarrow> (False, s))"

section \<open>Flags\<close>

text \<open>
  Lines 40 and 48 compare (\<open>flags == ...\<close>) where they mean to assign, so levels 1 to 3 all
  return the flags of the PML4 entry; \<open>pt\<close> is masked with 16 bits instead of 9.
\<close>

definition translator_get_level_flags :: "u64 \<Rightarrow> u64 \<Rightarrow> u8 \<Rightarrow> 'a machine_scheme \<Rightarrow> (u16 \<times> 'a machine_scheme) run" where
  "translator_get_level_flags tr virt level s =
     (if level > 4 \<or> level = 0 then stop (Abort (''Translator flag level ranges from 4 to 1'' @ [CHR 0x0A]))
      else
        let virtual_address = virt AND NOT 0xFFF;
            pt_i = unat (drop_bit 12 virtual_address AND 0xFFFF);
            pd_i = unat (drop_bit 21 virtual_address AND 0x1FF);
            pdpd_i = unat (drop_bit 30 virtual_address AND 0x1FF);
            pml4_i = unat (drop_bit 39 virtual_address AND 0x1FF);
            (cr3v, s1) = translator_translate_physical tr (cr3 s) s;
            pdpt_base = entry (bytes s1) cr3v pml4_i AND FRAME_MASK;
            (pdpt_table, s2) = translator_translate_physical tr pdpt_base s1;
            flags = ucast (entry (bytes s2) cr3v pml4_i AND 0xFFF)
        in if level = 1 then ret (flags, s2)
           else
             let pd_base = entry (bytes s2) pdpt_table pdpd_i AND FRAME_MASK;
                 (pd_table, s3) = translator_translate_physical tr pd_base s2
             in if level = 2 then ret (flags, s3)
                else if entry (bytes s3) pdpt_table pdpd_i AND 0x80 \<noteq> 0 then ret (-1, s3)
                else
                  let pt_base = entry (bytes s3) pd_table pd_i AND FRAME_MASK;
                      (pt_table, s4) = translator_translate_physical tr pt_base s3
                  in if level = 3 then ret (flags, s4)
                     else if entry (bytes s4) pd_table pd_i AND 0x80 \<noteq> 0 then ret (-1, s4)
                     else ret (ucast (entry (bytes s4) pt_table pt_i AND 0xFFF), s4))"

definition translator_get_flags :: "u64 \<Rightarrow> u64 \<Rightarrow> 'a machine_scheme \<Rightarrow> u64 \<times> 'a machine_scheme" where
  "translator_get_flags tr virt s =
     (let virtual_address = virt AND NOT 0xFFF;
          pt_i = unat (drop_bit 12 virtual_address AND 0xFFFF);
          pd_i = unat (drop_bit 21 virtual_address AND 0x1FF);
          pdpd_i = unat (drop_bit 30 virtual_address AND 0x1FF);
          pml4_i = unat (drop_bit 39 virtual_address AND 0x1FF);
          (cr3v, s1) = translator_translate_physical tr (cr3 s) s;
          pdpt_base = entry (bytes s1) cr3v pml4_i AND FRAME_MASK;
          (pdpt_table, s2) = translator_translate_physical tr pdpt_base s1;
          flags0 = push_bit 48 (entry (bytes s2) cr3v pml4_i AND 0xFFF);
          pd_base = entry (bytes s2) pdpt_table pdpd_i AND FRAME_MASK;
          (pd_table, s3) = translator_translate_physical tr pd_base s2;
          flags1 = flags0 OR push_bit 32 (entry (bytes s3) pd_table pdpd_i AND 0xFFF)
      in if entry (bytes s3) pdpt_table pdpd_i AND 0x80 \<noteq> 0 then (flags1, s3)
         else
           let pt_base = entry (bytes s3) pd_table pd_i AND FRAME_MASK;
               (pt_table, s4) = translator_translate_physical tr pt_base s3;
               flags2 = flags1 OR push_bit 16 (entry (bytes s4) pd_table pd_i AND 0xFFF)
           in if entry (bytes s4) pd_table pd_i AND 0x80 \<noteq> 0 then (flags2, s4)
              else (flags2 OR (entry (bytes s4) pt_table pt_i AND 0xFFF), s4))"

section \<open>Adding entries\<close>

type_synonym 'a alloc_fun = "u64 \<Rightarrow> 'a machine_scheme \<Rightarrow> (u64 \<times> 'a machine_scheme) run"
type_synonym 'a free_fun = "u64 \<Rightarrow> 'a machine_scheme \<Rightarrow> 'a machine_scheme run"

definition create_translator :: "'a alloc_fun \<Rightarrow> 'a machine_scheme \<Rightarrow> (u64 \<times> 'a machine_scheme) run" where
  "create_translator alloc s =
     run_bind (alloc 24 s) (\<lambda>(t, s1).
       ret (t, s1\<lparr>bytes := store64 (store32 (bytes s1) t 0) (t + 8) 0\<rparr>))"

text \<open>\<open>e\<close> ends where the new range begins, virtually and physically.\<close>

definition adjoins :: "mem \<Rightarrow> u64 \<Rightarrow> u64 \<Rightarrow> u64 \<Rightarrow> bool" where
  "adjoins m virtual_address physical_address e \<longleftrightarrow>
     e_virt m e + e_len m e = virtual_address \<and> e_phys m e + e_len m e = physical_address"

text \<open>The loop of \<open>translator_add_entry\<close>: \<open>Inl e\<close> returns after merging into \<open>e\<close>, \<open>Inr e\<close> goes on.\<close>

primrec add_walk :: "mem \<Rightarrow> u64 \<Rightarrow> u64 \<Rightarrow> u64 \<Rightarrow> nat \<Rightarrow> u64 + u64" where
  "add_walk m va pa e 0 = Inr e"
| "add_walk m va pa e (Suc n) =
     (if adjoins m va pa e then Inl e
      else if e_virt m (e_next m e) > va then Inr e
      else add_walk m va pa (e_next m e) n)"

definition grow_entry :: "u64 \<Rightarrow> u64 \<Rightarrow> u64 \<Rightarrow> mem \<Rightarrow> mem" where
  "grow_entry tr e len m = store64 (store64 m (e + 16) (e_len m e + len)) (tr + 16) e"

definition translator_add_entry :: "'a alloc_fun \<Rightarrow> u64 \<Rightarrow> u64 \<Rightarrow> u64 \<Rightarrow> u64 \<Rightarrow> 'a machine_scheme \<Rightarrow> 'a machine_scheme run" where
  "translator_add_entry alloc tr virt phys len s =
     (let va = virt AND NOT 0xFFF;
          pa = phys AND NOT 0xFFF
      in if tr_size (bytes s) tr = 0 then
           run_bind (alloc 32 s) (\<lambda>(e, s1).
             let m1 = store64 (bytes s1) (tr + 8) e;
                 m2 = store64 m1 (tr_first m1 tr) va;
                 m3 = store64 m2 (tr_first m2 tr + 8) pa;
                 m4 = store64 m3 (tr_first m3 tr + 16) len;
                 m5 = store32 m4 tr (tr_size m4 tr + 1);
                 m6 = store64 m5 (tr + 16) (tr_first m5 tr)
             in ret (s1\<lparr>bytes := m6\<rparr>))
         else
           case add_walk (bytes s) va pa (tr_first (bytes s) tr) (unat (tr_size (bytes s) tr - 1)) of
             Inl e \<Rightarrow> ret (s\<lparr>bytes := grow_entry tr e len (bytes s)\<rparr>)
           | Inr e \<Rightarrow>
               if adjoins (bytes s) va pa e then ret (s\<lparr>bytes := grow_entry tr e len (bytes s)\<rparr>)
               else run_bind (alloc 32 s) (\<lambda>(n, s1).
                 let m1 = store64 (bytes s1) (n + 24) (e_next (bytes s1) e);
                     m2 = store64 m1 (e + 24) n;
                     m3 = store64 m2 n va;
                     m4 = store64 m3 (n + 8) pa;
                     m5 = store64 m4 (n + 16) len;
                     m6 = store64 m5 (tr + 16) n;
                     m7 = store32 m6 tr (tr_size m6 tr + 1)
                 in ret (s1\<lparr>bytes := m7\<rparr>)))"

text \<open>
  \<open>translator_init_kernel_space\<close>: an entry for every page the boot loader's tables map. The
  counter \<open>size\<close> of the code is never read and has no counterpart.
\<close>

definition init_space_pt :: "'a alloc_fun \<Rightarrow> u64 \<Rightarrow> u64 \<Rightarrow> u64 \<Rightarrow> nat \<Rightarrow> 'a machine_scheme \<Rightarrow> 'a machine_scheme run" where
  "init_space_pt alloc tr offset pt_table l s =
     (let p = entry (bytes s) pt_table l
      in if p AND 1 \<noteq> 0
         then translator_add_entry alloc tr ((p AND 0x7FFFFFFFFFFFFFFF) + offset) (p AND 0x7FFFFFFFFFFFF000) 0x1000 s
         else ret s)"

definition init_space_pd :: "'a alloc_fun \<Rightarrow> u64 \<Rightarrow> u64 \<Rightarrow> u64 \<Rightarrow> u64 \<Rightarrow> nat \<Rightarrow> 'a machine_scheme \<Rightarrow> 'a machine_scheme run" where
  "init_space_pd alloc tr stack_offset offset pd_table k s =
     (let p = entry (bytes s) pd_table k;
          pt_table = (p AND 0x7FFFFFFFFFFFF000) + stack_offset
      in if p AND 1 = 0 then ret s
         else if p AND 0x80 \<noteq> 0
         then translator_add_entry alloc tr ((p AND 0x7FFFFFFFFFE00FFF) + offset) (p AND 0x7FFFFFFFFFE00000) 0x200000 s
         else for_each (init_space_pt alloc tr offset pt_table) [0 ..< 512] s)"

definition init_space_pdpt :: "'a alloc_fun \<Rightarrow> u64 \<Rightarrow> u64 \<Rightarrow> u64 \<Rightarrow> u64 \<Rightarrow> nat \<Rightarrow> 'a machine_scheme \<Rightarrow> 'a machine_scheme run" where
  "init_space_pdpt alloc tr stack_offset offset pdpt_table j s =
     (let p = entry (bytes s) pdpt_table j;
          pd_table = (p AND 0x7FFFFFFFFFFFF000) + stack_offset
      in if p AND 1 = 0 then ret s
         else if p AND 0x80 \<noteq> 0
         then translator_add_entry alloc tr ((p AND 0x7FFFFFFC0000FFF) + offset) (p AND 0x7FFFFFFFC0000000) 0x40000000 s
         else for_each (init_space_pd alloc tr stack_offset offset pd_table) [0 ..< 512] s)"

definition translator_init_kernel_space :: "'a alloc_fun \<Rightarrow> u64 \<Rightarrow> u64 \<Rightarrow> u64 \<Rightarrow> 'a machine_scheme \<Rightarrow> 'a machine_scheme run" where
  "translator_init_kernel_space alloc tr stack_offset instruction_offset s =
     (let cr3v = cr3 s + stack_offset
      in for_each (\<lambda>i s.
           let p = entry (bytes s) cr3v i;
               pdpt_table = (p AND 0x7FFFFFFFFFFFF000) + stack_offset;
               offset = (if i > 500 then instruction_offset else stack_offset)
           in if p AND 1 = 0 then ret s
              else for_each (init_space_pdpt alloc tr stack_offset offset pdpt_table) [0 ..< 512] s)
         [0 ..< 512] s)"

section \<open>Removing entries\<close>

text \<open>
  The two removal loops. \<open>i\<close> counts up to \<open>size - 1\<close>, read again in every round; after an entry
  is removed the code goes on reading it.
\<close>

partial_function (option) remove_virtual_loop ::
  "'a alloc_fun \<Rightarrow> 'a free_fun \<Rightarrow> u64 \<Rightarrow> u64 \<Rightarrow> u64 \<Rightarrow> u32 \<Rightarrow> u64 \<Rightarrow> u64 \<Rightarrow> 'a machine_scheme \<Rightarrow> 'a machine_scheme run" where
  "remove_virtual_loop alloc dealloc tr va len i prev e s =
     (if i < tr_size (bytes s) tr - 1 then
        run_bind
          (if virt_in (bytes s) va e then
             if e_len (bytes s) e = len then
               let m1 = (if i = 0 then store64 (bytes s) (tr + 8) (e_next (bytes s) e)
                         else store64 (bytes s) (prev + 24) (e_next (bytes s) e))
               in run_bind (dealloc e (s\<lparr>bytes := m1\<rparr>)) (\<lambda>s1.
                    ret (s1\<lparr>bytes := store32 (bytes s1) tr (tr_size (bytes s1) tr - 1)\<rparr>))
             else if e_virt (bytes s) e = va then
               let m1 = store64 (bytes s) e (e_virt (bytes s) e + len);
                   m2 = store64 m1 (e + 8) (e_phys m1 e + len);
                   m3 = store64 m2 (e + 16) (e_len m2 e - len)
               in ret (s\<lparr>bytes := m3\<rparr>)
             else if e_virt (bytes s) e + e_len (bytes s) e = va + len then
               ret (s\<lparr>bytes := store64 (bytes s) (e + 16) (e_len (bytes s) e - len)\<rparr>)
             else
               run_bind (alloc 32 s) (\<lambda>(n, s1).
                 let first_length = va - e_virt (bytes s1) e;
                     second_length = e_len (bytes s1) e - first_length - len;
                     m1 = store64 (bytes s1) (e + 16) first_length;
                     m2 = store64 m1 (n + 24) (e_next m1 e);
                     m3 = store64 m2 (e + 24) n;
                     m4 = store64 m3 n (va + len);
                     m5 = store64 m4 (n + 8) (e_phys m4 e + e_len m4 e + len);
                     m6 = store64 m5 (n + 16) second_length
                 in ret (s1\<lparr>bytes := store32 m6 tr (tr_size m6 tr + 1)\<rparr>))
           else ret s)
          (\<lambda>s1. remove_virtual_loop alloc dealloc tr va len (i + 1) e (e_next (bytes s1) e) s1)
      else ret s)"

definition translator_remove_entry_virtual ::
  "'a alloc_fun \<Rightarrow> 'a free_fun \<Rightarrow> u64 \<Rightarrow> u64 \<Rightarrow> u64 \<Rightarrow> 'a machine_scheme \<Rightarrow> 'a machine_scheme run" where
  "translator_remove_entry_virtual alloc dealloc tr virt len s =
     remove_virtual_loop alloc dealloc tr (virt AND NOT 0xFFF) len 0 0 (tr_first (bytes s) tr) s"

partial_function (option) remove_physical_loop ::
  "'a alloc_fun \<Rightarrow> 'a free_fun \<Rightarrow> u64 \<Rightarrow> u64 \<Rightarrow> u64 \<Rightarrow> u32 \<Rightarrow> u64 \<Rightarrow> u64 \<Rightarrow> 'a machine_scheme \<Rightarrow> 'a machine_scheme run" where
  "remove_physical_loop alloc dealloc tr pa len i prev e s =
     (if i < tr_size (bytes s) tr - 1 then
        run_bind
          (if phys_in (bytes s) pa e then
             if e_len (bytes s) e = len then
               let m1 = (if i = 0 then store64 (bytes s) (tr + 8) (e_next (bytes s) e)
                         else store64 (bytes s) (prev + 24) (e_next (bytes s) e));
                   m2 = store32 m1 tr (tr_size m1 tr - 1)
               in dealloc e (s\<lparr>bytes := m2\<rparr>)
             else if e_phys (bytes s) e = pa then
               let m1 = store64 (bytes s) e (e_virt (bytes s) e + len);
                   m2 = store64 m1 (e + 8) (e_phys m1 e + len);
                   m3 = store64 m2 (e + 16) (e_len m2 e - len)
               in ret (s\<lparr>bytes := m3\<rparr>)
             else if e_phys (bytes s) e + e_len (bytes s) e = pa + len then
               ret (s\<lparr>bytes := store64 (bytes s) (e + 16) (e_len (bytes s) e - len)\<rparr>)
             else
               run_bind (alloc 32 s) (\<lambda>(n, s1).
                 let first_length = pa - e_phys (bytes s1) e;
                     second_length = e_len (bytes s1) e - first_length - len;
                     m1 = store64 (bytes s1) (e + 16) first_length;
                     m2 = store64 m1 (n + 24) (e_next m1 e);
                     m3 = store64 m2 (e + 24) n;
                     m4 = store64 m3 (n + 8) (pa + len);
                     m5 = store64 m4 n (e_virt m4 e + e_len m4 e + len);
                     m6 = store64 m5 (n + 16) second_length
                 in ret (s1\<lparr>bytes := store32 m6 tr (tr_size m6 tr + 1)\<rparr>))
           else ret s)
          (\<lambda>s1. remove_physical_loop alloc dealloc tr pa len (i + 1) e (e_next (bytes s1) e) s1)
      else ret s)"

definition translator_remove_entry_physical ::
  "'a alloc_fun \<Rightarrow> 'a free_fun \<Rightarrow> u64 \<Rightarrow> u64 \<Rightarrow> u64 \<Rightarrow> 'a machine_scheme \<Rightarrow> 'a machine_scheme run" where
  "translator_remove_entry_physical alloc dealloc tr phys len s =
     remove_physical_loop alloc dealloc tr (phys AND NOT 0xFFF) len 0 0 (tr_first (bytes s) tr) s"

section \<open>The list in memory\<close>

text \<open>The first \<open>n\<close> entries from \<open>e\<close> on, as pointers, and what an entry says.\<close>

primrec eptrs :: "mem \<Rightarrow> u64 \<Rightarrow> nat \<Rightarrow> u64 list" where
  "eptrs m e 0 = []"
| "eptrs m e (Suc n) = e # eptrs m (e_next m e) n"

definition tr_ptrs :: "mem \<Rightarrow> u64 \<Rightarrow> u64 list" where
  "tr_ptrs m t = eptrs m (tr_first m t) (unat (tr_size m t))"

type_synonym tr_entry = "u64 \<times> u64 \<times> u64"

definition contents :: "mem \<Rightarrow> u64 \<Rightarrow> tr_entry" where
  "contents m e = (e_virt m e, e_phys m e, e_len m e)"

definition tr_entries :: "mem \<Rightarrow> u64 \<Rightarrow> tr_entry list" where
  "tr_entries m t = map (contents m) (tr_ptrs m t)"

lemma length_eptrs [simp]: "length (eptrs m e n) = n"
  by (induction n arbitrary: e) simp_all

lemma tr_search_find: "tr_search m P e n = find P (eptrs m e n)"
  by (induction n arbitrary: e) simp_all

text \<open>\<open>linked m e ps\<close>: the \<open>next\<close> fields run through \<open>ps\<close>, from \<open>e\<close>.\<close>

primrec linked :: "mem \<Rightarrow> u64 \<Rightarrow> u64 list \<Rightarrow> bool" where
  "linked m e [] \<longleftrightarrow> True"
| "linked m e (p # ps) \<longleftrightarrow> e = p \<and> linked m (e_next m p) ps"

lemma linked_eptrs: "linked m e ps \<longleftrightarrow> eptrs m e (length ps) = ps"
  by (induction ps arbitrary: e) auto

lemma linked_cong: "(\<And>p. p \<in> set ps \<Longrightarrow> e_next m p = e_next m' p) \<Longrightarrow> linked m e ps \<longleftrightarrow> linked m' e ps"
  by (induction ps arbitrary: e) auto

lemma linked_insert:
  assumes "linked m e (pre @ q # post)" "\<And>p. p \<in> set pre \<union> set post \<Longrightarrow> e_next m' p = e_next m p"
    "e_next m' q = n" "e_next m' n = e_next m q"
  shows "linked m' e (pre @ q # n # post)"
  using assms
proof (induction pre arbitrary: e)
  case Nil
  then show ?case using linked_cong [of post m' m] by auto
next
  case (Cons p pre)
  then show ?case by auto
qed

text \<open>
  \<open>tr_struct m t U\<close>: the struct and its entries are separate objects inside the addresses \<open>U\<close>.
\<close>

definition tr_struct :: "mem \<Rightarrow> u64 \<Rightarrow> u64 set \<Rightarrow> bool" where
  "tr_struct m t U \<longleftrightarrow>
     span t 24 \<subseteq> U \<and> distinct (tr_ptrs m t) \<and>
     (\<forall>p \<in> set (tr_ptrs m t). span p 32 \<subseteq> U \<and> apart p 32 t 24) \<and>
     (\<forall>p \<in> set (tr_ptrs m t). \<forall>q \<in> set (tr_ptrs m t). p \<noteq> q \<longrightarrow> apart p 32 q 32)"

lemma apart_fields:
  assumes "apart p 32 q k" "unat d + 8 \<le> 32" "unat f + j \<le> k" "0 < j"
  shows "apart (p + d) 8 (q + f) j"
  using apart_field [OF assms(1), of d 8 f j] assms by simp

text \<open>An entry's fields do not see a store into another object.\<close>

lemma entry_fields_cong:
  assumes "\<And>x. x \<in> span e 32 \<Longrightarrow> m x = m' x"
  shows "e_virt m e = e_virt m' e" "e_phys m e = e_phys m' e" "e_len m e = e_len m' e" "e_next m e = e_next m' e"
    "contents m e = contents m' e"
proof -
  have "load64 m (e + d) = load64 m' (e + d)" if "unat d + 8 \<le> 32" for d
    by (rule load64_cong) (use assms span_sub [OF that, of e] in blast)
  from this [of 0] this [of 8] this [of 16] this [of 24]
  show "e_virt m e = e_virt m' e" "e_phys m e = e_phys m' e" "e_len m e = e_len m' e" "e_next m e = e_next m' e"
    "contents m e = contents m' e"
    by (simp_all add: e_virt_def e_phys_def e_len_def e_next_def contents_def)
qed

lemma head_fields_cong:
  assumes "\<And>x. x \<in> span t 24 \<Longrightarrow> m x = m' x"
  shows "tr_size m t = tr_size m' t" "tr_first m t = tr_first m' t" "tr_cache m t = tr_cache m' t"
proof -
  have "load64 m (t + d) = load64 m' (t + d)" if "unat d + 8 \<le> 24" for d
    by (rule load64_cong) (use assms span_sub [OF that, of t] in blast)
  from this [of 8] this [of 16] show "tr_first m t = tr_first m' t" "tr_cache m t = tr_cache m' t"
    by (simp_all add: tr_first_def tr_cache_def)
  have "span t 4 \<subseteq> span t 24" by auto
  then show "tr_size m t = tr_size m' t"
    unfolding tr_size_def by (intro load32_cong) (use assms in blast)
qed

lemma eptrs_cong:
  assumes "\<And>p. p \<in> set (eptrs m e n) \<Longrightarrow> e_next m' p = e_next m p"
  shows "eptrs m' e n = eptrs m e n"
  using assms
proof (induction n arbitrary: e)
  case (Suc n)
  then show ?case by (simp add: Suc.prems [of e])
qed simp

text \<open>Setting the cache changes no entry.\<close>

lemma set_cache_frame:
  assumes "\<forall>p \<in> set (tr_ptrs (bytes s) t). apart p 32 t 24"
  shows "tr_ptrs (bytes (set_cache t e s)) t = tr_ptrs (bytes s) t"
    "p \<in> set (tr_ptrs (bytes s) t) \<Longrightarrow> contents (bytes (set_cache t e s)) p = contents (bytes s) p"
    "tr_cache (bytes (set_cache t e s)) t = e"
proof -
  let ?m = "bytes (set_cache t e s)"
  have out: "?m x = bytes s x" if "p \<in> set (tr_ptrs (bytes s) t)" "x \<in> span p 32" for p x
  proof -
    have "span p 32 \<inter> span t 24 = {}"
      using assms that(1) apart_span by blast
    moreover have "span (t + 16) 8 \<subseteq> span t 24"
      by (rule span_sub) simp
    ultimately have "x \<notin> span (t + 16) 8" using that(2) by blast
    then show ?thesis unfolding set_cache_def by (simp add: store64_outside del: mem_span)
  qed
  have head: "tr_size ?m t = tr_size (bytes s) t" "tr_first ?m t = tr_first (bytes s) t"
    by (simp_all add: set_cache_def tr_size_def tr_first_def)
  show "tr_ptrs ?m t = tr_ptrs (bytes s) t"
    unfolding tr_ptrs_def head
    by (rule eptrs_cong) (rule entry_fields_cong, rule out, simp_all add: tr_ptrs_def)
  show "contents ?m p = contents (bytes s) p" if "p \<in> set (tr_ptrs (bytes s) t)" for p
    by (rule entry_fields_cong) (rule out [OF that])
  show "tr_cache ?m t = e" by (simp add: set_cache_def tr_cache_def)
qed

section \<open>Translation\<close>

text \<open>
  \<open>tr_wf m t\<close>: the cache points at an entry, entries lie apart from the struct, start at page
  boundaries and do not wrap around; \<open>separated\<close>: no address is claimed by two entries, the
  code's closed ranges included.
\<close>

definition page_aligned :: "u64 \<Rightarrow> bool" where
  "page_aligned a \<longleftrightarrow> a AND NOT 0xFFF = a"

definition tr_wf :: "mem \<Rightarrow> u64 \<Rightarrow> bool" where
  "tr_wf m t \<longleftrightarrow> tr_cache m t \<in> set (tr_ptrs m t) \<and>
     (\<forall>p \<in> set (tr_ptrs m t). apart p 32 t 24 \<and> page_aligned (e_virt m p) \<and> page_aligned (e_phys m p) \<and>
       unat (e_virt m p) + unat (e_len m p) < 18446744073709551616 \<and>
       unat (e_phys m p) + unat (e_len m p) < 18446744073709551616)"

definition separated :: "mem \<Rightarrow> u64 \<Rightarrow> bool" where
  "separated m t \<longleftrightarrow> (\<forall>p \<in> set (tr_ptrs m t). \<forall>q \<in> set (tr_ptrs m t). p \<noteq> q \<longrightarrow>
     (e_virt m p + e_len m p < e_virt m q \<or> e_virt m q + e_len m q < e_virt m p) \<and>
     (e_phys m p + e_len m p < e_phys m q \<or> e_phys m q + e_len m q < e_phys m p))"

lemma virt_in_start: "unat (e_virt m p) + unat (e_len m p) < 18446744073709551616 \<Longrightarrow> virt_in m (e_virt m p) p"
  by (simp add: virt_in_def word_le_nat_alt unat_u64_add)

lemma phys_in_start: "unat (e_phys m p) + unat (e_len m p) < 18446744073709551616 \<Longrightarrow> phys_in m (e_phys m p) p"
  by (simp add: phys_in_def word_le_nat_alt unat_u64_add)

lemma separated_unique:
  assumes "separated m t" "p \<in> set (tr_ptrs m t)" "q \<in> set (tr_ptrs m t)"
  shows "virt_in m a p \<Longrightarrow> virt_in m a q \<Longrightarrow> p = q" "phys_in m b p \<Longrightarrow> phys_in m b q \<Longrightarrow> p = q"
  using assms unfolding separated_def virt_in_def phys_in_def by (meson leD le_less_trans less_le_trans)+

lemma and_split: "(v AND NOT c) + (v AND c) = v" for v c :: u64
proof -
  have "(v AND NOT c) + (v AND c) = (v AND NOT c) OR (v AND c)"
    by (rule disjunctive_add) (auto simp: bit_and_iff bit_not_iff)
  also have "\<dots> = v"
    by (rule bit_word_eqI) (auto simp: bit_or_iff bit_and_iff bit_not_iff)
  finally show ?thesis .
qed

lemma page_split: "(va AND - 4096) + (va AND 4095) = va" "va - (va AND - 4096) = va AND 4095" for va :: u64
proof -
  show s: "(va AND - 4096) + (va AND 4095) = va"
    using and_split [of va 4095] by simp
  show "va - (va AND - 4096) = va AND 4095"
    using s by (metis add_diff_cancel_left')
qed

lemma translate_virtual_hit:
  assumes wf: "tr_wf (bytes s) t" and e: "e \<in> set (tr_ptrs (bytes s) t)" "virt_in (bytes s) (va AND NOT 0xFFF) e"
    and only: "\<And>q. q \<in> set (tr_ptrs (bytes s) t) \<Longrightarrow> virt_in (bytes s) (va AND NOT 0xFFF) q \<Longrightarrow> q = e"
  shows "fst (translator_translate_virtual t va s) = e_phys (bytes s) e + (va - e_virt (bytes s) e) \<and>
    snd (translator_translate_virtual t va s) \<in> {s, set_cache t e s}"
proof -
  let ?m = "bytes s" and ?a = "va AND NOT 0xFFF"
  have off: "?a - v + (va AND 0xFFF) = va - v" for v
    using page_split(1) [of va] by (simp add: algebra_simps)
  have sum: "x + (?a - v) + (va AND 0xFFF) = x + (va - v)" for x v
    using off [of v] by (simp add: add.assoc)
  show ?thesis
  proof (cases "e_virt ?m (tr_cache ?m t) = ?a")
    case True
    have "virt_in ?m ?a (tr_cache ?m t)"
      unfolding True [symmetric] using wf by (intro virt_in_start) (auto simp: tr_wf_def)
    then have "tr_cache ?m t = e"
      using only wf by (auto simp: tr_wf_def)
    then show ?thesis
      using True by (simp add: translator_translate_virtual_def Let_def page_split)
  next
    case False
    have "find (virt_in ?m ?a) (tr_ptrs ?m t) = Some e"
    proof -
      obtain q where q: "find (virt_in ?m ?a) (tr_ptrs ?m t) = Some q"
        using e by (metis find_None_iff option.exhaust)
      then have "q \<in> set (tr_ptrs ?m t)" "virt_in ?m ?a q"
        by (auto simp: find_Some_iff)
      then show ?thesis using only q by blast
    qed
    then show ?thesis
      using False sum by (simp add: translator_translate_virtual_def Let_def tr_search_find tr_ptrs_def)
  qed
qed

lemma translate_physical_hit:
  assumes wf: "tr_wf (bytes s) t" and e: "e \<in> set (tr_ptrs (bytes s) t)" "phys_in (bytes s) (pa AND NOT 0xFFF) e"
    and only: "\<And>q. q \<in> set (tr_ptrs (bytes s) t) \<Longrightarrow> phys_in (bytes s) (pa AND NOT 0xFFF) q \<Longrightarrow> q = e"
  shows "fst (translator_translate_physical t pa s) = e_virt (bytes s) e + (pa - e_phys (bytes s) e) \<and>
    snd (translator_translate_physical t pa s) \<in> {s, set_cache t e s}"
proof -
  let ?m = "bytes s" and ?a = "pa AND NOT 0xFFF"
  have off: "?a - v + (pa AND 0xFFF) = pa - v" for v
    using page_split(1) [of pa] by (simp add: algebra_simps)
  have sum: "x + (?a - v) + (pa AND 0xFFF) = x + (pa - v)" for x v
    using off [of v] by (simp add: add.assoc)
  show ?thesis
  proof (cases "e_phys ?m (tr_cache ?m t) = ?a")
    case True
    have "phys_in ?m ?a (tr_cache ?m t)"
      unfolding True [symmetric] using wf by (intro phys_in_start) (auto simp: tr_wf_def)
    then have "tr_cache ?m t = e"
      using only wf by (auto simp: tr_wf_def)
    then show ?thesis
      using True by (simp add: translator_translate_physical_def Let_def page_split)
  next
    case False
    have "find (phys_in ?m ?a) (tr_ptrs ?m t) = Some e"
    proof -
      obtain q where q: "find (phys_in ?m ?a) (tr_ptrs ?m t) = Some q"
        using e by (metis find_None_iff option.exhaust)
      then have "q \<in> set (tr_ptrs ?m t)" "phys_in ?m ?a q"
        by (auto simp: find_Some_iff)
      then show ?thesis using only q by blast
    qed
    then show ?thesis
      using False sum by (simp add: translator_translate_physical_def Let_def tr_search_find tr_ptrs_def)
  qed
qed

section \<open>What adding an entry does to the list\<close>

fun adjacent :: "tr_entry \<Rightarrow> tr_entry \<Rightarrow> bool" where
  "adjacent (v, p, k) (va, pa, l) \<longleftrightarrow> v + k = va \<and> p + k = pa"

fun extend :: "tr_entry \<Rightarrow> u64 \<Rightarrow> tr_entry" where
  "extend (v, p, k) l = (v, p, k + l)"

text \<open>
  The abstract insertion: extend the first entry the new range adjoins, else put the new one
  before the first entry with a higher virtual address, but never before the head.
\<close>

fun insert_entry :: "tr_entry \<Rightarrow> tr_entry list \<Rightarrow> tr_entry list" where
  "insert_entry n [] = [n]"
| "insert_entry n [x] = (if adjacent x n then [extend x (snd (snd n))] else [x, n])"
| "insert_entry n (x # y # es) =
     (if adjacent x n then extend x (snd (snd n)) # y # es
      else if fst n < fst y then x # n # y # es
      else x # insert_entry n (y # es))"

lemma adjoins_adjacent: "adjoins m va pa e \<longleftrightarrow> adjacent (contents m e) (va, pa, l)"
  by (simp add: adjoins_def contents_def)

lemma add_walk_split:
  "\<exists>pre q post. eptrs m e (Suc n) = pre @ q # post \<and>
     (add_walk m va pa e n = Inl q \<and> adjoins m va pa q \<or> add_walk m va pa e n = Inr q) \<and>
     insert_entry (va, pa, l) (map (contents m) (eptrs m e (Suc n))) =
       map (contents m) pre @
       (if adjoins m va pa q then extend (contents m q) l # map (contents m) post
        else contents m q # (va, pa, l) # map (contents m) post)"
proof (induction n arbitrary: e)
  case 0
  show ?case
    by (rule exI [of _ "[]"], rule exI [of _ e], rule exI [of _ "[]"]) (simp add: adjoins_adjacent [of _ _ _ _ l])
next
  case (Suc n)
  let ?n = "e_next m e"
  consider (merge) "adjoins m va pa e" | (here) "\<not> adjoins m va pa e" "va < e_virt m ?n"
    | (later) "\<not> adjoins m va pa e" "\<not> va < e_virt m ?n" by blast
  then show ?case
  proof cases
    case merge
    then show ?thesis
      by - (rule exI [of _ "[]"], rule exI [of _ e], rule exI [of _ "eptrs m ?n (Suc n)"],
          simp add: adjoins_adjacent [of _ _ _ _ l])
  next
    case here
    then show ?thesis
      by - (rule exI [of _ "[]"], rule exI [of _ e], rule exI [of _ "eptrs m ?n (Suc n)"],
          simp add: adjoins_adjacent [of _ _ _ _ l], simp add: contents_def)
  next
    case later
    obtain pre q post where IH: "eptrs m ?n (Suc n) = pre @ q # post"
      "add_walk m va pa ?n n = Inl q \<and> adjoins m va pa q \<or> add_walk m va pa ?n n = Inr q"
      "insert_entry (va, pa, l) (map (contents m) (eptrs m ?n (Suc n))) = map (contents m) pre @
       (if adjoins m va pa q then extend (contents m q) l # map (contents m) post
        else contents m q # (va, pa, l) # map (contents m) post)"
      using Suc.IH [of ?n] by blast
    have ins: "insert_entry (va, pa, l) (map (contents m) (eptrs m e (Suc (Suc n)))) =
        contents m e # insert_entry (va, pa, l) (map (contents m) (eptrs m ?n (Suc n)))"
      using later by (simp add: adjoins_adjacent [of _ _ _ _ l]) (simp add: contents_def)
    show ?thesis
    proof (rule exI [of _ "e # pre"], rule exI [of _ q], rule exI [of _ post], intro conjI)
      show "eptrs m e (Suc (Suc n)) = (e # pre) @ q # post"
        using IH(1) by simp
      show "add_walk m va pa e (Suc n) = Inl q \<and> adjoins m va pa q \<or> add_walk m va pa e (Suc n) = Inr q"
        using IH(2) later by simp
      show "insert_entry (va, pa, l) (map (contents m) (eptrs m e (Suc (Suc n)))) = map (contents m) (e # pre) @
       (if adjoins m va pa q then extend (contents m q) l # map (contents m) post
        else contents m q # (va, pa, l) # map (contents m) post)"
        unfolding ins IH(3) by simp
    qed
  qed
qed

text \<open>Field by field: an entry against the struct, and one entry against another.\<close>

lemma entry_head_apart:
  assumes "apart p 32 t 24"
  shows
    "apart p 8 t 4"
    "apart p 8 (t + 8) 8"
    "apart p 8 (t + 16) 8"
    "apart (p + 8) 8 t 4"
    "apart (p + 8) 8 (t + 8) 8"
    "apart (p + 8) 8 (t + 16) 8"
    "apart (p + 16) 8 t 4"
    "apart (p + 16) 8 (t + 8) 8"
    "apart (p + 16) 8 (t + 16) 8"
    "apart (p + 24) 8 t 4"
    "apart (p + 24) 8 (t + 8) 8"
    "apart (p + 24) 8 (t + 16) 8"
proof -
  have ap: "apart (p + d) 8 (t + f) j" if "unat d + 8 \<le> 32" "unat f + j \<le> 24" "0 < j" for d f j
    by (rule apart_fields [OF assms that])
  show
    "apart p 8 t 4"
    "apart p 8 (t + 8) 8"
    "apart p 8 (t + 16) 8"
    "apart (p + 8) 8 t 4"
    "apart (p + 8) 8 (t + 8) 8"
    "apart (p + 8) 8 (t + 16) 8"
    "apart (p + 16) 8 t 4"
    "apart (p + 16) 8 (t + 8) 8"
    "apart (p + 16) 8 (t + 16) 8"
    "apart (p + 24) 8 t 4"
    "apart (p + 24) 8 (t + 8) 8"
    "apart (p + 24) 8 (t + 16) 8"
    using
    ap [of 0 0 4]
    ap [of 0 8 8]
    ap [of 0 16 8]
    ap [of 8 0 4]
    ap [of 8 8 8]
    ap [of 8 16 8]
    ap [of 16 0 4]
    ap [of 16 8 8]
    ap [of 16 16 8]
    ap [of 24 0 4]
    ap [of 24 8 8]
    ap [of 24 16 8]
    by simp_all
qed

lemma head_entry_apart:
  assumes "apart p 32 t 24"
  shows
    "apart t 4 p 8"
    "apart (t + 8) 8 p 8"
    "apart (t + 16) 8 p 8"
    "apart t 4 (p + 8) 8"
    "apart (t + 8) 8 (p + 8) 8"
    "apart (t + 16) 8 (p + 8) 8"
    "apart t 4 (p + 16) 8"
    "apart (t + 8) 8 (p + 16) 8"
    "apart (t + 16) 8 (p + 16) 8"
    "apart t 4 (p + 24) 8"
    "apart (t + 8) 8 (p + 24) 8"
    "apart (t + 16) 8 (p + 24) 8"
  by (rule apart_sym [THEN iffD1], rule entry_head_apart [OF assms])+

lemma entry_entry_apart:
  assumes "apart p 32 q 32"
  shows
    "apart p 8 q 8"
    "apart p 8 (q + 8) 8"
    "apart p 8 (q + 16) 8"
    "apart p 8 (q + 24) 8"
    "apart (p + 8) 8 q 8"
    "apart (p + 8) 8 (q + 8) 8"
    "apart (p + 8) 8 (q + 16) 8"
    "apart (p + 8) 8 (q + 24) 8"
    "apart (p + 16) 8 q 8"
    "apart (p + 16) 8 (q + 8) 8"
    "apart (p + 16) 8 (q + 16) 8"
    "apart (p + 16) 8 (q + 24) 8"
    "apart (p + 24) 8 q 8"
    "apart (p + 24) 8 (q + 8) 8"
    "apart (p + 24) 8 (q + 16) 8"
    "apart (p + 24) 8 (q + 24) 8"
proof -
  have ap: "apart (p + d) 8 (q + f) 8" if "unat d + 8 \<le> 32" "unat f + 8 \<le> 32" for d f
    by (rule apart_fields [OF assms that]) simp
  show
    "apart p 8 q 8"
    "apart p 8 (q + 8) 8"
    "apart p 8 (q + 16) 8"
    "apart p 8 (q + 24) 8"
    "apart (p + 8) 8 q 8"
    "apart (p + 8) 8 (q + 8) 8"
    "apart (p + 8) 8 (q + 16) 8"
    "apart (p + 8) 8 (q + 24) 8"
    "apart (p + 16) 8 q 8"
    "apart (p + 16) 8 (q + 8) 8"
    "apart (p + 16) 8 (q + 16) 8"
    "apart (p + 16) 8 (q + 24) 8"
    "apart (p + 24) 8 q 8"
    "apart (p + 24) 8 (q + 8) 8"
    "apart (p + 24) 8 (q + 16) 8"
    "apart (p + 24) 8 (q + 24) 8"
    using
    ap [of 0 0]
    ap [of 0 8]
    ap [of 0 16]
    ap [of 0 24]
    ap [of 8 0]
    ap [of 8 8]
    ap [of 8 16]
    ap [of 8 24]
    ap [of 16 0]
    ap [of 16 8]
    ap [of 16 16]
    ap [of 16 24]
    ap [of 24 0]
    ap [of 24 8]
    ap [of 24 16]
    ap [of 24 24]
    by simp_all
qed

lemmas field_apart = entry_head_apart head_entry_apart entry_entry_apart

text \<open>The memory after the new entry \<open>n\<close> has been linked in behind \<open>e\<close>.\<close>

definition link_entry :: "u64 \<Rightarrow> u64 \<Rightarrow> u64 \<Rightarrow> tr_entry \<Rightarrow> mem \<Rightarrow> mem" where
  "link_entry t e n x m =
     (let m1 = store64 m (n + 24) (e_next m e);
          m2 = store64 m1 (e + 24) n;
          m3 = store64 m2 n (fst x);
          m4 = store64 m3 (n + 8) (fst (snd x));
          m5 = store64 m4 (n + 16) (snd (snd x));
          m6 = store64 m5 (t + 16) n
      in store32 m6 t (tr_size m6 t + 1))"

lemma entry_subspan: "span (e + 24) 8 \<subseteq> span e 32" "span e 8 \<subseteq> span e 32" "span (e + 8) 8 \<subseteq> span e 32"
  "span (e + 16) 8 \<subseteq> span e 32" "span (t + 16) 8 \<subseteq> span t 24" "span (t + 8) 8 \<subseteq> span t 24" "span t 4 \<subseteq> span t 24"
  by (rule span_sub span_mono; simp)+

lemma link_entry_outside:
  assumes "x \<notin> span (e + 24) 8" "x \<notin> span n 32" "x \<notin> span t 24"
  shows "link_entry t e n y m x = m x"
proof -
  have "x \<notin> span (n + 24) 8" "x \<notin> span n 8" "x \<notin> span (n + 8) 8" "x \<notin> span (n + 16) 8" "x \<notin> span (t + 16) 8" "x \<notin> span t 4"
    using assms(2,3) entry_subspan(1-4) [of n] entry_subspan(5-7) [of t] by blast+
  with assms(1) show ?thesis
    by (simp add: link_entry_def Let_def store64_outside store32_outside del: mem_span)
qed

lemma link_entry_fields:
  fixes m :: mem and y :: tr_entry
  assumes "apart e 32 t 24" "apart n 32 t 24" "apart n 32 e 32" "apart e 32 n 32"
  defines "m' \<equiv> link_entry t e n y m"
  shows "tr_size m' t = tr_size m t + 1" "tr_first m' t = tr_first m t" "tr_cache m' t = n"
    "contents m' n = y" "e_next m' n = e_next m e" "contents m' e = contents m e" "e_next m' e = n"
  using field_apart(1-24) [OF assms(1)] field_apart(1-24) [OF assms(2)]
    entry_entry_apart [OF assms(3)] entry_entry_apart [OF assms(4)]
  by (simp_all add: m'_def link_entry_def Let_def tr_size_def tr_first_def tr_cache_def contents_def
      e_virt_def e_phys_def e_len_def e_next_def prod_eq_iff)

lemma grow_entry_fields:
  fixes m :: mem and l :: u64
  assumes "apart e 32 t 24"
  defines "m' \<equiv> grow_entry t e l m"
  shows "tr_size m' t = tr_size m t" "tr_first m' t = tr_first m t" "tr_cache m' t = e"
    "contents m' e = extend (contents m e) l" "e_next m' e = e_next m e"
  using field_apart(1-24) [OF assms(1)]
  by (simp_all add: m'_def grow_entry_def tr_size_def tr_first_def tr_cache_def contents_def
      e_virt_def e_phys_def e_len_def e_next_def)

lemma grow_entry_outside:
  assumes "x \<notin> span e 32" "x \<notin> span t 24"
  shows "grow_entry t e l m x = m x"
proof -
  have "x \<notin> span (e + 16) 8" "x \<notin> span (t + 16) 8"
    using assms entry_subspan(1-4) [of e] entry_subspan(5-7) [of t] by blast+
  then show ?thesis
    by (simp add: grow_entry_def store64_outside del: mem_span)
qed

text \<open>The three ways of \<open>translator_add_entry\<close>, as the list sees them.\<close>

lemma tr_struct_apart:
  assumes "tr_struct m t U" "p \<in> set (tr_ptrs m t)"
  shows "apart p 32 t 24" "span p 32 \<subseteq> U"
  using assms by (auto simp: tr_struct_def)

lemma grow_entry_list:
  assumes st: "tr_struct m t U" and ps: "tr_ptrs m t = pre @ q # post"
  shows "tr_ptrs (grow_entry t q l m) t = tr_ptrs m t"
    "tr_entries (grow_entry t q l m) t = map (contents m) pre @ extend (contents m q) l # map (contents m) post"
proof -
  let ?m = "grow_entry t q l m"
  have q: "apart q 32 t 24" using tr_struct_apart [OF st] ps by simp
  note g = grow_entry_fields [OF q, where m = m and l = l]
  have other: "contents ?m p = contents m p \<and> e_next ?m p = e_next m p" if "p \<in> set (tr_ptrs m t)" "p \<noteq> q" for p
  proof -
    have "apart p 32 q 32" using st that ps by (simp add: tr_struct_def)
    then have "?m x = m x" if "x \<in> span p 32" for x
      using that apart_span [of p 32 q 32] apart_span [OF tr_struct_apart(1) [OF st]] \<open>p \<in> set (tr_ptrs m t)\<close>
      by (intro grow_entry_outside) blast+
    then show ?thesis using entry_fields_cong [of p ?m m] by blast
  qed
  have next_same: "e_next ?m p = e_next m p" if "p \<in> set (tr_ptrs m t)" for p
    using other [OF that] g(5) by (cases "p = q") auto
  show ptrs: "tr_ptrs ?m t = tr_ptrs m t"
    unfolding tr_ptrs_def g(1,2) by (rule eptrs_cong) (simp add: next_same [unfolded tr_ptrs_def])
  have "q \<notin> set pre" "q \<notin> set post"
    using st ps by (auto simp: tr_struct_def)
  then show "tr_entries ?m t = map (contents m) pre @ extend (contents m q) l # map (contents m) post"
    unfolding tr_entries_def ptrs ps using other ps g(4) by auto
qed

lemma link_entry_list:
  assumes st: "tr_struct m t U" and ps: "tr_ptrs m t = pre @ q # post" and n: "span n 32 \<inter> U = {}"
    and room: "unat (tr_size m t) + 1 < 4294967296"
  shows "tr_ptrs (link_entry t q n y m) t = pre @ q # n # post"
    "tr_entries (link_entry t q n y m) t = map (contents m) pre @ contents m q # y # map (contents m) post"
proof -
  let ?m = "link_entry t q n y m"
  have q: "apart q 32 t 24" "span q 32 \<subseteq> U" using tr_struct_apart [OF st] ps by auto
  have nt: "apart n 32 t 24"
    using st n by (intro span_apart) (auto simp: tr_struct_def simp del: mem_span)
  have nq: "apart n 32 q 32"
    using n q(2) by (intro span_apart) (auto simp del: mem_span)
  then have qn: "apart q 32 n 32" by (simp add: apart_sym)
  note l = link_entry_fields [OF q(1) nt nq qn, where m = m and y = y]
  have other: "contents ?m p = contents m p \<and> e_next ?m p = e_next m p" if "p \<in> set (tr_ptrs m t)" "p \<noteq> q" for p
  proof -
    have "apart p 32 q 32" using st that ps by (simp add: tr_struct_def)
    then have "?m x = m x" if "x \<in> span p 32" for x
      using that apart_span [of p 32 q 32] apart_span [OF tr_struct_apart(1) [OF st]] n
        tr_struct_apart(2) [OF st] entry_subspan(1) [of q] \<open>p \<in> set (tr_ptrs m t)\<close>
      by (intro link_entry_outside) blast+
    then show ?thesis using entry_fields_cong [of p ?m m] by blast
  qed
  have qs: "q \<notin> set pre" "q \<notin> set post"
    using st ps by (auto simp: tr_struct_def)
  have len: "unat (tr_size m t) = length (pre @ q # post)"
    using arg_cong [OF ps, of length] by (simp add: tr_ptrs_def)
  have "linked m (tr_first m t) (pre @ q # post)"
    unfolding linked_eptrs len [symmetric] using ps by (simp only: tr_ptrs_def)
  then have "linked ?m (tr_first m t) (pre @ q # n # post)"
  proof (rule linked_insert)
    show "e_next ?m p = e_next m p" if "p \<in> set pre \<union> set post" for p
      using other [of p] that qs ps by auto
  qed (rule l)+
  moreover have "unat (tr_size ?m t) = length (pre @ q # n # post)"
  proof -
    have "unat (tr_size m t + 1) = unat (tr_size m t) + 1"
      using room by (intro trans [OF unat_add_no_wrap]) simp_all
    then show ?thesis unfolding l(1) using len by simp
  qed
  ultimately show ptrs: "tr_ptrs ?m t = pre @ q # n # post"
    unfolding linked_eptrs tr_ptrs_def l(2) by simp
  show "tr_entries ?m t = map (contents m) pre @ contents m q # y # map (contents m) post"
    unfolding tr_entries_def ptrs using other ps qs l(4,6) by auto
qed

lemma tr_struct_frame:
  assumes st: "tr_struct m t U" and same: "\<And>x. x \<in> U \<Longrightarrow> m' x = m x"
  shows "tr_size m' t = tr_size m t" "tr_ptrs m' t = tr_ptrs m t" "tr_entries m' t = tr_entries m t" "tr_struct m' t U"
proof -
  have head: "tr_size m' t = tr_size m t" "tr_first m' t = tr_first m t"
    using head_fields_cong [of t m' m] st same unfolding tr_struct_def by blast+
  then show "tr_size m' t = tr_size m t" by simp
  have fields: "e_next m' p = e_next m p" "contents m' p = contents m p" if "p \<in> set (tr_ptrs m t)" for p
    using entry_fields_cong [of p m' m] tr_struct_apart(2) [OF st that] same by blast+
  show ptrs: "tr_ptrs m' t = tr_ptrs m t"
    unfolding tr_ptrs_def head by (rule eptrs_cong) (simp add: fields [unfolded tr_ptrs_def])
  show "tr_entries m' t = tr_entries m t"
    unfolding tr_entries_def ptrs using fields by simp
  show "tr_struct m' t U"
    using st by (simp add: tr_struct_def ptrs)
qed

lemma tr_struct_insert:
  assumes st: "tr_struct m t U" and ps: "tr_ptrs m t = pre @ q # post" and nU: "span n 32 \<inter> U = {}"
    and nt: "apart n 32 t 24" and ps': "tr_ptrs m' t = pre @ q # n # post"
  shows "tr_struct m' t (U \<union> span n 32)"
proof -
  let ?P = "set (tr_ptrs m t)"
  have P': "set (tr_ptrs m' t) = insert n ?P"
    unfolding ps ps' by auto
  have far: "apart p 32 n 32" if "p \<in> ?P" for p
    using tr_struct_apart(2) [OF st that] nU by (intro span_apart) (auto simp del: mem_span)
  have near: "apart n 32 p 32" if "p \<in> ?P" for p
    using far [OF that] by (simp only: apart_sym)
  have "n \<notin> ?P"
  proof
    assume "n \<in> ?P"
    then have "span n 32 \<subseteq> U" by (rule tr_struct_apart(2) [OF st])
    moreover have "n \<in> span n 32" by simp
    ultimately show False using nU by blast
  qed
  then have "distinct (tr_ptrs m' t)"
    using st unfolding tr_struct_def ps ps' by auto
  moreover have "\<forall>p \<in> insert n ?P. span p 32 \<subseteq> U \<union> span n 32 \<and> apart p 32 t 24"
    using tr_struct_apart [OF st] nt by blast
  moreover have "\<forall>p \<in> insert n ?P. \<forall>r \<in> insert n ?P. p \<noteq> r \<longrightarrow> apart p 32 r 32"
    using st far near unfolding tr_struct_def by blast
  moreover have "span t 24 \<subseteq> U \<union> span n 32"
    using st unfolding tr_struct_def by blast
  ultimately show ?thesis
    unfolding tr_struct_def P' by blast
qed

text \<open>The first entry of an empty translator.\<close>

definition first_entry :: "u64 \<Rightarrow> u64 \<Rightarrow> tr_entry \<Rightarrow> mem \<Rightarrow> mem" where
  "first_entry t n y m =
     (let m1 = store64 m (t + 8) n;
          m2 = store64 m1 (tr_first m1 t) (fst y);
          m3 = store64 m2 (tr_first m2 t + 8) (fst (snd y));
          m4 = store64 m3 (tr_first m3 t + 16) (snd (snd y));
          m5 = store32 m4 t (tr_size m4 t + 1)
      in store64 m5 (t + 16) (tr_first m5 t))"

lemma first_entry_fields:
  fixes m :: mem and y :: tr_entry
  assumes "apart n 32 t 24" "tr_size m t = 0"
  shows "tr_size (first_entry t n y m) t = 1" "tr_first (first_entry t n y m) t = n"
    "tr_cache (first_entry t n y m) t = n" "contents (first_entry t n y m) n = y"
    "x \<notin> span n 32 \<Longrightarrow> x \<notin> span t 24 \<Longrightarrow> first_entry t n y m x = m x"
proof -
  note ap = field_apart(1-24) [OF assms(1)]
  have eq: "first_entry t n y m =
    store64 (store32 (store64 (store64 (store64 (store64 m (t + 8) n) n (fst y)) (n + 8) (fst (snd y))) (n + 16) (snd (snd y))) t 1)
      (t + 16) n"
    using assms(2) ap by (simp add: first_entry_def Let_def tr_first_def tr_size_def)
  show "tr_size (first_entry t n y m) t = 1" "tr_first (first_entry t n y m) t = n"
    "tr_cache (first_entry t n y m) t = n" "contents (first_entry t n y m) n = y"
    using ap by (simp_all add: eq tr_size_def tr_first_def tr_cache_def contents_def e_virt_def e_phys_def e_len_def)
  show "first_entry t n y m x = m x" if "x \<notin> span n 32" "x \<notin> span t 24"
  proof -
    have "x \<notin> span n 8" "x \<notin> span (n + 8) 8" "x \<notin> span (n + 16) 8" "x \<notin> span (t + 8) 8" "x \<notin> span (t + 16) 8" "x \<notin> span t 4"
      using that entry_subspan(1-4) [of n] entry_subspan(5-7) [of t] by blast+
    then show ?thesis
      by (simp add: eq store64_outside store32_outside del: mem_span)
  qed
qed

text \<open>The addresses the structure occupies, and what adding the entry \<open>y\<close> makes of a memory whose owned addresses are \<open>U\<close>.\<close>

definition tr_area :: "mem \<Rightarrow> u64 \<Rightarrow> u64 set" where
  "tr_area m t = span t 24 \<union> (\<Union>p \<in> set (tr_ptrs m t). span p 32)"

definition entry_added :: "mem \<Rightarrow> u64 set \<Rightarrow> u64 \<Rightarrow> tr_entry \<Rightarrow> mem \<Rightarrow> bool" where
  "entry_added m U t y m' \<longleftrightarrow>
     tr_entries m' t = insert_entry y (tr_entries m t) \<and>
     (\<forall>x \<in> U. x \<notin> tr_area m t \<longrightarrow> m' x = m x) \<and> tr_area m' t \<inter> U \<subseteq> tr_area m t"

lemma tr_area_subset: "tr_struct m t U \<Longrightarrow> tr_area m t \<subseteq> U"
  by (auto simp: tr_struct_def tr_area_def simp del: mem_span)

context allocator
begin

text \<open>A fresh node, and the memories that differ from it in owned addresses only.\<close>

lemma alloc_entry:
  assumes "inv s U" "56 \<le> budget s"
  obtains n m1 where "alloc 32 s = ret (n, s\<lparr>bytes := m1\<rparr>)" "span n 32 \<inter> U = {}" "\<And>x. x \<in> U \<Longrightarrow> m1 x = bytes s x"
    "\<And>m'. \<forall>x. x \<notin> U \<union> span n 32 \<longrightarrow> m' x = m1 x \<Longrightarrow>
      inv (s\<lparr>bytes := m'\<rparr>) (U \<union> span n 32) \<and> budget s \<le> budget (s\<lparr>bytes := m'\<rparr>) + 40"
proof -
  obtain n m1 where n: "alloc 32 s = ret (n, s\<lparr>bytes := m1\<rparr>)" "span n 32 \<inter> U = {}"
    "inv (s\<lparr>bytes := m1\<rparr>) (U \<union> span n 32)" "budget (s\<lparr>bytes := m1\<rparr>) = budget s - 40" "\<And>x. x \<in> U \<Longrightarrow> m1 x = bytes s x"
    using alloc_law [OF assms(1), of 32] assms(2) by auto
  have "inv (s\<lparr>bytes := m'\<rparr>) (U \<union> span n 32) \<and> budget s \<le> budget (s\<lparr>bytes := m'\<rparr>) + 40"
    if "\<forall>x. x \<notin> U \<union> span n 32 \<longrightarrow> m' x = m1 x" for m'
    using inv_write [OF n(3), of m'] n(4) that by auto
  with n show thesis by (intro that [of n m1]) auto
qed

text \<open>The three ways of \<open>translator_add_entry\<close>: the first entry, a longer entry, and a new one behind entry \<open>q\<close>.\<close>

lemma add_first:
  assumes inv: "inv s U" and st: "tr_struct (bytes s) t U" and budget: "56 \<le> budget s" and empty: "tr_size (bytes s) t = 0"
    and y: "y = (virt AND NOT 0xFFF, phys AND NOT 0xFFF, l)"
  shows "\<exists>m' V. translator_add_entry alloc t virt phys l s = ret (s\<lparr>bytes := m'\<rparr>) \<and> entry_added (bytes s) U t y m' \<and>
    U \<subseteq> V \<and> inv (s\<lparr>bytes := m'\<rparr>) V \<and> tr_struct m' t V \<and> budget s \<le> budget (s\<lparr>bytes := m'\<rparr>) + 40"
proof -
  let ?m = "bytes s"
  obtain n m1 where n: "alloc 32 s = ret (n, s\<lparr>bytes := m1\<rparr>)" "span n 32 \<inter> U = {}" "\<And>x. x \<in> U \<Longrightarrow> m1 x = ?m x"
    "\<And>m'. \<forall>x. x \<notin> U \<union> span n 32 \<longrightarrow> m' x = m1 x \<Longrightarrow>
      inv (s\<lparr>bytes := m'\<rparr>) (U \<union> span n 32) \<and> budget s \<le> budget (s\<lparr>bytes := m'\<rparr>) + 40"
    using alloc_entry [OF inv budget] by metis
  have tU: "span t 24 \<subseteq> U" using st by (simp add: tr_struct_def)
  have nt: "apart n 32 t 24"
    using n(2) tU by (intro span_apart) (auto simp del: mem_span)
  have z: "tr_size m1 t = 0" using tr_struct_frame(1) [OF st n(3)] empty by simp
  let ?m' = "first_entry t n y m1"
  note ff = first_entry_fields [OF nt z, where y = y]
  have run: "translator_add_entry alloc t virt phys l s = ret (s\<lparr>bytes := ?m'\<rparr>)"
    using empty n(1) by (simp add: translator_add_entry_def first_entry_def Let_def y)
  have ps: "tr_ptrs ?m' t = [n]" "tr_ptrs ?m t = []"
    using ff(1,2) empty by (simp_all add: tr_ptrs_def)
  have out: "?m' x = ?m x" if "x \<in> U" "x \<notin> span t 24" for x
  proof -
    have "x \<notin> span n 32" using n(2) that(1) by blast
    then show ?thesis using ff(5) that n(3) by simp
  qed
  have "entry_added ?m U t y ?m'"
    unfolding entry_added_def tr_entries_def tr_area_def ps using ff(4) n(2) out by (auto simp del: mem_span)
  moreover have "inv (s\<lparr>bytes := ?m'\<rparr>) (U \<union> span n 32) \<and> budget s \<le> budget (s\<lparr>bytes := ?m'\<rparr>) + 40"
    by (rule n(4)) (use ff(5) tU in blast)
  moreover have "tr_struct ?m' t (U \<union> span n 32)"
    using nt tU unfolding tr_struct_def ps by (auto simp del: mem_span)
  ultimately show ?thesis using run by blast
qed

lemma add_grow:
  assumes inv: "inv s U" and st: "tr_struct (bytes s) t U" and ps: "tr_ptrs (bytes s) t = pre @ q # post"
    and run: "translator_add_entry alloc t virt phys l s = ret (s\<lparr>bytes := grow_entry t q l (bytes s)\<rparr>)"
    and ins: "insert_entry y (tr_entries (bytes s) t) =
      map (contents (bytes s)) pre @ extend (contents (bytes s) q) l # map (contents (bytes s)) post"
  shows "\<exists>m' V. translator_add_entry alloc t virt phys l s = ret (s\<lparr>bytes := m'\<rparr>) \<and> entry_added (bytes s) U t y m' \<and>
    U \<subseteq> V \<and> inv (s\<lparr>bytes := m'\<rparr>) V \<and> tr_struct m' t V \<and> budget s \<le> budget (s\<lparr>bytes := m'\<rparr>) + 40"
proof -
  let ?m = "bytes s" and ?m' = "grow_entry t q l (bytes s)"
  note g = grow_entry_list [OF st ps, of l]
  have out: "?m' x = ?m x" if "x \<notin> tr_area ?m t" for x
    by (rule grow_entry_outside) (use that ps in \<open>auto simp: tr_area_def simp del: mem_span\<close>)
  have "entry_added ?m U t y ?m'"
    using g ins out by (simp add: entry_added_def tr_area_def)
  moreover have "inv (s\<lparr>bytes := ?m'\<rparr>) U \<and> budget (s\<lparr>bytes := ?m'\<rparr>) = budget s"
    using inv_write [OF inv, of ?m'] out tr_area_subset [OF st] by blast
  moreover have "tr_struct ?m' t U" using st g(1) by (simp add: tr_struct_def)
  ultimately show ?thesis using run by (metis le_add1 order_refl)
qed

lemma add_link:
  assumes inv: "inv s U" and st: "tr_struct (bytes s) t U" and ps: "tr_ptrs (bytes s) t = pre @ q # post"
    and n: "span n 32 \<inter> U = {}" "\<And>x. x \<in> U \<Longrightarrow> m1 x = bytes s x"
      "\<And>m'. \<forall>x. x \<notin> U \<union> span n 32 \<longrightarrow> m' x = m1 x \<Longrightarrow>
        inv (s\<lparr>bytes := m'\<rparr>) (U \<union> span n 32) \<and> budget s \<le> budget (s\<lparr>bytes := m'\<rparr>) + 40"
    and run: "translator_add_entry alloc t virt phys l s = ret (s\<lparr>bytes := link_entry t q n y m1\<rparr>)"
    and ins: "insert_entry y (tr_entries (bytes s) t) =
      map (contents (bytes s)) pre @ contents (bytes s) q # y # map (contents (bytes s)) post"
    and room: "unat (tr_size (bytes s) t) + 1 < 4294967296"
  shows "\<exists>m' V. translator_add_entry alloc t virt phys l s = ret (s\<lparr>bytes := m'\<rparr>) \<and> entry_added (bytes s) U t y m' \<and>
    U \<subseteq> V \<and> inv (s\<lparr>bytes := m'\<rparr>) V \<and> tr_struct m' t V \<and> budget s \<le> budget (s\<lparr>bytes := m'\<rparr>) + 40"
proof -
  let ?m = "bytes s" and ?m' = "link_entry t q n y m1"
  note f = tr_struct_frame [OF st n(2)]
  have ps1: "tr_ptrs m1 t = pre @ q # post" and room1: "unat (tr_size m1 t) + 1 < 4294967296"
    using f(1,2) ps room by simp_all
  note L = link_entry_list [OF f(4) ps1 n(1) room1, where y = y]
  have q: "span q 32 \<subseteq> tr_area ?m t" "span t 24 \<subseteq> tr_area ?m t" using ps by (auto simp: tr_area_def simp del: mem_span)
  have area: "tr_area ?m t \<subseteq> U" by (rule tr_area_subset [OF st])
  have out: "?m' x = m1 x" if "x \<notin> tr_area ?m t \<union> span n 32" for x
    using that q entry_subspan(1) [of q] by (intro link_entry_outside) blast+
  have nt: "apart n 32 t 24"
    using n(1) q(2) area by (intro span_apart) (auto simp del: mem_span)
  have same: "map (contents m1) (tr_ptrs ?m t) = map (contents ?m) (tr_ptrs ?m t)"
    using f(2,3) by (simp add: tr_entries_def)
  have "tr_entries ?m' t = insert_entry y (tr_entries ?m t)"
    using L(2) ins same unfolding ps by simp
  moreover have "tr_area ?m' t = tr_area ?m t \<union> span n 32"
    by (auto simp: tr_area_def L(1) ps simp del: mem_span)
  ultimately have "entry_added ?m U t y ?m'"
    using n(1,2) out by (auto simp: entry_added_def simp del: mem_span)
  moreover have "inv (s\<lparr>bytes := ?m'\<rparr>) (U \<union> span n 32) \<and> budget s \<le> budget (s\<lparr>bytes := ?m'\<rparr>) + 40"
    by (rule n(3)) (use out area in blast)
  moreover have "tr_struct ?m' t (U \<union> span n 32)"
    by (rule tr_struct_insert [OF st ps n(1) nt L(1)])
  ultimately show ?thesis using run by blast
qed

text \<open>
  Adding an entry, on any allocator that keeps its contract: the list becomes the abstract
  insertion, the structure stays one of separate objects, the allocator keeps its invariant, and
  nothing that is owned changes outside the structure.
\<close>

lemma add_entry_frame:
  assumes inv: "inv s U" and st: "tr_struct (bytes s) t U" and budget: "56 \<le> budget s"
    and room: "unat (tr_size (bytes s) t) + 1 < 4294967296"
  shows "\<exists>m' V. translator_add_entry alloc t virt phys l s = ret (s\<lparr>bytes := m'\<rparr>) \<and>
    entry_added (bytes s) U t (virt AND NOT 0xFFF, phys AND NOT 0xFFF, l) m' \<and>
    U \<subseteq> V \<and> inv (s\<lparr>bytes := m'\<rparr>) V \<and> tr_struct m' t V \<and> budget s \<le> budget (s\<lparr>bytes := m'\<rparr>) + 40"
proof (cases "tr_size (bytes s) t = 0")
  case True
  then show ?thesis by (rule add_first [OF inv st budget _ refl])
next
  case False
  let ?m = "bytes s"
  define va where "va = virt AND NOT 0xFFF"
  define pa where "pa = phys AND NOT 0xFFF"
  let ?y = "(va, pa, l)"
  obtain k where k: "unat (tr_size ?m t) = Suc k" "unat (tr_size ?m t - 1) = k"
    using False by (cases "unat (tr_size ?m t)") (auto simp: unat_eq_0 unat_minus_one)
  obtain pre q post where w: "tr_ptrs ?m t = pre @ q # post"
    "add_walk ?m va pa (tr_first ?m t) k = Inl q \<and> adjoins ?m va pa q \<or> add_walk ?m va pa (tr_first ?m t) k = Inr q"
    "insert_entry ?y (tr_entries ?m t) = map (contents ?m) pre @
     (if adjoins ?m va pa q then extend (contents ?m q) l # map (contents ?m) post
      else contents ?m q # ?y # map (contents ?m) post)"
    using add_walk_split [where m = ?m and va = va and pa = pa and l = l and e = "tr_first ?m t" and n = k]
    unfolding tr_ptrs_def tr_entries_def k(1) by blast
  show ?thesis
    unfolding va_def [symmetric] pa_def [symmetric]
  proof (cases "adjoins ?m va pa q")
    case True
    have "translator_add_entry alloc t virt phys l s = ret (s\<lparr>bytes := grow_entry t q l ?m\<rparr>)"
      unfolding translator_add_entry_def Let_def va_def [symmetric] pa_def [symmetric]
      using False w(2) True k(2) by auto
    then show "\<exists>m' V. translator_add_entry alloc t virt phys l s = ret (s\<lparr>bytes := m'\<rparr>) \<and> entry_added ?m U t ?y m' \<and>
        U \<subseteq> V \<and> inv (s\<lparr>bytes := m'\<rparr>) V \<and> tr_struct m' t V \<and> budget s \<le> budget (s\<lparr>bytes := m'\<rparr>) + 40"
      by (rule add_grow [OF inv st w(1)]) (simp only: w(3) True if_True)
  next
    case noadj: False
    obtain n m1 where n: "alloc 32 s = ret (n, s\<lparr>bytes := m1\<rparr>)" "span n 32 \<inter> U = {}" "\<And>x. x \<in> U \<Longrightarrow> m1 x = ?m x"
      "\<And>m'. \<forall>x. x \<notin> U \<union> span n 32 \<longrightarrow> m' x = m1 x \<Longrightarrow>
        inv (s\<lparr>bytes := m'\<rparr>) (U \<union> span n 32) \<and> budget s \<le> budget (s\<lparr>bytes := m'\<rparr>) + 40"
      using alloc_entry [OF inv budget] by metis
    have run: "translator_add_entry alloc t virt phys l s = ret (s\<lparr>bytes := link_entry t q n ?y m1\<rparr>)"
      unfolding translator_add_entry_def Let_def va_def [symmetric] pa_def [symmetric]
      using False w(2) noadj k(2) n(1) by (auto simp: link_entry_def Let_def)
    show "\<exists>m' V. translator_add_entry alloc t virt phys l s = ret (s\<lparr>bytes := m'\<rparr>) \<and> entry_added ?m U t ?y m' \<and>
        U \<subseteq> V \<and> inv (s\<lparr>bytes := m'\<rparr>) V \<and> tr_struct m' t V \<and> budget s \<le> budget (s\<lparr>bytes := m'\<rparr>) + 40"
      by (rule add_link [OF inv st w(1) n(2) n(3,4) run _ room]) (simp_all only: w(3) noadj if_False)
  qed
qed

lemma add_entry_refines:
  assumes "inv s U" "tr_struct (bytes s) t U" "56 \<le> budget s" "unat (tr_size (bytes s) t) + 1 < 4294967296"
  shows "\<exists>m' V. translator_add_entry alloc t virt phys l s = ret (s\<lparr>bytes := m'\<rparr>) \<and>
    tr_entries m' t = insert_entry (virt AND NOT 0xFFF, phys AND NOT 0xFFF, l) (tr_entries (bytes s) t) \<and>
    U \<subseteq> V \<and> inv (s\<lparr>bytes := m'\<rparr>) V \<and> tr_struct m' t V"
  using add_entry_frame [OF assms, of virt phys l] unfolding entry_added_def by blast

end

section \<open>Pages\<close>

lemma unat_page: "unat (va AND - 4096 :: u64) = unat va - unat va mod 4096"
proof -
  have m: "unat (va AND 4095) = unat va mod 4096"
  proof -
    have "va AND 4095 = take_bit 12 va"
      by (simp add: take_bit_eq_mask mask_eq_exp_minus_1)
    then show ?thesis
      by (simp add: unsigned_take_bit_eq take_bit_eq_mod unat_mod)
  qed
  have "va AND - 4096 = va - (va AND 4095)"
    using page_split(1) [of va] by (metis add_diff_cancel_right')
  moreover have "unat (va - (va AND 4095)) = unat va - unat (va AND 4095)"
    by (rule unat_sub_no_wrap) (simp add: m)
  ultimately show ?thesis using m by simp
qed

lemma page_aligned_unat: "page_aligned a \<longleftrightarrow> unat a mod 4096 = 0"
proof -
  have "unat a mod 4096 \<le> unat a" by simp
  then show ?thesis
    by (auto simp: page_aligned_def word_eq_iff_unat unat_page)
qed

lemma page_inside:
  fixes v :: u64
  assumes "page_aligned a" "unat a \<le> unat v"
  shows "unat a \<le> unat (v AND - 4096)" "unat (v AND - 4096) \<le> unat v"
proof -
  have "unat a mod 4096 = 0" using assms(1) by (simp add: page_aligned_unat)
  then obtain k where k: "unat a = 4096 * k" by (metis dvdE mod_0_imp_dvd)
  then have "k \<le> unat v div 4096"
    using assms(2) div_le_mono [of "unat a" "unat v" 4096] by simp
  then have "unat a \<le> unat v - unat v mod 4096"
    unfolding k minus_mod_eq_mult_div by simp
  then show "unat a \<le> unat (v AND - 4096)" by (simp only: unat_page)
  show "unat (v AND - 4096) \<le> unat v" by (simp add: unat_page)
qed

text \<open>\<open>e\<close> maps the byte at \<open>va\<close>.\<close>

definition maps_virt :: "mem \<Rightarrow> u64 \<Rightarrow> u64 \<Rightarrow> bool" where
  "maps_virt m e va \<longleftrightarrow> unat (e_virt m e) \<le> unat va \<and> unat va < unat (e_virt m e) + unat (e_len m e)"

lemma maps_virt_in:
  assumes "tr_wf m t" "e \<in> set (tr_ptrs m t)" "maps_virt m e va"
  shows "virt_in m (va AND - 4096) e"
proof -
  have "page_aligned (e_virt m e)" "unat (e_virt m e) + unat (e_len m e) < 18446744073709551616"
    using assms(1,2) by (auto simp: tr_wf_def)
  then show ?thesis
    using page_inside [of "e_virt m e" va] assms(3)
    by (simp add: virt_in_def maps_virt_def word_le_nat_alt unat_u64_add)
qed

lemma translate_virtual_mapped:
  assumes "tr_wf (bytes s) t" "separated (bytes s) t" "e \<in> set (tr_ptrs (bytes s) t)" "maps_virt (bytes s) e va"
  shows "fst (translator_translate_virtual t va s) = e_phys (bytes s) e + (va - e_virt (bytes s) e)"
    "snd (translator_translate_virtual t va s) \<in> {s, set_cache t e s}"
  using translate_virtual_hit [OF assms(1,3), of va] maps_virt_in [OF assms(1,3,4)]
    separated_unique(1) [OF assms(2) _ assms(3)] by auto

lemma set_cache_wf:
  assumes "tr_wf (bytes s) t" "e \<in> set (tr_ptrs (bytes s) t)"
  shows "tr_wf (bytes (set_cache t e s)) t" "separated (bytes (set_cache t e s)) t \<longleftrightarrow> separated (bytes s) t"
    "tr_entries (bytes (set_cache t e s)) t = tr_entries (bytes s) t"
proof -
  have ap: "\<forall>p \<in> set (tr_ptrs (bytes s) t). apart p 32 t 24"
    using assms(1) by (auto simp: tr_wf_def)
  note f = set_cache_frame(1,3) [OF ap, of e] and g = set_cache_frame(2) [OF ap, where e = e]
  have c: "e_virt (bytes (set_cache t e s)) p = e_virt (bytes s) p" "e_phys (bytes (set_cache t e s)) p = e_phys (bytes s) p"
    "e_len (bytes (set_cache t e s)) p = e_len (bytes s) p" if "p \<in> set (tr_ptrs (bytes s) t)" for p
    using g [OF that] by (simp_all add: contents_def)
  show "tr_wf (bytes (set_cache t e s)) t"
    using assms c unfolding tr_wf_def f by simp
  show "separated (bytes (set_cache t e s)) t \<longleftrightarrow> separated (bytes s) t"
    using c unfolding separated_def f(1) by simp
  show "tr_entries (bytes (set_cache t e s)) t = tr_entries (bytes s) t"
    unfolding tr_entries_def f(1) using g by simp
qed

text \<open>Order by virtual address.\<close>

definition in_order :: "tr_entry list \<Rightarrow> bool" where
  "in_order es \<longleftrightarrow> sorted_wrt (\<lambda>x y. fst x \<le> fst y) es"

lemma fst_insert_entry: "fst ` set (insert_entry n es) \<subseteq> insert (fst n) (fst ` set es)"
proof (induction n es rule: insert_entry.induct)
  case (2 n x)
  then show ?case by (cases x) auto
next
  case (3 n x y es)
  then show ?case by (cases x) auto
qed simp

lemma in_order_Cons: "in_order (x # es) \<longleftrightarrow> (\<forall>v \<in> fst ` set es. fst x \<le> v) \<and> in_order es"
  by (simp add: in_order_def)

lemma in_order_extend: "in_order (extend x l # es) \<longleftrightarrow> in_order (x # es)"
  by (cases x) (simp add: in_order_def)

lemma insert_in_order:
  assumes "in_order es" "es = [] \<or> fst (hd es) \<le> fst n"
  shows "in_order (insert_entry n es)"
  using assms
proof (induction n es rule: insert_entry.induct)
  case (1 n)
  then show ?case by (simp add: in_order_def)
next
  case (2 n x)
  then show ?case by (simp add: in_order_extend in_order_Cons in_order_def)
next
  case (3 n x y es)
  consider "adjacent x n" | "\<not> adjacent x n" "fst n < fst y" | "\<not> adjacent x n" "\<not> fst n < fst y" by blast
  then show ?case
  proof cases
    case 1
    then show ?thesis using 3(2) by (simp add: in_order_extend)
  next
    case 2
    then show ?thesis using 3(2,3) by (auto simp: in_order_Cons)
  next
    case 3
    have "in_order (insert_entry n (y # es))"
      using "3.IH" [OF 3] "3.prems"(1) 3(2) by (simp add: in_order_Cons)
    moreover have "fst x \<le> v" if "v \<in> fst ` set (insert_entry n (y # es))" for v
    proof -
      have "v = fst n \<or> v = fst y \<or> v \<in> fst ` set es"
        using subsetD [OF fst_insert_entry [of n "y # es"] that] by simp
      then show ?thesis using "3.prems" by (auto simp: in_order_Cons)
    qed
    ultimately show ?thesis
      using 3 by (simp add: in_order_Cons)
  qed
qed

lemma insert_below_head:
  assumes "in_order (x # es)" "fst n < fst x" "\<not> adjacent x n"
  shows "\<not> in_order (insert_entry n (x # es))"
  using assms by (cases es) (auto simp: in_order_def)

section \<open>Properties\<close>

text \<open>
  \<open>virt_apart\<close>: no byte is mapped twice. Entries may touch, virtually and physically, as they do after the boot mappings were
  entered. The page of a mapped byte then is claimed by the entry that maps it and by those that end at the page.
\<close>

definition virt_apart :: "mem \<Rightarrow> u64 \<Rightarrow> bool" where
  "virt_apart m t \<longleftrightarrow> (\<forall>p \<in> set (tr_ptrs m t). \<forall>q \<in> set (tr_ptrs m t). p \<noteq> q \<longrightarrow>
     e_virt m p + e_len m p \<le> e_virt m q \<or> e_virt m q + e_len m q \<le> e_virt m p)"

lemma separated_virt_apart: "separated m t \<Longrightarrow> virt_apart m t"
  unfolding separated_def virt_apart_def by (meson less_imp_le)

lemma page_claimed:
  assumes wf: "tr_wf m t" and ap: "virt_apart m t" and e: "e \<in> set (tr_ptrs m t)" "maps_virt m e va" and q: "q \<in> set (tr_ptrs m t)"
  shows "virt_in m (va AND - 4096) q \<longleftrightarrow> q = e \<or> e_virt m q + e_len m q = va AND - 4096"
proof -
  let ?a = "va AND - 4096"
  have nw: "unat (e_virt m x + e_len m x) = unat (e_virt m x) + unat (e_len m x)" if "x \<in> set (tr_ptrs m t)" for x
    using wf that by (intro unat_u64_add) (auto simp: tr_wf_def)
  have "page_aligned (e_virt m e)" using wf e(1) by (auto simp: tr_wf_def)
  then have a: "unat (e_virt m e) \<le> unat ?a" "unat ?a \<le> unat va"
    using page_inside [of "e_virt m e" va] e(2) by (auto simp: maps_virt_def)
  have "e_virt m q + e_len m q = ?a" if "q \<noteq> e" "virt_in m ?a q"
  proof -
    have "unat (e_virt m q) \<le> unat ?a" "unat ?a \<le> unat (e_virt m q) + unat (e_len m q)"
      using that(2) nw [OF q] by (auto simp: virt_in_def word_le_nat_alt)
    moreover have "unat (e_virt m q) + unat (e_len m q) \<le> unat (e_virt m e) \<or> unat (e_virt m e) + unat (e_len m e) \<le> unat (e_virt m q)"
      using ap q e(1) that(1) nw [OF q] nw [OF e(1)] unfolding virt_apart_def word_le_nat_alt by metis
    ultimately show ?thesis
      using a e(2) nw [OF q] by (auto simp: maps_virt_def word_eq_iff_unat)
  qed
  moreover have "virt_in m ?a q" if "e_virt m q + e_len m q = ?a"
    using that nw [OF q] unfolding that [symmetric] by (simp add: virt_in_def word_le_nat_alt)
  ultimately show ?thesis using maps_virt_in [OF wf e] by blast
qed

lemma find_hd: "x \<in> set xs \<Longrightarrow> P x \<Longrightarrow> find P xs = Some (hd (filter P xs))"
  by (induction xs) auto

text \<open>
  C9: virtual addresses are translated by the entry that maps them, unless another entry ends where the page begins. In a well-formed
  translator in which no byte is mapped twice, the answer for a mapped byte is taken from the cached entry if that starts at
  the page of the byte, else from the first entry of the list that maps the byte or ends exactly at the start of its page. So when no
  other entry ends there, which holds for all pages but the first of an entry, the answer is the physical address of the byte whatever
  the cache holds. The entries stay as they are.
\<close>

theorem translate_virtual_exact:
  assumes "tr_wf (bytes s) t" "virt_apart (bytes s) t" "e \<in> set (tr_ptrs (bytes s) t)" "maps_virt (bytes s) e va"
  defines "page \<equiv> va AND NOT 0xFFF"
  defines "ends_here \<equiv> \<lambda>q. e_virt (bytes s) q + e_len (bytes s) q = page"
  shows "fst (translator_translate_virtual t va s) =
      (let u = if e_virt (bytes s) (tr_cache (bytes s) t) = page then tr_cache (bytes s) t
               else hd (filter (\<lambda>q. q = e \<or> ends_here q) (tr_ptrs (bytes s) t))
       in e_phys (bytes s) u + (va - e_virt (bytes s) u)) \<and>
    ((\<forall>q \<in> set (tr_ptrs (bytes s) t). q \<noteq> e \<longrightarrow> \<not> ends_here q) \<longrightarrow>
      fst (translator_translate_virtual t va s) = e_phys (bytes s) e + (va - e_virt (bytes s) e)) \<and>
    tr_entries (bytes (snd (translator_translate_virtual t va s))) t = tr_entries (bytes s) t"
proof -
  let ?m = "bytes s" and ?ps = "tr_ptrs (bytes s) t" and ?c = "tr_cache (bytes s) t"
  let ?u = "if e_virt ?m ?c = page then ?c else hd (filter (\<lambda>q. q = e \<or> ends_here q) ?ps)"
  have claim: "virt_in ?m page q \<longleftrightarrow> q = e \<or> ends_here q" if "q \<in> set ?ps" for q
    using page_claimed [OF assms(1-4) that] by (simp add: page_def ends_here_def)
  have c: "?c \<in> set ?ps" "virt_in ?m (e_virt ?m ?c) ?c"
    using assms(1) by (auto simp: tr_wf_def intro: virt_in_start)
  have "find (virt_in ?m page) ?ps = Some (hd (filter (\<lambda>q. q = e \<or> ends_here q) ?ps))"
    using find_hd [OF assms(3), of "virt_in ?m page"] claim [OF assms(3)] claim filter_cong [OF refl, of ?ps "virt_in ?m page"] by simp
  moreover have page: "va AND - 4096 = page" "va - page = va AND 4095" "page + (va AND 4095) = va"
    using page_split [of va] by (simp_all add: page_def)
  then have sum: "x + (page - v) + (va AND 4095) = x + (va - v)" for x v
    by (metis (no_types, opaque_lifting) add.assoc diff_add_eq)
  ultimately have run: "fst (translator_translate_virtual t va s) = e_phys ?m ?u + (va - e_virt ?m ?u)"
    "snd (translator_translate_virtual t va s) \<in> {s, set_cache t ?u s}"
    by (simp_all add: translator_translate_virtual_def Let_def tr_search_find tr_ptrs_def [symmetric] page(1) page(2) sum)
  have "hd (filter (\<lambda>q. q = e \<or> ends_here q) ?ps) \<in> set (filter (\<lambda>q. q = e \<or> ends_here q) ?ps)"
    using assms(3) by (intro hd_in_set) (auto simp: filter_empty_conv)
  then have u: "?u \<in> set ?ps" "?u = e \<or> ends_here ?u"
    using c claim [OF c(1)] by auto
  have "tr_entries (bytes (snd (translator_translate_virtual t va s))) t = tr_entries ?m t"
    using run(2) set_cache_wf(3) [OF assms(1) u(1)] by auto
  moreover have "?u = e" if "\<forall>q \<in> set ?ps. q \<noteq> e \<longrightarrow> \<not> ends_here q" using that u by blast
  ultimately show ?thesis using run(1) by (simp add: Let_def)
qed

text \<open>Two entries: pages at 0x10000 mapped to 0x50000, and at 0x20000 mapped to 0x80000.\<close>

definition two_entries :: machine where
  "two_entries = \<lparr>bytes =
     store64 (store64 (store64
       (store64 (store64 (store64 (store64
         (store64 (store64 (store32 (\<lambda>_. 0) 0x1000 2) 0x1008 0x2000) 0x1010 0x2000)
         0x2000 0x10000) 0x2008 0x50000) 0x2010 0x1000) 0x2018 0x3000)
       0x3000 0x20000) 0x3008 0x80000) 0x3010 0x2000, cr3 = 0, console = [], msr = (\<lambda>_. 0)\<rparr>"

lemma two_entries_fields:
  "tr_size (bytes two_entries) 0x1000 = 2" "tr_first (bytes two_entries) 0x1000 = 0x2000"
  "tr_cache (bytes two_entries) 0x1000 = 0x2000"
  "e_virt (bytes two_entries) 0x2000 = 0x10000" "e_phys (bytes two_entries) 0x2000 = 0x50000"
  "e_len (bytes two_entries) 0x2000 = 0x1000" "e_next (bytes two_entries) 0x2000 = 0x3000"
  "e_virt (bytes two_entries) 0x3000 = 0x20000" "e_phys (bytes two_entries) 0x3000 = 0x80000"
  "e_len (bytes two_entries) 0x3000 = 0x2000"
  by (simp_all add: two_entries_def tr_size_def tr_first_def tr_cache_def e_virt_def e_phys_def e_len_def e_next_def)

lemma two_entries_ptrs: "tr_ptrs (bytes two_entries) 0x1000 = [0x2000, 0x3000]"
proof -
  have "unat (2 :: u32) = Suc (Suc 0)" by simp
  then show ?thesis
    by (simp only: tr_ptrs_def two_entries_fields eptrs.simps)
qed

lemma two_entries_wf: "tr_wf (bytes two_entries) 0x1000" "separated (bytes two_entries) 0x1000"
  by (simp_all add: tr_wf_def separated_def two_entries_ptrs two_entries_fields page_aligned_def)

theorem translate_virtual_exact_witness:
  "fst (translator_translate_virtual 0x1000 0x21234 two_entries) = 0x81234"
  using translate_virtual_exact [OF two_entries_wf(1) separated_virt_apart [OF two_entries_wf(2)], of "0x3000" "0x21234"]
  by (simp add: two_entries_ptrs two_entries_fields maps_virt_def)

text \<open>
  Translating to a physical address and back is the identity on mapped bytes, through the
  cache updates of both calls.
\<close>

lemma translate_round_trip:
  assumes wf: "tr_wf (bytes s) t" "separated (bytes s) t" "e \<in> set (tr_ptrs (bytes s) t)" and va: "maps_virt (bytes s) e va"
  shows "case translator_translate_virtual t va s of
    (pa, s') \<Rightarrow> fst (translator_translate_physical t pa s') = va"
proof -
  let ?m = "bytes s" and ?s' = "snd (translator_translate_virtual t va s)"
  define pa where "pa = e_phys ?m e + (va - e_virt ?m e)"
  note tv = translate_virtual_mapped [OF wf va]
  have ap: "\<forall>p \<in> set (tr_ptrs ?m t). apart p 32 t 24"
    using wf(1) by (auto simp: tr_wf_def)
  have ptrs: "tr_ptrs (bytes ?s') t = tr_ptrs ?m t"
    and same: "contents (bytes ?s') p = contents ?m p" if "p \<in> set (tr_ptrs ?m t)" for p
    using tv(2) set_cache_frame(1,2) [OF ap, where e = e] that by auto
  have wf': "tr_wf (bytes ?s') t" "separated (bytes ?s') t" "e \<in> set (tr_ptrs (bytes ?s') t)"
    using tv(2) set_cache_wf(1,2) [OF wf(1,3)] wf ptrs [OF wf(3)] by auto
  have f: "e_virt (bytes ?s') e = e_virt ?m e" "e_phys (bytes ?s') e = e_phys ?m e" "e_len (bytes ?s') e = e_len ?m e"
    using same [OF wf(3)] by (simp_all add: contents_def)
  have b: "page_aligned (e_phys ?m e)" "unat (e_phys ?m e) + unat (e_len ?m e) < 18446744073709551616"
    using wf(1,3) by (auto simp: tr_wf_def)
  have d: "unat (va - e_virt ?m e) < unat (e_len ?m e)"
    using va by (subst unat_sub_no_wrap) (auto simp: maps_virt_def)
  then have upa: "unat pa = unat (e_phys ?m e) + unat (va - e_virt ?m e)"
    unfolding pa_def using b(2) by (intro unat_u64_add) linarith
  then have "phys_in ?m (pa AND - 4096) e"
    using page_inside [of "e_phys ?m e" pa] b d by (simp add: phys_in_def word_le_nat_alt unat_u64_add)
  then have "phys_in (bytes ?s') (pa AND NOT 0xFFF) e"
    by (simp add: phys_in_def f)
  then have "fst (translator_translate_physical t pa ?s') = e_virt (bytes ?s') e + (pa - e_phys (bytes ?s') e)"
    using translate_physical_hit [OF wf'(1,3)] separated_unique(2) [OF wf'(2) _ wf'(3)] by blast
  also have "\<dots> = va"
    unfolding f by (simp add: pa_def)
  finally show ?thesis
    using tv(1) by (cases "translator_translate_virtual t va s") (simp add: pa_def)
qed

lemma translate_round_trip_example:
  "case translator_translate_virtual 0x1000 0x10FFF two_entries of
     (pa, s') \<Rightarrow> fst (translator_translate_physical 0x1000 pa s') = 0x10FFF"
  using translate_round_trip [OF two_entries_wf, of "0x2000" "0x10FFF"]
  by (simp add: two_entries_ptrs two_entries_fields maps_virt_def)

text \<open>
  The end of an entry counts as mapped. The page right behind an entry, which no entry
  maps, is answered with the address behind the entry's frames instead of
  \<open>MEMORY_INVALID_RETURN\<close>.
\<close>

lemma translate_past_the_end:
  assumes "tr_wf (bytes s) t" "separated (bytes s) t" "e \<in> set (tr_ptrs (bytes s) t)"
    "page_aligned (e_len (bytes s) e)"
  defines "va \<equiv> e_virt (bytes s) e + e_len (bytes s) e"
  shows "(\<forall>p \<in> set (tr_ptrs (bytes s) t). \<not> maps_virt (bytes s) p va) \<and>
    fst (translator_translate_virtual t va s) = e_phys (bytes s) e + e_len (bytes s) e"
proof -
  let ?m = "bytes s"
  have b: "page_aligned (e_virt ?m e)" "unat (e_virt ?m e) + unat (e_len ?m e) < 18446744073709551616"
    using assms(1,3) by (auto simp: tr_wf_def)
  have u: "unat va = unat (e_virt ?m e) + unat (e_len ?m e)"
    unfolding va_def using b(2) by (rule unat_u64_add)
  have "4096 dvd unat va"
    unfolding u using b(1) assms(4) by (intro dvd_add) (simp_all add: page_aligned_unat mod_0_imp_dvd)
  then have "page_aligned va" by (simp add: page_aligned_unat)
  then have al: "va AND - 4096 = va" by (simp add: page_aligned_def)
  have vin: "virt_in ?m va e"
    using u by (simp add: virt_in_def va_def [symmetric] word_le_nat_alt)
  have "\<not> maps_virt ?m p va" if "p \<in> set (tr_ptrs ?m t)" for p
  proof
    assume "maps_virt ?m p va"
    then have "virt_in ?m (va AND - 4096) p" by (rule maps_virt_in [OF assms(1) that])
    then have "p = e"
      using separated_unique(1) [OF assms(2) that assms(3)] vin unfolding al by blast
    with \<open>maps_virt ?m p va\<close> show False using u by (simp add: maps_virt_def)
  qed
  moreover have "fst (translator_translate_virtual t va s) = e_phys ?m e + (va - e_virt ?m e)"
    using translate_virtual_hit [OF assms(1,3), of va] vin al separated_unique(1) [OF assms(2) _ assms(3)] by auto
  ultimately show ?thesis by (simp add: va_def)
qed

lemma translate_past_the_end_example:
  "fst (translator_translate_virtual 0x1000 0x11000 two_entries) = 0x51000"
  using translate_past_the_end [OF two_entries_wf, of "0x2000"]
  by (simp add: two_entries_ptrs two_entries_fields page_aligned_def)

text \<open>
  The answer depends on the cache. Where one entry ends virtually at the start of the next
  (without continuing it physically), the start of the second entry is translated by the first
  one, unless the second one happens to be in the cache.
\<close>

lemma translation_depends_on_cache:
  assumes ptrs: "tr_ptrs (bytes s) t = [a, b]" and ap: "apart a 32 t 24" "apart b 32 t 24"
    and adj: "e_virt (bytes s) b = e_virt (bytes s) a + e_len (bytes s) a" and len: "e_len (bytes s) a \<noteq> 0"
    and aligned: "page_aligned (e_virt (bytes s) b)" and nw: "e_virt (bytes s) a \<le> e_virt (bytes s) b"
  shows "fst (translator_translate_virtual t (e_virt (bytes s) b) (set_cache t a s)) =
      e_phys (bytes s) a + e_len (bytes s) a \<and>
    fst (translator_translate_virtual t (e_virt (bytes s) b) (set_cache t b s)) = e_phys (bytes s) b"
proof -
  let ?v = "e_virt (bytes s) b"
  have all: "\<forall>p \<in> set (tr_ptrs (bytes s) t). apart p 32 t 24"
    using ap by (simp add: ptrs)
  have al: "?v AND - 4096 = ?v" "?v AND 4095 = 0"
    using aligned page_split(2) [of ?v] by (simp_all add: page_aligned_def)
  have c: "e_virt (bytes (set_cache t e s)) p = e_virt (bytes s) p" "e_phys (bytes (set_cache t e s)) p = e_phys (bytes s) p"
    "e_len (bytes (set_cache t e s)) p = e_len (bytes s) p" if "p \<in> {a, b}" for e p
    using set_cache_frame(2) [OF all, of p e] that by (auto simp: ptrs contents_def)
  note cache = set_cache_frame(3) [OF all]
  have "eptrs (bytes (set_cache t a s)) (tr_first (bytes (set_cache t a s)) t) (unat (tr_size (bytes (set_cache t a s)) t)) = [a, b]"
    using set_cache_frame(1) [OF all, of a] ptrs by (simp add: tr_ptrs_def)
  moreover have "virt_in (bytes (set_cache t a s)) ?v a"
    using nw adj c [of a a] by (simp add: virt_in_def)
  moreover have "e_virt (bytes s) a \<noteq> ?v" using adj len by simp
  ultimately have "fst (translator_translate_virtual t ?v (set_cache t a s)) = e_phys (bytes s) a + (?v - e_virt (bytes s) a)"
    by (simp add: translator_translate_virtual_def Let_def tr_search_find cache c al)
  moreover have "fst (translator_translate_virtual t ?v (set_cache t b s)) = e_phys (bytes s) b"
    by (simp add: translator_translate_virtual_def Let_def cache c al)
  ultimately show ?thesis
    using adj by simp
qed

definition adjacent_entries :: machine where
  "adjacent_entries = two_entries\<lparr>bytes := store64 (bytes two_entries) 0x3000 0x11000\<rparr>"

lemma translation_depends_on_cache_example:
  "fst (translator_translate_virtual 0x1000 0x11000 (set_cache 0x1000 0x2000 adjacent_entries)) = 0x51000 \<and>
   fst (translator_translate_virtual 0x1000 0x11000 (set_cache 0x1000 0x3000 adjacent_entries)) = 0x80000"
proof -
  have f: "tr_size (bytes adjacent_entries) 0x1000 = 2" "tr_first (bytes adjacent_entries) 0x1000 = 0x2000"
    "e_virt (bytes adjacent_entries) 0x2000 = 0x10000" "e_phys (bytes adjacent_entries) 0x2000 = 0x50000"
    "e_len (bytes adjacent_entries) 0x2000 = 0x1000" "e_next (bytes adjacent_entries) 0x2000 = 0x3000"
    "e_virt (bytes adjacent_entries) 0x3000 = 0x11000" "e_phys (bytes adjacent_entries) 0x3000 = 0x80000"
    by (simp_all add: adjacent_entries_def two_entries_def tr_size_def tr_first_def e_virt_def e_phys_def e_len_def e_next_def)
  have two: "unat (2 :: u32) = Suc (Suc 0)" by simp
  have "tr_ptrs (bytes adjacent_entries) 0x1000 = [0x2000, 0x3000]"
    by (simp only: tr_ptrs_def f eptrs.simps two)
  then show ?thesis
    using translation_depends_on_cache [of adjacent_entries "0x1000" "0x2000" "0x3000"]
    by (simp add: f page_aligned_def)
qed

text \<open>
  C7: \<open>translator_add_entry\<close> implements the abstract insertion on the kernel's allocator: it
  returns, the entries become \<open>insert_entry\<close> of the page-aligned range (extending the entry it
  continues), the list stays a list of separate objects, and the heap keeps its invariant.
\<close>

theorem add_entry_inserts:
  assumes "heap_inv lo hi s U" "tr_struct (bytes s) t U" "56 \<le> heap_budget s" "unat (tr_size (bytes s) t) + 1 < 4294967296"
  shows "\<exists>m' V. translator_add_entry malloc t virt phys l s = ret (s\<lparr>bytes := m'\<rparr>) \<and>
    tr_entries m' t = insert_entry (virt AND NOT 0xFFF, phys AND NOT 0xFFF, l) (tr_entries (bytes s) t) \<and>
    U \<subseteq> V \<and> heap_inv lo hi (s\<lparr>bytes := m'\<rparr>) V \<and> tr_struct m' t V"
  by (rule kheap.add_entry_refines [OF assms])

definition translator_heap :: heap_state where
  "translator_heap = init_heap 8192 4096 blank_heap"

lemma translator_heap_facts:
  "heap_inv 8192 12288 translator_heap (span 65536 24)" "tr_struct (bytes translator_heap) 65536 (span 65536 24)"
  "heap_budget translator_heap = 4096" "tr_entries (bytes translator_heap) 65536 = []" "tr_size (bytes translator_heap) 65536 = 0"
proof -
  have z: "load32 (\<lambda>_. 0) a = 0" for a
    unfolding load32_def by (subst load_le_zero) simp_all
  show size: "tr_size (bytes translator_heap) 65536 = 0"
    by (simp add: translator_heap_def init_heap_def blank_heap_def tr_size_def z)
  then show "tr_entries (bytes translator_heap) 65536 = []" "tr_struct (bytes translator_heap) 65536 (span 65536 24)"
    by (simp_all add: tr_entries_def tr_ptrs_def tr_struct_def)
  show "heap_budget translator_heap = 4096"
    by (simp add: translator_heap_def init_heap_def heap_budget_def)
  have nw: "unat (65536 :: u64) + 24 \<le> 18446744073709551616" by simp
  have "heap_wf 8192 12288 [(8192, 4096)] translator_heap"
    by (simp add: heap_wf_def translator_heap_def init_heap_def)
  moreover have "\<not> free_addr [(8192, 4096)] x" if "x \<in> span 65536 24" for x
    using that unfolding span_no_wrap [OF nw] by (simp add: free_addr_def)
  ultimately show "heap_inv 8192 12288 translator_heap (span 65536 24)"
    unfolding heap_inv_def by (intro exI [of _ "[(8192, 4096)]"]) simp
qed

theorem add_entry_inserts_witness:
  "\<exists>m'. translator_add_entry malloc 65536 0xFFFF800000001234 0x1000 0x1000 translator_heap = ret (translator_heap\<lparr>bytes := m'\<rparr>) \<and>
     tr_entries m' 65536 = [(0xFFFF800000001000, 0x1000, 0x1000)]"
  using add_entry_inserts [OF translator_heap_facts(1,2), of "0xFFFF800000001234" "0x1000" "0x1000"] translator_heap_facts
  by auto

text \<open>
  Adding an entry keeps the list in the order of its virtual addresses exactly when the new
  one does not belong before the first: that place is never considered.
\<close>

lemma add_entry_order:
  assumes "heap_inv lo hi s U" "tr_struct (bytes s) t U" "56 \<le> heap_budget s" "unat (tr_size (bytes s) t) + 1 < 4294967296"
    and "tr_entries (bytes s) t = x # es" "in_order (x # es)" "\<not> adjacent x (virt AND NOT 0xFFF, phys AND NOT 0xFFF, l)"
  shows "\<exists>m'. translator_add_entry malloc t virt phys l s = ret (s\<lparr>bytes := m'\<rparr>) \<and>
    (in_order (tr_entries m' t) \<longleftrightarrow> fst x \<le> (virt AND NOT 0xFFF))"
proof -
  let ?n = "(virt AND NOT 0xFFF, phys AND NOT 0xFFF, l)"
  obtain m' where m': "translator_add_entry malloc t virt phys l s = ret (s\<lparr>bytes := m'\<rparr>)"
    "tr_entries m' t = insert_entry ?n (x # es)"
    using kheap.add_entry_refines [OF assms(1-4), of virt phys l] unfolding assms(5) by blast
  have "in_order (insert_entry ?n (x # es)) \<longleftrightarrow> fst x \<le> fst ?n"
  proof (cases "fst x \<le> fst ?n")
    case True
    then show ?thesis using insert_in_order [of "x # es" ?n] assms(6) by simp
  next
    case False
    then have "fst ?n < fst x" by (simp only: not_le)
    then show ?thesis using insert_below_head [OF assms(6) _ assms(7)] False by blast
  qed
  then show ?thesis using m' by (intro exI [of _ m']) simp
qed

definition one_entry_heap :: heap_state where
  "one_entry_heap = translator_heap\<lparr>bytes :=
     store64 (store64 (store64 (store64 (store32 (bytes translator_heap) 65536 1) 65544 65568) 65568 0x4000) 65576 0x5000) 65584 0x1000\<rparr>"

lemma one_entry_heap_facts:
  "heap_inv 8192 12288 one_entry_heap (span 65536 64)" "tr_struct (bytes one_entry_heap) 65536 (span 65536 64)"
  "heap_budget one_entry_heap = 4096" "tr_entries (bytes one_entry_heap) 65536 = [(0x4000, 0x5000, 0x1000)]"
  "tr_size (bytes one_entry_heap) 65536 = 1"
proof -
  show size: "tr_size (bytes one_entry_heap) 65536 = 1"
    by (simp add: one_entry_heap_def tr_size_def)
  have ptrs: "tr_ptrs (bytes one_entry_heap) 65536 = [65568]"
    unfolding tr_ptrs_def size by (simp add: one_entry_heap_def tr_first_def)
  show "tr_entries (bytes one_entry_heap) 65536 = [(0x4000, 0x5000, 0x1000)]"
    unfolding tr_entries_def ptrs by (simp add: contents_def e_virt_def e_phys_def e_len_def one_entry_heap_def)
  have nw: "unat (65536 :: u64) + 64 \<le> 18446744073709551616" "unat (65536 :: u64) + 24 \<le> 18446744073709551616"
    "unat (65568 :: u64) + 32 \<le> 18446744073709551616" by simp_all
  show "tr_struct (bytes one_entry_heap) 65536 (span 65536 64)"
    unfolding tr_struct_def ptrs
    by (auto simp: span_no_wrap [OF nw(1)] span_no_wrap [OF nw(2)] span_no_wrap [OF nw(3)] simp del: mem_span)
  show "heap_budget one_entry_heap = 4096"
    by (simp add: one_entry_heap_def translator_heap_def init_heap_def heap_budget_def)
  have "heap_wf 8192 12288 [(8192, 4096)] one_entry_heap"
    by (simp add: heap_wf_def one_entry_heap_def translator_heap_def init_heap_def)
  moreover have "\<not> free_addr [(8192, 4096)] x" if "x \<in> span 65536 64" for x
    using that unfolding span_no_wrap [OF nw(1)] by (simp add: free_addr_def)
  ultimately show "heap_inv 8192 12288 one_entry_heap (span 65536 64)"
    unfolding heap_inv_def by (intro exI [of _ "[(8192, 4096)]"]) simp
qed

lemma add_entry_order_example:
  "\<exists>m'. translator_add_entry malloc 65536 0x1000 0x9000 0x1000 one_entry_heap = ret (one_entry_heap\<lparr>bytes := m'\<rparr>) \<and>
     \<not> in_order (tr_entries m' 65536)"
  using add_entry_order [OF one_entry_heap_facts(1,2), of "(0x4000, 0x5000, 0x1000)" "[]" "0x1000" "0x9000" "0x1000"]
    one_entry_heap_facts by (simp add: in_order_def)

text \<open>
  The last entry cannot be removed. On a translator with one entry both removal routines
  return at once and change nothing, whatever is asked to be removed.
\<close>

lemma remove_last_entry_noop:
  assumes "tr_size (bytes s) t = 1"
  shows "translator_remove_entry_virtual alloc dealloc t virt l s = ret s \<and>
    translator_remove_entry_physical alloc dealloc t phys l s = ret s"
  using assms
  by (simp add: translator_remove_entry_virtual_def translator_remove_entry_physical_def
      remove_virtual_loop.simps remove_physical_loop.simps)

lemma remove_last_entry_noop_example:
  "translator_remove_entry_virtual malloc free 65536 0x4000 0x1000
     (translator_heap\<lparr>bytes := store32 (bytes translator_heap) 65536 1\<rparr>) =
   ret (translator_heap\<lparr>bytes := store32 (bytes translator_heap) 65536 1\<rparr>)"
  using remove_last_entry_noop [of "translator_heap\<lparr>bytes := store32 (bytes translator_heap) 65536 1\<rparr>" 65536 malloc free]
  by (simp add: tr_size_def)

end
