(* ===== verification/Boot_Map.thy ===== *)
theory Boot_Map
  imports Translator
begin

text \<open>
  The translator takes over the boot loader's page tables (\<open>translator_init_kernel_space\<close> of
  \<open>address_translater_v3.c\<close>). The theory reads the tables as a list of mappings and shows that the three
  nested loops insert exactly these, in order, and leave the tables as they are, on any \<open>allocator\<close>.
\<close>

section \<open>The tables as mappings\<close>

text \<open>
  The mapping of a page of 4 KB, 2 MB or 1 GB, as the code enters it: the flag bits below and the execute-disable bit on top
  are masked out, \<open>offset\<close> leads from the physical to the virtual address.
\<close>

definition mapping :: "u64 \<Rightarrow> u64 \<Rightarrow> u64 \<Rightarrow> tr_entry" where
  "mapping virt phys len = (virt AND NOT 0xFFF, phys AND NOT 0xFFF, len)"

definition next_table :: "u64 \<Rightarrow> u64 \<Rightarrow> u64" where
  "next_table stack_offset p = (p AND 0x7FFFFFFFFFFFF000) + stack_offset"

definition pt_maps :: "u64 \<Rightarrow> u64 \<Rightarrow> tr_entry list" where
  "pt_maps offset p =
     (if p AND 1 \<noteq> 0 then [mapping ((p AND 0x7FFFFFFFFFFFFFFF) + offset) (p AND 0x7FFFFFFFFFFFF000) 0x1000] else [])"

definition pd_maps :: "mem \<Rightarrow> u64 \<Rightarrow> u64 \<Rightarrow> u64 \<Rightarrow> tr_entry list" where
  "pd_maps m stack_offset offset p =
     (if p AND 1 = 0 then []
      else if p AND 0x80 \<noteq> 0 then [mapping ((p AND 0x7FFFFFFFFFE00FFF) + offset) (p AND 0x7FFFFFFFFFE00000) 0x200000]
      else concat (map (\<lambda>l. pt_maps offset (entry m (next_table stack_offset p) l)) [0..<512]))"

definition pdpt_maps :: "mem \<Rightarrow> u64 \<Rightarrow> u64 \<Rightarrow> u64 \<Rightarrow> tr_entry list" where
  "pdpt_maps m stack_offset offset p =
     (if p AND 1 = 0 then []
      else if p AND 0x80 \<noteq> 0 then [mapping ((p AND 0x7FFFFFFC0000FFF) + offset) (p AND 0x7FFFFFFFC0000000) 0x40000000]
      else concat (map (\<lambda>k. pd_maps m stack_offset offset (entry m (next_table stack_offset p) k)) [0..<512]))"

definition pml4_maps :: "mem \<Rightarrow> u64 \<Rightarrow> u64 \<Rightarrow> u64 \<Rightarrow> nat \<Rightarrow> tr_entry list" where
  "pml4_maps m stack_offset instruction_offset table i =
     (let p = entry m table i
      in if p AND 1 = 0 then []
         else concat (map (\<lambda>j. pdpt_maps m stack_offset (if i > 500 then instruction_offset else stack_offset)
                (entry m (next_table stack_offset p) j)) [0..<512]))"

definition boot_maps :: "mem \<Rightarrow> u64 \<Rightarrow> u64 \<Rightarrow> u64 \<Rightarrow> tr_entry list" where
  "boot_maps m stack_offset instruction_offset table =
     concat (map (pml4_maps m stack_offset instruction_offset table) [0..<512])"

text \<open>The tables themselves.\<close>

definition pd_tables :: "u64 \<Rightarrow> u64 \<Rightarrow> u64 list" where
  "pd_tables stack_offset p = (if p AND 1 = 0 \<or> p AND 0x80 \<noteq> 0 then [] else [next_table stack_offset p])"

definition pdpt_tables :: "mem \<Rightarrow> u64 \<Rightarrow> u64 \<Rightarrow> u64 list" where
  "pdpt_tables m stack_offset p =
     (if p AND 1 = 0 \<or> p AND 0x80 \<noteq> 0 then []
      else next_table stack_offset p # concat (map (\<lambda>k. pd_tables stack_offset (entry m (next_table stack_offset p) k)) [0..<512]))"

definition boot_tables :: "mem \<Rightarrow> u64 \<Rightarrow> u64 \<Rightarrow> u64 list" where
  "boot_tables m stack_offset table =
     table # concat (map (\<lambda>i. let p = entry m table i
       in if p AND 1 = 0 then []
          else next_table stack_offset p # concat (map (\<lambda>j. pdpt_tables m stack_offset (entry m (next_table stack_offset p) j)) [0..<512]))
       [0..<512])"

definition table_area :: "u64 list \<Rightarrow> u64 set" where
  "table_area ts = (\<Union>t \<in> set ts. span t 4096)"

lemma table_area_below:
  assumes "table_area (a # concat (map f [0..<n])) \<subseteq> T"
  shows "span a 4096 \<subseteq> T" "k < n \<Longrightarrow> table_area (f k) \<subseteq> T"
proof -
  have "table_area (f k) \<subseteq> table_area (a # concat (map f [0..<n]))" if "k < n"
    using that unfolding table_area_def by (intro UN_mono) auto
  then show "k < n \<Longrightarrow> table_area (f k) \<subseteq> T" using assms by blast
  show "span a 4096 \<subseteq> T" using assms by (simp add: table_area_def)
qed

lemma table_entry_cong:
  assumes "span table 4096 \<subseteq> T" "\<forall>x \<in> T. m' x = m x" "i < 512"
  shows "entry m' table i = entry m table i"
proof -
  have "unat (of_nat (8 * i) :: u64) = 8 * i" using assms(3) by (intro unat_of_nat_u64) simp
  then have "span (table + of_nat (8 * i)) 8 \<subseteq> span table 4096"
    using assms(3) by (intro span_sub) simp
  then show ?thesis
    unfolding entry_def using assms(1,2) by (intro load64_cong) (auto simp del: mem_span)
qed

section \<open>Loading\<close>

text \<open>
  While the loops run: the translator's list is \<open>es\<close>, the tables \<open>T\<close> are as they were in \<open>s0\<close>, and there is memory
  for \<open>N\<close> more entries.
\<close>

definition loading :: "('a machine_scheme \<Rightarrow> u64 set \<Rightarrow> bool) \<Rightarrow> ('a machine_scheme \<Rightarrow> nat) \<Rightarrow> 'a machine_scheme \<Rightarrow> u64 set \<Rightarrow>
    u64 \<Rightarrow> nat \<Rightarrow> tr_entry list \<Rightarrow> 'a machine_scheme \<Rightarrow> bool" where
  "loading keeps room s0 T t N es s \<longleftrightarrow>
     (\<exists>m U. s = s0\<lparr>bytes := m\<rparr> \<and> keeps s U \<and> tr_struct m t U \<and> T \<subseteq> U \<and> T \<inter> tr_area m t = {} \<and>
        (\<forall>x \<in> T. m x = bytes s0 x) \<and> tr_entries m t = es \<and> 40 * N + 16 \<le> room s \<and> length es + N < 4294967296)"

lemma length_tr_entries: "length (tr_entries m t) = unat (tr_size m t)"
  by (simp add: tr_entries_def tr_ptrs_def)

lemma length_insert_entry: "length (insert_entry y es) \<le> Suc (length es)"
  by (induction y es rule: insert_entry.induct) auto

lemma loading_table:
  assumes "loading keeps room s0 T t N es s" "span table 4096 \<subseteq> T" "i < 512"
  shows "entry (bytes s) table i = entry (bytes s0) table i"
  using assms table_entry_cong [of table T "bytes s" "bytes s0" i] by (auto simp: loading_def)

context allocator
begin

lemma loading_add:
  assumes "loading inv budget s0 T t (Suc N) es s"
  shows "\<exists>s'. translator_add_entry alloc t virt phys l s = ret s' \<and>
    loading inv budget s0 T t N (insert_entry (mapping virt phys l) es) s'"
proof -
  obtain m U where s: "s = s0\<lparr>bytes := m\<rparr>" "inv s U" "tr_struct m t U" "T \<subseteq> U" "T \<inter> tr_area m t = {}"
    "\<forall>x \<in> T. m x = bytes s0 x" "tr_entries m t = es" "40 * Suc N + 16 \<le> budget s" "length es + Suc N < 4294967296"
    using assms by (auto simp: loading_def)
  have m: "bytes s = m" using s(1) by simp
  have room: "unat (tr_size (bytes s) t) + 1 < 4294967296"
    using s(7,9) length_tr_entries [of m t] m by simp
  have st: "tr_struct (bytes s) t U" and budget: "56 \<le> budget s" using s(3,8) m by simp_all
  obtain m' V where add: "translator_add_entry alloc t virt phys l s = ret (s\<lparr>bytes := m'\<rparr>)"
    "entry_added m U t (mapping virt phys l) m'" "U \<subseteq> V" "inv (s\<lparr>bytes := m'\<rparr>) V" "tr_struct m' t V"
    "budget s \<le> budget (s\<lparr>bytes := m'\<rparr>) + 40"
    using add_entry_frame [OF s(2) st budget room, of virt phys l] unfolding m mapping_def by blast
  have new: "tr_area m' t \<inter> U \<subseteq> tr_area m t" "\<And>x. x \<in> U \<Longrightarrow> x \<notin> tr_area m t \<Longrightarrow> m' x = m x"
    using add(2) unfolding entry_added_def by blast+
  have "T \<inter> tr_area m' t = {}" using new(1) s(4,5) by blast
  moreover have "m' x = bytes s0 x" if "x \<in> T" for x
  proof -
    have "m' x = m x" by (rule new(2)) (use that s(4,5) in blast)+
    then show ?thesis using s(6) that by simp
  qed
  moreover have "length (insert_entry (mapping virt phys l) es) + N < 4294967296"
    using s(9) length_insert_entry [of "mapping virt phys l" es] by linarith
  moreover have "tr_entries m' t = insert_entry (mapping virt phys l) es"
    using add(2) s(7) unfolding entry_added_def by blast
  moreover have "T \<subseteq> V" "40 * N + 16 \<le> budget (s\<lparr>bytes := m'\<rparr>)"
    using s(4,8) add(3,6) by auto
  ultimately have "loading inv budget s0 T t N (insert_entry (mapping virt phys l) es) (s\<lparr>bytes := m'\<rparr>)"
    unfolding loading_def using add(4,5) s(1) by (intro exI [of _ m'] exI [of _ V]) simp
  with add(1) show ?thesis by blast
qed

text \<open>A loop whose rounds insert the lists \<open>L i\<close> inserts their concatenation.\<close>

lemma loading_for_each:
  assumes "\<And>i N es s. i \<in> set xs \<Longrightarrow> loading inv budget s0 T t (N + length (L i)) es s \<Longrightarrow>
      \<exists>s'. body i s = ret s' \<and> loading inv budget s0 T t N (fold insert_entry (L i) es) s'"
    and "loading inv budget s0 T t (N + length (concat (map L xs))) es s"
  shows "\<exists>s'. for_each body xs s = ret s' \<and> loading inv budget s0 T t N (fold insert_entry (concat (map L xs)) es) s'"
  using assms
proof (induction xs arbitrary: es s)
  case Nil
  then show ?case by simp
next
  case (Cons i xs)
  have "loading inv budget s0 T t ((N + length (concat (map L xs))) + length (L i)) es s"
    using Cons.prems(2) by (simp add: ac_simps)
  with Cons.prems(1) [of i] obtain s1 where s1: "body i s = ret s1"
    "loading inv budget s0 T t (N + length (concat (map L xs))) (fold insert_entry (L i) es) s1"
    by (metis list.set_intros(1))
  have "\<exists>s'. for_each body xs s1 = ret s' \<and>
      loading inv budget s0 T t N (fold insert_entry (concat (map L xs)) (fold insert_entry (L i) es)) s'"
    by (rule Cons.IH [OF _ s1(2)]) (use Cons.prems(1) in auto)
  with s1(1) show ?case by simp
qed

end

context allocator
begin

text \<open>The four levels, from the pages up. \<open>p\<close> is the entry the code reads.\<close>

lemma load_pt:
  assumes "loading inv budget s0 T t (N + length (pt_maps offset (entry (bytes s0) table l))) es s"
    "span table 4096 \<subseteq> T" "l < 512"
  shows "\<exists>s'. init_space_pt alloc t offset table l s = ret s' \<and>
    loading inv budget s0 T t N (fold insert_entry (pt_maps offset (entry (bytes s0) table l)) es) s'"
proof (cases "entry (bytes s0) table l AND 1 = 0")
  case True
  then show ?thesis
    using assms(1) loading_table [OF assms] by (simp add: init_space_pt_def pt_maps_def Let_def)
next
  case False
  then have "loading inv budget s0 T t (Suc N) es s" using assms(1) by (simp add: pt_maps_def)
  from loading_add [OF this] show ?thesis
    unfolding init_space_pt_def pt_maps_def Let_def loading_table [OF assms] using False by simp
qed

lemma load_pd:
  assumes "loading inv budget s0 T t (N + length (pd_maps (bytes s0) stack_offset offset (entry (bytes s0) table k))) es s"
    "span table 4096 \<subseteq> T" "k < 512" "table_area (pd_tables stack_offset (entry (bytes s0) table k)) \<subseteq> T"
  shows "\<exists>s'. init_space_pd alloc t stack_offset offset table k s = ret s' \<and>
    loading inv budget s0 T t N (fold insert_entry (pd_maps (bytes s0) stack_offset offset (entry (bytes s0) table k)) es) s'"
proof -
  let ?p = "entry (bytes s0) table k"
  consider "?p AND 1 = 0" | "?p AND 1 \<noteq> 0" "?p AND 0x80 \<noteq> 0" | "?p AND 1 \<noteq> 0" "?p AND 0x80 = 0" by blast
  then show ?thesis
  proof cases
    case 1
    then show ?thesis
      using assms(1) loading_table [OF assms(1-3)] by (simp add: init_space_pd_def pd_maps_def Let_def)
  next
    case 2
    then have "loading inv budget s0 T t (Suc N) es s" using assms(1) by (simp add: pd_maps_def)
    from loading_add [OF this] show ?thesis
      unfolding init_space_pd_def pd_maps_def Let_def loading_table [OF assms(1-3)] using 2 by simp
  next
    case 3
    let ?next = "next_table stack_offset ?p"
    have maps: "pd_maps (bytes s0) stack_offset offset ?p = concat (map (\<lambda>l. pt_maps offset (entry (bytes s0) ?next l)) [0..<512])"
      using 3 by (simp only: pd_maps_def if_False simp_thms)
    have sub: "span ?next 4096 \<subseteq> T" using assms(4) 3 by (simp add: pd_tables_def table_area_def)
    have run: "init_space_pd alloc t stack_offset offset table k s = for_each (init_space_pt alloc t offset ?next) [0..<512] s"
      unfolding init_space_pd_def Let_def loading_table [OF assms(1-3)] next_table_def using 3 by simp
    show ?thesis
      unfolding run maps by (rule loading_for_each) (use load_pt sub assms(1) maps in auto)
  qed
qed

end

context allocator
begin

lemma load_pdpt:
  assumes "loading inv budget s0 T t (N + length (pdpt_maps (bytes s0) stack_offset offset (entry (bytes s0) table j))) es s"
    "span table 4096 \<subseteq> T" "j < 512" "table_area (pdpt_tables (bytes s0) stack_offset (entry (bytes s0) table j)) \<subseteq> T"
  shows "\<exists>s'. init_space_pdpt alloc t stack_offset offset table j s = ret s' \<and>
    loading inv budget s0 T t N (fold insert_entry (pdpt_maps (bytes s0) stack_offset offset (entry (bytes s0) table j)) es) s'"
proof -
  let ?p = "entry (bytes s0) table j"
  consider "?p AND 1 = 0" | "?p AND 1 \<noteq> 0" "?p AND 0x80 \<noteq> 0" | "?p AND 1 \<noteq> 0" "?p AND 0x80 = 0" by blast
  then show ?thesis
  proof cases
    case 1
    then show ?thesis
      using assms(1) loading_table [OF assms(1-3)] by (simp add: init_space_pdpt_def pdpt_maps_def Let_def)
  next
    case 2
    then have "loading inv budget s0 T t (Suc N) es s" using assms(1) by (simp add: pdpt_maps_def)
    from loading_add [OF this] show ?thesis
      unfolding init_space_pdpt_def pdpt_maps_def Let_def loading_table [OF assms(1-3)] using 2 by simp
  next
    case 3
    let ?next = "next_table stack_offset ?p"
    have maps: "pdpt_maps (bytes s0) stack_offset offset ?p =
        concat (map (\<lambda>k. pd_maps (bytes s0) stack_offset offset (entry (bytes s0) ?next k)) [0..<512])"
      using 3 by (simp only: pdpt_maps_def if_False simp_thms)
    have tables: "pdpt_tables (bytes s0) stack_offset ?p =
        ?next # concat (map (\<lambda>k. pd_tables stack_offset (entry (bytes s0) ?next k)) [0..<512])"
      using 3 by (simp only: pdpt_tables_def if_False simp_thms)
    have sub: "span ?next 4096 \<subseteq> T" "k < 512 \<Longrightarrow> table_area (pd_tables stack_offset (entry (bytes s0) ?next k)) \<subseteq> T" for k
      using table_area_below [OF assms(4) [unfolded tables]] by blast+
    have run: "init_space_pdpt alloc t stack_offset offset table j s = for_each (init_space_pd alloc t stack_offset offset ?next) [0..<512] s"
      unfolding init_space_pdpt_def Let_def loading_table [OF assms(1-3)] next_table_def using 3 by simp
    show ?thesis
      unfolding run maps by (rule loading_for_each) (use load_pd sub assms(1) maps in auto)
  qed
qed

lemma load_boot_maps:
  assumes "loading inv budget s0 T t (N + length (boot_maps (bytes s0) stack_offset instruction_offset (cr3 s0 + stack_offset))) es s"
    "table_area (boot_tables (bytes s0) stack_offset (cr3 s0 + stack_offset)) \<subseteq> T"
  shows "\<exists>s'. translator_init_kernel_space alloc t stack_offset instruction_offset s = ret s' \<and>
    loading inv budget s0 T t N (fold insert_entry (boot_maps (bytes s0) stack_offset instruction_offset (cr3 s0 + stack_offset)) es) s'"
proof -
  let ?root = "cr3 s0 + stack_offset"
  have root: "span ?root 4096 \<subseteq> T" using assms(2) by (simp add: boot_tables_def table_area_def)
  have c: "cr3 s = cr3 s0" using assms(1) by (auto simp: loading_def)
  show ?thesis
    unfolding translator_init_kernel_space_def boot_maps_def c Let_def
  proof (rule loading_for_each)
    show "loading inv budget s0 T t (N + length (concat (map (pml4_maps (bytes s0) stack_offset instruction_offset ?root) [0..<512]))) es s"
      using assms(1) by (simp only: boot_maps_def)
    fix i N es s
    assume i: "i \<in> set [0..<512]"
      and l: "loading inv budget s0 T t (N + length (pml4_maps (bytes s0) stack_offset instruction_offset ?root i)) es s"
    have e: "entry (bytes s) ?root i = entry (bytes s0) ?root i"
      by (rule loading_table [OF l root]) (use i in simp)
    let ?p = "entry (bytes s0) ?root i" and ?off = "if i > 500 then instruction_offset else stack_offset"
    let ?next = "next_table stack_offset ?p"
    show "\<exists>s'. (if entry (bytes s) ?root i AND 1 = 0 then ret s
        else for_each (init_space_pdpt alloc t stack_offset ?off ((entry (bytes s) ?root i AND 0x7FFFFFFFFFFFF000) + stack_offset)) [0..<512] s) = ret s' \<and>
      loading inv budget s0 T t N (fold insert_entry (pml4_maps (bytes s0) stack_offset instruction_offset ?root i) es) s'"
    proof (cases "?p AND 1 = 0")
      case True
      then show ?thesis using l unfolding e by (simp add: pml4_maps_def Let_def)
    next
      case False
      have maps: "pml4_maps (bytes s0) stack_offset instruction_offset ?root i =
          concat (map (\<lambda>j. pdpt_maps (bytes s0) stack_offset ?off (entry (bytes s0) ?next j)) [0..<512])"
        using False by (simp only: pml4_maps_def Let_def if_False)
      have "set (?next # concat (map (\<lambda>j. pdpt_tables (bytes s0) stack_offset (entry (bytes s0) ?next j)) [0..<512])) \<subseteq>
          set (boot_tables (bytes s0) stack_offset ?root)"
        using i False unfolding boot_tables_def Let_def by (auto intro!: bexI [of _ i])
      then have "table_area (?next # concat (map (\<lambda>j. pdpt_tables (bytes s0) stack_offset (entry (bytes s0) ?next j)) [0..<512])) \<subseteq> T"
        using assms(2) unfolding table_area_def by blast
      then have sub: "span ?next 4096 \<subseteq> T" "j < 512 \<Longrightarrow> table_area (pdpt_tables (bytes s0) stack_offset (entry (bytes s0) ?next j)) \<subseteq> T" for j
        by (rule table_area_below)+
      show ?thesis
        unfolding e maps if_not_P [OF False] next_table_def [symmetric]
        by (rule loading_for_each) (use load_pdpt sub l maps in auto)
    qed
  qed
qed

end

section \<open>Properties\<close>

text \<open>
  C8: The translator takes over the boot loader's mappings. With room for them on the heap, and
  page tables that neither the heap's free memory nor the translator's list overlaps, \<open>translator_init_kernel_space\<close>
  returns; the list is then the one that results from inserting the page, 2 MB and 1 GB mappings of the
  tables one after the other, every table is as it was, and heap and list are well formed.
\<close>

theorem boot_maps_taken_over:
  assumes "heap_inv lo hi s U" "tr_struct (bytes s) t U"
    and tables: "T = table_area (boot_tables (bytes s) stack_offset (cr3 s + stack_offset))" "T \<subseteq> U" "T \<inter> tr_area (bytes s) t = {}"
    and maps: "es = boot_maps (bytes s) stack_offset instruction_offset (cr3 s + stack_offset)"
    and room: "40 * length es + 16 \<le> heap_budget s" "unat (tr_size (bytes s) t) + length es < 4294967296"
  shows "\<exists>m' V. translator_init_kernel_space malloc t stack_offset instruction_offset s = ret (s\<lparr>bytes := m'\<rparr>) \<and>
    tr_entries m' t = fold insert_entry es (tr_entries (bytes s) t) \<and> (\<forall>x \<in> T. m' x = bytes s x) \<and>
    T \<subseteq> V \<and> heap_inv lo hi (s\<lparr>bytes := m'\<rparr>) V \<and> tr_struct m' t V"
proof -
  have "loading (heap_inv lo hi) heap_budget s T t (0 + length es) (tr_entries (bytes s) t) s"
    unfolding loading_def using assms by (intro exI [of _ "bytes s"] exI [of _ U]) (simp add: length_tr_entries)
  then show ?thesis
    using kheap.load_boot_maps [of lo hi s T t 0 stack_offset instruction_offset "tr_entries (bytes s) t" s] tables(1) maps
    by (auto simp: loading_def)
qed

text \<open>Boot tables at \<open>0x100000\<close> and \<open>0x101000\<close> with one page of 1 GB, for the empty translator at 65536.\<close>

definition booted :: heap_state where
  "booted = translator_heap\<lparr>bytes := store64 (store64 (bytes translator_heap) 0x100000 0x101001) 0x101000 0x40000081, cr3 := 0x100000\<rparr>"

lemma booted_entry:
  assumes "i < 512"
  shows "entry (bytes booted) 0x100000 i = (if i = 0 then 0x101001 else 0)"
    "entry (bytes booted) 0x101000 i = (if i = 0 then 0x40000081 else 0)"
proof -
  let ?m = "bytes booted"
  have z: "?m x = 0" if "x \<notin> span 0x100000 8" "x \<notin> span 0x101000 8" "x \<notin> span 8192 16" for x
  proof -
    have "span 8192 8 \<subseteq> span 8192 16" "span (8192 + 8) 8 \<subseteq> span 8192 16"
      by (rule span_mono span_sub; simp)+
    then have "x \<notin> span 8192 8" "x \<notin> span (8192 + 8) 8" using that(3) by blast+
    then show ?thesis
      using that(1,2) by (simp add: booted_def translator_heap_def init_heap_def blank_heap_def store64_outside del: mem_span)
  qed
  have zero: "load64 ?m a = 0" if "8208 \<le> unat a" "unat a + 8 \<le> 0x102000" "unat a + 8 \<le> 0x100000 \<or> 0x100008 \<le> unat a"
    "unat a + 8 \<le> 0x101000 \<or> 0x101008 \<le> unat a" for a
  proof (rule load64_zero)
    fix x assume x: "x \<in> span a 8"
    have nw: "unat a + 8 \<le> 18446744073709551616" using that(2) by simp
    have "unat a \<le> unat x" "unat x < unat a + 8" using x span_no_wrap [OF nw] by auto
    then show "?m x = 0"
      using that by (intro z) (auto simp: span_no_wrap simp del: mem_span)
  qed
  have u: "unat (0x100000 + 8 * of_nat i :: u64) = 0x100000 + 8 * i" "unat (0x101000 + 8 * of_nat i :: u64) = 0x101000 + 8 * i"
    using assms unat_of_nat_u64 [of "0x100000 + 8 * i"] unat_of_nat_u64 [of "0x101000 + 8 * i"] by simp_all
  show "entry ?m 0x100000 i = (if i = 0 then 0x101001 else 0)"
    using u(1) assms zero [of "0x100000 + 8 * of_nat i"] by (auto simp: entry_def) (simp add: booted_def)
  show "entry ?m 0x101000 i = (if i = 0 then 0x40000081 else 0)"
    using u(2) assms zero [of "0x101000 + 8 * of_nat i"] by (auto simp: entry_def) (simp add: booted_def)
qed

lemma concat_first: "(\<And>i. 0 < i \<Longrightarrow> i < n \<Longrightarrow> f i = []) \<Longrightarrow> 0 < n \<Longrightarrow> concat (map f [0..<n]) = f 0"
  by (subst upt_conv_Cons) auto

lemma booted_maps: "boot_maps (bytes booted) 0 k 0x100000 = [(0x40000000, 0x40000000, 0x40000000)]"
proof -
  note e = booted_entry
  have "pml4_maps (bytes booted) 0 k 0x100000 i = []" if "0 < i" "i < 512" for i
    using that e by (simp add: pml4_maps_def)
  then have "boot_maps (bytes booted) 0 k 0x100000 = pml4_maps (bytes booted) 0 k 0x100000 0"
    unfolding boot_maps_def by (intro concat_first) auto
  also have "\<dots> = concat (map (\<lambda>j. pdpt_maps (bytes booted) 0 0 (entry (bytes booted) 0x101000 j)) [0..<512])"
    using e [of 0] by (simp add: pml4_maps_def next_table_def)
  also have "\<dots> = pdpt_maps (bytes booted) 0 0 (entry (bytes booted) 0x101000 0)"
    by (rule concat_first) (simp_all add: e pdpt_maps_def)
  also have "\<dots> = [(0x40000000, 0x40000000, 0x40000000)]"
    using e [of 0] by (simp add: pdpt_maps_def mapping_def)
  finally show ?thesis .
qed

lemma booted_tables: "boot_tables (bytes booted) 0 0x100000 = [0x100000, 0x101000]"
proof -
  note e = booted_entry
  let ?f = "\<lambda>i. let p = entry (bytes booted) 0x100000 i
       in if p AND 1 = 0 then []
          else next_table 0 p # concat (map (\<lambda>j. pdpt_tables (bytes booted) 0 (entry (bytes booted) (next_table 0 p) j)) [0..<512])"
  have "concat (map ?f [0..<512]) = ?f 0"
    by (rule concat_first) (simp_all add: e)
  also have "\<dots> = 0x101000 # concat (map (\<lambda>j. pdpt_tables (bytes booted) 0 (entry (bytes booted) 0x101000 j)) [0..<512])"
    using e [of 0] by (simp add: next_table_def)
  also have "concat (map (\<lambda>j. pdpt_tables (bytes booted) 0 (entry (bytes booted) 0x101000 j)) [0..<512]) = []"
    by (auto simp: e pdpt_tables_def)
  finally show ?thesis unfolding boot_tables_def by simp
qed

theorem boot_maps_taken_over_witness:
  "\<exists>m'. translator_init_kernel_space malloc 65536 0 0x12345000 booted = ret (booted\<lparr>bytes := m'\<rparr>) \<and>
    tr_entries m' 65536 = [(0x40000000, 0x40000000, 0x40000000)] \<and> entry m' 0x101000 0 = 0x40000081"
proof -
  let ?m = "bytes booted" and ?T = "span 0x100000 4096 \<union> span 0x101000 4096"
  have c: "cr3 booted + 0 = 0x100000" by (simp add: booted_def)
  have area: "table_area (boot_tables ?m 0 (cr3 booted + 0)) = ?T"
    unfolding c booted_tables by (auto simp: table_area_def)
  have d: "span 65536 24 \<inter> span 0x100000 4096 = {}" "span 65536 24 \<inter> span 0x101000 4096 = {}"
    "span 8192 4096 \<inter> span 65536 24 = {}" "span 8192 4096 \<inter> span 0x100000 4096 = {}" "span 8192 4096 \<inter> span 0x101000 4096 = {}"
    by (rule span_disjoint_no_wrap; simp)+
  have sub: "span 0x100000 8 \<subseteq> span 0x100000 4096" "span 0x101000 8 \<subseteq> span 0x101000 4096" by (rule span_mono; simp)+
  have same: "?m x = bytes translator_heap x" if "x \<notin> ?T" for x
  proof -
    have "x \<notin> span 0x100000 8" "x \<notin> span 0x101000 8" using that sub by blast+
    then show ?thesis by (simp add: booted_def store64_outside del: mem_span)
  qed
  have "?m x = bytes translator_heap x" if "x \<in> span 65536 24" for x
    using that d by (intro same) blast
  then have fields: "tr_size ?m 65536 = 0"
    using head_fields_cong(1) [of 65536 ?m "bytes translator_heap"] translator_heap_facts(5) by simp
  then have none: "tr_ptrs ?m 65536 = []" "tr_entries ?m 65536 = []" by (simp_all add: tr_ptrs_def tr_entries_def)
  have free: "free_addr [(8192, 4096)] x \<longleftrightarrow> x \<in> span 8192 4096" for x
    using span_no_wrap [of 8192 4096 x] by (auto simp: free_addr_def)
  have wf: "heap_wf 8192 12288 [(8192, 4096)] booted"
    by (simp add: booted_def heap_wf_def translator_heap_def init_heap_def)
  have "\<forall>x \<in> span 65536 24 \<union> ?T. \<not> free_addr [(8192, 4096)] x"
    unfolding free using d by blast
  then have inv: "heap_inv 8192 12288 booted (span 65536 24 \<union> ?T)"
    unfolding heap_inv_def using wf by (intro exI [of _ "[(8192, 4096)]"]) simp
  have st: "tr_struct ?m 65536 (span 65536 24 \<union> ?T)"
    by (auto simp: tr_struct_def none)
  have "heap_budget booted = 4096"
    by (simp add: booted_def translator_heap_def init_heap_def heap_budget_def)
  then obtain m' where m': "translator_init_kernel_space malloc 65536 0 0x12345000 booted = ret (booted\<lparr>bytes := m'\<rparr>)"
    "tr_entries m' 65536 = [(0x40000000, 0x40000000, 0x40000000)]" "\<forall>x \<in> ?T. m' x = ?m x"
    using boot_maps_taken_over [OF inv st area [symmetric] _ _ refl, of "0x12345000"] d fields
    unfolding c booted_maps none by (auto simp: tr_area_def none)
  have "entry m' 0x101000 0 = entry ?m 0x101000 0"
    by (rule table_entry_cong [OF _ m'(3)]) auto
  then show ?thesis using m'(1,2) booted_entry(2) [of 0] by auto
qed

end
