(* ===== verification/Same_Heap.thy ===== *)
theory Same_Heap
  imports Virtual_Address
begin

text \<open>
  The heap for page tables, objects of one size (\<open>libc/src/memory/same_sized_heap.c\<close>): a
  region cut into objects, and a bitmap, itself taken from the kernel heap, with a bit for
  each object. The lemmas show what the code makes of it: objects are handed out strictly
  upwards and none is ever handed out again.
\<close>

section \<open>The code\<close>

text \<open>The statics \<open>mem\<close> and \<open>next_free\<close> carry a prefix here.\<close>

record same_heap_state = heap_state +
  same_mem :: u64
  mem_used :: u64
  mem_used_size :: u64
  same_next_free :: u64
  obj_size :: u64

text \<open>The inner loop of \<open>find_next_free_same\<close>: the first clear bit from \<open>offset\<close> on.\<close>

function find_clear_bit :: "u8 \<Rightarrow> nat \<Rightarrow> nat option" where
  "find_clear_bit b offset =
     (if offset < 8 then
        if drop_bit offset b AND 1 = 0 then Some offset else find_clear_bit b (Suc offset)
      else None)"
  by auto
termination by (relation "measure (\<lambda>(b, offset). 8 - offset)") auto

declare find_clear_bit.simps [simp del]

text \<open>
  The outer loop. \<open>offset\<close> is not set back to 0 for the next byte: after the first byte it
  stays 8.
\<close>

function find_clear_from :: "mem \<Rightarrow> u64 \<Rightarrow> u64 \<Rightarrow> u64 \<Rightarrow> nat \<Rightarrow> u64 option" where
  "find_clear_from m used used_size arr_index offset =
     (if arr_index < used_size then
        case find_clear_bit (load8 m (used + arr_index)) offset of
          Some off \<Rightarrow> Some (arr_index * 8 + of_nat off)
        | None \<Rightarrow> find_clear_from m used used_size (arr_index + 1) 8
      else None)"
  by auto
termination
proof (relation "measure (\<lambda>(m, used, used_size, arr_index, offset). unat used_size - unat arr_index)")
  fix m :: mem and used used_size arr_index :: u64 and offset :: nat
  assume "arr_index < used_size"
  then have "unat (arr_index + 1) = unat arr_index + 1" "unat arr_index < unat used_size"
    using unat_u64_lt [of used_size] by (auto simp: word_less_nat_alt unat_u64_add)
  then show "((m, used, used_size, arr_index + 1, 8), m, used, used_size, arr_index, offset)
      \<in> measure (\<lambda>(m, used, used_size, arr_index, offset). unat used_size - unat arr_index)"
    by simp
qed simp

declare find_clear_from.simps [simp del]

definition find_next_free_same :: "'a same_heap_state_scheme \<Rightarrow> 'a same_heap_state_scheme" where
  "find_next_free_same s =
     (let next = same_next_free s + 1
      in case find_clear_from (bytes s) (mem_used s) (mem_used_size s) (next div 8) (unat (next mod 8)) of
           Some index \<Rightarrow> s\<lparr>same_next_free := index\<rparr>
         | None \<Rightarrow> s\<lparr>same_next_free := next\<rparr>)"

text \<open>A division by an object size of 0 raises the divide error, whose handler halts.\<close>

definition init_same :: "u64 \<Rightarrow> u64 \<Rightarrow> u64 \<Rightarrow> 'a same_heap_state_scheme \<Rightarrow> 'a same_heap_state_scheme run" where
  "init_same new_mem mem_size new_obj_size s =
     (if new_obj_size = 0 then stop Hcf
      else
        let s1 = s\<lparr>same_mem := new_mem, obj_size := new_obj_size, mem_used_size := mem_size div new_obj_size\<rparr>
        in run_bind (malloc (mem_used_size s1) s1) (\<lambda>(p, s2).
             ret (s2\<lparr>mem_used := p, same_next_free := 0,
                     bytes := memset p 0 (mem_used_size s2) (bytes s2)\<rparr>)))"

definition malloc_same :: "'a same_heap_state_scheme \<Rightarrow> u64 \<times> 'a same_heap_state_scheme" where
  "malloc_same s =
     (let p = same_mem s + same_next_free s * obj_size s;
          byte = mem_used s + same_next_free s div 8;
          m1 = store8 (bytes s) byte
                 (load8 (bytes s) byte OR push_bit (unat (same_next_free s mod 8)) 1);
          s2 = find_next_free_same (s\<lparr>bytes := m1\<rparr>)
      in (p, s2\<lparr>bytes := memsetLong p MEMORY_INVALID_RETURN (obj_size s2) (bytes s2)\<rparr>))"

text \<open>\<open>!(1 << offset)\<close> is a logical negation: it is 0, and clears the whole byte.\<close>

definition free_same :: "u64 \<Rightarrow> 'a same_heap_state_scheme \<Rightarrow> 'a same_heap_state_scheme" where
  "free_same ptr s =
     (let m1 = memset ptr 0 (obj_size s) (bytes s);
          index = (ptr - same_mem s) div obj_size s;
          byte = mem_used s + index div 8;
          flag = (if push_bit (unat (index mod 8)) (1 :: u32) = 0 then 1 else 0 :: u8)
      in s\<lparr>bytes := store8 m1 byte (load8 m1 byte AND flag)\<rparr>)"

section \<open>The bitmap\<close>

text \<open>No object from \<open>next_free\<close> on is marked as used.\<close>

definition clear_above :: "'a same_heap_state_scheme \<Rightarrow> bool" where
  "clear_above s \<longleftrightarrow>
     (\<forall>i. unat (same_next_free s) \<le> i \<and> i < 8 * unat (mem_used_size s) \<longrightarrow>
        \<not> bit (load8 (bytes s) (mem_used s + of_nat (i div 8))) (i mod 8))"

lemma find_clear_bit_here: "k < 8 \<Longrightarrow> \<not> bit b k \<Longrightarrow> find_clear_bit b k = Some k"
  by (subst find_clear_bit.simps) (simp add: bit_iff_odd_drop_bit and_one_eq even_iff_mod_2_eq_zero)

lemma of_nat_unat_div: "(of_nat (unat k div 8) :: u64) = k div 8"
proof -
  have "unat k div 8 < 2 ^ LENGTH(64)"
    using unat_u64_lt [of k] by simp
  then show ?thesis
    by (simp only: word_eq_iff_unat unat_of_nat_small) (simp add: unat_div)
qed

lemma find_next_bump:
  assumes "clear_above (s\<lparr>same_next_free := same_next_free s + 1\<rparr>)"
  shows "find_next_free_same s = s\<lparr>same_next_free := same_next_free s + 1\<rparr>"
proof -
  let ?k = "same_next_free s + 1"
  have "find_clear_from (bytes s) (mem_used s) (mem_used_size s) (?k div 8) (unat (?k mod 8)) \<in> {None, Some ?k}"
  proof (cases "?k div 8 < mem_used_size s")
    case False
    then show ?thesis by (subst find_clear_from.simps) simp
  next
    case True
    have "unat ?k div 8 < unat (mem_used_size s)"
      using True by (simp add: word_less_nat_alt unat_div)
    then have "unat ?k < 8 * unat (mem_used_size s)"
      by linarith
    then have "\<not> bit (load8 (bytes s) (mem_used s + of_nat (unat ?k div 8))) (unat ?k mod 8)"
      using assms unfolding clear_above_def by simp
    moreover have "unat (?k mod 8) = unat ?k mod 8"
      by (simp add: unat_mod)
    moreover note of_nat_unat_div [of ?k]
    ultimately have "find_clear_bit (load8 (bytes s) (mem_used s + ?k div 8)) (unat (?k mod 8)) = Some (unat (?k mod 8))"
      by (intro find_clear_bit_here) simp_all
    moreover have "?k div 8 * 8 + ?k mod 8 = ?k"
      by (rule div_mult_mod_eq)
    ultimately show ?thesis
      using True by (subst find_clear_from.simps) simp
  qed
  then show ?thesis
    by (auto simp: find_next_free_same_def Let_def)
qed

text \<open>Clearing bits of the bitmap, or writing elsewhere, keeps the invariant.\<close>

lemma clear_above_write:
  assumes "clear_above s" "\<And>x k. x \<in> span (mem_used s) (unat (mem_used_size s)) \<Longrightarrow> bit (m x) k \<Longrightarrow> bit (bytes s x) k"
  shows "clear_above (s\<lparr>bytes := m\<rparr>)"
proof -
  have "mem_used s + of_nat (i div 8) \<in> span (mem_used s) (unat (mem_used_size s))"
    if "i < 8 * unat (mem_used_size s)" for i
    using that unat_u64_lt [of "mem_used_size s"] by (intro span_offset_mem) auto
  then show ?thesis
    using assms unfolding clear_above_def load8_def by fastforce
qed

lemma clear_above_mark:
  fixes s :: "'a same_heap_state_scheme"
  defines "byte \<equiv> mem_used s + same_next_free s div 8"
  assumes "clear_above s" "unat (same_next_free s) + 1 < 18446744073709551616"
  shows "clear_above (s\<lparr>bytes := store8 (bytes s) byte
      (load8 (bytes s) byte OR push_bit (unat (same_next_free s mod 8)) 1), same_next_free := same_next_free s + 1\<rparr>)"
proof -
  let ?k = "same_next_free s"
  have k: "unat (?k + 1) = unat ?k + 1"
    using assms(3) by (simp add: unat_u64_add)
  have low: "unat (?k mod 8) = unat ?k mod 8" by (simp add: unat_mod)
  have "\<not> bit (load8 (store8 (bytes s) byte (load8 (bytes s) byte OR push_bit (unat (?k mod 8)) 1))
      (mem_used s + of_nat (i div 8))) (i mod 8)"
    if i: "unat ?k + 1 \<le> i" "i < 8 * unat (mem_used_size s)" for i
  proof (cases "mem_used s + of_nat (i div 8) = byte")
    case True
    have "unat (of_nat (i div 8) :: u64) = i div 8"
      using i unat_u64_lt [of "mem_used_size s"] by (intro unat_of_nat_small) simp
    moreover have "(of_nat (i div 8) :: u64) = ?k div 8"
      using True unfolding byte_def by simp
    ultimately have "i div 8 = unat ?k div 8"
      by (simp add: unat_div)
    then have "i mod 8 \<noteq> unat ?k mod 8"
      using i(1) div_mult_mod_eq [of i 8] div_mult_mod_eq [of "unat ?k" 8] by linarith
    moreover have "\<not> bit (load8 (bytes s) byte) (i mod 8)"
      using assms(2) i True unfolding clear_above_def by auto
    ultimately show ?thesis
      using True low by (auto simp: bit_or_iff bit_push_bit_iff bit_1_iff bit_exp_iff)
  next
    case False
    then show ?thesis
      using assms(2) i unfolding clear_above_def by auto
  qed
  then show ?thesis
    unfolding clear_above_def using k by simp
qed

section \<open>Allocation and release\<close>

text \<open>
  \<open>pool n s\<close>: the state with room for \<open>n\<close> objects, in a region that does not meet the bitmap.
  It says nothing of the size the region was given: the code never looks at it again.
\<close>

definition pool :: "nat \<Rightarrow> 'a same_heap_state_scheme \<Rightarrow> bool" where
  "pool n s \<longleftrightarrow> clear_above s \<and> obj_size s \<noteq> 0 \<and> n < 18446744073709551615 \<and>
     n * unat (obj_size s) < 18446744073709551616 \<and>
     span (same_mem s) (n * unat (obj_size s)) \<inter> span (mem_used s) (unat (mem_used_size s)) = {}"

definition object :: "'a same_heap_state_scheme \<Rightarrow> nat \<Rightarrow> u64" where
  "object s i = same_mem s + of_nat i * obj_size s"

lemma object_offset:
  assumes "i < n" "n * unat (obj_size s) < 18446744073709551616"
  shows "unat (of_nat i * obj_size s) = i * unat (obj_size s)"
    "i * unat (obj_size s) + unat (obj_size s) \<le> n * unat (obj_size s)"
proof -
  have le: "Suc i * unat (obj_size s) \<le> n * unat (obj_size s)"
    using assms(1) by (intro mult_right_mono) auto
  then show "i * unat (obj_size s) + unat (obj_size s) \<le> n * unat (obj_size s)"
    by simp
  then have lt: "i * unat (obj_size s) < 18446744073709551616"
    using assms(2) by linarith
  have "unat (of_nat (i * unat (obj_size s)) :: u64) = i * unat (obj_size s)"
    by (rule unat_of_nat_small) (use lt in simp)
  then show "unat (of_nat i * obj_size s) = i * unat (obj_size s)"
    by simp
qed

lemma object_span:
  assumes "pool n s" "i < n"
  shows "span (object s i) (unat (obj_size s)) \<subseteq> span (same_mem s) (n * unat (obj_size s))"
  unfolding object_def using object_offset [of i n s] assms by (intro span_sub) (simp add: pool_def)

lemma malloc_same_step:
  assumes p: "pool n s" and n: "unat (same_next_free s) < n"
  shows "\<exists>m. malloc_same s = (object s (unat (same_next_free s)),
      s\<lparr>same_next_free := same_next_free s + 1, bytes := m\<rparr>) \<and>
    pool n (s\<lparr>same_next_free := same_next_free s + 1, bytes := m\<rparr>) \<and>
    (\<forall>x. x \<notin> span (object s (unat (same_next_free s))) (unat (obj_size s)) \<longrightarrow>
       x \<noteq> mem_used s + same_next_free s div 8 \<longrightarrow> m x = bytes s x)"
proof -
  let ?k = "same_next_free s"
  define byte where "byte = mem_used s + ?k div 8"
  define m1 where "m1 = store8 (bytes s) byte (load8 (bytes s) byte OR push_bit (unat (?k mod 8)) 1)"
  define m where "m = memsetLong (same_mem s + ?k * obj_size s) MEMORY_INVALID_RETURN (obj_size s) m1"
  let ?s1 = "s\<lparr>bytes := m1, same_next_free := ?k + 1\<rparr>"
  have clear: "clear_above s" and k: "unat ?k + 1 < 18446744073709551616"
    using p n by (auto simp: pool_def)
  have clear1: "clear_above ?s1"
    using clear_above_mark [OF clear k] by (simp add: m1_def byte_def)
  have "malloc_same s = (object s (unat ?k), s\<lparr>same_next_free := ?k + 1, bytes := m\<rparr>)"
    using find_next_bump [of "s\<lparr>bytes := m1\<rparr>"] clear1
    by (simp add: malloc_same_def Let_def m_def m1_def byte_def object_def)
  moreover have fill: "m x = m1 x" if "x \<notin> span (object s (unat ?k)) (unat (obj_size s))" for x
  proof -
    have "8 * unat (obj_size s div 8) \<le> unat (obj_size s)"
      by (simp add: unat_div)
    then show ?thesis
      unfolding m_def memsetLong_def using that unat_u64_lt [of "obj_size s"]
      by (intro memsetLong_loop_outside) (auto simp: object_def)
  qed
  moreover have "m1 x = bytes s x" if "x \<noteq> byte" for x
    using that by (simp add: m1_def store8_def)
  moreover have "clear_above (?s1\<lparr>bytes := m\<rparr>)"
  proof (rule clear_above_write [OF clear1])
    fix x k
    assume "x \<in> span (mem_used ?s1) (unat (mem_used_size ?s1))" "bit (m x) k"
    moreover from this have "x \<notin> span (object s (unat ?k)) (unat (obj_size s))"
      using object_span [OF p n] p by (auto simp: pool_def simp del: mem_span)
    ultimately show "bit (bytes ?s1 x) k"
      using fill by simp
  qed
  ultimately show ?thesis
    using p by (auto simp: pool_def byte_def)
qed

text \<open>Releasing an object that was handed out clears marks and nothing else.\<close>

lemma free_same_step:
  assumes p: "pool n s" and j: "j < n"
  shows "\<exists>m. free_same (object s j) s = s\<lparr>bytes := m\<rparr> \<and> pool n (s\<lparr>bytes := m\<rparr>)"
proof -
  define m1 where "m1 = memset (object s j) 0 (obj_size s) (bytes s)"
  define byte where "byte = mem_used s + ((object s j - same_mem s) div obj_size s) div 8"
  define flag where "flag = (if push_bit (unat ((object s j - same_mem s) div obj_size s mod 8)) (1 :: u32) = 0 then 1 else 0 :: u8)"
  have flag: "flag = 0"
  proof -
    let ?e = "unat ((object s j - same_mem s) div obj_size s mod 8)"
    have "?e < 8" by (simp add: unat_mod)
    then have "bit (push_bit ?e (1 :: u32)) ?e"
      by (simp add: bit_push_bit_iff bit_exp_iff)
    then show ?thesis unfolding flag_def by (metis bit_0_eq bot_apply bot_bool_def)
  qed
  have "clear_above (s\<lparr>bytes := store8 m1 byte (load8 m1 byte AND flag)\<rparr>)"
  proof (rule clear_above_write)
    show "clear_above s" using p by (simp add: pool_def)
    fix x k
    assume x: "x \<in> span (mem_used s) (unat (mem_used_size s))"
      "bit (store8 m1 byte (load8 m1 byte AND flag) x) k"
    then have "x \<notin> span (object s j) (unat (obj_size s))"
      using object_span [OF p j] p by (auto simp: pool_def simp del: mem_span)
    then have "m1 x = bytes s x"
      unfolding m1_def by (rule memset_outside)
    with x(2) show "bit (bytes s x) k"
      by (auto simp: store8_def flag split: if_splits)
  qed
  then show ?thesis
    using p by (auto simp: free_same_def Let_def pool_def m1_def byte_def flag_def)
qed

section \<open>Runs of the pool\<close>

text \<open>A client's calls, in order: take an object, or give back one by its number.\<close>

datatype same_call = Take | Give nat

fun run_same :: "same_call list \<Rightarrow> 'a same_heap_state_scheme \<Rightarrow> u64 list \<times> 'a same_heap_state_scheme" where
  "run_same [] s = ([], s)"
| "run_same (Take # cs) s =
     (let (p, s1) = malloc_same s; (ps, s2) = run_same cs s1 in (p # ps, s2))"
| "run_same (Give j # cs) s = run_same cs (free_same (object s j) s)"

definition takes :: "same_call list \<Rightarrow> nat" where
  "takes cs = length (filter ((=) Take) cs)"

lemma object_cong [simp]:
  "object (s\<lparr>bytes := m\<rparr>) = object s" "object (s\<lparr>same_next_free := k\<rparr>) = object s"
  by (simp_all add: object_def fun_eq_iff)

lemma takes_Cons [simp]: "takes [] = 0" "takes (Take # cs) = Suc (takes cs)" "takes (Give j # cs) = takes cs"
  by (simp_all add: takes_def)

lemma run_same_upwards:
  assumes "pool n s" "unat (same_next_free s) + takes cs \<le> n" "\<forall>j. Give j \<in> set cs \<longrightarrow> j < n"
  shows "fst (run_same cs s) = map (object s) [unat (same_next_free s) ..< unat (same_next_free s) + takes cs] \<and>
    pool n (snd (run_same cs s))"
  using assms
proof (induction cs s rule: run_same.induct)
  case (1 s)
  then show ?case by simp
next
  case (2 cs s)
  let ?k = "same_next_free s"
  have lt: "unat ?k < n" using 2 by simp
  obtain m where m: "malloc_same s = (object s (unat ?k), s\<lparr>same_next_free := ?k + 1, bytes := m\<rparr>)"
    "pool n (s\<lparr>same_next_free := ?k + 1, bytes := m\<rparr>)"
    using malloc_same_step [OF "2.prems"(1) lt] by blast
  let ?s1 = "s\<lparr>same_next_free := ?k + 1, bytes := m\<rparr>"
  have k: "unat (?k + 1) = Suc (unat ?k)"
    using lt "2.prems"(1) by (intro trans [OF unat_u64_add]) (auto simp: pool_def)
  have "fst (run_same cs ?s1) = map (object ?s1) [unat (same_next_free ?s1) ..< unat (same_next_free ?s1) + takes cs] \<and>
      pool n (snd (run_same cs ?s1))"
    by (rule "2.IH" [OF m(1) [symmetric] refl m(2)]) (use "2.prems" k in auto)
  then show ?case
    using m(1) k by (auto simp: upt_conv_Cons simp del: upt_Suc split: prod.splits)
next
  case (3 j cs s)
  obtain m where "free_same (object s j) s = s\<lparr>bytes := m\<rparr>" "pool n (s\<lparr>bytes := m\<rparr>)"
    using free_same_step [of n s j] 3 by auto
  then show ?case
    using 3 by simp
qed

section \<open>The fresh pool\<close>

lemma init_same_pool:
  assumes inv: "heap_inv lo hi (s\<lparr>same_mem := start, obj_size := k, mem_used_size := mem_size div k\<rparr>) (span start (n * unat k))"
    and k: "k \<noteq> 0" "n < 18446744073709551615" "n * unat k < 18446744073709551616"
    and budget: "unat (mem_size div k) + 24 \<le> heap_budget s"
  shows "\<exists>s'. init_same start mem_size k s = ret s' \<and> pool n s' \<and> same_mem s' = start \<and> obj_size s' = k \<and>
    same_next_free s' = 0"
proof -
  let ?s1 = "s\<lparr>same_mem := start, obj_size := k, mem_used_size := mem_size div k\<rparr>"
  have "unat (mem_size div k) + 24 \<le> heap_budget ?s1"
    using budget by (simp add: heap_budget_def)
  then obtain p m where p: "malloc (mem_size div k) ?s1 = ret (p, ?s1\<lparr>bytes := m\<rparr>)"
    "span p (unat (mem_size div k)) \<inter> span start (n * unat k) = {}"
    using kheap.allocE [OF inv] by metis
  let ?s' = "?s1\<lparr>mem_used := p, same_next_free := 0, bytes := memset p 0 (mem_size div k) m\<rparr>"
  have "memset p 0 (mem_size div k) m (p + of_nat (i div 8)) = 0" if "i < 8 * unat (mem_size div k)" for i
  proof -
    have "p + of_nat (i div 8) \<in> span p (unat (mem_size div k))"
      using that unat_u64_lt [of "mem_size div k"] by (intro span_offset_mem) auto
    then show ?thesis by (simp add: memset_eq)
  qed
  then have "clear_above ?s'"
    by (simp add: clear_above_def load8_def)
  then have "pool n ?s'"
    using k p(2) by (auto simp: pool_def simp del: mem_span)
  then show ?thesis
    using p(1) k(1) by (auto simp: init_same_def)
qed

section \<open>Properties\<close>

text \<open>
  C17: the object heap is a bump allocator. After \<open>init_same\<close>, any sequence of calls returns the
  objects of the region in order, each exactly once: \<open>free_same\<close> makes nothing available again.
\<close>

theorem same_heap_bump:
  assumes "heap_inv lo hi (s\<lparr>same_mem := start, obj_size := k, mem_used_size := mem_size div k\<rparr>) (span start (n * unat k))"
    "k \<noteq> 0" "n < 18446744073709551615" "n * unat k < 18446744073709551616"
    "unat (mem_size div k) + 24 \<le> heap_budget s" "takes cs \<le> n" "\<forall>j. Give j \<in> set cs \<longrightarrow> j < n"
  shows "\<exists>s'. init_same start mem_size k s = ret s' \<and>
    fst (run_same cs s') = map (\<lambda>i. start + of_nat i * k) [0 ..< takes cs]"
proof -
  obtain s' where s': "init_same start mem_size k s = ret s'" "pool n s'" "same_mem s' = start"
    "obj_size s' = k" "same_next_free s' = 0"
    using init_same_pool [OF assms(1-5)] by blast
  have "fst (run_same cs s') = map (object s') [0 ..< takes cs]"
    using run_same_upwards [OF s'(2), of cs] s'(5) assms(6,7) by simp
  then show ?thesis
    using s' by (auto simp: object_def)
qed

definition blank_pool :: same_heap_state where
  "blank_pool = \<lparr>bytes = (\<lambda>_. 0), cr3 = 0, console = [], msr = (\<lambda>_. 0), free_mem_next = 0, free_mem_size = 0,
     same_mem = 0, mem_used = 0, mem_used_size = 0, same_next_free = 0, obj_size = 0\<rparr>"

lemma blank_pool_inv:
  "heap_inv 8192 12288 ((init_heap 8192 4096 blank_pool)\<lparr>same_mem := 65536, obj_size := 64, mem_used_size := 2\<rparr>)
     (span 65536 192)" (is "heap_inv _ _ ?s _")
proof -
  have nw: "unat (65536 :: u64) + 192 \<le> 18446744073709551616" by simp
  have "heap_wf 8192 12288 [(8192, 4096)] ?s"
    by (simp add: heap_wf_def init_heap_def)
  moreover have "\<not> free_addr [(8192, 4096)] x" if "x \<in> span 65536 192" for x
    using that unfolding span_no_wrap [OF nw] by (simp add: free_addr_def)
  ultimately show ?thesis
    unfolding heap_inv_def by (intro exI [of _ "[(8192, 4096)]"]) simp
qed

lemma blank_pool_budget: "heap_budget (init_heap 8192 4096 blank_pool) = 4096"
  by (simp add: heap_budget_def init_heap_def)

theorem same_heap_bump_witness:
  "\<exists>s'. init_same 65536 128 64 (init_heap 8192 4096 blank_pool) = ret s' \<and>
     fst (run_same [Take, Give 0, Take] s') = [65536, 65600]"
  using same_heap_bump [where lo = 8192 and hi = 12288 and s = "init_heap 8192 4096 blank_pool" and start = 65536
      and k = 64 and mem_size = 128 and n = 3 and cs = "[Take, Give 0, Take]"]
  by (simp add: blank_pool_inv blank_pool_budget)

text \<open>
  The object heap does not notice that it is full. A region that holds exactly \<open>c\<close>
  objects hands out one more, which starts at the first address behind the region.
\<close>

lemma same_heap_overruns:
  assumes "heap_inv lo hi (s\<lparr>same_mem := start, obj_size := k, mem_used_size := mem_size div k\<rparr>) (span start (Suc c * unat k))"
    "2 \<le> unat k" "Suc c * unat k < 18446744073709551616"
    "unat (mem_size div k) + 24 \<le> heap_budget s" "unat mem_size = c * unat k"
  shows "\<exists>s'. init_same start mem_size k s = ret s' \<and>
    last (fst (run_same (replicate (Suc c) Take) s')) = start + mem_size"
proof -
  have ts: "takes (replicate m Take) = m" for m
    by (induction m) simp_all
  have "Suc c * 2 \<le> Suc c * unat k"
    using assms(2) by (intro mult_left_mono) simp_all
  then have "Suc c * 2 < 18446744073709551616"
    using assms(3) by (rule order_le_less_trans)
  then have c: "Suc c < 18446744073709551615" by simp
  have k: "k \<noteq> 0" using assms(2) by auto
  have size: "of_nat c * k = mem_size"
    using arg_cong [OF assms(5), of "of_nat :: nat \<Rightarrow> u64"] by simp
  obtain s' where s': "init_same start mem_size k s = ret s'" "pool (Suc c) s'" "same_mem s' = start"
    "obj_size s' = k" "same_next_free s' = 0"
    using init_same_pool [OF assms(1) k c assms(3,4)] by blast
  have "fst (run_same (replicate (Suc c) Take) s') = map (object s') [0 ..< Suc c]"
    using run_same_upwards [OF s'(2), of "replicate (Suc c) Take"] s'(5) ts by auto
  then show ?thesis
    using s' size by (auto simp: object_def)
qed

lemma same_heap_overruns_example:
  "\<exists>s'. init_same 65536 128 64 (init_heap 8192 4096 blank_pool) = ret s' \<and>
     last (fst (run_same [Take, Take, Take] s')) = 65664"
  using same_heap_overruns [where lo = 8192 and hi = 12288 and s = "init_heap 8192 4096 blank_pool" and start = 65536
      and k = 64 and mem_size = 128 and c = 2]
  by (simp add: blank_pool_inv blank_pool_budget numeral_3_eq_3)

end
