(* ===== verification/Page_Walk.thy ===== *)
theory Page_Walk
  imports Same_Heap
begin

text \<open>
  The page-table routines of \<open>kernel/arch/x86_64/memory.c\<close>: walking the tables to a physical
  address, the map of existing tables, the search for a free PML4 slot or page area, and
  \<open>map_virtual_address\<close>. Tables are 512 quadwords in memory, reached through the direct map at
  \<open>PAGE_VIRT_OFFSET\<close>. What the routines leave to the hardware is only CR3, the field \<open>cr3\<close> of the
  machine.
\<close>

section \<open>The code\<close>

text \<open>The statics of \<open>map_virtual_address\<close>, and the kernel's load offset from the boot loader.\<close>

record page_map_state = same_heap_state +
  kernel_virt_offset :: u64
  mv_pml4 :: u16
  mv_pdpt :: u16
  mv_pd :: u16
  mv_pt :: u16

definition get_phys_addr :: "u64 \<Rightarrow> 'a machine_scheme \<Rightarrow> u64" where
  "get_phys_addr virt_addr s =
     (let m = bytes s;
          cr3 = cr3 s + PAGE_VIRT_OFFSET;
          pml4_index = unat (drop_bit 39 virt_addr AND 0x1FF);
          pdpt_index = unat (drop_bit 30 virt_addr AND 0x1FF);
          pd_index = unat (drop_bit 21 virt_addr AND 0x1FF);
          pt_index = unat (drop_bit 12 virt_addr AND 0x1FF);
          pdpt_base = entry m cr3 pml4_index AND FRAME_MASK;
          pdpt_table = pdpt_base + PAGE_VIRT_OFFSET;
          pdptEnd = entry m cr3 pml4_index AND 0x40 \<noteq> 0;
          pd_base = entry m pdpt_table pdpt_index AND FRAME_MASK;
          pd_table = pd_base + PAGE_VIRT_OFFSET;
          pdEnd = entry m pdpt_table pdpt_index AND 0x40 \<noteq> 0;
          pt_base = entry m pd_table pd_index AND FRAME_MASK;
          pt_table = pt_base + PAGE_VIRT_OFFSET;
          physical_address =
            (if \<not> pdptEnd then if \<not> pdEnd then entry m pt_table pt_index else pd_base else pdpt_base);
          physical_address1 =
            (if drop_bit 49 physical_address AND 1 \<noteq> 0
             then (physical_address OR 0xFFFF000000000000) AND FRAME_MASK
             else physical_address AND 0x0000FFFFFFFFF000)
      in physical_address1 + (virt_addr AND 0xFFF))"

text \<open>The loop of \<open>get_existens_map\<close>, over the indices still to fill.\<close>

primrec existens_fill ::
  "(u64 \<Rightarrow> 'a heap_state_scheme \<Rightarrow> (u64 \<times> 'a heap_state_scheme) run) \<Rightarrow> nat \<Rightarrow> u64 \<Rightarrow> u64 \<Rightarrow> nat list \<Rightarrow>
   'a heap_state_scheme \<Rightarrow> 'a heap_state_scheme run" where
  "existens_fill below depth cr3p exs [] s = ret s"
| "existens_fill below depth cr3p exs (i # is) s =
     (let s1 = (if i = 511 \<and> depth = 3 then s\<lparr>console := console s @ ''Test''\<rparr> else s);
          p = entry (bytes s1) cr3p i AND FRAME_MASK
      in if p \<noteq> 0 then
           run_bind (below (p + PAGE_VIRT_OFFSET) s1) (\<lambda>(q, s2).
             existens_fill below depth cr3p exs is (s2\<lparr>bytes := store64 (bytes s2) (exs + 8 * of_nat i) q\<rparr>))
         else existens_fill below depth cr3p exs is (s1\<lparr>bytes := store64 (bytes s1) (exs + 8 * of_nat i) 0\<rparr>))"

primrec get_existens_map :: "nat \<Rightarrow> u64 \<Rightarrow> 'a heap_state_scheme \<Rightarrow> (u64 \<times> 'a heap_state_scheme) run" where
  "get_existens_map 0 cr3p s = ret (1, s)"
| "get_existens_map (Suc depth) cr3p s =
     run_bind (malloc 4096 s) (\<lambda>(exs, s1).
     run_bind (existens_fill (get_existens_map depth) depth cr3p exs [0 ..< 512] s1) (\<lambda>s2.
       ret (exs, s2)))"

definition get_existens_map_default :: "'a heap_state_scheme \<Rightarrow> (u64 \<times> 'a heap_state_scheme) run" where
  "get_existens_map_default s = get_existens_map 4 (cr3 s + PAGE_VIRT_OFFSET) s"

text \<open>The loop of \<open>next_free_pml4\<close>: the indices \<open>i\<close>, \<open>i - 1\<close>, \<dots>, 1.\<close>

primrec pml4_scan :: "mem \<Rightarrow> u64 \<Rightarrow> nat \<Rightarrow> nat option" where
  "pml4_scan m pep 0 = None"
| "pml4_scan m pep (Suc i) = (if entry m pep (Suc i) = 0 then Some (Suc i) else pml4_scan m pep i)"

definition next_free_pml4 :: "'a heap_state_scheme \<Rightarrow> (u16 \<times> 'a heap_state_scheme) run" where
  "next_free_pml4 s =
     run_bind (get_existens_map 1 (cr3 s + PAGE_VIRT_OFFSET) s) (\<lambda>(pep, s1).
       case pml4_scan (bytes s1) pep 511 of
         Some i \<Rightarrow> run_bind (free pep s1) (\<lambda>s2. ret (of_nat i, s2))
       | None \<Rightarrow> run_bind (free pep s1) (\<lambda>s2. stop (Abort ''Out of pml4 slots for process'')))"

text \<open>
  One level of \<open>map_virtual_address\<close>: the table behind slot \<open>index\<close>, taken from the object heap
  if the slot is empty. \<open>used\<close> is the index the code reads in the other case; for the second
  level it is not \<open>index\<close>.
\<close>

definition mv_enter :: "u64 \<Rightarrow> u16 \<Rightarrow> u16 \<Rightarrow> 'a page_map_state_scheme \<Rightarrow> u64 \<times> 'a page_map_state_scheme" where
  "mv_enter table index used s =
     (if entry (bytes s) table (unat index) = 0 then
        case malloc_same s of
          (p, s1) \<Rightarrow> (p, s1\<lparr>bytes := store64 (bytes s1) (table + 8 * ucast index)
                       ((p - kernel_virt_offset s1) OR MEMORY_MAPPED_IO_FLAGS)\<rparr>)
      else ((entry (bytes s) table (unat used) + kernel_virt_offset s) AND FRAME_MASK, s))"

text \<open>Lines 38 to 50: the borrow from one index to the next. The statics are \<open>int16_t\<close>.\<close>

definition mv_borrow :: "'a page_map_state_scheme \<Rightarrow> 'a page_map_state_scheme run" where
  "mv_borrow s =
     run_bind (if mv_pml4 s = -1
               then run_bind (next_free_pml4 s) (\<lambda>(i, s'). ret (s'\<lparr>mv_pml4 := i\<rparr>)) else ret s) (\<lambda>s1.
     let s2 = (if mv_pt s1 <s 0 then s1\<lparr>mv_pt := 511, mv_pd := mv_pd s1 - 1\<rparr> else s1);
         s3 = (if mv_pd s2 <s 0 then s2\<lparr>mv_pd := 511, mv_pdpt := mv_pdpt s2 - 1\<rparr> else s2)
     in if mv_pdpt s3 <s 0
        then run_bind (next_free_pml4 s3) (\<lambda>(i, s'). ret (s'\<lparr>mv_pml4 := i, mv_pdpt := 511\<rparr>)) else ret s3)"

definition map_virtual_address :: "u64 \<Rightarrow> 'a page_map_state_scheme \<Rightarrow> (u64 \<times> 'a page_map_state_scheme) run" where
  "map_virtual_address physical_address s =
     run_bind (mv_borrow s) (\<lambda>s1.
       let cr3p = cr3 s1 + PAGE_VIRT_OFFSET;
           (pdptr, s2) = mv_enter cr3p (mv_pml4 s1) (mv_pml4 s1) s1;
           (pdPtr, s3) = mv_enter pdptr (mv_pdpt s2) (mv_pd s2) s2;
           (ptPtr, s4) = mv_enter pdPtr (mv_pd s3) (mv_pd s3) s3;
           s5 = s4\<lparr>bytes := store64 (bytes s4) (ptPtr + 8 * scast (mv_pt s4))
                    ((physical_address AND NOT 0xFFF) OR MEMORY_MAPPED_IO_FLAGS)\<rparr>;
           virt0 = push_bit 9 0xFFFF + scast (mv_pml4 s5);
           virt1 = push_bit 9 virt0 + scast (mv_pdpt s5);
           virt2 = push_bit 9 virt1 + scast (mv_pd s5);
           virt3 = push_bit 9 virt2 + scast (mv_pt s5);
           virt4 = push_bit 12 virt3 + (physical_address AND 0xFFF)
       in ret (virt4, s5\<lparr>mv_pt := mv_pt s5 - 1\<rparr>))"

text \<open>
  The search for a free area. \<open>cur\<close> is the local \<open>current_size\<close>, which the code does not
  initialise: its first value is an argument of the model. A loop returns \<open>Inl\<close> the address
  found, or \<open>Inr\<close> the size so far. Each loop runs over the indices still to visit.
\<close>

primrec area_pt :: "mem \<Rightarrow> u64 \<Rightarrow> u64 \<Rightarrow> nat \<Rightarrow> nat \<Rightarrow> nat \<Rightarrow> u64 \<Rightarrow> nat list \<Rightarrow> Memory_Virtual_Address + u64" where
  "area_pt m min_size pt_table i j k cur [] = Inr cur"
| "area_pt m min_size pt_table i j k cur (l # ls) =
     (if entry m pt_table l AND 1 = 0 then
        if cur + 1 \<ge> min_size then Inl \<lparr>pml4 = of_nat i, pdpt = of_nat j, pd = of_nat k, pt = of_nat l\<rparr>
        else area_pt m min_size pt_table i j k (cur + 1) ls
      else area_pt m min_size pt_table i j k 0 ls)"

primrec area_pd :: "mem \<Rightarrow> u64 \<Rightarrow> nat \<Rightarrow> u64 \<Rightarrow> nat \<Rightarrow> nat \<Rightarrow> u64 \<Rightarrow> nat list \<Rightarrow> Memory_Virtual_Address + u64" where
  "area_pd m min_size pt_start pd_table i j cur [] = Inr cur"
| "area_pd m min_size pt_start pd_table i j cur (k # ks) =
     (if entry m pd_table k AND 0x80 \<noteq> 0 then area_pd m min_size pt_start pd_table i j cur ks
      else
        let pt_table = (entry m pd_table k AND FRAME_MASK) + PAGE_VIRT_OFFSET;
            absent = entry m pd_table k AND 1 = 0
        in if absent \<and> cur + 512 \<ge> min_size then Inl \<lparr>pml4 = of_nat i, pdpt = of_nat j, pd = of_nat k, pt = 0\<rparr>
           else case area_pt m min_size pt_table i j k (if absent then cur + 512 else 0) [pt_start ..< 512] of
                  Inl a \<Rightarrow> Inl a
                | Inr cur' \<Rightarrow> area_pd m min_size pt_start pd_table i j cur' ks)"

primrec area_pdpt :: "mem \<Rightarrow> u64 \<Rightarrow> nat \<Rightarrow> nat \<Rightarrow> u64 \<Rightarrow> nat \<Rightarrow> u64 \<Rightarrow> nat list \<Rightarrow> Memory_Virtual_Address + u64" where
  "area_pdpt m min_size pd_start pt_start pdpt_table i cur [] = Inr cur"
| "area_pdpt m min_size pd_start pt_start pdpt_table i cur (j # js) =
     (if entry m pdpt_table j AND 0x80 \<noteq> 0 then area_pdpt m min_size pd_start pt_start pdpt_table i cur js
      else
        let pd_table = (entry m pdpt_table j AND FRAME_MASK) + PAGE_VIRT_OFFSET;
            absent = entry m pdpt_table j AND 1 = 0
        in if absent \<and> cur + 512 * 512 \<ge> min_size then Inl \<lparr>pml4 = of_nat i, pdpt = of_nat j, pd = 0, pt = 0\<rparr>
           else case area_pd m min_size pt_start pd_table i j (if absent then cur + 512 * 512 else 0) [pd_start ..< 512] of
                  Inl a \<Rightarrow> Inl a
                | Inr cur' \<Rightarrow> area_pdpt m min_size pd_start pt_start pdpt_table i cur' js)"

primrec area_pml4 :: "mem \<Rightarrow> u64 \<Rightarrow> nat \<Rightarrow> nat \<Rightarrow> nat \<Rightarrow> u64 \<Rightarrow> u64 \<Rightarrow> nat list \<Rightarrow> Memory_Virtual_Address + u64" where
  "area_pml4 m min_size pdpt_start pd_start pt_start cr3p cur [] = Inr cur"
| "area_pml4 m min_size pdpt_start pd_start pt_start cr3p cur (i # is) =
     (let pdpt_table = (entry m cr3p i AND FRAME_MASK) + PAGE_VIRT_OFFSET;
          absent = entry m cr3p i AND 1 = 0
      in if absent \<and> cur + 512 * 512 * 512 \<ge> min_size then Inl \<lparr>pml4 = of_nat i, pdpt = 0, pd = 0, pt = 0\<rparr>
         else case area_pdpt m min_size pd_start pt_start pdpt_table i
                     (if absent then cur + 512 * 512 * 512 else 0) [pdpt_start ..< 512] of
                Inl a \<Rightarrow> Inl a
              | Inr cur' \<Rightarrow> area_pml4 m min_size pdpt_start pd_start pt_start cr3p cur' is)"

primrec area_top :: "mem \<Rightarrow> u64 \<Rightarrow> u64 \<Rightarrow> u64 \<Rightarrow> nat list \<Rightarrow> Memory_Virtual_Address option" where
  "area_top m min_size cr3p cur [] = None"
| "area_top m min_size cr3p cur (i # is) =
     (if entry m cr3p i AND 1 = 0 then
        if cur + 512 * 512 * 512 \<ge> min_size then Some \<lparr>pml4 = of_nat i, pdpt = 0, pd = 0, pt = 0\<rparr>
        else area_top m min_size cr3p (cur + 512 * 512 * 512) is
      else area_top m min_size cr3p 0 is)"

text \<open>A search at depth 1 that finds nothing falls through to the \<open>default\<close> case.\<close>

definition find_next_free_page_area ::
  "u8 \<Rightarrow> u64 \<Rightarrow> u16 \<Rightarrow> u16 \<Rightarrow> u16 \<Rightarrow> u16 \<Rightarrow> u64 \<Rightarrow> 'a machine_scheme \<Rightarrow> Memory_Virtual_Address run" where
  "find_next_free_page_area depth min_size pml4_start pdpt_start pd_start pt_start uninit s =
     (let unsupported = stop (Abort (''Only page finding level 4 currently supported'' @ [CHR 0x0A]));
          cr3p = cr3 s + PAGE_VIRT_OFFSET
      in if depth = 4 then
           case area_pml4 (bytes s) min_size (unat pdpt_start) (unat pd_start) (unat pt_start) cr3p uninit
                  [unat pml4_start ..< 512] of
             Inl a \<Rightarrow> ret a
           | Inr cur \<Rightarrow> ret \<lparr>pml4 = -1, pdpt = -1, pd = -1, pt = -1\<rparr>
         else if depth = 1 then
           case area_top (bytes s) min_size cr3p uninit [unat pml4_start ..< 512] of
             Some a \<Rightarrow> ret a
           | None \<Rightarrow> unsupported
         else unsupported)"

section \<open>Tables in memory\<close>

lemma slot_offset: "i < 512 \<Longrightarrow> unat (8 * of_nat i :: u64) = 8 * i"
proof -
  assume "i < 512"
  then have "unat (of_nat (8 * i) :: u64) = 8 * i"
    by (intro unat_of_nat_small) simp
  then show ?thesis by simp
qed

lemma slot_span: "i < 512 \<Longrightarrow> span (table + 8 * of_nat i) 8 \<subseteq> span table 4096"
  by (rule span_sub) (simp add: slot_offset)

lemma slots_apart:
  assumes "i < 512" "j < 512" "i \<noteq> j"
  shows "apart (table + 8 * of_nat i) 8 (table + 8 * of_nat j) 8"
proof -
  have "apart (8 * of_nat a) 8 (8 * of_nat b :: u64) 8" if "a < b" "b < 512" for a b
    by (rule apart_no_wrap) (use that slot_offset [of a] slot_offset [of b] in auto)
  then show ?thesis
    using assms apart_sym [of "8 * of_nat i" 8 "8 * of_nat j" 8] by (cases "i < j") auto
qed

lemma entry_store [simp]:
  assumes "i < 512" "j < 512"
  shows "entry (store64 m (table + 8 * of_nat j) v) table i = (if i = j then v else entry m table i)"
  using assms slots_apart [of i j table] by (simp add: entry_def)

lemma entry_cong:
  assumes "i < 512" "\<And>x. x \<in> span table 4096 \<Longrightarrow> m x = m' x"
  shows "entry m table i = entry m' table i"
  unfolding entry_def by (rule load64_cong) (use assms slot_span [of i table] in blast)

section \<open>The map of existing tables, one level deep\<close>

lemma existens_fill_leaf:
  fixes s :: "'a heap_state_scheme"
  assumes "\<And>p (s :: 'a heap_state_scheme). below p s = ret (1, s)" "span cr3p 4096 \<inter> span exs 4096 = {}" "set is \<subseteq> {..<512}" "distinct is"
  shows "\<exists>m. existens_fill below 0 cr3p exs is s = ret (s\<lparr>bytes := m\<rparr>) \<and>
    (\<forall>i \<in> set is. entry m exs i = (if entry (bytes s) cr3p i AND FRAME_MASK \<noteq> 0 then 1 else 0)) \<and>
    (\<forall>i. i < 512 \<longrightarrow> i \<notin> set is \<longrightarrow> entry m exs i = entry (bytes s) exs i) \<and>
    (\<forall>x. x \<notin> span exs 4096 \<longrightarrow> m x = bytes s x)"
  using assms(3,4)
proof (induction "is" arbitrary: s)
  case Nil
  have "s = s\<lparr>bytes := bytes s\<rparr>" by simp
  then show ?case by (intro exI [of _ "bytes s"]) simp
next
  case (Cons i "is")
  let ?v = "if entry (bytes s) cr3p i AND FRAME_MASK \<noteq> 0 then 1 else 0 :: u64"
  let ?s = "s\<lparr>bytes := store64 (bytes s) (exs + 8 * of_nat i) ?v\<rparr>"
  have i: "i < 512" and sub: "set is \<subseteq> {..<512}" "distinct is" using Cons.prems by auto
  have step: "existens_fill below 0 cr3p exs (i # is) s =
      existens_fill below 0 cr3p exs is ?s"
    by (simp add: Let_def assms(1))
  have out: "bytes ?s x = bytes s x" if "x \<notin> span exs 4096" for x
    using that slot_span [OF i, of exs] by (auto intro!: store64_outside)
  obtain m where m: "existens_fill below 0 cr3p exs is ?s = ret (?s\<lparr>bytes := m\<rparr>)"
    "\<forall>j \<in> set is. entry m exs j = (if entry (bytes ?s) cr3p j AND FRAME_MASK \<noteq> 0 then 1 else 0)"
    "\<forall>j. j < 512 \<longrightarrow> j \<notin> set is \<longrightarrow> entry m exs j = entry (bytes ?s) exs j"
    "\<forall>x. x \<notin> span exs 4096 \<longrightarrow> m x = bytes ?s x"
    using Cons.IH [of ?s, OF sub] by blast
  have same: "entry (bytes ?s) cr3p j = entry (bytes s) cr3p j" if "j \<in> set is" for j
  proof (rule entry_cong)
    show "j < 512" using that sub by auto
    show "bytes ?s x = bytes s x" if "x \<in> span cr3p 4096" for x
      using out that assms(2) by blast
  qed
  show ?case
    unfolding step using m same out Cons.prems i
    by (intro exI [of _ m] conjI ballI allI impI) (auto split: if_splits)
qed

lemma pml4_scan_Some:
  "pml4_scan m pep n = Some i \<longleftrightarrow>
     0 < i \<and> i \<le> n \<and> entry m pep i = 0 \<and> (\<forall>j. i < j \<and> j \<le> n \<longrightarrow> entry m pep j \<noteq> 0)"
  by (induction n) (auto simp: le_Suc_eq)

lemma pml4_scan_None:
  "pml4_scan m pep n = None \<longleftrightarrow> (\<forall>j. 0 < j \<and> j \<le> n \<longrightarrow> entry m pep j \<noteq> 0)"
  by (induction n) (auto simp: le_Suc_eq)

text \<open>\<open>pml4_slot_free s i\<close>: the PML4 of the current address space has no table in slot \<open>i\<close>.\<close>

definition pml4_slot_free :: "'a machine_scheme \<Rightarrow> nat \<Rightarrow> bool" where
  "pml4_slot_free s i \<longleftrightarrow> entry (bytes s) (cr3 s + PAGE_VIRT_OFFSET) i AND FRAME_MASK = 0"

lemma next_free_pml4_run:
  assumes inv: "heap_inv lo hi s U" and pml4: "span (cr3 s + PAGE_VIRT_OFFSET) 4096 \<subseteq> U"
    and budget: "4120 \<le> heap_budget s"
  obtains m where "heap_inv lo hi (s\<lparr>bytes := m\<rparr>) U" "heap_budget (s\<lparr>bytes := m\<rparr>) = heap_budget s"
    "\<And>x. x \<in> U \<Longrightarrow> m x = bytes s x"
    "\<And>i. 0 < i \<Longrightarrow> i < 512 \<Longrightarrow> pml4_slot_free s i \<Longrightarrow> (\<And>j. i < j \<Longrightarrow> j < 512 \<Longrightarrow> \<not> pml4_slot_free s j) \<Longrightarrow>
       next_free_pml4 s = ret (of_nat i, s\<lparr>bytes := m\<rparr>)"
    "(\<And>j. 0 < j \<Longrightarrow> j < 512 \<Longrightarrow> \<not> pml4_slot_free s j) \<Longrightarrow>
       next_free_pml4 s = stop (Abort ''Out of pml4 slots for process'')"
proof -
  let ?cr3 = "cr3 s + PAGE_VIRT_OFFSET"
  obtain pep m1 where m1: "malloc 4096 s = ret (pep, s\<lparr>bytes := m1\<rparr>)" "span pep (unat (4096 :: u64)) \<inter> U = {}"
    "\<And>x. x \<in> U \<Longrightarrow> m1 x = bytes s x"
    "\<And>m2. (\<And>x. x \<notin> span pep (unat (4096 :: u64)) \<Longrightarrow> m2 x = m1 x) \<Longrightarrow>
      \<exists>m3. free pep (s\<lparr>bytes := m2\<rparr>) = ret (s\<lparr>bytes := m3\<rparr>) \<and> heap_inv lo hi (s\<lparr>bytes := m3\<rparr>) U \<and>
        heap_budget (s\<lparr>bytes := m3\<rparr>) = heap_budget s \<and> (\<forall>x \<in> U. m3 x = bytes s x)"
    by (rule kscratch.scratchE [OF inv, of 4096]) (use budget in auto)
  have disj: "span ?cr3 4096 \<inter> span pep 4096 = {}"
    using m1(2) pml4 by auto
  obtain m2 where m2: "existens_fill (get_existens_map 0) 0 ?cr3 pep [0 ..< 512] (s\<lparr>bytes := m1\<rparr>) = ret (s\<lparr>bytes := m2\<rparr>)"
    "\<forall>i < 512. entry m2 pep i = (if entry m1 ?cr3 i AND FRAME_MASK \<noteq> 0 then 1 else 0)"
    "\<forall>x. x \<notin> span pep 4096 \<longrightarrow> m2 x = m1 x"
    using existens_fill_leaf [OF _ disj, of "get_existens_map 0" "[0 ..< 512]" "s\<lparr>bytes := m1\<rparr>"] by auto
  have slots: "entry m2 pep i = 0 \<longleftrightarrow> pml4_slot_free s i" if "i < 512" for i
  proof -
    have "entry m1 ?cr3 i = entry (bytes s) ?cr3 i"
      by (rule entry_cong [OF that]) (use m1(3) pml4 in blast)
    then show ?thesis
      using m2(2) that by (simp add: pml4_slot_free_def)
  qed
  obtain m3 where m3: "free pep (s\<lparr>bytes := m2\<rparr>) = ret (s\<lparr>bytes := m3\<rparr>)" "heap_inv lo hi (s\<lparr>bytes := m3\<rparr>) U"
    "heap_budget (s\<lparr>bytes := m3\<rparr>) = heap_budget s" "\<forall>x \<in> U. m3 x = bytes s x"
    using m1(4) [of m2] m2(3) by auto
  have run: "next_free_pml4 s = (case pml4_scan m2 pep 511 of
      Some i \<Rightarrow> ret (of_nat i, s\<lparr>bytes := m3\<rparr>) | None \<Rightarrow> stop (Abort ''Out of pml4 slots for process''))"
    using m1(1) m2(1) m3(1) by (simp add: next_free_pml4_def split: option.split)
  show thesis
  proof (rule that [OF m3(2,3)])
    show "m3 x = bytes s x" if "x \<in> U" for x using m3(4) that by blast
    show "next_free_pml4 s = ret (of_nat i, s\<lparr>bytes := m3\<rparr>)"
      if "0 < i" "i < 512" "pml4_slot_free s i" "\<And>j. i < j \<Longrightarrow> j < 512 \<Longrightarrow> \<not> pml4_slot_free s j" for i
    proof -
      have "pml4_scan m2 pep 511 = Some i"
        using that slots by (auto simp: pml4_scan_Some)
      then show ?thesis by (simp add: run)
    qed
    show "next_free_pml4 s = stop (Abort ''Out of pml4 slots for process'')"
      if "\<And>j. 0 < j \<Longrightarrow> j < 512 \<Longrightarrow> \<not> pml4_slot_free s j"
    proof -
      have "pml4_scan m2 pep 511 = None"
        using that slots by (auto simp: pml4_scan_None)
      then show ?thesis by (simp add: run)
    qed
  qed
qed

section \<open>Mapping a page\<close>

lemma small_index:
  fixes x :: u16
  assumes "x < 512"
  shows "unat x < 512" "\<not> x <s 0" "x \<noteq> -1" "scast x = (ucast x :: u64)"
proof -
  show u: "unat x < 512"
    using assms by (simp add: word_less_nat_alt)
  have b: "\<not> bit x 15"
    using index_bits [OF assms, of 15] by auto
  have "uint x < 512"
    using assms by (simp add: word_less_def)
  moreover have "- 32768 \<le> uint x"
    by (rule order_trans [of _ 0]) simp_all
  ultimately have "sint x = uint x"
    unfolding sint_uint by (intro signed_take_bit_int_eq_self) simp_all
  then show "\<not> x <s 0"
    by (simp add: word_sless_alt)
  show "scast x = (ucast x :: u64)"
  proof (rule bit_word_eqI)
    fix n
    show "bit (scast x :: u64) n \<longleftrightarrow> bit (ucast x :: u64) n"
      using b index_bits [OF assms, of n] by (auto simp: bit_signed_iff bit_ucast_iff min_def)
  qed
  show "x \<noteq> -1"
    using b by auto
qed

lemma mv_borrow_none:
  assumes "mv_pml4 s < 512" "mv_pdpt s < 512" "mv_pd s < 512" "mv_pt s < 512"
  shows "mv_borrow s = ret s"
  using assms by (simp add: mv_borrow_def small_index)

lemma mv_enter_present:
  assumes "entry (bytes s) table (unat index) \<noteq> 0"
  shows "mv_enter table index used s = ((entry (bytes s) table (unat used) + kernel_virt_offset s) AND FRAME_MASK, s)"
  using assms by (simp add: mv_enter_def)

text \<open>The address \<open>map_virtual_address\<close> returns, bit by bit.\<close>

definition mv_address :: "u16 \<Rightarrow> u16 \<Rightarrow> u16 \<Rightarrow> u16 \<Rightarrow> u64 \<Rightarrow> u64" where
  "mv_address i j k l phys =
     push_bit 12 (push_bit 9 (push_bit 9 (push_bit 9 (push_bit 9 0xFFFF + ucast i) + ucast j) + ucast k) + ucast l)
       + (phys AND 0xFFF)"

lemma add_index:
  assumes "x < 512"
  shows "push_bit 9 v + ucast (x :: u16) = (push_bit 9 v OR ucast x :: u64)"
proof (rule disjunctive_add)
  fix n
  show "\<not> bit (push_bit 9 v) n \<or> \<not> bit (ucast x :: u64) n"
    using index_bits [OF assms, of n] by (auto simp: bit_push_bit_iff bit_ucast_iff)
qed

lemma bit_low12: "bit (v AND 0xFFF :: u64) n \<longleftrightarrow> n < 12 \<and> bit v n"
proof -
  have "v AND 0xFFF = take_bit 12 v"
    by (simp add: take_bit_eq_mask mask_eq_exp_minus_1)
  then show ?thesis by (simp add: bit_take_bit_iff)
qed

lemma add_offset: "push_bit 12 v + (w AND 0xFFF) = (push_bit 12 v OR (w AND 0xFFF) :: u64)"
  by (rule disjunctive_add) (auto simp: bit_push_bit_iff bit_low12)

lemma bit_FFFF: "bit (0xFFFF :: u64) n \<longleftrightarrow> n < 16"
proof -
  have "(0xFFFF :: u64) = mask 16"
    by (simp add: mask_eq_exp_minus_1)
  then show ?thesis by (simp only: bit_mask_iff) auto
qed

lemma mv_address_indices:
  assumes "i < 512" "j < 512" "k < 512" "l < 512"
  shows "disassemble_virtual_address (mv_address i j k l phys) = \<lparr>pml4 = i, pdpt = j, pd = k, pt = l\<rparr>"
    "mv_address i j k l phys AND 0xFFF = phys AND 0xFFF"
    "drop_bit 48 (mv_address i j k l phys) = 0xFFFF"
proof -
  have b: "bit (mv_address i j k l phys) n \<longleftrightarrow>
    (if n < 12 then bit phys n else if n < 21 then bit l (n - 12) else if n < 30 then bit k (n - 21)
     else if n < 39 then bit j (n - 30) else if n < 48 then bit i (n - 39) else n < 64)" for n
    using index_bits [OF assms(1), of "n - 39"] index_bits [OF assms(2), of "n - 30"]
      index_bits [OF assms(3), of "n - 21"] index_bits [OF assms(4), of "n - 12"]
    unfolding mv_address_def add_offset add_index [OF assms(1)] add_index [OF assms(2)] add_index [OF assms(3)]
      add_index [OF assms(4)]
    by (simp only: bit_or_iff bit_push_bit_iff bit_ucast_iff bit_low12 bit_FFFF push_bit_push_bit) auto
  show "disassemble_virtual_address (mv_address i j k l phys) = \<lparr>pml4 = i, pdpt = j, pd = k, pt = l\<rparr>"
    using assms unfolding disassemble_virtual_address_def
    by (auto intro!: index_eqI simp: b)
  show "mv_address i j k l phys AND 0xFFF = phys AND 0xFFF"
    by (rule bit_word_eqI) (auto simp: bit_low12 b simp del: bit_and_iff)
  show "drop_bit 48 (mv_address i j k l phys) = 0xFFFF"
    by (rule bit_word_eqI) (auto simp: bit_drop_bit_eq b bit_FFFF simp del: bit_numeral_word_iff dest: bit_imp_le_length)
qed

section \<open>A fresh table\<close>

text \<open>
  \<open>malloc_same\<close> fills a table with \<open>MEMORY_INVALID_RETURN\<close>, which is not 0, the value that
  \<open>map_virtual_address\<close> takes for an empty slot.
\<close>

lemma malloc_same_filled:
  assumes "pool n s" "unat (same_next_free s) < n" "obj_size s = 4096"
  obtains p m where "malloc_same s = (p, s\<lparr>same_next_free := same_next_free s + 1, bytes := m\<rparr>)"
    "\<And>i. i < 512 \<Longrightarrow> entry m p i = MEMORY_INVALID_RETURN"
proof -
  obtain m where m: "malloc_same s = (object s (unat (same_next_free s)),
      s\<lparr>same_next_free := same_next_free s + 1, bytes := m\<rparr>)"
    using malloc_same_step [OF assms(1,2)] by blast
  obtain m0 where m0: "m = memsetLong (object s (unat (same_next_free s))) MEMORY_INVALID_RETURN 4096 m0"
  proof -
    let ?s1 = "find_next_free_same (s\<lparr>bytes := store8 (bytes s) (mem_used s + same_next_free s div 8)
      (load8 (bytes s) (mem_used s + same_next_free s div 8) OR push_bit (unat (same_next_free s mod 8)) 1)\<rparr>)"
    have o: "obj_size ?s1 = 4096" "bytes (snd (malloc_same s)) =
        memsetLong (same_mem s + same_next_free s * obj_size s) MEMORY_INVALID_RETURN (obj_size ?s1) (bytes ?s1)"
      using assms(3) by (simp_all add: find_next_free_same_def malloc_same_def Let_def split: option.split)
    show thesis
      by (rule that [of "bytes ?s1"]) (use o m in \<open>simp add: object_def\<close>)
  qed
  have "entry m (object s (unat (same_next_free s))) i = MEMORY_INVALID_RETURN" if "i < 512" for i
    unfolding entry_def m0 by (rule memsetLong_load) (use that in simp)
  with m show thesis using that by blast
qed

section \<open>The area search\<close>

text \<open>Whether the tables map the page with the given indices, large pages included.\<close>

definition page_mapped :: "mem \<Rightarrow> u64 \<Rightarrow> nat \<Rightarrow> nat \<Rightarrow> nat \<Rightarrow> nat \<Rightarrow> bool" where
  "page_mapped m cr3p i j k l =
     (let t3 = (entry m cr3p i AND FRAME_MASK) + PAGE_VIRT_OFFSET;
          t2 = (entry m t3 j AND FRAME_MASK) + PAGE_VIRT_OFFSET;
          t1 = (entry m t2 k AND FRAME_MASK) + PAGE_VIRT_OFFSET
      in entry m cr3p i AND 1 \<noteq> 0 \<and> entry m t3 j AND 1 \<noteq> 0 \<and>
         (entry m t3 j AND 0x80 \<noteq> 0 \<or>
          entry m t2 k AND 1 \<noteq> 0 \<and> (entry m t2 k AND 0x80 \<noteq> 0 \<or> entry m t1 l AND 1 \<noteq> 0)))"

lemma unat_index: "i < 512 \<Longrightarrow> unat (of_nat i :: u16) = i"
  by (rule unat_of_nat_small) simp

lemma area_pt_found:
  assumes "area_pt m ms tab i j k cur ls = Inl a" "set ls \<subseteq> {..<512}"
  shows "\<exists>l < 512. a = \<lparr>pml4 = of_nat i, pdpt = of_nat j, pd = of_nat k, pt = of_nat l\<rparr> \<and> entry m tab l AND 1 = 0"
  using assms by (induction ls arbitrary: cur) (auto split: if_splits)

lemma area_pd_found:
  assumes "area_pd m ms pts tab i j cur ks = Inl a" "set ks \<subseteq> {..<512}"
  shows "\<exists>k l. k < 512 \<and> l < 512 \<and> a = \<lparr>pml4 = of_nat i, pdpt = of_nat j, pd = of_nat k, pt = of_nat l\<rparr> \<and>
    entry m tab k AND 0x80 = 0 \<and>
    (entry m tab k AND 1 = 0 \<or> entry m ((entry m tab k AND FRAME_MASK) + PAGE_VIRT_OFFSET) l AND 1 = 0)"
  using assms
proof (induction ks arbitrary: cur)
  case (Cons k ks)
  let ?tab = "(entry m tab k AND FRAME_MASK) + PAGE_VIRT_OFFSET"
  have k: "k < 512" using Cons.prems(2) by simp
  show ?case
  proof (cases "\<exists>cur'. area_pd m ms pts tab i j cur' ks = Inl a")
    case True
    then show ?thesis using Cons.IH Cons.prems(2) by auto
  next
    case False
    then have ps: "entry m tab k AND 0x80 = 0"
      using Cons.prems(1) by (auto split: if_splits)
    show ?thesis
    proof (cases "entry m tab k AND 1 = 0 \<and> a = \<lparr>pml4 = of_nat i, pdpt = of_nat j, pd = of_nat k, pt = 0\<rparr>")
      case True
      then show ?thesis using k ps by (intro exI [of _ k] exI [of _ 0]) simp
    next
      case other: False
      then obtain cur' where "area_pt m ms ?tab i j k cur' [pts ..< 512] = Inl a"
        using Cons.prems(1) False ps by (auto simp: Let_def split: if_splits sum.splits)
      then obtain l where "l < 512" "a = \<lparr>pml4 = of_nat i, pdpt = of_nat j, pd = of_nat k, pt = of_nat l\<rparr>"
        "entry m ?tab l AND 1 = 0"
        using area_pt_found [of m ms ?tab i j k cur' "[pts ..< 512]" a] by auto
      then show ?thesis using k ps by blast
    qed
  qed
qed simp

lemma area_pdpt_found:
  assumes "area_pdpt m ms pds pts tab i cur js = Inl a" "set js \<subseteq> {..<512}"
  shows "\<exists>j k l. j < 512 \<and> k < 512 \<and> l < 512 \<and>
    a = \<lparr>pml4 = of_nat i, pdpt = of_nat j, pd = of_nat k, pt = of_nat l\<rparr> \<and> entry m tab j AND 0x80 = 0 \<and>
    (entry m tab j AND 1 = 0 \<or>
     (let t2 = (entry m tab j AND FRAME_MASK) + PAGE_VIRT_OFFSET
      in entry m t2 k AND 0x80 = 0 \<and>
        (entry m t2 k AND 1 = 0 \<or> entry m ((entry m t2 k AND FRAME_MASK) + PAGE_VIRT_OFFSET) l AND 1 = 0)))"
  using assms
proof (induction js arbitrary: cur)
  case (Cons j js)
  let ?tab = "(entry m tab j AND FRAME_MASK) + PAGE_VIRT_OFFSET"
  have j: "j < 512" using Cons.prems(2) by simp
  show ?case
  proof (cases "\<exists>cur'. area_pdpt m ms pds pts tab i cur' js = Inl a")
    case True
    then show ?thesis using Cons.IH Cons.prems(2) by auto
  next
    case False
    then have ps: "entry m tab j AND 0x80 = 0"
      using Cons.prems(1) by (auto split: if_splits)
    show ?thesis
    proof (cases "entry m tab j AND 1 = 0 \<and> a = \<lparr>pml4 = of_nat i, pdpt = of_nat j, pd = 0, pt = 0\<rparr>")
      case True
      then show ?thesis using j ps by (intro exI [of _ j] exI [of _ 0]) simp
    next
      case other: False
      then obtain cur' where "area_pd m ms pts ?tab i j cur' [pds ..< 512] = Inl a"
        using Cons.prems(1) False ps by (auto simp: Let_def split: if_splits sum.splits)
      then show ?thesis
        using area_pd_found [of m ms pts ?tab i j cur' "[pds ..< 512]" a] j ps
        by (auto simp: Let_def)
    qed
  qed
qed simp

lemma area_pml4_found:
  assumes "area_pml4 m ms pdpts pds pts cr3p cur is = Inl a" "set is \<subseteq> {..<512}"
  shows "\<not> page_mapped m cr3p (unat (pml4 a)) (unat (pdpt a)) (unat (pd a)) (unat (pt a))"
  using assms
proof (induction "is" arbitrary: cur)
  case (Cons i "is")
  let ?tab = "(entry m cr3p i AND FRAME_MASK) + PAGE_VIRT_OFFSET"
  have i: "i < 512" using Cons.prems(2) by simp
  show ?case
  proof (cases "\<exists>cur'. area_pml4 m ms pdpts pds pts cr3p cur' is = Inl a")
    case True
    then show ?thesis using Cons.IH Cons.prems(2) by auto
  next
    case False
    show ?thesis
    proof (cases "entry m cr3p i AND 1 = 0 \<and> a = \<lparr>pml4 = of_nat i, pdpt = 0, pd = 0, pt = 0\<rparr>")
      case True
      then show ?thesis using i by (simp add: page_mapped_def Let_def unat_index)
    next
      case other: False
      then obtain cur' where "area_pdpt m ms pds pts ?tab i cur' [pdpts ..< 512] = Inl a"
        using Cons.prems(1) False by (auto simp: Let_def split: if_splits sum.splits)
      then obtain j k l where jkl: "j < 512" "k < 512" "l < 512"
        "a = \<lparr>pml4 = of_nat i, pdpt = of_nat j, pd = of_nat k, pt = of_nat l\<rparr>" "entry m ?tab j AND 0x80 = 0"
        "entry m ?tab j AND 1 = 0 \<or>
         (let t2 = (entry m ?tab j AND FRAME_MASK) + PAGE_VIRT_OFFSET
          in entry m t2 k AND 0x80 = 0 \<and>
            (entry m t2 k AND 1 = 0 \<or> entry m ((entry m t2 k AND FRAME_MASK) + PAGE_VIRT_OFFSET) l AND 1 = 0))"
        using area_pdpt_found [of m ms pds pts ?tab i cur' "[pdpts ..< 512]" a] by auto
      then show ?thesis
        using i by (auto simp: page_mapped_def Let_def unat_index)
    qed
  qed
qed simp

lemma area_top_first:
  assumes "unat cur + 134217728 < 18446744073709551616" "ms \<le> 134217728" "set is \<subseteq> {..<512}"
  shows "area_top m ms cr3p cur is =
    map_option (\<lambda>i. \<lparr>pml4 = of_nat i, pdpt = 0, pd = 0, pt = 0\<rparr>) (find (\<lambda>i. entry m cr3p i AND 1 = 0) is)"
  using assms
proof (induction "is" arbitrary: cur)
  case (Cons i "is")
  have "unat (cur + 134217728) = unat cur + 134217728"
    using Cons.prems(1) by (simp add: unat_u64_add)
  then have "ms \<le> cur + 134217728"
    using Cons.prems(2) by (simp add: word_le_nat_alt)
  with Cons show ?case by simp
qed simp

section \<open>Properties\<close>

text \<open>
  \<open>next_free_pml4\<close> returns the highest PML4 slot, above 0, that has no table, or stops the
  machine with its message when all are taken; the scratch map it builds goes back to the heap,
  and no byte owned by others changes.
\<close>

lemma next_free_pml4_highest:
  assumes "heap_inv lo hi s U" "span (cr3 s + PAGE_VIRT_OFFSET) 4096 \<subseteq> U" "4120 \<le> heap_budget s"
  shows "\<exists>m. heap_inv lo hi (s\<lparr>bytes := m\<rparr>) U \<and> heap_budget (s\<lparr>bytes := m\<rparr>) = heap_budget s \<and>
    (\<forall>x \<in> U. m x = bytes s x) \<and>
    next_free_pml4 s =
      (if \<exists>i. 0 < i \<and> i < 512 \<and> pml4_slot_free s i
       then ret (of_nat (Max {i. 0 < i \<and> i < 512 \<and> pml4_slot_free s i}), s\<lparr>bytes := m\<rparr>)
       else stop (Abort ''Out of pml4 slots for process''))"
proof -
  let ?F = "{i. 0 < i \<and> i < 512 \<and> pml4_slot_free s i}"
  have fin: "finite ?F" by (rule finite_subset [of _ "{..<512}"]) auto
  obtain m where m: "heap_inv lo hi (s\<lparr>bytes := m\<rparr>) U" "heap_budget (s\<lparr>bytes := m\<rparr>) = heap_budget s"
    "\<And>x. x \<in> U \<Longrightarrow> m x = bytes s x"
    "\<And>i. 0 < i \<Longrightarrow> i < 512 \<Longrightarrow> pml4_slot_free s i \<Longrightarrow> (\<And>j. i < j \<Longrightarrow> j < 512 \<Longrightarrow> \<not> pml4_slot_free s j) \<Longrightarrow>
       next_free_pml4 s = ret (of_nat i, s\<lparr>bytes := m\<rparr>)"
    "(\<And>j. 0 < j \<Longrightarrow> j < 512 \<Longrightarrow> \<not> pml4_slot_free s j) \<Longrightarrow>
       next_free_pml4 s = stop (Abort ''Out of pml4 slots for process'')"
    using next_free_pml4_run [OF assms] by metis
  show ?thesis
  proof (cases "?F = {}")
    case True
    then show ?thesis using m by auto
  next
    case False
    define i where "i = Max ?F"
    have i: "i \<in> ?F" unfolding i_def using fin False by (rule Max_in)
    have above: "\<not> pml4_slot_free s j" if "i < j" "j < 512" for j
    proof
      assume "pml4_slot_free s j"
      with that have "j \<in> ?F" by simp
      then have "j \<le> i" unfolding i_def using fin by (intro Max_ge)
      with that(1) show False by simp
    qed
    have "next_free_pml4 s = ret (of_nat i, s\<lparr>bytes := m\<rparr>)"
      by (rule m(4)) (use i above in auto)
    moreover have "\<exists>i. 0 < i \<and> i < 512 \<and> pml4_slot_free s i" using i by blast
    ultimately show ?thesis
      unfolding i_def using m(1-3) by (intro exI [of _ m]) simp
  qed
qed

definition walk_state :: page_map_state where
  "walk_state = \<lparr>bytes = (\<lambda>_. 0), cr3 = 65536 - PAGE_VIRT_OFFSET, console = [], msr = (\<lambda>_. 0), free_mem_next = 0, free_mem_size = 0,
     same_mem = 0, mem_used = 0, mem_used_size = 0, same_next_free = 0, obj_size = 0,
     kernel_virt_offset = 0, mv_pml4 = 5, mv_pdpt = 3, mv_pd = 3, mv_pt = 7\<rparr>"

lemma walk_state_inv: "heap_inv 8192 16192 (init_heap 8192 8000 walk_state) (span 65536 4096)"
proof -
  have nw: "unat (65536 :: u64) + 4096 \<le> 18446744073709551616" by simp
  have "heap_wf 8192 16192 [(8192, 8000)] (init_heap 8192 8000 walk_state)"
    by (simp add: heap_wf_def init_heap_def)
  moreover have "\<not> free_addr [(8192, 8000)] x" if "x \<in> span 65536 4096" for x
    using that unfolding span_no_wrap [OF nw] by (simp add: free_addr_def)
  ultimately show ?thesis
    unfolding heap_inv_def by (intro exI [of _ "[(8192, 8000)]"]) simp
qed

lemma next_free_pml4_highest_example:
  "\<exists>m. next_free_pml4 (init_heap 8192 8000 walk_state) = ret (511, (init_heap 8192 8000 walk_state)\<lparr>bytes := m\<rparr>)"
proof -
  let ?s = "init_heap 8192 8000 walk_state"
  have free: "pml4_slot_free ?s i" if "i < 512" for i
  proof -
    have "entry (bytes ?s) 65536 i = entry (\<lambda>_. 0) 65536 i"
    proof (rule entry_cong [OF that])
      fix x :: u64
      assume x: "x \<in> span 65536 4096"
      have nw: "unat (65536 :: u64) + 4096 \<le> 18446744073709551616" "unat (8200 :: u64) + 8 \<le> 18446744073709551616"
        "unat (8192 :: u64) + 8 \<le> 18446744073709551616" by simp_all
      have "x \<notin> span 8200 8" "x \<notin> span 8192 8"
        using x unfolding span_no_wrap [OF nw(1)] span_no_wrap [OF nw(2)] span_no_wrap [OF nw(3)] by simp_all
      then show "bytes ?s x = 0"
        by (simp add: init_heap_def walk_state_def store64_outside del: mem_span)
    qed
    moreover have "entry (\<lambda>_. 0) 65536 i = 0"
      unfolding entry_def by (rule load64_zero) simp
    moreover have "cr3 ?s + PAGE_VIRT_OFFSET = 65536"
      by (simp add: init_heap_def walk_state_def)
    ultimately show ?thesis by (simp add: pml4_slot_free_def)
  qed
  have "Max {i. 0 < i \<and> i < 512 \<and> pml4_slot_free ?s i} = 511"
  proof (rule Max_eqI)
    show "finite {i. 0 < i \<and> i < 512 \<and> pml4_slot_free ?s i}"
      by (rule finite_subset [of _ "{..<512}"]) auto
  qed (use free in auto)
  moreover have "\<exists>i. 0 < i \<and> i < 512 \<and> pml4_slot_free ?s i"
    using free [of 1] by (intro exI [of _ 1]) simp
  moreover have "span (cr3 ?s + PAGE_VIRT_OFFSET) 4096 \<subseteq> span 65536 4096" "4120 \<le> heap_budget ?s"
    by (simp_all add: init_heap_def walk_state_def heap_budget_def)
  ultimately show ?thesis
    using next_free_pml4_highest [OF walk_state_inv] by auto
qed

text \<open>The table behind a slot, and the page table that the processor reaches with the indices of an address.\<close>

definition table_behind :: "mem \<Rightarrow> u64 \<Rightarrow> u64 \<Rightarrow> u16 \<Rightarrow> u64" where
  "table_behind m offset table i = (entry m table (unat i) + offset) AND FRAME_MASK"

definition walked_table :: "mem \<Rightarrow> u64 \<Rightarrow> u64 \<Rightarrow> Memory_Virtual_Address \<Rightarrow> u64" where
  "walked_table m offset table a =
     table_behind m offset (table_behind m offset (table_behind m offset table (pml4 a)) (pdpt a)) (pd a)"

text \<open>
  C10: mapping a page through tables that are there. \<open>mv_borrow\<close> settles the four indices (lines 38 to 50). When the slots that are
  tested are in use, \<open>map_virtual_address\<close> follows slot \<open>pml4\<close>, then slot \<open>pd\<close> of the second table, where \<open>pdpt\<close> is meant
  (line 68), then slot \<open>pd\<close> of the third, enters the frame with the memory-mapped flags into slot \<open>pt\<close> of the table it reaches,
  changes nothing else and steps to the next slot. The address it returns has the four indices, \<open>pdpt\<close> among them, the offset of the
  physical address, and 16 one bits on top whatever the index, so it is canonical only for an upper \<open>pml4\<close>. Only if the slots
  \<open>pd\<close> and \<open>pdpt\<close> of the second table lead to the same table is it certain that the processor finds the frame at that address.
\<close>

theorem map_virtual_address_maps:
  assumes "mv_borrow s = ret s1" and idx: "mv_pml4 s1 < 512" "mv_pdpt s1 < 512" "mv_pd s1 < 512" "mv_pt s1 < 512"
    and t_pdpt: "entry (bytes s1) (cr3 s1 + PAGE_VIRT_OFFSET) (unat (mv_pml4 s1)) \<noteq> 0"
      "t_pdpt = table_behind (bytes s1) (kernel_virt_offset s1) (cr3 s1 + PAGE_VIRT_OFFSET) (mv_pml4 s1)"
    and t_pd: "entry (bytes s1) t_pdpt (unat (mv_pdpt s1)) \<noteq> 0" "t_pd = table_behind (bytes s1) (kernel_virt_offset s1) t_pdpt (mv_pd s1)"
    and t_pt: "entry (bytes s1) t_pd (unat (mv_pd s1)) \<noteq> 0" "t_pt = table_behind (bytes s1) (kernel_virt_offset s1) t_pd (mv_pd s1)"
  shows "\<exists>v m. map_virtual_address phys s = ret (v, s1\<lparr>bytes := m, mv_pt := mv_pt s1 - 1\<rparr>) \<and>
    entry m t_pt (unat (mv_pt s1)) = (phys AND FRAME_MASK) OR MEMORY_MAPPED_IO_FLAGS \<and>
    (\<forall>x. x \<notin> span (t_pt + 8 * ucast (mv_pt s1)) 8 \<longrightarrow> m x = bytes s1 x) \<and>
    disassemble_virtual_address v = \<lparr>pml4 = mv_pml4 s1, pdpt = mv_pdpt s1, pd = mv_pd s1, pt = mv_pt s1\<rparr> \<and>
    v AND 0xFFF = phys AND 0xFFF \<and> drop_bit 48 v = 0xFFFF \<and>
    (table_behind (bytes s1) (kernel_virt_offset s1) t_pdpt (mv_pdpt s1) = t_pd \<longrightarrow>
      walked_table (bytes s1) (kernel_virt_offset s1) (cr3 s1 + PAGE_VIRT_OFFSET) (disassemble_virtual_address v) = t_pt)"
proof -
  let ?v = "mv_address (mv_pml4 s1) (mv_pdpt s1) (mv_pd s1) (mv_pt s1) phys"
  let ?m = "store64 (bytes s1) (t_pt + 8 * ucast (mv_pt s1)) ((phys AND FRAME_MASK) OR MEMORY_MAPPED_IO_FLAGS)"
  have mask: "(- 4096 :: u64) = FRAME_MASK"
    by (simp add: FRAME_MASK_def)
  note sc = small_index(4) [OF idx(1)] small_index(4) [OF idx(2)] small_index(4) [OF idx(3)] small_index(4) [OF idx(4)]
  have "map_virtual_address phys s = ret (?v, s1\<lparr>bytes := ?m, mv_pt := mv_pt s1 - 1\<rparr>)"
    using mv_enter_present [OF t_pdpt(1), of "mv_pml4 s1"] mv_enter_present [OF t_pd(1), of "mv_pd s1"]
      mv_enter_present [OF t_pt(1), of "mv_pd s1"]
    by (simp add: map_virtual_address_def assms(1) Let_def mv_address_def sc mask t_pdpt(2) [symmetric, unfolded table_behind_def]
        t_pd(2) [symmetric, unfolded table_behind_def] t_pt(2) [symmetric, unfolded table_behind_def])
  moreover have "entry ?m t_pt (unat (mv_pt s1)) = (phys AND FRAME_MASK) OR MEMORY_MAPPED_IO_FLAGS"
    by (simp add: entry_def)
  moreover have "\<forall>x. x \<notin> span (t_pt + 8 * ucast (mv_pt s1)) 8 \<longrightarrow> ?m x = bytes s1 x"
    by (simp add: store64_outside del: mem_span)
  moreover note ind = mv_address_indices [OF idx, where phys = phys]
  moreover have "table_behind (bytes s1) (kernel_virt_offset s1) t_pdpt (mv_pdpt s1) = t_pd \<longrightarrow>
      walked_table (bytes s1) (kernel_virt_offset s1) (cr3 s1 + PAGE_VIRT_OFFSET) (disassemble_virtual_address ?v) = t_pt"
    unfolding ind(1) walked_table_def using t_pdpt(2) t_pt(2) by simp
  ultimately show ?thesis by blast
qed

text \<open>Tables in which the slots 3 and 4 of the second table differ, with 3 for \<open>pdpt\<close> and 4 for \<open>pd\<close>.\<close>

definition mapped_tables :: page_map_state where
  "mapped_tables = walk_state\<lparr>bytes :=
     store64 (store64 (store64 (store64 (\<lambda>_. 0) 0x10028 0x20003) 0x20018 0x50003) 0x20020 0x30003) 0x30020 0x40003, mv_pd := 4\<rparr>"

theorem map_virtual_address_maps_witness:
  "\<exists>v m. map_virtual_address 0xFEC00010 mapped_tables = ret (v, mapped_tables\<lparr>bytes := m, mv_pt := 6\<rparr>) \<and>
     load64 m 0x40038 = 0xFEC0001B"
proof -
  let ?s = mapped_tables
  have idx: "mv_pml4 ?s < 512" "mv_pdpt ?s < 512" "mv_pd ?s < 512" "mv_pt ?s < 512" "mv_pt ?s = 7"
    by (simp_all add: mapped_tables_def walk_state_def)
  have "cr3 ?s + PAGE_VIRT_OFFSET = 0x10000"
    by (simp add: mapped_tables_def walk_state_def)
  then have tables: "entry (bytes ?s) (cr3 ?s + PAGE_VIRT_OFFSET) (unat (mv_pml4 ?s)) \<noteq> 0"
    "0x20000 = table_behind (bytes ?s) (kernel_virt_offset ?s) (cr3 ?s + PAGE_VIRT_OFFSET) (mv_pml4 ?s)"
    "entry (bytes ?s) 0x20000 (unat (mv_pdpt ?s)) \<noteq> 0" "0x30000 = table_behind (bytes ?s) (kernel_virt_offset ?s) 0x20000 (mv_pd ?s)"
    "entry (bytes ?s) 0x30000 (unat (mv_pd ?s)) \<noteq> 0" "0x40000 = table_behind (bytes ?s) (kernel_virt_offset ?s) 0x30000 (mv_pd ?s)"
    by (simp_all add: mapped_tables_def walk_state_def table_behind_def entry_def FRAME_MASK_def)
  from map_virtual_address_maps [OF mv_borrow_none [OF idx(1-4)] idx(1-4) tables, of "0xFEC00010"]
  obtain v m where "map_virtual_address 0xFEC00010 ?s = ret (v, ?s\<lparr>bytes := m, mv_pt := mv_pt ?s - 1\<rparr>)"
    "entry m 0x40000 (unat (mv_pt ?s)) = (0xFEC00010 AND FRAME_MASK) OR MEMORY_MAPPED_IO_FLAGS"
    by blast
  then show ?thesis by (auto simp: idx(5) entry_def FRAME_MASK_def MEMORY_MAPPED_IO_FLAGS_def)
qed

text \<open>
  A table that \<open>map_virtual_address\<close> has just created is not empty to it. After the slot of
  a missing table has been filled, entering any slot of the new table creates nothing: the
  code follows the fill value as if it were a table address, whatever slot is asked for.
\<close>

lemma fresh_table_is_followed:
  assumes "entry (bytes s) table (unat i) = 0" "i < 512" "pool n s" "unat (same_next_free s) < n" "obj_size s = 4096"
    and apart: "span table 4096 \<inter> span (object s (unat (same_next_free s))) 4096 = {}"
  shows "\<exists>p s1. mv_enter table i i s = (p, s1) \<and>
    (\<forall>j k. j < 512 \<longrightarrow> k < 512 \<longrightarrow>
       mv_enter p j k s1 = ((MEMORY_INVALID_RETURN + kernel_virt_offset s) AND FRAME_MASK, s1))"
proof -
  obtain p m where m: "malloc_same s = (p, s\<lparr>same_next_free := same_next_free s + 1, bytes := m\<rparr>)"
    "\<And>i. i < 512 \<Longrightarrow> entry m p i = MEMORY_INVALID_RETURN"
    using malloc_same_filled [OF assms(3-5)] by blast
  have p: "p = object s (unat (same_next_free s))"
    using m(1) malloc_same_step [OF assms(3,4)] by auto
  let ?m2 = "store64 m (table + 8 * ucast i) ((p - kernel_virt_offset s) OR MEMORY_MAPPED_IO_FLAGS)"
  have ui: "unat i < 512" by (rule small_index(1) [OF assms(2)])
  have same: "entry ?m2 p k = MEMORY_INVALID_RETURN" if "k < 512" for k
  proof -
    have "entry ?m2 p k = entry m p k"
    proof (rule entry_cong [OF that])
      fix x
      assume "x \<in> span p 4096"
      then have "x \<notin> span table 4096" using apart p by blast
      then have "x \<notin> span (table + 8 * of_nat (unat i)) 8" using slot_span [OF ui] by blast
      then show "?m2 x = m x"
        by (intro store64_outside) simp
    qed
    then show ?thesis using m(2) [OF that] by simp
  qed
  let ?s1 = "s\<lparr>same_next_free := same_next_free s + 1, bytes := ?m2\<rparr>"
  have "mv_enter table i i s = (p, ?s1)"
    using assms(1) m(1) by (simp add: mv_enter_def)
  moreover have "mv_enter p j k ?s1 = ((MEMORY_INVALID_RETURN + kernel_virt_offset s) AND FRAME_MASK, ?s1)"
    if "j < 512" "k < 512" for j k
    using same [OF small_index(1) [OF that(1)]] same [OF small_index(1) [OF that(2)]]
    by (subst mv_enter_present) (simp_all add: MEMORY_INVALID_RETURN_def)
  ultimately show ?thesis by blast
qed

definition fresh_pool :: page_map_state where
  "fresh_pool = walk_state\<lparr>same_mem := 0x100000, mem_used := 0x200000, mem_used_size := 4, obj_size := 4096\<rparr>"

lemma fresh_table_is_followed_example:
  "\<exists>p s1. mv_enter 0x10000 511 511 fresh_pool = (p, s1) \<and> mv_enter p 511 511 s1 = (MEMORY_INVALID_RETURN, s1)"
proof -
  have nw: "unat (0x100000 :: u64) + 16384 \<le> 18446744073709551616" "unat (0x200000 :: u64) + 4 \<le> 18446744073709551616"
    "unat (0x10000 :: u64) + 4096 \<le> 18446744073709551616" "unat (0x100000 :: u64) + 4096 \<le> 18446744073709551616" by simp_all
  have "pool 4 fresh_pool"
    by (simp add: pool_def clear_above_def fresh_pool_def walk_state_def load8_def set_eq_iff
        span_no_wrap [OF nw(1)] span_no_wrap [OF nw(2)] del: mem_span)
  moreover have "entry (bytes fresh_pool) 0x10000 (unat (511 :: u16)) = 0"
    unfolding entry_def by (rule load64_zero) (simp add: fresh_pool_def walk_state_def)
  moreover have "span 0x10000 4096 \<inter> span (object fresh_pool (unat (same_next_free fresh_pool))) 4096 = {}"
    by (simp add: object_def fresh_pool_def walk_state_def set_eq_iff
        span_no_wrap [OF nw(3)] span_no_wrap [OF nw(4)] del: mem_span)
  ultimately have "\<exists>p s1. mv_enter 0x10000 511 511 fresh_pool = (p, s1) \<and>
    (\<forall>j k. j < 512 \<longrightarrow> k < 512 \<longrightarrow>
       mv_enter p j k s1 = ((MEMORY_INVALID_RETURN + kernel_virt_offset fresh_pool) AND FRAME_MASK, s1))"
    by (intro fresh_table_is_followed [where n = 4]) (simp_all add: fresh_pool_def walk_state_def)
  then show ?thesis
    by (auto simp: fresh_pool_def walk_state_def MEMORY_INVALID_RETURN_def FRAME_MASK_def)
qed

text \<open>
  The search at depth 1, which the boot code uses, returns the first PML4 slot from its
  start on whose present bit is clear, whatever the uninitialised size counter holds, as long
  as counting does not wrap; otherwise it stops with the message of the unsupported depths.
\<close>

lemma find_area_depth1:
  assumes "unat uninit + 134217728 < 18446744073709551616" "min_size \<le> 134217728"
  shows "find_next_free_page_area 1 min_size start j k l uninit s =
    (case find (\<lambda>i. entry (bytes s) (cr3 s + PAGE_VIRT_OFFSET) i AND 1 = 0) [unat start ..< 512] of
       Some i \<Rightarrow> ret \<lparr>pml4 = of_nat i, pdpt = 0, pd = 0, pt = 0\<rparr>
     | None \<Rightarrow> stop (Abort (''Only page finding level 4 currently supported'' @ [CHR 0x0A])))"
  using area_top_first [OF assms, of "[unat start ..< 512]"]
  by (simp add: find_next_free_page_area_def Let_def split: option.split)

lemma entry_zero: "entry (\<lambda>_. 0) table i = 0"
  unfolding entry_def by (rule load64_zero) simp

lemma find_area_depth1_example:
  "find_next_free_page_area 1 32 256 0 0 0 7 walk_state = ret \<lparr>pml4 = 256, pdpt = 0, pd = 0, pt = 0\<rparr>"
proof -
  have "[256 ..< 512] = 256 # [257 ..< 512]"
    by (subst upt_conv_Cons) simp_all
  then show ?thesis
    using find_area_depth1 [of 7 32 256 0 0 0 walk_state] by (simp add: walk_state_def entry_zero)
qed

text \<open>
  The uninitialised counter is read. On the same tables the search returns slot 256 for one
  initial value of \<open>current_size\<close> and slot 257 for another, although both are free.
\<close>

lemma uninitialised_size_matters:
  "find_next_free_page_area 1 32 256 0 0 0 0 walk_state = ret \<lparr>pml4 = 256, pdpt = 0, pd = 0, pt = 0\<rparr> \<and>
   find_next_free_page_area 1 32 256 0 0 0 (- 134217728) walk_state = ret \<lparr>pml4 = 257, pdpt = 0, pd = 0, pt = 0\<rparr>"
proof -
  have "[256 ..< 512] = 256 # 257 # [258 ..< 512]"
    by (subst upt_conv_Cons, simp, subst upt_conv_Cons) simp_all
  then show ?thesis
    by (simp add: find_next_free_page_area_def walk_state_def entry_zero)
qed

text \<open>
  C20: the search at depth 4 never returns a mapped page: on any tables, with any start
  indices and any value in the uninitialised counter, the page it names is not mapped, by a
  small or by a large page, unless it reports that there is none.
\<close>

theorem find_area_unmapped:
  assumes "find_next_free_page_area 4 min_size i j k l uninit s = ret a"
  shows "a = \<lparr>pml4 = -1, pdpt = -1, pd = -1, pt = -1\<rparr> \<or>
    \<not> page_mapped (bytes s) (cr3 s + PAGE_VIRT_OFFSET) (unat (pml4 a)) (unat (pdpt a)) (unat (pd a)) (unat (pt a))"
proof (cases "area_pml4 (bytes s) min_size (unat j) (unat k) (unat l) (cr3 s + PAGE_VIRT_OFFSET) uninit [unat i ..< 512]")
  case (Inl b)
  then have "a = b" using assms by (simp add: find_next_free_page_area_def Let_def)
  then show ?thesis using area_pml4_found [OF Inl] by simp
next
  case (Inr cur)
  then show ?thesis using assms by (simp add: find_next_free_page_area_def Let_def)
qed

theorem find_area_unmapped_witness:
  "\<not> page_mapped (bytes walk_state) (cr3 walk_state + PAGE_VIRT_OFFSET) 256 0 0 0"
proof -
  have "[256 ..< 512] = 256 # [257 ..< 512]"
    by (subst upt_conv_Cons) simp_all
  then have "find_next_free_page_area 4 1 256 0 0 0 0 walk_state = ret \<lparr>pml4 = 256, pdpt = 0, pd = 0, pt = 0\<rparr>"
    by (simp add: find_next_free_page_area_def walk_state_def entry_zero Let_def)
  from find_area_unmapped [OF this] show ?thesis by simp
qed

end
