(* ===== verification/Acpi.thy ===== *)
theory Acpi
  imports Page_Walk
begin

text \<open>
  The ACPI tables of \<open>kernel/arch/x86_64/RSDP.c\<close>: the checksum of the root pointer, the search for a table
  by its signature, and the parser of the interrupt controller table (MADT). The tables lie in byte memory, at
  their physical addresses plus \<open>PAGE_VIRT_OFFSET\<close>. The theory shows what the checksum accepts, that
  the search is a search through the list of table addresses, that the parser reads back tables whose fields
  are aligned, and what it reads where they are not.
\<close>

section \<open>State and layouts\<close>

record acpi_state = page_map_state +
  rootRSDT :: u64

text \<open>\<open>struct ACPISDTHeader\<close> has 36 bytes, the signature first and the length at offset 4.\<close>

definition table_length :: "mem \<Rightarrow> u64 \<Rightarrow> u32" where "table_length m t = load32 m (t + 4)"
definition rsdt_entry :: "mem \<Rightarrow> u64 \<Rightarrow> u32 \<Rightarrow> u32" where "rsdt_entry m t i = load32 m (t + 36 + 4 * ucast i)"
definition RsdtAddress :: "mem \<Rightarrow> u64 \<Rightarrow> u32" where "RsdtAddress m p = load32 m (p + 16)"

section \<open>The root pointer\<close>

definition setRSDT :: "u64 \<Rightarrow> 'a acpi_state_scheme \<Rightarrow> 'a acpi_state_scheme" where
  "setRSDT rsdt_n s = s\<lparr>rootRSDT := rsdt_n + PAGE_VIRT_OFFSET\<rparr>"

primrec checksum_loop :: "nat \<Rightarrow> mem \<Rightarrow> u64 \<Rightarrow> u8" where
  "checksum_loop 0 m p = 0"
| "checksum_loop (Suc i) m p = checksum_loop i m p + load8 m (p + of_nat i)"

definition setXSDP :: "u64 \<Rightarrow> 'a acpi_state_scheme \<Rightarrow> 'a acpi_state_scheme run" where
  "setXSDP xsdp s =
     (if checksum_loop 20 (bytes s) xsdp \<noteq> 0 then stop Hcf
      else ret (setRSDT (ucast (RsdtAddress (bytes s) xsdp)) s))"

section \<open>Finding a table\<close>

text \<open>
  The number of entries is computed in \<open>size_t\<close> and converted to \<open>int\<close>. The four search routines
  differ in the signature only, a literal whose address is the first parameter.
\<close>

definition rsdt_entries :: "mem \<Rightarrow> u64 \<Rightarrow> u32" where
  "rsdt_entries m rsdt = ucast ((ucast (table_length m rsdt) - 36 :: u64) div 4)"

definition table_at :: "mem \<Rightarrow> u64 \<Rightarrow> nat \<Rightarrow> u64" where
  "table_at m rsdt i = ucast (rsdt_entry m rsdt (of_nat i)) + PAGE_VIRT_OFFSET"

primrec find_loop :: "mem \<Rightarrow> u64 \<Rightarrow> u64 \<Rightarrow> nat list \<Rightarrow> u64" where
  "find_loop m literal rsdt [] = 0"
| "find_loop m literal rsdt (i # is) =
     (let h = table_at m rsdt i in if memcmp m h literal 4 = 0 then h else find_loop m literal rsdt is)"

definition find_table :: "u64 \<Rightarrow> 'a acpi_state_scheme \<Rightarrow> u64" where
  "find_table literal s =
     find_loop (bytes s) literal (rootRSDT s) [0..<nat (sint (rsdt_entries (bytes s) (rootRSDT s)))]"

definition getPCIe :: "u64 \<Rightarrow> 'a acpi_state_scheme \<Rightarrow> u64" where "getPCIe mcfg_literal s = find_table mcfg_literal s"
definition find_HPET :: "u64 \<Rightarrow> 'a acpi_state_scheme \<Rightarrow> u64" where "find_HPET hpet_literal s = find_table hpet_literal s"
definition find_FADT :: "u64 \<Rightarrow> 'a acpi_state_scheme \<Rightarrow> u64" where "find_FADT facp_literal s = find_table facp_literal s"
definition getMADT :: "u64 \<Rightarrow> 'a acpi_state_scheme \<Rightarrow> u64" where "getMADT apic_literal s = find_table apic_literal s"

section \<open>The interrupt controller table\<close>

record Parsed_MADT =
  lapic_addr :: u64
  flags :: u32
  APIC_P_ID :: u8
  APIC_ID :: u8
  P_FLAGS :: u32
  IOAPIC_ID :: u8
  IOAPIC_addr :: u32
  GSI_base :: u32
  bus_src :: u8
  irq_source :: u8
  gsi :: u32
  IO_Flags :: u16
  nmi_src :: u8
  nmi_flags :: u16
  nmi_gsi :: u32
  LAPIC_P_ID :: u8
  LAPIC_flags :: u16
  LINT :: u8
  x2LAPIC_ID :: u32
  x2APIC_FLAGS :: u32
  ACPI_ID :: u32

definition no_madt :: Parsed_MADT where
  "no_madt =
     \<lparr>lapic_addr = 0, flags = 0, APIC_P_ID = 0, APIC_ID = 0, P_FLAGS = 0, IOAPIC_ID = 0, IOAPIC_addr = 0, GSI_base = 0,
      bus_src = 0, irq_source = 0, gsi = 0, IO_Flags = 0, nmi_src = 0, nmi_flags = 0, nmi_gsi = 0, LAPIC_P_ID = 0,
      LAPIC_flags = 0, LINT = 0, x2LAPIC_ID = 0, x2APIC_FLAGS = 0, ACPI_ID = 0\<rparr>"

text \<open>
  The parser indexes the table as an array of bytes, half words, words or double words: the byte offset is
  divided by the size of the element, so an offset that is not a multiple of it is rounded down.
\<close>

definition elem8 :: "mem \<Rightarrow> u64 \<Rightarrow> u32 \<Rightarrow> u8" where "elem8 m b p = load8 m (b + ucast p)"
definition elem16 :: "mem \<Rightarrow> u64 \<Rightarrow> u32 \<Rightarrow> u16" where "elem16 m b p = load16 m (b + 2 * (ucast p div 2))"
definition elem32 :: "mem \<Rightarrow> u64 \<Rightarrow> u32 \<Rightarrow> u32" where "elem32 m b p = load32 m (b + 4 * (ucast p div 4))"
definition elem64 :: "mem \<Rightarrow> u64 \<Rightarrow> u32 \<Rightarrow> u64" where "elem64 m b p = load64 m (b + 8 * (ucast p div 8))"

text \<open>
  The \<open>switch\<close>: \<open>p\<close> is \<open>parsed_bytes\<close> after the type and the length byte of an entry; the result is the
  record and the offset behind the fields that were read. The selector is a signed \<open>char\<close>.
\<close>

definition madt_entry :: "mem \<Rightarrow> u64 \<Rightarrow> u32 \<Rightarrow> Parsed_MADT \<Rightarrow> (Parsed_MADT \<times> u32) option" where
  "madt_entry m b p r =
     (let kind = sint (elem8 m b (p - 2)) in
      if kind = 0 then
        Some (r\<lparr>APIC_P_ID := elem8 m b p, APIC_ID := elem8 m b (p + 1), flags := elem32 m b (p + 2)\<rparr>, p + 6)
      else if kind = 1 then
        Some (r\<lparr>IOAPIC_ID := elem8 m b p, IOAPIC_addr := elem32 m b (p + 2), GSI_base := elem32 m b (p + 6)\<rparr>, p + 10)
      else if kind = 2 then
        Some (r\<lparr>bus_src := elem8 m b p, irq_source := elem8 m b (p + 1), gsi := elem32 m b (p + 2), IO_Flags := elem16 m b (p + 6)\<rparr>, p + 8)
      else if kind = 3 then
        Some (r\<lparr>nmi_src := elem8 m b p, nmi_flags := elem16 m b (p + 2), nmi_gsi := elem32 m b (p + 4)\<rparr>, p + 8)
      else if kind = 4 then
        Some (r\<lparr>LAPIC_P_ID := elem8 m b p, LAPIC_flags := elem16 m b (p + 1), LINT := elem8 m b (p + 3)\<rparr>, p + 4)
      else if kind = 5 then
        Some (r\<lparr>lapic_addr := elem64 m b (p + 2)\<rparr>, p + 10)
      else if kind = 9 then
        Some (r\<lparr>x2LAPIC_ID := elem32 m b (p + 2), x2APIC_FLAGS := elem32 m b (p + 6), ACPI_ID := elem32 m b (p + 10)\<rparr>, p + 14)
      else None)"

partial_function (option) madt_loop :: "mem \<Rightarrow> u64 \<Rightarrow> u32 \<Rightarrow> Parsed_MADT \<Rightarrow> (halt + Parsed_MADT) option" where
  "madt_loop m b p r =
     (if p < table_length m b then
        (case madt_entry m b (p + 2) r of
           None \<Rightarrow> stop Hcf
         | Some (r', p') \<Rightarrow> madt_loop m b p' r')
      else ret r)"

definition parsed_madt :: "u64 \<Rightarrow> 'a acpi_state_scheme \<Rightarrow> Parsed_MADT run" where
  "parsed_madt apic_literal s =
     (let madt = getMADT apic_literal s; m = bytes s
      in if madt = 0 then stop Hcf
         else madt_loop m madt 44 (no_madt\<lparr>lapic_addr := ucast (elem32 m madt 36), flags := elem32 m madt 40\<rparr>))"

section \<open>The checksum and the search\<close>

lemma checksum_loop_sum: "checksum_loop n m p = of_nat (\<Sum>i<n. unat (load8 m (p + of_nat i)))"
  by (induction n) simp_all

lemma find_loop_find:
  "find_loop m literal rsdt is =
     (case find (\<lambda>i. memcmp m (table_at m rsdt i) literal 4 = 0) is of None \<Rightarrow> 0 | Some i \<Rightarrow> table_at m rsdt i)"
  by (induction "is") (simp_all add: Let_def)

text \<open>The number of entries of a table of \<open>n\<close> entries.\<close>

lemma rsdt_entries_count:
  assumes "unat (table_length m rsdt) = 36 + 4 * n" "n < 536870912"
  shows "nat (sint (rsdt_entries m rsdt)) = n"
proof -
  have "table_length m rsdt = of_nat (36 + 4 * n)" using assms(1) by (metis of_nat_unat ucast_id)
  then have "(ucast (table_length m rsdt) :: u64) = of_nat (36 + 4 * n)"
    using assms(2) by (simp only:) (simp add: word_eq_iff_unat unsigned_ucast_eq unat_of_nat_small take_bit_nat_eq_self del: of_nat_add of_nat_mult)
  then have "(ucast (table_length m rsdt) - 36 :: u64) = of_nat (4 * n)" by simp
  then have "(ucast (table_length m rsdt) - 36 :: u64) div 4 = of_nat n"
    using assms(2) by (simp only:) (simp add: word_eq_iff_unat unat_div unat_of_nat_u64 del: of_nat_mult)
  then have "rsdt_entries m rsdt = of_nat n"
    by (simp add: rsdt_entries_def) (rule bit_word_eqI, auto simp: bit_simps)
  moreover have "sint (of_nat n :: u32) = int n"
    using assms(2) by (subst signed_of_nat) (simp add: signed_take_bit_int_eq_self)
  ultimately show ?thesis by simp
qed

section \<open>Tables as the parser expects them\<close>

text \<open>The entries whose fields are aligned, with the bytes of the ACPI specification, and what they mean.\<close>

datatype madt_item =
    Local_APIC u8 u8 u32
  | IO_APIC u8 u32 u32
  | X2_APIC u32 u32 u32

definition le32 :: "u32 \<Rightarrow> u8 list" where
  "le32 w = [ucast w, ucast (drop_bit 8 w), ucast (drop_bit 16 w), ucast (drop_bit 24 w)]"

fun item_bytes :: "madt_item \<Rightarrow> u8 list" where
  "item_bytes (Local_APIC processor apic fl) = [0, 8, processor, apic] @ le32 fl"
| "item_bytes (IO_APIC ident addr base) = [1, 12, ident, 0] @ le32 addr @ le32 base"
| "item_bytes (X2_APIC ident fl processor) = [9, 16, 0, 0] @ le32 ident @ le32 fl @ le32 processor"

fun item_apply :: "madt_item \<Rightarrow> Parsed_MADT \<Rightarrow> Parsed_MADT" where
  "item_apply (Local_APIC processor apic fl) r = r\<lparr>APIC_P_ID := processor, APIC_ID := apic, flags := fl\<rparr>"
| "item_apply (IO_APIC ident addr base) r = r\<lparr>IOAPIC_ID := ident, IOAPIC_addr := addr, GSI_base := base\<rparr>"
| "item_apply (X2_APIC ident fl processor) r = r\<lparr>x2LAPIC_ID := ident, x2APIC_FLAGS := fl, ACPI_ID := processor\<rparr>"

primrec bytes_at :: "mem \<Rightarrow> u64 \<Rightarrow> u8 list \<Rightarrow> bool" where
  "bytes_at m p [] \<longleftrightarrow> True"
| "bytes_at m p (c # cs) \<longleftrightarrow> load8 m p = c \<and> bytes_at m (p + 1) cs"

lemma bytes_at_append: "bytes_at m p (xs @ ys) \<longleftrightarrow> bytes_at m p xs \<and> bytes_at m (p + of_nat (length xs)) ys"
  by (induction xs arbitrary: p) (auto simp: add.assoc)

lemma load32_le32:
  assumes "bytes_at m p (le32 w)"
  shows "load32 m p = w"
proof (rule load32_bytes)
  fix i :: nat
  assume "i < 4"
  then have "i \<in> {0, 1, 2, 3}" by auto
  then show "m (p + of_nat i) = ucast (drop_bit (8 * i) w)"
    using assms by (auto simp: le32_def load8_def add.assoc)
qed

lemma ucast_offset: "n < 4294967296 \<Longrightarrow> (ucast (of_nat n :: u32) :: u64) = of_nat n"
  by (simp add: word_eq_iff_unat unsigned_ucast_eq unat_of_nat_small take_bit_nat_eq_self)

lemma elem8_at: "n < 4294967296 \<Longrightarrow> elem8 m b (of_nat n) = load8 m (b + of_nat n)"
  by (simp add: elem8_def ucast_offset)

lemma elem32_at:
  assumes "n < 4294967296"
  shows "elem32 m b (of_nat n) = load32 m (b + of_nat (4 * (n div 4)))"
proof -
  have "(of_nat n :: u64) div 4 = of_nat (n div 4)"
    using assms by (simp add: word_eq_iff_unat unat_div unat_of_nat_u64)
  then show ?thesis using assms by (simp add: elem32_def ucast_offset)
qed

lemma elem16_at:
  assumes "n < 4294967296"
  shows "elem16 m b (of_nat n) = load16 m (b + of_nat (2 * (n div 2)))"
proof -
  have "(of_nat n :: u64) div 2 = of_nat (n div 2)"
    using assms by (simp add: word_eq_iff_unat unat_div unat_of_nat_u64)
  then show ?thesis using assms by (simp add: elem16_def ucast_offset)
qed

lemma elem32_aligned: "n < 4294967296 \<Longrightarrow> 4 dvd n \<Longrightarrow> elem32 m b (of_nat n) = load32 m (b + of_nat n)"
  by (simp add: elem32_at dvd_mult_div_cancel del: of_nat_mult)

lemma length_le32 [simp]: "length (le32 w) = 4"
  by (simp add: le32_def)

lemma item_length_cases: "length (item_bytes it) \<in> {8, 12, 16}"
  by (cases it) simp_all

lemma item_length: "4 dvd length (item_bytes it)" "8 \<le> length (item_bytes it)"
  using item_length_cases [of it] by auto

text \<open>One entry.\<close>

lemma madt_entry_item:
  assumes at: "bytes_at m (b + of_nat n) (item_bytes it)" and n: "4 dvd n" "n + length (item_bytes it) < 4294967296"
  shows "madt_entry m b (of_nat n + 2) r = Some (item_apply it r, of_nat (n + length (item_bytes it)))"
proof -
  have e8: "elem8 m b (of_nat n + 2) = load8 m (b + (of_nat n + 2))" "elem8 m b (of_nat n + 3) = load8 m (b + (of_nat n + 3))"
    "elem8 m b (of_nat n) = load8 m (b + of_nat n)"
    using elem8_at [of "n + 2" m b] elem8_at [of "n + 3" m b] elem8_at [of n m b] n item_length(2) [of it]
    by (simp_all add: add.commute [of 2])
  have e32: "elem32 m b (of_nat n + 4) = load32 m (b + (of_nat n + 4))"
    using elem32_aligned [of "n + 4" m b] n item_length(2) [of it] by simp
  show ?thesis
  proof (cases it)
    case (Local_APIC processor apic fl)
    then have "bytes_at m (b + of_nat n) ([0, 8, processor, apic] @ le32 fl)" using at by simp
    then have "load8 m (b + of_nat n) = 0" "load8 m (b + (of_nat n + 2)) = processor" "load8 m (b + (of_nat n + 3)) = apic"
      "load32 m (b + (of_nat n + 4)) = fl"
      unfolding bytes_at_append by (auto intro!: load32_le32 simp: algebra_simps)
    then show ?thesis by (simp add: madt_entry_def e8 e32 Local_APIC add.commute [of _ "of_nat n"])
  next
    case (IO_APIC ident addr base)
    then have "bytes_at m (b + of_nat n) ([1, 12, ident, 0] @ le32 addr @ le32 base)" using at by simp
    then have "load8 m (b + of_nat n) = 1" "load8 m (b + (of_nat n + 2)) = ident"
      "load32 m (b + (of_nat n + 4)) = addr" "load32 m (b + (of_nat n + 8)) = base"
      unfolding bytes_at_append by (auto intro!: load32_le32 simp: algebra_simps)
    moreover have "elem32 m b (of_nat n + 8) = load32 m (b + (of_nat n + 8))"
      using elem32_aligned [of "n + 8" m b] n IO_APIC by simp
    ultimately show ?thesis by (simp add: madt_entry_def e8 e32 IO_APIC add.commute [of _ "of_nat n"])
  next
    case (X2_APIC ident fl processor)
    then have "bytes_at m (b + of_nat n) ([9, 16, 0, 0] @ le32 ident @ le32 fl @ le32 processor)" using at by simp
    then have "load8 m (b + of_nat n) = 9" "load32 m (b + (of_nat n + 4)) = ident"
      "load32 m (b + (of_nat n + 8)) = fl" "load32 m (b + (of_nat n + 12)) = processor"
      unfolding bytes_at_append by (auto intro!: load32_le32 simp: algebra_simps)
    moreover have "elem32 m b (of_nat n + 8) = load32 m (b + (of_nat n + 8))" "elem32 m b (of_nat n + 12) = load32 m (b + (of_nat n + 12))"
      using elem32_aligned [of "n + 8" m b] elem32_aligned [of "n + 12" m b] n X2_APIC by simp_all
    ultimately show ?thesis by (simp add: madt_entry_def e8 e32 X2_APIC add.commute [of _ "of_nat n"])
  qed
qed

lemma madt_loop_items:
  "\<lbrakk>bytes_at m (b + of_nat n) (concat (map item_bytes items)); 4 dvd n;
    unat (table_length m b) = n + length (concat (map item_bytes items))\<rbrakk> \<Longrightarrow>
   madt_loop m b (of_nat n) r = ret (fold item_apply items r)"
proof (induction items arbitrary: n r)
  case Nil
  then have "\<not> of_nat n < table_length m b" 
    using unat_lt_2p [of "table_length m b"] by (simp add: word_less_nat_alt unat_of_nat_small)
  then show ?case by (subst madt_loop.simps) simp
next
  case (Cons it items)
  let ?k = "length (item_bytes it)"
  have at: "bytes_at m (b + of_nat n) (item_bytes it)" "bytes_at m (b + of_nat (n + ?k)) (concat (map item_bytes items))"
    using Cons.prems(1) by (simp_all add: bytes_at_append add.assoc)
  have len: "unat (table_length m b) = n + ?k + length (concat (map item_bytes items))"
    using Cons.prems(3) by simp
  have lt: "n + ?k < 4294967296" "n < unat (table_length m b)"
    using len unat_lt_2p [of "table_length m b"] item_length(2) [of it] by auto
  have "of_nat n < table_length m b"
    using lt by (simp add: word_less_nat_alt unat_of_nat_small)
  moreover have "madt_entry m b (of_nat n + 2) r = Some (item_apply it r, of_nat (n + ?k))"
    by (rule madt_entry_item [OF at(1) Cons.prems(2) lt(1)])
  ultimately have "madt_loop m b (of_nat n) r = madt_loop m b (of_nat (n + ?k)) (item_apply it r)"
    by (subst madt_loop.simps) (simp only: if_True option.case prod.case)
  moreover have "madt_loop m b (of_nat (n + ?k)) (item_apply it r) = ret (fold item_apply items (item_apply it r))"
    using Cons.prems(2) item_length(1) [of it] by (intro Cons.IH at(2) len) simp
  ultimately show ?case by (simp only: fold.simps comp_apply)
qed

text \<open>
  An interrupt source override at an offset that is not a multiple of four, such as the second of two in a row:
  the interrupt number is read two bytes too early, so it consists of the bus, the source and its own lower half.
\<close>

lemma override_misread:
  assumes at: "bytes_at m (b + of_nat n) ([2, 10, bus, irq] @ le32 g @ [ucast fl, ucast (drop_bit 8 fl)])"
    and n: "n mod 4 = 2" "n + 10 < 4294967296"
  shows "madt_entry m b (of_nat n + 2) r =
    Some (r\<lparr>bus_src := bus, irq_source := irq, gsi := ucast bus OR push_bit 8 (ucast irq) OR push_bit 16 g, IO_Flags := fl\<rparr>, of_nat n + 10)"
proof -
  let ?W = "ucast bus OR push_bit 8 (ucast irq) OR push_bit 16 g :: u32"
  have b: "load8 m (b + of_nat n) = 2" "load8 m (b + (of_nat n + 2)) = bus" "load8 m (b + (of_nat n + 3)) = irq"
    "load8 m (b + (of_nat n + 4)) = ucast g" "load8 m (b + (of_nat n + 5)) = ucast (drop_bit 8 g)"
    "load8 m (b + (of_nat n + 8)) = ucast fl" "load8 m (b + (of_nat n + 9)) = ucast (drop_bit 8 fl)"
    using at unfolding bytes_at_append by (auto simp: algebra_simps le32_def)
  have w: "ucast ?W = bus" "ucast (drop_bit 8 ?W) = irq" "ucast (drop_bit 16 ?W) = (ucast g :: u8)"
    "ucast (drop_bit 24 ?W) = (ucast (drop_bit 8 g) :: u8)"
    by (rule bit_word_eqI, auto simp: bit_simps dest: bit_masked_high)+
  have "load32 m (b + (of_nat n + 2)) = ?W"
  proof (rule load32_bytes)
    fix i :: nat
    assume "i < 4"
    then have "i \<in> {0, 1, 2, 3}" by auto
    then show "m (b + (of_nat n + 2) + of_nat i) = ucast (drop_bit (8 * i) ?W)"
      using b w by (auto simp: load8_def algebra_simps)
  qed
  moreover have "4 * ((n + 4) div 4) = n + 2" using n(1) by presburger
  ultimately have g: "elem32 m b (of_nat n + 4) = ?W"
    using elem32_at [of "n + 4" m b] n(2) by (simp add: add.commute [of 2])
  have "load16 m (b + (of_nat n + 8)) = fl"
  proof -
    have "load8 m (b + (of_nat n + 8) + 1) = ucast (drop_bit 8 fl)" using b by (simp add: add.assoc)
    moreover have "ucast (ucast fl :: u8) OR push_bit 8 (ucast (ucast (drop_bit 8 fl) :: u8)) = fl"
      by (rule bit_word_eqI) (auto simp: bit_simps)
    ultimately show ?thesis unfolding load16_bytes using b(6) by (simp only:)
  qed
  moreover have "2 * ((n + 8) div 2) = n + 8" using n(1) by presburger
  ultimately have f: "elem16 m b (of_nat n + 8) = fl"
    using elem16_at [of "n + 8" m b] n(2) by simp
  have e8: "elem8 m b (of_nat n) = load8 m (b + of_nat n)" "elem8 m b (of_nat n + 2) = load8 m (b + (of_nat n + 2))"
    "elem8 m b (of_nat n + 3) = load8 m (b + (of_nat n + 3))"
    using elem8_at [of n m b] elem8_at [of "n + 2" m b] elem8_at [of "n + 3" m b] n(2) by (simp_all add: add.commute [of 2])
  show ?thesis
    using b g f e8 by (simp add: madt_entry_def add.commute [of _ "of_nat n"])
qed

text \<open>A root table with one entry, an interrupt controller table, and the literal.\<close>

definition demo_madt :: "u8 list" where
  "demo_madt =
     [82, 83, 68, 84] @ le32 40 @ replicate 28 0 @ le32 40 @
     [65, 80, 73, 67] @ le32 64 @ replicate 28 0 @ le32 0xFEE00000 @ le32 1 @
     item_bytes (Local_APIC 0 3 1) @ item_bytes (IO_APIC 2 0xFEC00000 0) @ [65, 80, 73, 67]"

definition demo_acpi :: acpi_state where
  "demo_acpi =
     \<lparr>bytes = \<lambda>a. if unat (a - PAGE_VIRT_OFFSET) < 108 then demo_madt ! unat (a - PAGE_VIRT_OFFSET) else 0,
      cr3 = 0, console = [], msr = \<lambda>_. 0, free_mem_next = 0, free_mem_size = 0, same_mem = 0, mem_used = 0, mem_used_size = 0,
      same_next_free = 0, obj_size = 0, kernel_virt_offset = 0, mv_pml4 = 0, mv_pdpt = 0, mv_pd = 0, mv_pt = 0, rootRSDT = PAGE_VIRT_OFFSET\<rparr>"

lemma demo_bytes:
  assumes "k + length bs \<le> 108" "take (length bs) (drop k demo_madt) = bs"
  shows "bytes_at (bytes demo_acpi) (PAGE_VIRT_OFFSET + of_nat k) bs"
proof -
  have len: "length demo_madt = 108" by (simp add: demo_madt_def)
  have "bytes_at (bytes demo_acpi) (PAGE_VIRT_OFFSET + of_nat j) (take n (drop j demo_madt))" if "j + n \<le> 108" for j n
    using that
  proof (induction n arbitrary: j)
    case (Suc n)
    have "load8 (bytes demo_acpi) (PAGE_VIRT_OFFSET + of_nat j) = demo_madt ! j"
      using Suc.prems by (simp add: demo_acpi_def load8_def unat_of_nat_u64)
    moreover have "take (Suc n) (drop j demo_madt) = demo_madt ! j # take n (drop (Suc j) demo_madt)"
      using Suc.prems len by (simp add: Cons_nth_drop_Suc [symmetric])
    ultimately show ?case using Suc.IH [of "Suc j"] Suc.prems by (simp add: add.assoc add.commute [of 1])
  qed simp
  from this [of k "length bs"] assms show ?thesis by simp
qed

lemma demo_at:
  "bytes_at (bytes demo_acpi) (PAGE_VIRT_OFFSET + 4) (le32 40)" "bytes_at (bytes demo_acpi) (PAGE_VIRT_OFFSET + 36) (le32 40)"
  "bytes_at (bytes demo_acpi) (PAGE_VIRT_OFFSET + 40) [65, 80, 73, 67]" "bytes_at (bytes demo_acpi) (PAGE_VIRT_OFFSET + 104) [65, 80, 73, 67]"
  "bytes_at (bytes demo_acpi) (PAGE_VIRT_OFFSET + 44) (le32 64)"
  "bytes_at (bytes demo_acpi) (PAGE_VIRT_OFFSET + 76) (le32 0xFEE00000 @ le32 1 @ concat (map item_bytes [Local_APIC 0 3 1, IO_APIC 2 0xFEC00000 0]))"
  using demo_bytes [of 4 "le32 40"] demo_bytes [of 36 "le32 40"] demo_bytes [of 40 "[65, 80, 73, 67]"] demo_bytes [of 104 "[65, 80, 73, 67]"]
    demo_bytes [of 44 "le32 64"] demo_bytes [of 76 "le32 0xFEE00000 @ le32 1 @ concat (map item_bytes [Local_APIC 0 3 1, IO_APIC 2 0xFEC00000 0])"]
  by (simp_all add: demo_madt_def le32_def)

lemma demo_root: "rootRSDT demo_acpi = PAGE_VIRT_OFFSET" "table_length (bytes demo_acpi) PAGE_VIRT_OFFSET = 40"
  "table_at (bytes demo_acpi) PAGE_VIRT_OFFSET 0 = PAGE_VIRT_OFFSET + 40" "table_length (bytes demo_acpi) (PAGE_VIRT_OFFSET + 40) = 64"
proof -
  show "rootRSDT demo_acpi = PAGE_VIRT_OFFSET" by (simp add: demo_acpi_def)
  show "table_length (bytes demo_acpi) PAGE_VIRT_OFFSET = 40" using load32_le32 [OF demo_at(1)] by (simp add: table_length_def)
  show "table_length (bytes demo_acpi) (PAGE_VIRT_OFFSET + 40) = 64" using load32_le32 [OF demo_at(5)] by (simp add: table_length_def add.assoc)
  show "table_at (bytes demo_acpi) PAGE_VIRT_OFFSET 0 = PAGE_VIRT_OFFSET + 40"
    using load32_le32 [OF demo_at(2)] by (simp add: table_at_def rsdt_entry_def add.commute [of 40])
qed

lemma demo_signature: "\<forall>k < 4. load8 (bytes demo_acpi) (PAGE_VIRT_OFFSET + 40 + of_nat k) = load8 (bytes demo_acpi) (PAGE_VIRT_OFFSET + 104 + of_nat k)"
proof (intro allI impI)
  fix k :: nat
  assume "k < 4"
  then have "k \<in> {0, 1, 2, 3}" by auto
  then show "load8 (bytes demo_acpi) (PAGE_VIRT_OFFSET + 40 + of_nat k) = load8 (bytes demo_acpi) (PAGE_VIRT_OFFSET + 104 + of_nat k)"
    using demo_at(3,4) by (auto simp: add.assoc)
qed

lemma demo_getMADT: "getMADT (PAGE_VIRT_OFFSET + 104) demo_acpi = PAGE_VIRT_OFFSET + 40"
proof -
  have n: "nat (sint (rsdt_entries (bytes demo_acpi) PAGE_VIRT_OFFSET)) = 1"
    by (rule rsdt_entries_count) (simp_all add: demo_root)
  have "memcmp (bytes demo_acpi) (PAGE_VIRT_OFFSET + 40) (PAGE_VIRT_OFFSET + 104) 4 = 0"
    using demo_signature by (simp add: memcmp_zero)
  then show ?thesis by (simp add: getMADT_def find_table_def demo_root n)
qed

section \<open>Properties\<close>

text \<open>
  The root pointer is accepted exactly when its 20 bytes add up to 0 modulo 256. Then the root table is the one it
  names, seen through the boot loader's mapping; otherwise the machine stops and nothing is set.
\<close>

lemma root_pointer_checksum:
  "setXSDP p s =
    (if (\<Sum>i<20. unat (load8 (bytes s) (p + of_nat i))) mod 256 = 0
     then ret (s\<lparr>rootRSDT := ucast (load32 (bytes s) (p + 16)) + PAGE_VIRT_OFFSET\<rparr>) else stop Hcf)"
proof -
  have *: "(of_nat n :: u8) = 0 \<longleftrightarrow> n mod 256 = 0" for n
    by (simp add: word_eq_iff_unat unsigned_of_nat take_bit_eq_mod)
  define total where "total = (\<Sum>i<20. unat (load8 (bytes s) (p + of_nat i)))"
  have "checksum_loop 20 (bytes s) p = of_nat total"
    unfolding total_def by (rule checksum_loop_sum)
  with * have "setXSDP p s = (if total mod 256 = 0 then ret (setRSDT (ucast (RsdtAddress (bytes s) p)) s) else stop Hcf)"
    by (simp only: setXSDP_def) simp
  then show ?thesis
    unfolding total_def by (simp only: setRSDT_def RsdtAddress_def)
qed

text \<open>
  Searching for a table goes through the addresses in the root table in order. With \<open>n\<close> entries, the result
  is the first table whose first four bytes are those of the signature, and 0 when there is none.
\<close>

lemma find_table_first:
  assumes "unat (table_length (bytes s) (rootRSDT s)) = 36 + 4 * n" "n < 536870912"
  shows "find_table literal s =
    (case find (\<lambda>i. \<forall>k < 4. load8 (bytes s) (table_at (bytes s) (rootRSDT s) i + of_nat k) = load8 (bytes s) (literal + of_nat k)) [0..<n] of
       None \<Rightarrow> 0 | Some i \<Rightarrow> table_at (bytes s) (rootRSDT s) i)"
proof -
  have "(memcmp m a b 4 = 0) = (\<forall>k < 4. load8 m (a + of_nat k) = load8 m (b + of_nat k))" for m a b
    by (simp add: memcmp_zero)
  then show ?thesis
    by (simp add: find_table_def find_loop_find rsdt_entries_count [OF assms])
qed

lemma find_table_first_example:
  "find_table (PAGE_VIRT_OFFSET + 104) demo_acpi = PAGE_VIRT_OFFSET + 40"
  using find_table_first [of demo_acpi 1 "PAGE_VIRT_OFFSET + 104"] demo_signature by (simp add: demo_root)

text \<open>
  C33: The interrupt controller table is read back. When \<open>getMADT\<close> finds a table that consists of the header, the two
  words for the local controller's address and the flags, and a list of local APIC, I/O APIC and x2APIC entries as the
  ACPI specification lays them out, \<open>parsed_madt\<close> returns, and its record holds for each kind the values of the last
  entry of that kind.
\<close>

theorem madt_reads_back:
  assumes "getMADT apic_literal s = t" "t \<noteq> 0"
    and "bytes_at (bytes s) (t + 36) (le32 base @ le32 fl @ concat (map item_bytes items))"
    and "unat (table_length (bytes s) t) = 44 + length (concat (map item_bytes items))"
  shows "parsed_madt apic_literal s = ret (fold item_apply items (no_madt\<lparr>lapic_addr := ucast base, flags := fl\<rparr>))"
proof -
  have at: "bytes_at (bytes s) (t + 36) (le32 base)" "bytes_at (bytes s) (t + 40) (le32 fl)"
    "bytes_at (bytes s) (t + of_nat 44) (concat (map item_bytes items))"
    using assms(3) by (simp_all add: bytes_at_append le32_def add.assoc)
  have "elem32 (bytes s) t 36 = base" "elem32 (bytes s) t 40 = fl"
    using elem32_aligned [of 36 "bytes s" t] elem32_aligned [of 40 "bytes s" t] load32_le32 [OF at(1)] load32_le32 [OF at(2)]
    by simp_all
  moreover have "madt_loop (bytes s) t (of_nat 44) r = ret (fold item_apply items r)" for r
    by (rule madt_loop_items [OF at(3) _ assms(4)]) simp
  ultimately show ?thesis
    using assms(1,2) by (simp add: parsed_madt_def Let_def)
qed

theorem madt_reads_back_witness:
  "parsed_madt (PAGE_VIRT_OFFSET + 104) demo_acpi =
     ret (no_madt\<lparr>lapic_addr := 0xFEE00000, flags := 1, APIC_P_ID := 0, APIC_ID := 3, flags := 1,
       IOAPIC_ID := 2, IOAPIC_addr := 0xFEC00000, GSI_base := 0\<rparr>)"
proof -
  have "PAGE_VIRT_OFFSET + 40 \<noteq> 0" by (simp add: PAGE_VIRT_OFFSET_def)
  then have "parsed_madt (PAGE_VIRT_OFFSET + 104) demo_acpi =
      ret (fold item_apply [Local_APIC 0 3 1, IO_APIC 2 0xFEC00000 0] (no_madt\<lparr>lapic_addr := ucast (0xFEE00000 :: u32), flags := 1\<rparr>))"
    using demo_at(6) by (intro madt_reads_back [OF demo_getMADT]) (simp_all add: add.assoc demo_root)
  then show ?thesis by simp
qed

end
