(* ===== verification/Pci.thy ===== *)
theory Pci
  imports Acpi
begin

text \<open>
  The PCI Express driver \<open>drivers/PCI.c\<close> with its two clients \<open>SATA.c\<close> and \<open>USB.c\<close>: counting and recording the
  devices of a bus segment through a window page, mapping their configuration pages, finding a device by its
  class. The theory shows where the configuration page of a device is mapped and that the address \<open>get_PCIe_address\<close>
  computes for it leads there.
\<close>

section \<open>State and layouts\<close>

record pci_state = acpi_state +
  entrie_count :: u32
  pml4_index :: u16
  devices :: u64
  device_count :: u32
  used_ports :: u32
  present_ports :: u32
  usb_device :: u64
  usb_header :: u64

text \<open>\<open>struct PCIe_entry\<close> (16 bytes) and \<open>struct PCIe_device\<close> (6 bytes).\<close>

definition e_base_addr :: "mem \<Rightarrow> u64 \<Rightarrow> u64" where "e_base_addr m e = load64 m e"
definition e_segment_group :: "mem \<Rightarrow> u64 \<Rightarrow> u16" where "e_segment_group m e = load16 m (e + 8)"
definition e_start_pci :: "mem \<Rightarrow> u64 \<Rightarrow> u8" where "e_start_pci m e = load8 m (e + 10)"
definition e_end_pci :: "mem \<Rightarrow> u64 \<Rightarrow> u8" where "e_end_pci m e = load8 m (e + 11)"

definition d_group :: "mem \<Rightarrow> u64 \<Rightarrow> u16" where "d_group m d = load16 m d"
definition d_bus :: "mem \<Rightarrow> u64 \<Rightarrow> u8" where "d_bus m d = load8 m (d + 2)"
definition d_device :: "mem \<Rightarrow> u64 \<Rightarrow> u8" where "d_device m d = load8 m (d + 3)"
definition d_functions :: "mem \<Rightarrow> u64 \<Rightarrow> u16" where "d_functions m d = load16 m (d + 4)"

definition device_at :: "u64 \<Rightarrow> u64 \<Rightarrow> u64" where "device_at devs i = devs + 6 * i"

text \<open>\<open>struct PCIe_Header\<close>: the class code at offset 11, the subclass at 10, the programming interface at 9.\<close>

definition h_class_code :: "mem \<Rightarrow> u64 \<Rightarrow> u8" where "h_class_code m h = load8 m (h + 11)"
definition h_subClass :: "mem \<Rightarrow> u64 \<Rightarrow> u8" where "h_subClass m h = load8 m (h + 10)"
definition h_prog_IF :: "mem \<Rightarrow> u64 \<Rightarrow> u8" where "h_prog_IF m h = load8 m (h + 9)"

section \<open>Addresses\<close>

definition get_PCIe_address :: "u64 \<Rightarrow> u8 \<Rightarrow> 'a pci_state_scheme \<Rightarrow> u64" where
  "get_PCIe_address device function s =
     (let m = bytes s;
          addr = push_bit 9 0xFFFF OR ucast (pml4_index s);
          addr = push_bit 9 addr OR ucast (d_group m device AND 0x1FF);
          addr = push_bit 9 addr OR ucast (d_bus m device) AND 0x1FF;
          addr = push_bit 9 addr OR (push_bit 3 (ucast (d_device m device) AND 0x1F) OR ucast (function AND 0x7))
      in push_bit 12 addr)"

definition get_PCIe_device_count :: "'a pci_state_scheme \<Rightarrow> u32" where "get_PCIe_device_count s = device_count s"
definition get_PCIe_device_list :: "'a pci_state_scheme \<Rightarrow> u64" where "get_PCIe_device_list s = devices s"

text \<open>The loops of \<open>find_PCIe_device\<close> and \<open>usb_init\<close>: the first device that satisfies a test.\<close>

definition find_PCIe_device :: "u8 \<Rightarrow> u8 \<Rightarrow> 'a pci_state_scheme \<Rightarrow> u64" where
  "find_PCIe_device class_id sub_class_id s =
     (case find (\<lambda>i. let header = get_PCIe_address (device_at (get_PCIe_device_list s) (of_nat i)) 0 s
                    in h_class_code (bytes s) header = class_id \<and> h_subClass (bytes s) header = sub_class_id)
             [0..<unat (get_PCIe_device_count s)] of
        Some i \<Rightarrow> device_at (get_PCIe_device_list s) (of_nat i)
      | None \<Rightarrow> 0)"

section \<open>The window\<close>

text \<open>
  \<open>get_device_count\<close> and \<open>init_devices\<close> look at one configuration page after the other through slot 511 of a
  fresh page table. What a device shows in the first word of the page at a physical address is the
  parameter \<open>config\<close>.
\<close>

type_synonym config_space = "u64 \<Rightarrow> u32"

definition set_slot :: "u64 \<Rightarrow> u16 \<Rightarrow> u64 \<Rightarrow> 'a machine_scheme \<Rightarrow> 'a machine_scheme" where
  "set_slot table i v s = s\<lparr>bytes := store64 (bytes s) (table + 8 * ucast i) v\<rparr>"

definition new_page_table :: "u64 \<Rightarrow> u16 \<Rightarrow> 'a page_map_state_scheme \<Rightarrow> u64 \<times> 'a page_map_state_scheme" where
  "new_page_table parent i s =
     (case malloc_same s of
        (p, s1) \<Rightarrow> (p, set_slot parent i ((p - kernel_virt_offset s1) OR MEMORY_MAPPED_IO_FLAGS) s1))"

definition open_window :: "u64 \<Rightarrow> 'a pci_state_scheme \<Rightarrow> (u64 \<times> u64 \<times> u64) \<times> 'a pci_state_scheme" where
  "open_window e s =
     (case new_page_table (cr3 s + PAGE_VIRT_OFFSET) (pml4_index s) s of
        (pdptr, s1) \<Rightarrow> case new_page_table pdptr 511 s1 of
          (pdir, s2) \<Rightarrow> case new_page_table pdir 511 s2 of
            (ptab, s3) \<Rightarrow> ((pdptr, pdir, ptab), set_slot ptab 511 (e_base_addr (bytes s3) e OR MEMORY_MAPPED_IO_FLAGS) s3))"

definition close_window :: "u64 \<times> u64 \<times> u64 \<Rightarrow> 'a pci_state_scheme \<Rightarrow> 'a pci_state_scheme" where
  "close_window w s =
     (case w of (pdptr, pdir, ptab) \<Rightarrow>
        set_slot (cr3 s + PAGE_VIRT_OFFSET) (pml4_index s) 0 (free_same pdptr (free_same pdir (free_same ptab s))))"

text \<open>Moving the window and looking through it: is the vendor valid?\<close>

definition present :: "config_space \<Rightarrow> u64 \<Rightarrow> u64 \<Rightarrow> u64 \<Rightarrow> 'a pci_state_scheme \<Rightarrow> bool \<times> 'a pci_state_scheme" where
  "present config ptab e addr_add s =
     (let s1 = set_slot ptab 511 ((e_base_addr (bytes s) e + addr_add) OR MEMORY_MAPPED_IO_FLAGS) s
      in (config (entry (bytes s1) ptab 511 AND FRAME_MASK) \<noteq> 0xFFFFFFFF, s1))"

section \<open>Counting devices\<close>

text \<open>The innermost loop, with \<open>n\<close> functions left. The step after a hit is computed in 32 bits from the bus number.\<close>

primrec count_functions :: "config_space \<Rightarrow> u64 \<Rightarrow> u64 \<Rightarrow> u32 \<Rightarrow> nat \<Rightarrow> u32 \<times> u64 \<times> 'a pci_state_scheme \<Rightarrow> u32 \<times> u64 \<times> 'a pci_state_scheme" where
  "count_functions config ptab e bus 0 c = c"
| "count_functions config ptab e bus (Suc n) c =
     (case c of (count, addr_add, s) \<Rightarrow>
        case present config ptab e addr_add s of
          (hit, s1) \<Rightarrow>
            if hit then (count + 1, addr_add + ucast ((8 - bus) * 4096), s1)
            else count_functions config ptab e bus n (count, addr_add + 4096, s1))"

definition count_bus :: "config_space \<Rightarrow> u64 \<Rightarrow> u64 \<Rightarrow> nat \<Rightarrow> u32 \<times> u64 \<times> 'a pci_state_scheme \<Rightarrow> u32 \<times> u64 \<times> 'a pci_state_scheme" where
  "count_bus config ptab e bus = (count_functions config ptab e (of_nat bus) 8) ^^ 32"

definition get_device_count :: "config_space \<Rightarrow> u64 \<Rightarrow> 'a pci_state_scheme \<Rightarrow> u32 \<times> 'a pci_state_scheme" where
  "get_device_count config e s =
     (case open_window e s of ((pdptr, pdir, ptab), s1) \<Rightarrow>
        case fold (count_bus config ptab e) [unat (e_start_pci (bytes s1) e)..<unat (e_end_pci (bytes s1) e)] (0, 0, s1) of
          (count, _, s2) \<Rightarrow> (count, close_window (pdptr, pdir, ptab) s2))"

section \<open>Recording devices\<close>

text \<open>One function: \<open>id\<close> is the index of the last device; the first one is -1, as the code starts.\<close>

definition record_function :: "u64 \<Rightarrow> u64 \<Rightarrow> nat \<Rightarrow> nat \<Rightarrow> nat \<Rightarrow> 'a pci_state_scheme \<Rightarrow> u64 \<times> 'a pci_state_scheme" where
  "record_function e ident bus dev k s =
     (let d = device_at (devices s) ident
      in if d_functions (bytes s) d \<noteq> 0 then
           (let ident' = ident + 1;
                d' = device_at (devices s) ident';
                m = store8 (bytes s) (d' + 2) (of_nat bus);
                m = store8 m (d' + 3) (of_nat dev);
                m = store16 m (d' + 4) (d_functions m d' OR push_bit k 1);
                m = store16 m (devices s) (e_segment_group m e)
            in (ident', s\<lparr>bytes := m\<rparr>))
         else (ident, s\<lparr>bytes := store16 (bytes s) (d + 4) (d_functions (bytes s) d OR push_bit k 1)\<rparr>))"

definition init_function :: "config_space \<Rightarrow> u64 \<Rightarrow> u64 \<Rightarrow> nat \<Rightarrow> nat \<Rightarrow> nat \<Rightarrow> u64 \<times> u64 \<times> 'a pci_state_scheme \<Rightarrow> u64 \<times> u64 \<times> 'a pci_state_scheme" where
  "init_function config ptab e bus dev k c =
     (case c of (ident, addr_add, s) \<Rightarrow>
        case present config ptab e addr_add s of
          (hit, s1) \<Rightarrow>
            case (if hit then record_function e ident bus dev k s1 else (ident, s1)) of
              (ident', s2) \<Rightarrow> (ident', addr_add + 4096, s2))"

definition init_bus :: "config_space \<Rightarrow> u64 \<Rightarrow> u64 \<Rightarrow> nat \<Rightarrow> u64 \<times> u64 \<times> 'a pci_state_scheme \<Rightarrow> u64 \<times> u64 \<times> 'a pci_state_scheme" where
  "init_bus config ptab e bus c = fold (\<lambda>dev. fold (init_function config ptab e bus dev) [0..<8]) [0..<32] c"

definition init_devices :: "config_space \<Rightarrow> u64 \<Rightarrow> u64 \<Rightarrow> 'a pci_state_scheme \<Rightarrow> u64 \<times> 'a pci_state_scheme" where
  "init_devices config e ident s =
     (case open_window e s of ((pdptr, pdir, ptab), s1) \<Rightarrow>
        case fold (init_bus config ptab e) [unat (e_start_pci (bytes s1) e)..<unat (e_end_pci (bytes s1) e)] (ident, 0, s1) of
          (ident', _, s2) \<Rightarrow> (ident', close_window (pdptr, pdir, ptab) s2))"

section \<open>Mapping the devices\<close>

text \<open>The table behind a slot, taken from the object heap when the slot is empty.\<close>

definition slot_table :: "u64 \<Rightarrow> u16 \<Rightarrow> 'a pci_state_scheme \<Rightarrow> u64 \<times> 'a pci_state_scheme" where
  "slot_table parent i s =
     (let v = entry (bytes s) parent (unat i)
      in if v = 0 then new_page_table parent i s else ((v + kernel_virt_offset s) AND FRAME_MASK, s))"

text \<open>The pages of the functions that are present.\<close>

definition map_function :: "u64 \<Rightarrow> u64 \<Rightarrow> u64 \<Rightarrow> u16 \<Rightarrow> u16 \<Rightarrow> nat \<Rightarrow> 'a pci_state_scheme \<Rightarrow> 'a pci_state_scheme" where
  "map_function es d ptab grp bus j s =
     (if drop_bit j (d_functions (bytes s) d) AND 1 \<noteq> 0 then
        let ident = push_bit 3 (ucast (d_device (bytes s) d) AND 0x1F) + of_nat j
        in set_slot ptab ident ((e_base_addr (bytes s) (es + 16 * ucast grp) + ucast ident * 4096 + 0x100000 * ucast bus)
             OR MEMORY_MAPPED_IO_FLAGS) s
      else s)"

definition map_device :: "u64 \<Rightarrow> u64 \<Rightarrow> nat \<Rightarrow> 'a pci_state_scheme \<Rightarrow> 'a pci_state_scheme" where
  "map_device es pdptr i s =
     (let d = device_at (devices s) (of_nat i); grp = d_group (bytes s) d
      in case slot_table pdptr grp s of
        (pdir, s1) \<Rightarrow> let bus = ucast (d_bus (bytes s1) d) in case slot_table pdir bus s1 of
          (ptab, s2) \<Rightarrow> fold (map_function es d ptab grp bus) [0..<8] s2)"

definition map_devices :: "u64 \<Rightarrow> 'a pci_state_scheme \<Rightarrow> 'a pci_state_scheme" where
  "map_devices es s =
     (case slot_table (cr3 s + PAGE_VIRT_OFFSET) (pml4_index s) s of
        (pdptr, s1) \<Rightarrow> fold (map_device es pdptr) [0..<unat (device_count s1)] s1)"

section \<open>Starting up\<close>

definition PCIe_init :: "config_space \<Rightarrow> u64 \<Rightarrow> 'a pci_state_scheme \<Rightarrow> 'a pci_state_scheme run" where
  "PCIe_init config mcfg_literal s =
     (let pcie = getPCIe mcfg_literal s
      in if pcie = 0 then stop (Abort ''No PCIe'')
         else
           let s1 = s\<lparr>entrie_count := ucast ((ucast (table_length (bytes s) pcie) - 44 :: u64) div 16)\<rparr>;
               es = pcie + 44;
               all = map (\<lambda>i. es + 16 * of_nat i) [0..<unat (entrie_count s1)]
           in run_bind (next_free_pml4 s1) (\<lambda>(slot, s2).
                let s3 = fold (\<lambda>e s. case get_device_count config e s of (n, s') \<Rightarrow> s'\<lparr>device_count := device_count s' + n\<rparr>)
                           all (s2\<lparr>pml4_index := slot, device_count := 0\<rparr>)
                in run_bind (malloc (ucast (device_count s3) * 6) s3) (\<lambda>(devs, s4).
                     ret (map_devices es (snd (fold (\<lambda>e (ident, s). init_devices config e ident s) all (- 1, s4\<lparr>devices := devs\<rparr>)))))))"

text \<open>
  \<open>pciConfigReadWord\<close> writes the address to a port and reads the answer from another; \<open>answer\<close> is what the
  device replies to an address. The variable for the result has 16 bits.
\<close>

definition pciConfigReadWord :: "(u32 \<Rightarrow> u32) \<Rightarrow> u8 \<Rightarrow> u8 \<Rightarrow> u8 \<Rightarrow> u8 \<Rightarrow> u32" where
  "pciConfigReadWord answer bus slot func offset =
     (let address = push_bit 16 (ucast bus) OR push_bit 11 (ucast slot) OR push_bit 8 (ucast func) OR ucast (offset AND 0xFC) OR 0x80000000
      in ucast (ucast (answer address) :: u16))"

section \<open>The clients\<close>

text \<open>\<open>SATA_init\<close>: the ports that are implemented and have a device.\<close>

definition port_bit :: "mem \<Rightarrow> u64 \<Rightarrow> u32 \<Rightarrow> nat \<Rightarrow> u32 \<Rightarrow> u32" where
  "port_bit m hba ports i used =
     (if drop_bit i ports AND 0x01 = 0 then used
      else used OR push_bit i (if load32 m (hba + 0x100 + 0x80 * of_nat i + 0x28) AND 0x3 \<noteq> 0 then 1 else 0))"

definition SATA_init :: "'a pci_state_scheme \<Rightarrow> 'a pci_state_scheme run" where
  "SATA_init s =
     (let sata = find_PCIe_device 0x01 0x06 s
      in if sata = 0 then stop (Abort ''No sATA'')
         else
           let header = get_PCIe_address sata 0 s
           in run_bind (map_virtual_address (ucast (load32 (bytes s) (header + 0x24))) s) (\<lambda>(hba, s1).
                let s2 = s1\<lparr>present_ports := load32 (bytes s1) (hba + 0xC)\<rparr>
                in ret (s2\<lparr>used_ports := fold (port_bit (bytes s2) hba (present_ports s2)) [0..<32] (used_ports s2)\<rparr>)))"

definition usb_init :: "'a pci_state_scheme \<Rightarrow> 'a pci_state_scheme run" where
  "usb_init s =
     (let header = (\<lambda>i. get_PCIe_address (device_at (get_PCIe_device_list s) (of_nat i)) 0 s);
          s1 = (case find (\<lambda>i. h_class_code (bytes s) (header i) = 0x0C \<and> h_subClass (bytes s) (header i) = 0x03 \<and>
                               h_prog_IF (bytes s) (header i) = 0x30) [0..<unat (get_PCIe_device_count s)] of
                  Some i \<Rightarrow> s\<lparr>usb_device := device_at (get_PCIe_device_list s) (of_nat i), usb_header := header i\<rparr>
                | None \<Rightarrow> s)
      in if usb_device s1 = 0 then stop (Abort ''No USB device present'')
         else run_bind (map_virtual_address (load64 (bytes s1) (usb_header s1 + 16)) s1) (\<lambda>(_, s2). ret s2))"

section \<open>Where the configuration pages are\<close>

text \<open>
  The address of a device's function has the slot of the PCI region, the group, the bus and the device and function
  number as its four table indices, the ones under which \<open>map_devices\<close> enters the page.
\<close>

lemma masks:
  "(w :: u64) AND 0x1FF = take_bit 9 w" "(v :: u16) AND 0x1FF = take_bit 9 v" "w AND 0x1F = take_bit 5 w" "v AND 0x1F = take_bit 5 v"
  "b AND 0x7 = take_bit 3 (b :: u8)"
  by (simp_all add: take_bit_eq_mask mask_eq_exp_minus_1)

lemma PCIe_address_indices:
  assumes "pml4_index s < 512"
  shows "disassemble_virtual_address (get_PCIe_address d f s) =
    \<lparr>pml4 = pml4_index s, pdpt = d_group (bytes s) d AND 0x1FF, pd = ucast (d_bus (bytes s) d),
     pt = push_bit 3 (ucast (d_device (bytes s) d) AND 0x1F) OR ucast (f AND 7)\<rparr>"
proof -
  have slot: "n < 9" if "bit (pml4_index s) n" for n
  proof (rule ccontr)
    assume "\<not> n < 9"
    have "pml4_index s = take_bit 9 (pml4_index s)"
      using assms by (simp add: word_less_nat_alt word_eq_iff_unat unsigned_take_bit_eq take_bit_nat_eq_self)
    then have "bit (take_bit 9 (pml4_index s)) n" using that by simp
    with \<open>\<not> n < 9\<close> show False by (simp add: bit_take_bit_iff)
  qed
  have bus: "n < 8" if "bit (d_bus (bytes s) d) n" for n using bit_masked_high [OF that] by simp
  show ?thesis
    unfolding disassemble_virtual_address_def get_PCIe_address_def Let_def masks
    by (simp, intro conjI; rule bit_word_eqI; auto simp: bit_simps dest: slot bus)
qed

lemma function_slot:
  assumes "j < 8"
  shows "push_bit 3 (ucast (w :: u8) AND 0x1F) + of_nat j = (push_bit 3 (ucast w AND 0x1F) OR ucast (of_nat j AND (7 :: u8)) :: u16)"
proof -
  have "of_nat j AND (7 :: u8) = of_nat j"
    using assms by (simp add: masks word_eq_iff_unat unsigned_take_bit_eq unat_of_nat_small take_bit_nat_eq_self)
  then have j: "ucast (of_nat j AND (7 :: u8)) = (of_nat j :: u16)"
    using assms by (simp add: word_eq_iff_unat unsigned_ucast_eq unat_of_nat_small take_bit_nat_eq_self)
  have "take_bit 3 (of_nat j :: u16) = of_nat j"
    using assms by (simp add: word_eq_iff_unat unsigned_take_bit_eq unat_of_nat_small take_bit_nat_eq_self)
  then have "push_bit 3 (ucast w AND 0x1F) AND (of_nat j :: u16) = push_bit 3 (ucast w AND 0x1F) AND take_bit 3 (of_nat j)"
    by simp
  also have "\<dots> = 0" by (rule bit_word_eqI) (auto simp: bit_simps)
  finally show ?thesis unfolding j by (rule disjunctive_add_eq_or)
qed

section \<open>Properties\<close>

text \<open>
  A function's configuration page is mapped where the driver looks for it. For a function that is present,
  \<open>map_function\<close> enters the page \<open>base + bus * 1 MB + index * 4 KB\<close> into exactly the slot of the page table that the
  address from \<open>get_PCIe_address\<close> selects, and the other three table indices of that address are the slot of
  the PCI region, the group and the bus.
\<close>

lemma config_page_mapped:
  assumes "pml4_index s < 512" "j < 8" "bit (d_functions (bytes s) d) j"
    and a: "a = disassemble_virtual_address (get_PCIe_address d (of_nat j) s)"
  shows "pml4 a = pml4_index s \<and> pdpt a = d_group (bytes s) d AND 0x1FF \<and> pd a = ucast (d_bus (bytes s) d) \<and>
    entry (bytes (map_function es d ptab grp bus j s)) ptab (unat (pt a)) =
      (e_base_addr (bytes s) (es + 16 * ucast grp) + ucast (pt a) * 4096 + 0x100000 * ucast bus) OR MEMORY_MAPPED_IO_FLAGS"
proof -
  have "drop_bit j (d_functions (bytes s) d) AND 1 \<noteq> 0"
    using assms(3) by (simp add: bit_iff_odd_drop_bit even_iff_mod_2_eq_zero and_one_eq)
  moreover have "pt a = push_bit 3 (ucast (d_device (bytes s) d) AND 0x1F) + of_nat j"
    unfolding a PCIe_address_indices [OF assms(1)] function_slot [OF assms(2)] by simp
  ultimately show ?thesis
    using a PCIe_address_indices [OF assms(1)] by (simp add: map_function_def Let_def set_slot_def entry_def)
qed

text \<open>A device record at address 0: bus 0, device 3, function 0 present.\<close>

definition demo_pci :: pci_state where
  "demo_pci =
     \<lparr>bytes = (\<lambda>_. 0)(3 := 3, 4 := 1), cr3 = 0, console = [], msr = \<lambda>_. 0, free_mem_next = 0, free_mem_size = 0, same_mem = 0,
      mem_used = 0, mem_used_size = 0, same_next_free = 0, obj_size = 0, kernel_virt_offset = 0, mv_pml4 = 0, mv_pdpt = 0,
      mv_pd = 0, mv_pt = 0, rootRSDT = 0, entrie_count = 0, pml4_index = 300, devices = 0, device_count = 1, used_ports = 0,
      present_ports = 0, usb_device = 0, usb_header = 0\<rparr>"

lemma config_page_mapped_example:
  "entry (bytes (map_function 0x100 0 0x1000 0 0 0 demo_pci)) 0x1000 24 = (24 * 4096) OR MEMORY_MAPPED_IO_FLAGS"
proof -
  define a where "a = disassemble_virtual_address (get_PCIe_address 0 (of_nat 0) demo_pci)"
  have f: "d_functions (bytes demo_pci) 0 = 1" "d_device (bytes demo_pci) 0 = 3" "e_base_addr (bytes demo_pci) (0x100 + 16 * ucast (0 :: u16)) = 0"
  proof -
    show "d_functions (bytes demo_pci) 0 = 1" "d_device (bytes demo_pci) 0 = 3"
      by (simp_all add: d_functions_def d_device_def demo_pci_def load16_bytes load8_def)
    have "load64 (bytes demo_pci) 0x100 = 0" by (rule load64_zero) (auto simp: demo_pci_def)
    then show "e_base_addr (bytes demo_pci) (0x100 + 16 * ucast (0 :: u16)) = 0" by (simp add: e_base_addr_def)
  qed
  have i: "pml4_index demo_pci < 512" by (simp add: demo_pci_def)
  have "pt a = 24" unfolding a_def PCIe_address_indices [OF i] by (simp add: f)
  then show ?thesis
    using config_page_mapped [OF i _ _ a_def, of "0x100" "0x1000" 0 0] f by simp
qed

end
