(* ===== verification/Pci_Records.thy ===== *)
theory Pci_Records
  imports Pci
begin

text \<open>
  What the scan of a bus segment leaves behind (\<open>init_devices\<close> of \<open>drivers/PCI.c\<close>): one record for each
  function that answers, in the order of their pages, except for the first, whose mark falls on the
  bytes in front of the array.
\<close>

section \<open>The scan as a list of pages\<close>

text \<open>A location is a bus, a device and a function; the loops of the code visit them in this order.\<close>

type_synonym location = "nat \<times> nat \<times> nat"

definition locations :: "nat \<Rightarrow> nat \<Rightarrow> location list" where
  "locations a b =
     concat (map (\<lambda>bus. concat (map (\<lambda>dev. map (\<lambda>k. (bus, dev, k)) [0..<8]) [0..<32])) [a..<b])"

text \<open>The physical page the window shows for the \<open>n\<close>-th location, and whether a device answers there.\<close>

definition location_page :: "u64 \<Rightarrow> nat \<Rightarrow> u64" where
  "location_page base n = ((base + 4096 * of_nat n) OR MEMORY_MAPPED_IO_FLAGS) AND FRAME_MASK"

definition answers :: "config_space \<Rightarrow> u64 \<Rightarrow> nat \<Rightarrow> bool" where
  "answers config base n \<longleftrightarrow> config (location_page base n) \<noteq> 0xFFFFFFFF"

primrec answering :: "config_space \<Rightarrow> u64 \<Rightarrow> nat \<Rightarrow> location list \<Rightarrow> location list" where
  "answering config base n [] = []"
| "answering config base n (f # fs) =
     (if answers config base n then [f] else []) @ answering config base (Suc n) fs"

lemma fold_concat_map: "fold g (concat xss) = fold (fold g) xss"
  by (induction xss) (simp_all add: fun_eq_iff)

lemma locations_functions: "f \<in> set (locations a b) \<Longrightarrow> snd (snd f) < 8"
  by (auto simp: locations_def)

lemma length_locations: "length (locations a b) = 256 * (b - a)"
  by (simp add: locations_def length_concat comp_def sum_list_triv)

lemma length_answering: "length (answering config base n fs) \<le> length fs"
  by (induction fs arbitrary: n) (auto intro: le_SucI)

text \<open>The three loops of the code are one pass over the locations.\<close>

lemma init_bus_pass:
  "fold (init_bus config ptab e) [a..<b] c =
    fold (\<lambda>(bus, dev, k). init_function config ptab e bus dev k) (locations a b) c"
  by (simp add: init_bus_def [abs_def] locations_def fold_concat_map fold_map comp_def)

section \<open>The array of records\<close>

text \<open>Offsets from the start of a region, without wrap-around.\<close>

lemma in_offset:
  assumes "c + n \<le> 18446744073709551616" "0 < n"
  shows "x \<in> span (p + of_nat c) n \<longleftrightarrow> c \<le> unat (x - p) \<and> unat (x - p) < c + n"
proof -
  define d where "d = x - p"
  have c: "unat (of_nat c :: u64) = c" using assms by (intro unat_of_nat_u64) simp
  have "x - (p + of_nat c) = d - of_nat c" by (simp add: d_def)
  moreover have "unat (d - of_nat c) < n \<longleftrightarrow> c \<le> unat d \<and> unat d < c + n"
    using assms c by (auto simp: unat_sub_if')
  ultimately show ?thesis unfolding mem_span d_def [symmetric] by (simp only:)
qed

definition record_at :: "u64 \<Rightarrow> nat \<Rightarrow> u64" where
  "record_at p i = p + of_nat (6 * i)"

definition holds_location :: "mem \<Rightarrow> u64 \<Rightarrow> location \<Rightarrow> bool" where
  "holds_location m d f \<longleftrightarrow>
     (case f of (bus, dev, k) \<Rightarrow> d_bus m d = of_nat bus \<and> d_device m d = of_nat dev \<and> d_functions m d = push_bit k 1)"

text \<open>
  \<open>p\<close> is the address 6 bytes in front of the array, where the code's index \<open>-1\<close> leads; of that place
  only the mark counts.
\<close>

definition recorded :: "mem \<Rightarrow> u64 \<Rightarrow> nat \<Rightarrow> location list \<Rightarrow> bool" where
  "recorded m p N hs \<longleftrightarrow>
     (hs \<noteq> [] \<longrightarrow> d_functions m p = push_bit (snd (snd (hd hs))) 1) \<and>
     (\<forall>i. 0 < i \<longrightarrow> i < length hs \<longrightarrow> holds_location m (record_at p i) (hs ! i)) \<and>
     (\<forall>i. length hs \<le> i \<longrightarrow> i \<le> N \<longrightarrow> d_functions m (record_at p i) = 0)"

lemma record_fields:
  assumes "\<And>x. x \<in> span (d + 2) 4 \<Longrightarrow> m' x = m x"
  shows "d_bus m' d = d_bus m d" "d_device m' d = d_device m d" "d_functions m' d = d_functions m d"
proof -
  have "m' (d + 2) = m (d + 2)" "m' (d + 3) = m (d + 3)" "m' (d + 4) = m (d + 4)" "m' (d + 5) = m (d + 5)"
    using assms by simp_all
  then show "d_bus m' d = d_bus m d" "d_device m' d = d_device m d" "d_functions m' d = d_functions m d"
    by (simp_all add: d_bus_def d_device_def d_functions_def load16_bytes load8_def add.assoc)
qed

lemma record_offset:
  assumes "x \<in> span (record_at p i + 2) 4" "i \<le> N" "6 * Suc N \<le> 18446744073709551616"
  shows "6 * i + 2 \<le> unat (x - p) \<and> unat (x - p) < 6 * i + 6"
proof -
  have e: "record_at p i + 2 = p + of_nat (6 * i + 2)" by (simp add: record_at_def)
  show ?thesis
    using assms(1) unfolding e by (subst (asm) in_offset) (use assms(2,3) in auto)
qed

lemma recorded_cong:
  assumes "recorded m p N hs" "length hs \<le> Suc N" "\<And>x. unat (x - p) < 6 * Suc N \<Longrightarrow> m' x = m x"
    "6 * Suc N \<le> 18446744073709551616"
  shows "recorded m' p N hs"
proof -
  have r: "d_bus m' (record_at p i) = d_bus m (record_at p i) \<and> d_device m' (record_at p i) = d_device m (record_at p i) \<and>
      d_functions m' (record_at p i) = d_functions m (record_at p i)" if "i \<le> N" for i
  proof -
    have "m' x = m x" if x: "x \<in> span (record_at p i + 2) 4" for x
      by (rule assms(3)) (use record_offset [OF x _ assms(4)] \<open>i \<le> N\<close> in auto)
    then show ?thesis using record_fields by blast
  qed
  from r [of 0] show ?thesis
    using assms(1,2) r by (auto simp: recorded_def holds_location_def record_at_def)
qed

text \<open>The record behind the last one is filled; the segment is written over the first record. No other record changes.\<close>

lemma record_filled:
  fixes m :: mem and p :: u64 and j N bus dev kk :: nat and v :: u16
  assumes N: "Suc j \<le> N" "6 * Suc N \<le> 18446744073709551616"
  defines "q \<equiv> record_at p (Suc j)"
  defines "m2 \<equiv> store8 (store8 m (q + 2) (of_nat bus)) (q + 3) (of_nat dev)"
  defines "m' \<equiv> store16 (store16 m2 (q + 4) (push_bit kk 1)) (p + 6) v"
  shows "holds_location m' q (bus, dev, kk)"
    "i \<le> N \<Longrightarrow> i \<noteq> Suc j \<Longrightarrow> d_bus m' (record_at p i) = d_bus m (record_at p i) \<and>
      d_device m' (record_at p i) = d_device m (record_at p i) \<and> d_functions m' (record_at p i) = d_functions m (record_at p i)"
    "6 * Suc N \<le> unat (x - p) \<Longrightarrow> m' x = m x"
proof -
  let ?m3 = "store16 m2 (q + 4) (push_bit kk 1)"
  have qa: "q + of_nat c = p + of_nat (6 * Suc j + c)" for c
    by (simp add: q_def record_at_def algebra_simps)
  have sq: "x \<in> span (q + of_nat c) n \<longleftrightarrow> 6 * Suc j + c \<le> unat (x - p) \<and> unat (x - p) < 6 * Suc j + c + n"
    if "0 < n" "c + n \<le> 6" for c n x
    unfolding qa by (rule in_offset) (use that N in auto)
  have out: "m' x = m x" if "unat (x - p) < 6 * Suc j + 2 \<or> 6 * Suc j + 6 \<le> unat (x - p)" "unat (x - p) < 6 \<or> 8 \<le> unat (x - p)" for x
  proof -
    have "m' x = ?m3 x" unfolding m'_def by (rule store16_outside) (use that(2) in_offset [of 6 2 x p] in auto)
    also have "\<dots> = m2 x" by (rule store16_outside) (use that(1) sq [of 2 4 x] in auto)
    also have "\<dots> = m x"
      using that(1) sq [of 1 2 x] sq [of 1 3 x] by (auto simp: m2_def store8_def)
    finally show ?thesis .
  qed
  have "m' x = ?m3 x" if x: "x \<in> span (q + 2) 4" for x
    unfolding m'_def
    by (rule store16_outside) (use record_offset [OF x [unfolded q_def] N] in_offset [of 6 2 x p] in auto)
  then have "d_bus m' q = d_bus ?m3 q \<and> d_device m' q = d_device ?m3 q \<and> d_functions m' q = d_functions ?m3 q"
    using record_fields by blast
  then show "holds_location m' q (bus, dev, kk)"
    by (simp add: holds_location_def d_bus_def d_device_def d_functions_def m2_def)
  show "m' x = m x" if "6 * Suc N \<le> unat (x - p)"
    by (rule out) (use that N(1) in auto)
  show "d_bus m' (record_at p i) = d_bus m (record_at p i) \<and> d_device m' (record_at p i) = d_device m (record_at p i) \<and>
      d_functions m' (record_at p i) = d_functions m (record_at p i)" if i: "i \<le> N" "i \<noteq> Suc j"
  proof -
    have "m' x = m x" if x: "x \<in> span (record_at p i + 2) 4" for x
      by (rule out) (use record_offset [OF x i(1) N(2)] i(2) in arith)+
    then show ?thesis using record_fields by blast
  qed
qed

lemma recorded_snoc:
  assumes r: "recorded m p N hs" "hs \<noteq> []" "length hs \<le> N"
    and new: "holds_location m' (record_at p (length hs)) h"
    and others: "\<And>i. i \<le> N \<Longrightarrow> i \<noteq> length hs \<Longrightarrow> d_bus m' (record_at p i) = d_bus m (record_at p i) \<and>
      d_device m' (record_at p i) = d_device m (record_at p i) \<and> d_functions m' (record_at p i) = d_functions m (record_at p i)"
  shows "recorded m' p N (hs @ [h])"
  unfolding recorded_def
proof (intro conjI allI impI)
  show "d_functions m' p = push_bit (snd (snd (hd (hs @ [h])))) 1"
    using r others [of 0] by (simp add: recorded_def record_at_def)
  show "holds_location m' (record_at p i) ((hs @ [h]) ! i)" if i: "0 < i" "i < length (hs @ [h])" for i
  proof (cases "i = length hs")
    case False
    then have "i < length hs" using i by simp
    then show ?thesis
      using r i(1) others [of i] by (auto simp: recorded_def holds_location_def nth_append)
  qed (use new in simp)
  show "d_functions m' (record_at p i) = 0" if "length (hs @ [h]) \<le> i" "i \<le> N" for i
    using r that others [of i] by (simp add: recorded_def)
qed

lemma recorded_mark:
  assumes r: "recorded m p N hs" and j: "length hs = Suc j" and k: "\<forall>f \<in> set hs. snd (snd f) < 8"
  shows "d_functions m (record_at p j) \<noteq> 0"
proof -
  have "d_functions m (record_at p j) = push_bit (snd (snd (hs ! j))) 1"
  proof (cases "j = 0")
    case True
    then show ?thesis using r j by (cases hs) (auto simp: recorded_def record_at_def)
  next
    case False
    with r j have "holds_location m (record_at p j) (hs ! j)" by (auto simp: recorded_def)
    then show ?thesis by (auto simp: holds_location_def)
  qed
  moreover have "snd (snd (hs ! j)) < 8" using k j by simp
  ultimately show ?thesis by (simp add: push_bit_eq_0_iff)
qed

text \<open>
  One function that answers. The first one only sets a mark in front of the array; every other one gets
  the next record, whatever device it belongs to.
\<close>

lemma record_first_function:
  fixes kk :: nat and s :: "'a pci_state_scheme"
  assumes r: "recorded (bytes s) p N []" and p: "devices s = p + 6" and N: "6 * Suc N \<le> 18446744073709551616"
  defines "m' \<equiv> store16 (bytes s) (p + 4) (push_bit kk 1)"
  shows "record_function e (- 1) bus dev kk s = (- 1, s\<lparr>bytes := m'\<rparr>)" "recorded m' p N [(bus, dev, kk)]"
    "6 * Suc N \<le> unat (x - p) \<Longrightarrow> m' x = bytes s x"
proof -
  have at: "device_at (devices s) (- 1) = p" by (simp add: device_at_def p)
  have zero: "d_functions (bytes s) (record_at p i) = 0" if "i \<le> N" for i
    using r that by (simp add: recorded_def)
  from zero [of 0] have "d_functions (bytes s) p = 0" by (simp add: record_at_def)
  then show "record_function e (- 1) bus dev kk s = (- 1, s\<lparr>bytes := m'\<rparr>)"
    using at by (simp add: record_function_def Let_def m'_def)
  have out: "m' x = bytes s x" if "6 \<le> unat (x - p)" for x
    unfolding m'_def by (rule store16_outside) (use that in_offset [of 4 2 x p] in auto)
  then show "6 * Suc N \<le> unat (x - p) \<Longrightarrow> m' x = bytes s x" by simp
  have "d_functions m' (record_at p i) = 0" if i: "0 < i" "i \<le> N" for i
  proof -
    have "m' x = bytes s x" if x: "x \<in> span (record_at p i + 2) 4" for x
      by (rule out) (use record_offset [OF x i(2) N] i(1) in auto)
    then show ?thesis using zero [OF i(2)] record_fields(3) [of "record_at p i" m' "bytes s"] by simp
  qed
  then show "recorded m' p N [(bus, dev, kk)]"
    by (auto simp: recorded_def d_functions_def m'_def)
qed

lemma record_function_step:
  assumes r: "recorded (bytes s) p N hs" and p: "devices s = p + 6" and N: "length hs \<le> N" "6 * Suc N \<le> 18446744073709551616"
    and k: "\<forall>f \<in> set hs. snd (snd f) < 8"
  obtains m' where "record_function e (of_nat (length hs - 1) - 1) bus dev kk s =
      (of_nat (length hs) - 1, s\<lparr>bytes := m'\<rparr>)"
    "recorded m' p N (hs @ [(bus, dev, kk)])" "\<And>x. 6 * Suc N \<le> unat (x - p) \<Longrightarrow> m' x = bytes s x"
proof (cases hs)
  case Nil
  show thesis
    by (rule that [of "store16 (bytes s) (p + 4) (push_bit kk 1)"])
      (use record_first_function [OF _ p N(2)] r Nil in auto)
next
  case (Cons h hs')
  define j where "j = length hs'"
  have j: "length hs = Suc j" "hs \<noteq> []" using Cons by (simp_all add: j_def)
  let ?d = "record_at p j" and ?q = "record_at p (Suc j)"
  let ?m2 = "store8 (store8 (bytes s) (?q + 2) (of_nat bus)) (?q + 3) (of_nat dev)"
  let ?m3 = "store16 ?m2 (?q + 4) (push_bit kk 1)"
  let ?m = "store16 ?m3 (p + 6) (e_segment_group ?m3 e)"
  have at: "device_at (devices s) (of_nat j - 1) = ?d" "device_at (devices s) (of_nat j) = ?q"
    by (simp_all add: device_at_def record_at_def p algebra_simps)
  have "d_functions (bytes s) ?q = 0" using r N j by (simp add: recorded_def)
  then have "d_functions ?m2 ?q = 0" by (simp add: d_functions_def)
  then have run: "record_function e (of_nat (length hs - 1) - 1) bus dev kk s = (of_nat (length hs) - 1, s\<lparr>bytes := ?m\<rparr>)"
    using recorded_mark [OF r j(1) k] at j(1) by (simp add: record_function_def Let_def p)
  have "Suc j \<le> N" using N(1) j by simp
  note filled = record_filled [OF this N(2)]
  have "recorded ?m p N (hs @ [(bus, dev, kk)])"
    by (rule recorded_snoc [OF r j(2) N(1)]) (use filled in \<open>simp_all only: j(1)\<close>)
  with run filled(3) show thesis by (intro that)
qed

section \<open>The pass\<close>

text \<open>Where the scan may write: the window slot and the records.\<close>

definition scan_area :: "u64 \<Rightarrow> u64 \<Rightarrow> nat \<Rightarrow> u64 set" where
  "scan_area ptab p N = span (ptab + 4088) 8 \<union> span p (6 * Suc N)"

lemma present_step:
  obtains s1 where "present config ptab e (4096 * of_nat n) s =
      (answers config (e_base_addr (bytes s) e) n, s1)"
    "devices s1 = devices s" "\<And>x. x \<notin> span (ptab + 4088) 8 \<Longrightarrow> bytes s1 x = bytes s x"
proof
  let ?s1 = "set_slot ptab 511 ((e_base_addr (bytes s) e + 4096 * of_nat n) OR MEMORY_MAPPED_IO_FLAGS) s"
  show "present config ptab e (4096 * of_nat n) s = (answers config (e_base_addr (bytes s) e) n, ?s1)"
    by (simp add: present_def answers_def location_page_def set_slot_def entry_def Let_def)
  show "devices ?s1 = devices s" by (simp add: set_slot_def)
  show "bytes ?s1 x = bytes s x" if "x \<notin> span (ptab + 4088) 8" for x
    using that by (simp add: set_slot_def store64_outside del: mem_span)
qed

lemma init_function_step:
  assumes r: "recorded (bytes s) p N hs" and p: "devices s = p + 6" and N: "length hs \<le> N" "6 * Suc N \<le> 18446744073709551616"
    and k: "\<forall>f \<in> set hs. snd (snd f) < 8" and w: "span (ptab + 4088) 8 \<inter> span p (6 * Suc N) = {}"
    and hs': "hs' = hs @ (if answers config (e_base_addr (bytes s) e) n then [(bus, dev, kk)] else [])"
  obtains s' where "init_function config ptab e bus dev kk (of_nat (length hs - 1) - 1, 4096 * of_nat n, s) =
      (of_nat (length hs' - 1) - 1, 4096 * of_nat (Suc n), s')"
    "devices s' = devices s" "recorded (bytes s') p N hs'"
    "\<And>x. x \<notin> scan_area ptab p N \<Longrightarrow> bytes s' x = bytes s x"
proof -
  obtain s1 where s1: "present config ptab e (4096 * of_nat n) s = (answers config (e_base_addr (bytes s) e) n, s1)"
    "devices s1 = devices s" "\<And>x. x \<notin> span (ptab + 4088) 8 \<Longrightarrow> bytes s1 x = bytes s x"
    using present_step [of config ptab e n s] by metis
  have "x \<notin> span (ptab + 4088) 8" if "unat (x - p) < 6 * Suc N" for x
    using w that by (auto simp del: mult_Suc_right)
  then have r1: "recorded (bytes s1) p N hs"
    using recorded_cong [OF r _ _ N(2), of "bytes s1"] N(1) s1(3) by auto
  have p1: "devices s1 = p + 6" using s1(2) p by simp
  show thesis
  proof (cases "answers config (e_base_addr (bytes s) e) n")
    case True
    obtain m where m: "record_function e (of_nat (length hs - 1) - 1) bus dev kk s1 = (of_nat (length hs) - 1, s1\<lparr>bytes := m\<rparr>)"
      "recorded m p N (hs @ [(bus, dev, kk)])" "\<And>x. 6 * Suc N \<le> unat (x - p) \<Longrightarrow> m x = bytes s1 x"
      using record_function_step [OF r1 p1 N k, of e bus dev kk] by metis
    have out: "m x = bytes s x" if "x \<notin> scan_area ptab p N" for x
      using that m(3) [of x] s1(3) [of x] by (simp add: scan_area_def)
    show thesis
      by (rule that [of "s1\<lparr>bytes := m\<rparr>"]) (use True s1 m(1,2) hs' out in \<open>simp_all add: init_function_def algebra_simps\<close>)
  next
    case False
    have out: "bytes s1 x = bytes s x" if "x \<notin> scan_area ptab p N" for x
      using that s1(3) [of x] by (simp add: scan_area_def)
    show thesis
      by (rule that [of s1]) (use False s1 r1 hs' out in \<open>simp_all add: init_function_def algebra_simps\<close>)
  qed
qed

lemma scan_pass:
  assumes "recorded (bytes s) p N hs" "devices s = p + 6" "length hs + length fs \<le> Suc N" "6 * Suc N \<le> 18446744073709551616"
    "\<forall>f \<in> set hs \<union> set fs. snd (snd f) < 8" "span (ptab + 4088) 8 \<inter> span p (6 * Suc N) = {}"
    "span e 8 \<inter> scan_area ptab p N = {}" "e_base_addr (bytes s) e = base"
  shows "\<exists>s'. fold (\<lambda>(bus, dev, k). init_function config ptab e bus dev k) fs (of_nat (length hs - 1) - 1, 4096 * of_nat n, s) =
      (of_nat (length (hs @ answering config base n fs) - 1) - 1, 4096 * of_nat (n + length fs), s') \<and>
    recorded (bytes s') p N (hs @ answering config base n fs) \<and> devices s' = devices s \<and>
    (\<forall>x. x \<notin> scan_area ptab p N \<longrightarrow> bytes s' x = bytes s x)"
  using assms
proof (induction fs arbitrary: n hs s)
  case Nil
  then show ?case by auto
next
  case (Cons f fs)
  obtain bus dev k where f: "f = (bus, dev, k)" by (cases f)
  let ?hs = "hs @ (if answers config base n then [f] else [])"
  have hs: "\<forall>f \<in> set hs. snd (snd f) < 8" "length hs \<le> N" using Cons.prems(3,5) by auto
  obtain s1 where s1: "init_function config ptab e bus dev k (of_nat (length hs - 1) - 1, 4096 * of_nat n, s) =
      (of_nat (length ?hs - 1) - 1, 4096 * of_nat (Suc n), s1)"
    "devices s1 = devices s" "recorded (bytes s1) p N ?hs" "\<And>x. x \<notin> scan_area ptab p N \<Longrightarrow> bytes s1 x = bytes s x"
    by (rule init_function_step [OF Cons.prems(1,2) hs(2) Cons.prems(4) hs(1) Cons.prems(6), of ?hs config e n bus dev k])
      (use Cons.prems(8) f in auto)
  have "bytes s1 x = bytes s x" if "x \<in> span e 8" for x
    using that Cons.prems(7) s1(4) by blast
  then have base: "e_base_addr (bytes s1) e = base"
    using Cons.prems(8) load64_cong [of e "bytes s1" "bytes s"] by (simp add: e_base_addr_def del: mem_span)
  have "\<exists>s'. fold (\<lambda>(bus, dev, k). init_function config ptab e bus dev k) fs (of_nat (length ?hs - 1) - 1, 4096 * of_nat (Suc n), s1) =
      (of_nat (length (?hs @ answering config base (Suc n) fs) - 1) - 1, 4096 * of_nat (Suc n + length fs), s') \<and>
    recorded (bytes s') p N (?hs @ answering config base (Suc n) fs) \<and> devices s' = devices s1 \<and>
    (\<forall>x. x \<notin> scan_area ptab p N \<longrightarrow> bytes s' x = bytes s1 x)"
    by (rule Cons.IH [OF s1(3) _ _ Cons.prems(4) _ Cons.prems(6,7) base])
      (use Cons.prems(2,3,5) s1(2) in auto)
  then show ?case
    using s1 unfolding f by (simp add: algebra_simps split del: if_split)
qed

section \<open>Counting\<close>

text \<open>
  On bus 0 the step behind a device is right. A device whose functions start with function 0, or that is not
  there at all, is counted once or not, and the scan goes on eight pages further.
\<close>

lemma count_functions_none:
  assumes "\<And>j. j < k \<Longrightarrow> \<not> answers config base (n + j)" "e_base_addr (bytes s) e = base"
    "span e 8 \<inter> span (ptab + 4088) 8 = {}"
  shows "\<exists>s'. count_functions config ptab e bus k (c, 4096 * of_nat n, s) = (c, 4096 * of_nat (n + k), s') \<and>
    e_base_addr (bytes s') e = base"
  using assms
proof (induction k arbitrary: n s)
  case 0
  then show ?case by auto
next
  case (Suc k)
  obtain s1 where s1: "present config ptab e (4096 * of_nat n) s = (answers config (e_base_addr (bytes s) e) n, s1)"
    "devices s1 = devices s" "\<And>x. x \<notin> span (ptab + 4088) 8 \<Longrightarrow> bytes s1 x = bytes s x"
    using present_step [of config ptab e n s] by metis
  have "bytes s1 x = bytes s x" if "x \<in> span e 8" for x
    using that Suc.prems(3) s1(3) by blast
  then have base: "e_base_addr (bytes s1) e = base"
    using Suc.prems(2) load64_cong [of e "bytes s1" "bytes s"] by (simp add: e_base_addr_def del: mem_span)
  have no: "\<not> answers config base n" using Suc.prems(1) [of 0] by simp
  have "\<exists>s'. count_functions config ptab e bus k (c, 4096 * of_nat (Suc n), s1) = (c, 4096 * of_nat (Suc n + k), s') \<and>
      e_base_addr (bytes s') e = base"
    by (rule Suc.IH [OF _ base Suc.prems(3)]) (use Suc.prems(1) [of "Suc _"] in auto)
  then show ?case
    using s1(1) no Suc.prems(2) by (simp add: algebra_simps)
qed

lemma count_functions_first:
  assumes "answers config base n" "e_base_addr (bytes s) e = base" "span e 8 \<inter> span (ptab + 4088) 8 = {}"
  shows "\<exists>s'. count_functions config ptab e 0 8 (c, 4096 * of_nat n, s) = (c + 1, 4096 * of_nat (n + 8), s') \<and>
    e_base_addr (bytes s') e = base"
proof -
  obtain s1 where s1: "present config ptab e (4096 * of_nat n) s = (answers config (e_base_addr (bytes s) e) n, s1)"
    "devices s1 = devices s" "\<And>x. x \<notin> span (ptab + 4088) 8 \<Longrightarrow> bytes s1 x = bytes s x"
    using present_step [of config ptab e n s] by metis
  have "bytes s1 x = bytes s x" if "x \<in> span e 8" for x
    using that assms(3) s1(3) by blast
  then have base: "e_base_addr (bytes s1) e = base"
    using assms(2) load64_cong [of e "bytes s1" "bytes s"] by (simp add: e_base_addr_def del: mem_span)
  have "count_functions config ptab e 0 (Suc 7) (c, 4096 * of_nat n, s) = (c + 1, 4096 * of_nat n + ucast ((8 - 0 :: u32) * 4096), s1)"
    unfolding count_functions.simps(2) prod.case s1(1) using assms(1,2) by (simp only: if_True)
  moreover have "(4096 * of_nat n + ucast ((8 - 0 :: u32) * 4096) :: u64) = 4096 * of_nat (n + 8)"
    by simp
  moreover have "Suc 7 = 8" by simp
  ultimately show ?thesis using base by metis
qed

lemma scan_counts_devices:
  assumes "\<And>dev k. dev < 32 \<Longrightarrow> k < 8 \<Longrightarrow> answers config base (8 * dev + k) \<Longrightarrow> answers config base (8 * dev)"
    "e_base_addr (bytes s) e = base" "span e 8 \<inter> span (ptab + 4088) 8 = {}"
  shows "fst (count_bus config ptab e 0 (0, 0, s)) = of_nat (length (filter (\<lambda>dev. answers config base (8 * dev)) [0..<32]))"
proof -
  have "\<exists>s'. ((count_functions config ptab e 0 8) ^^ n) (0, 0, s) =
      (of_nat (length (filter (\<lambda>dev. answers config base (8 * dev)) [0..<n])), 4096 * of_nat (8 * n), s') \<and>
      e_base_addr (bytes s') e = base" if "n \<le> 32" for n
    using that
  proof (induction n)
    case 0
    then show ?case using assms(2) by simp
  next
    case (Suc n)
    let ?c = "of_nat (length (filter (\<lambda>dev. answers config base (8 * dev)) [0..<n])) :: u32"
    obtain s1 where s1: "((count_functions config ptab e 0 8) ^^ n) (0, 0, s) = (?c, 4096 * of_nat (8 * n), s1)"
      "e_base_addr (bytes s1) e = base"
      using Suc by auto
    show ?case
    proof (cases "answers config base (8 * n)")
      case True
      then show ?thesis
        using count_functions_first [OF True s1(2) assms(3), of ?c] s1(1) by (simp add: algebra_simps)
    next
      case False
      have "\<not> answers config base (8 * n + j)" if "j < 8" for j
        using assms(1) [of n j] False that Suc.prems by auto
      then show ?thesis
        using count_functions_none [OF _ s1(2) assms(3), of 8 config "8 * n" 0 ?c] s1(1) False by (simp add: algebra_simps)
    qed
  qed
  from this [of 32] show ?thesis by (auto simp: count_bus_def)
qed

section \<open>Properties\<close>

text \<open>
  C39: The scan records functions, not devices. On an array of zeros, \<open>init_devices\<close> makes one record for every
  function that answers on the buses from \<open>a\<close> to \<open>b\<close>, in the order of their pages and with their bus, device
  and function, but for the first one: its mark goes to the two bytes in front of the array, the upper end
  of the size in the header of the array's block. Nothing else but the window changes.
\<close>

theorem scan_records_functions:
  assumes zero: "\<And>i. i \<le> N \<Longrightarrow> d_functions (bytes s) (record_at p i) = 0" and p: "devices s = p + 6"
    and N: "N = length (locations a b)" "6 * Suc N \<le> 18446744073709551616"
    and w: "span (ptab + 4088) 8 \<inter> span p (6 * Suc N) = {}" "span e 8 \<inter> scan_area ptab p N = {}"
    and hs: "hs = answering config (e_base_addr (bytes s) e) 0 (locations a b)"
  shows "\<exists>addr s'. fold (init_bus config ptab e) [a..<b] (- 1, 0, s) = (of_nat (length hs - 1) - 1, addr, s') \<and>
    devices s' = devices s \<and>
    (\<forall>i. Suc i < length hs \<longrightarrow> holds_location (bytes s') (device_at (devices s) (of_nat i)) (hs ! Suc i)) \<and>
    (hs \<noteq> [] \<longrightarrow> d_functions (bytes s') (device_at (devices s) (- 1)) = push_bit (snd (snd (hd hs))) 1) \<and>
    (\<forall>x. x \<notin> scan_area ptab p N \<longrightarrow> bytes s' x = bytes s x)"
proof -
  have "recorded (bytes s) p N []" using zero by (simp add: recorded_def)
  from scan_pass [OF this p _ N(2) _ w, of "locations a b" _ config 0]
  obtain s' where s': "fold (\<lambda>(bus, dev, k). init_function config ptab e bus dev k) (locations a b) (- 1, 0, s) =
      (of_nat (length hs - 1) - 1, 4096 * of_nat N, s')"
    "recorded (bytes s') p N hs" "devices s' = devices s" "\<And>x. x \<notin> scan_area ptab p N \<Longrightarrow> bytes s' x = bytes s x"
    using N(1) locations_functions hs by force
  have at: "device_at (devices s) (of_nat i) = record_at p (Suc i)" "device_at (devices s) (- 1) = p" for i
    by (simp_all add: device_at_def record_at_def p algebra_simps)
  show ?thesis
    unfolding init_bus_pass at using s' by (intro exI [of _ "4096 * of_nat N"] exI [of _ s']) (auto simp: recorded_def)
qed

text \<open>One device with three functions: it is counted once, and two records are written behind the mark.\<close>

definition one_device :: config_space where
  "one_device page = (if page \<in> {0, 0x1000, 0x2000} then 0x8086 else 0xFFFFFFFF)"

definition empty_table :: pci_state where
  "empty_table = demo_pci\<lparr>bytes := \<lambda>_. 0, devices := 0x1006\<rparr>"

lemma one_device_answers: "answering one_device 0 0 (locations 0 1) = [(0, 0, 0), (0, 0, 1), (0, 0, 2)]"
  by (simp add: locations_def upt_conv_Cons answers_def location_page_def one_device_def FRAME_MASK_def MEMORY_MAPPED_IO_FLAGS_def)

theorem scan_records_functions_witness:
  "\<exists>addr s'. fold (init_bus one_device 0x20000 0x9000) [0..<1] (- 1, 0, empty_table) = (1, addr, s') \<and>
    d_functions (bytes s') 0x1000 = 1 \<and> holds_location (bytes s') 0x1006 (0, 0, 1) \<and>
    holds_location (bytes s') 0x100C (0, 0, 2)"
proof -
  have b: "bytes empty_table = (\<lambda>_. 0)" "devices empty_table = 0x1000 + 6"
    by (simp_all add: empty_table_def)
  have zero: "d_functions (bytes empty_table) d = 0" for d
    by (simp add: b d_functions_def load16_bytes load8_def)
  have len: "(256 :: nat) = length (locations 0 1)"
    by (simp add: length_locations)
  have base: "e_base_addr (bytes empty_table) 0x9000 = 0"
    unfolding e_base_addr_def by (rule load64_zero) (simp add: b)
  have d: "span 0x1000 (6 * Suc 256) \<inter> span (0x20000 + 4088) 8 = {}" "span 0x1000 (6 * Suc 256) \<inter> span 0x9000 8 = {}"
    "span 0x9000 8 \<inter> span (0x20000 + 4088) 8 = {}"
    by (rule span_disjoint_no_wrap; simp)+
  have w: "span (0x20000 + 4088) 8 \<inter> span 0x1000 (6 * Suc 256) = {}" "span 0x9000 8 \<inter> scan_area 0x20000 0x1000 256 = {}"
    using d unfolding scan_area_def by blast+
  let ?hs = "[(0, 0, 0), (0, 0, 1), (0, 0, 2)] :: location list"
  have hs: "?hs = answering one_device (e_base_addr (bytes empty_table) 0x9000) 0 (locations 0 1)"
    unfolding base by (rule one_device_answers [symmetric])
  have N: "6 * Suc 256 \<le> 18446744073709551616" by simp
  obtain addr s' where s': "fold (init_bus one_device 0x20000 0x9000) [0..<1] (- 1, 0, empty_table) =
      (of_nat (length ?hs - 1) - 1, addr, s')"
    "\<forall>i. Suc i < length ?hs \<longrightarrow> holds_location (bytes s') (device_at (devices empty_table) (of_nat i)) (?hs ! Suc i)"
    "?hs \<noteq> [] \<longrightarrow> d_functions (bytes s') (device_at (devices empty_table) (- 1)) = push_bit (snd (snd (hd ?hs))) 1"
    using scan_records_functions [OF zero b(2) len N w hs] by blast
  have "holds_location (bytes s') 0x1006 (0, 0, 1)" "holds_location (bytes s') 0x100C (0, 0, 2)"
    using s'(2) [rule_format, of 0] s'(2) [rule_format, of 1] by (simp_all add: device_at_def b)
  then show ?thesis
    using s'(1,3) by (simp add: device_at_def b)
qed

text \<open>The table is allocated for one record.\<close>

lemma location_page_0: "n < 256 \<Longrightarrow> location_page 0 n = push_bit 12 (of_nat n)"
proof -
  assume n: "n < 256"
  let ?w = "of_nat n :: u64"
  have "?w = take_bit 8 ?w"
    using n by (simp add: word_eq_iff_unat unsigned_take_bit_eq unat_of_nat_small take_bit_nat_eq_self)
  then have "?w = ?w AND 0xFF" by (simp add: take_bit_eq_mask mask_eq_exp_minus_1)
  then have "push_bit 12 ?w = push_bit 12 (?w AND 0xFF)" by simp
  also have "\<dots> = push_bit 12 ?w AND 0xFF000" by (simp only: push_bit_and) simp
  finally have w: "push_bit 12 ?w = push_bit 12 ?w AND 0xFF000" .
  have "location_page 0 n = push_bit 12 ?w AND FRAME_MASK"
    by (simp add: location_page_def MEMORY_MAPPED_IO_FLAGS_def FRAME_MASK_def push_bit_eq_mult bit.conj_disj_distrib2 mult.commute)
  also have "\<dots> = push_bit 12 ?w AND (0xFF000 AND FRAME_MASK)"
    by (subst w) (simp add: and.assoc)
  also have "0xFF000 AND FRAME_MASK = 0xFF000" by (simp add: FRAME_MASK_def)
  finally show ?thesis using w by simp
qed

lemma one_device_answers_at: "n < 256 \<Longrightarrow> answers one_device 0 n \<longleftrightarrow> n < 3"
proof -
  assume n: "n < 256"
  have "location_page 0 n = 4096 * of_nat n"
    using location_page_0 [OF n] by (simp add: push_bit_eq_mult mult.commute)
  moreover have "unat (4096 * of_nat n :: u64) = 4096 * n"
    using n unat_of_nat_u64 [of "4096 * n"] by simp
  ultimately show "answers one_device 0 n \<longleftrightarrow> n < 3"
    by (auto simp: answers_def one_device_def word_eq_iff_unat)
qed

lemma one_device_counted: "fst (count_bus one_device 0x20000 0x9000 0 (0, 0, empty_table)) = 1"
proof -
  have base: "e_base_addr (bytes empty_table) 0x9000 = 0"
    unfolding e_base_addr_def by (rule load64_zero) (simp add: empty_table_def)
  have d: "span 0x9000 8 \<inter> span (0x20000 + 4088) 8 = {}"
    by (rule span_disjoint_no_wrap; simp)
  have "fst (count_bus one_device 0x20000 0x9000 0 (0, 0, empty_table)) =
      of_nat (length (filter (\<lambda>dev. answers one_device 0 (8 * dev)) [0..<32]))"
    by (rule scan_counts_devices [OF _ base d]) (use one_device_answers_at in auto)
  also have "filter (\<lambda>dev. answers one_device 0 (8 * dev)) [0..<32] = filter (\<lambda>dev. dev = 0) [0..<32]"
    by (rule filter_cong) (use one_device_answers_at in auto)
  also have "\<dots> = [0]" by (simp add: upt_conv_Cons)
  finally show ?thesis by simp
qed

end
