(* ===== verification/Phys_Pages.thy ===== *)
theory Phys_Pages
  imports Page_Walk
begin

text \<open>
  Physical pages (\<open>libc/src/memory/page_manager.c\<close>): an array of usable memory sections, each
  with a bitmap of its pages, and the statics that name the page handed out next. The
  theory holds single-page and range allocation and shows what they give on a fresh system
  and in which cases they hand out a page twice.
\<close>

section \<open>State\<close>

text \<open>
  The static \<open>mem\<close> is the field \<open>sections\<close>. A \<open>struct memory\<close> is packed: \<open>ptr\<close> at 0, \<open>size\<close> at 8,
  \<open>used_bits\<close> at 16, \<open>used_bits_size\<close> (32 bits) at 24; it is 28 bytes long.
\<close>

record phys_state = page_map_state +
  sections :: u64
  mem_lenght :: u64
  first_free_mem :: u64
  first_free_page :: u64

definition section_at :: "u64 \<Rightarrow> u64 \<Rightarrow> u64" where
  "section_at base i = base + 28 * i"

definition sec_ptr :: "mem \<Rightarrow> u64 \<Rightarrow> u64" where "sec_ptr m p = load64 m p"
definition sec_size :: "mem \<Rightarrow> u64 \<Rightarrow> u64" where "sec_size m p = load64 m (p + 8)"
definition sec_bits :: "mem \<Rightarrow> u64 \<Rightarrow> u64" where "sec_bits m p = load64 m (p + 16)"
definition sec_bits_size :: "mem \<Rightarrow> u64 \<Rightarrow> u32" where "sec_bits_size m p = load32 m (p + 24)"

section \<open>Single pages\<close>

text \<open>
  The two loops of \<open>find_next_free\<close> in one: \<open>idx\<close> is \<open>first_free_index\<close>. The shifted byte is
  converted to \<open>bool\<close>, so the test is that some bit from \<open>offset\<close> on is \<^emph>\<open>set\<close>.
\<close>

partial_function (option) find_free_loop :: "mem \<Rightarrow> u64 \<Rightarrow> u64 \<Rightarrow> u64 \<Rightarrow> u64 \<Rightarrow> nat \<Rightarrow> (u64 \<times> u64) run" where
  "find_free_loop m base count idx arr_index offset =
     (if idx < count then
        if arr_index < ucast (sec_bits_size m (section_at base idx)) then
          if drop_bit offset (load8 m (sec_bits m (section_at base idx) + arr_index)) \<noteq> 0
          then ret (idx, arr_index * 8 + of_nat offset)
          else find_free_loop m base count idx
                 (arr_index + (if (offset + 1) mod 8 = 0 then 1 else 0)) ((offset + 1) mod 8)
        else find_free_loop m base count (idx + 1) 0 0
      else stop (Abort ''Out of page memory''))"

definition find_next_free :: "'a phys_state_scheme \<Rightarrow> 'a phys_state_scheme run" where
  "find_next_free s =
     run_bind (find_free_loop (bytes s) (sections s) (mem_lenght s) (first_free_mem s)
                 (first_free_page s div 8) (unat (first_free_page s mod 8)))
       (\<lambda>(idx, page). ret (s\<lparr>first_free_page := page, first_free_mem := idx\<rparr>))"

definition alloc_physical_page :: "'a phys_state_scheme \<Rightarrow> (u64 \<times> 'a phys_state_scheme) run" where
  "alloc_physical_page s =
     (let sec = section_at (sections s) (first_free_mem s);
          byte = sec_bits (bytes s) sec + first_free_page s div 8;
          m = store8 (bytes s) byte
                (load8 (bytes s) byte OR push_bit (unat (first_free_page s mod 8)) 1);
          p = sec_ptr m sec + 4096 * first_free_page s
      in run_bind (find_next_free (s\<lparr>bytes := m\<rparr>)) (\<lambda>s'. ret (p, s')))"

section \<open>Ranges of pages\<close>

text \<open>The loop of \<open>markUsedArea\<close>, after the iterations \<open>i = 0, \<dots>, n - 1\<close>.\<close>

primrec mark_loop :: "u64 \<Rightarrow> u64 \<Rightarrow> u8 \<Rightarrow> nat \<Rightarrow> mem \<Rightarrow> mem" where
  "mark_loop sec arr_index offset 0 m = m"
| "mark_loop sec arr_index offset (Suc i) m =
     (let m' = mark_loop sec arr_index offset i m;
          byte = sec_bits m' sec + (arr_index + of_nat i div 8)
      in store8 m' byte (load8 m' byte OR push_bit (unat ((arr_index + of_nat i + ucast offset) mod 8)) 1))"

definition markUsedArea :: "u64 \<Rightarrow> u64 \<Rightarrow> u8 \<Rightarrow> u64 \<Rightarrow> 'a phys_state_scheme \<Rightarrow> 'a phys_state_scheme" where
  "markUsedArea memory_index arr_index offset len s =
     (let sec = section_at (sections s) memory_index;
          s1 = s\<lparr>bytes := mark_loop sec arr_index offset (unat len) (bytes s)\<rparr>
      in if first_free_mem s1 = memory_index then
           let s2 = (if first_free_page s1 = arr_index * 8 + ucast offset
                     then s1\<lparr>first_free_page := first_free_page s1 + len\<rparr> else s1)
           in if sec_size (bytes s2) sec \<le> first_free_page s2
              then s2\<lparr>first_free_page := 0, first_free_mem := 0\<rparr> else s2
         else s1)"

text \<open>
  The search of \<open>alloc_physical_page_range\<close>. A loop carries (\<open>current_size\<close>, \<open>arr_index\<close>,
  \<open>offset\<close>) and either goes on with them (\<open>Inr\<close>) or has found the start of a range (\<open>Inl\<close>).
\<close>

type_synonym range_scan = "u64 \<times> u64 \<times> u8"

primrec range_byte :: "u8 \<Rightarrow> u64 \<Rightarrow> u64 \<Rightarrow> nat list \<Rightarrow> range_scan \<Rightarrow> (u64 \<times> u8) + range_scan" where
  "range_byte b len j [] c = Inr c"
| "range_byte b len j (k # ks) c =
     (case c of (cur, arr, off) \<Rightarrow>
        if b = 0xFF then range_byte b len j ks (cur, j, of_nat k)
        else if b AND push_bit k 1 \<noteq> 0 then range_byte b len j ks (0, j, of_nat k)
        else if cur + 1 \<ge> len then Inl (arr, off)
        else range_byte b len j ks (cur + 1, arr, off))"

primrec range_section :: "mem \<Rightarrow> u64 \<Rightarrow> u64 \<Rightarrow> nat list \<Rightarrow> range_scan \<Rightarrow> (u64 \<times> u8) + range_scan" where
  "range_section m bits len [] c = Inr c"
| "range_section m bits len (j # js) c =
     (case range_byte (load8 m (bits + of_nat j)) len (of_nat j) [0 ..< 8] c of
        Inl r \<Rightarrow> Inl r
      | Inr c' \<Rightarrow> range_section m bits len js c')"

primrec range_search :: "mem \<Rightarrow> u64 \<Rightarrow> u64 \<Rightarrow> nat list \<Rightarrow> range_scan \<Rightarrow> (nat \<times> u64 \<times> u8) option" where
  "range_search m base len [] c = None"
| "range_search m base len (i # is) c =
     (let sec = section_at base (of_nat i)
      in case range_section m (sec_bits m sec) len [0 ..< unat (sec_bits_size m sec)] c of
           Inl (arr, off) \<Rightarrow> Some (i, arr, off)
         | Inr c' \<Rightarrow> range_search m base len is c')"

definition alloc_physical_page_range :: "u64 \<Rightarrow> 'a phys_state_scheme \<Rightarrow> u64 \<times> 'a phys_state_scheme" where
  "alloc_physical_page_range len s =
     (case range_search (bytes s) (sections s) len [0 ..< unat (mem_lenght s)] (0, 0, 0) of
        Some (i, arr_index, offset) \<Rightarrow>
          (sec_ptr (bytes s) (section_at (sections s) (of_nat i)) + (arr_index * 8 + ucast offset) * 4096,
           markUsedArea (of_nat i) arr_index offset len s)
      | None \<Rightarrow> (MEMORY_INVALID_RETURN, s))"

section \<open>The same page again\<close>

lemma bit_set_nonzero: "bit w k \<Longrightarrow> drop_bit k w \<noteq> 0"
  using bit_drop_bit_eq [of k w] by (metis add_0_right bit_0_eq bot_apply bot_bool_def comp_apply)

lemma find_free_loop_here:
  assumes "idx < count" "arr_index < ucast (sec_bits_size m (section_at base idx))"
    "bit (load8 m (sec_bits m (section_at base idx) + arr_index)) offset"
  shows "find_free_loop m base count idx arr_index offset = ret (idx, arr_index * 8 + of_nat offset)"
  using assms bit_set_nonzero by (subst find_free_loop.simps) auto

text \<open>
  The header of the current section does not overlap the bitmap byte that is marked, and the
  bitmap has a byte for the current page.
\<close>

definition current_section_ok :: "'a phys_state_scheme \<Rightarrow> bool" where
  "current_section_ok s \<longleftrightarrow>
     (let sec = section_at (sections s) (first_free_mem s);
          byte = sec_bits (bytes s) sec + first_free_page s div 8
      in first_free_mem s < mem_lenght s \<and> first_free_page s div 8 < ucast (sec_bits_size (bytes s) sec) \<and>
         apart sec 28 byte 1)"

lemma store8_outside: "x \<noteq> a \<Longrightarrow> store8 m a v x = m x"
  by (simp add: store8_def)

lemma section_frame:
  assumes "\<And>x. x \<in> span sec 28 \<Longrightarrow> m' x = m x"
  shows "sec_ptr m' sec = sec_ptr m sec" "sec_size m' sec = sec_size m sec" "sec_bits m' sec = sec_bits m sec"
    "sec_bits_size m' sec = sec_bits_size m sec"
proof -
  have "span sec 8 \<subseteq> span sec 28" "span (sec + 8) 8 \<subseteq> span sec 28" "span (sec + 16) 8 \<subseteq> span sec 28" "span (sec + 24) 4 \<subseteq> span sec 28"
    by (rule span_mono span_sub; simp)+
  then show "sec_ptr m' sec = sec_ptr m sec" "sec_size m' sec = sec_size m sec" "sec_bits m' sec = sec_bits m sec"
    "sec_bits_size m' sec = sec_bits_size m sec"
    unfolding sec_ptr_def sec_size_def sec_bits_def sec_bits_size_def
    using assms by (blast intro: load64_cong load32_cong)+
qed

lemma alloc_physical_page_step:
  assumes ok: "current_section_ok s"
  shows "\<exists>m. alloc_physical_page s =
      ret (sec_ptr (bytes s) (section_at (sections s) (first_free_mem s)) + 4096 * first_free_page s, s\<lparr>bytes := m\<rparr>) \<and>
    current_section_ok (s\<lparr>bytes := m\<rparr>) \<and>
    sec_ptr m (section_at (sections s) (first_free_mem s)) = sec_ptr (bytes s) (section_at (sections s) (first_free_mem s))"
proof -
  let ?sec = "section_at (sections s) (first_free_mem s)" and ?p = "first_free_page s"
  let ?byte = "sec_bits (bytes s) ?sec + ?p div 8"
  let ?m = "store8 (bytes s) ?byte (load8 (bytes s) ?byte OR push_bit (unat (?p mod 8)) 1)"
  have "?byte \<notin> span ?sec 28"
    using ok apart_span [of ?sec 28 ?byte 1] by (auto simp: current_section_ok_def Let_def)
  then have "?m x = bytes s x" if "x \<in> span ?sec 28" for x
    using that by (intro store8_outside) blast
  then have f: "sec_ptr ?m ?sec = sec_ptr (bytes s) ?sec" "sec_bits ?m ?sec = sec_bits (bytes s) ?sec"
    "sec_bits_size ?m ?sec = sec_bits_size (bytes s) ?sec"
    using section_frame [of ?sec ?m "bytes s"] by blast+
  have k: "unat (?p mod 8) < 8" by (simp add: unat_mod)
  have "bit (load8 ?m (sec_bits ?m ?sec + ?p div 8)) (unat (?p mod 8))"
    unfolding f using k by (simp add: bit_or_iff bit_push_bit_iff bit_exp_iff)
  then have "find_free_loop ?m (sections s) (mem_lenght s) (first_free_mem s) (?p div 8) (unat (?p mod 8)) =
      ret (first_free_mem s, ?p div 8 * 8 + of_nat (unat (?p mod 8)))"
    using ok f by (intro find_free_loop_here) (auto simp: current_section_ok_def Let_def)
  moreover have "?p div 8 * 8 + of_nat (unat (?p mod 8)) = ?p"
    by (simp add: div_mult_mod_eq)
  ultimately have "find_next_free (s\<lparr>bytes := ?m\<rparr>) = ret (s\<lparr>bytes := ?m\<rparr>)"
    by (simp add: find_next_free_def)
  then show ?thesis
    using ok f by (intro exI [of _ ?m]) (simp add: alloc_physical_page_def current_section_ok_def Let_def)
qed

section \<open>Ranges on a fresh section\<close>

lemma range_byte_free:
  assumes "unat cur < unat len"
  shows "range_byte 0 len j ks (cur, arr, off) =
    (if unat len \<le> unat cur + length ks then Inl (arr, off) else Inr (cur + of_nat (length ks), arr, off))"
  using assms
proof (induction ks arbitrary: cur)
  case Nil
  then show ?case by simp
next
  case (Cons k ks)
  have c: "unat (cur + 1) = unat cur + 1"
    using Cons.prems unat_u64_lt [of len] by (simp add: unat_u64_add)
  have ff: "(0 :: u8) \<noteq> 0xFF" by simp
  have z: "(0 :: u8) AND push_bit k 1 = 0" by simp
  show ?case
  proof (cases "len \<le> cur + 1")
    case True
    then have "unat len \<le> unat cur + length (k # ks)" using c by (simp add: word_le_nat_alt)
    then show ?thesis using True ff z by (simp only: range_byte.simps prod.case if_False if_True) simp
  next
    case False
    then have "unat (cur + 1) < unat len" by (simp add: word_le_nat_alt)
    then have "range_byte 0 len j ks (cur + 1, arr, off) =
        (if unat len \<le> unat cur + length (k # ks) then Inl (arr, off) else Inr (cur + of_nat (length (k # ks)), arr, off))"
      using Cons.IH [of "cur + 1"] c by (simp add: add.assoc)
    then show ?thesis using False ff z by (simp only: range_byte.simps prod.case if_False) simp
  qed
qed

lemma range_section_free:
  assumes "unat cur < unat len" "\<And>j. j \<in> set js \<Longrightarrow> load8 m (bits + of_nat j) = 0"
  shows "range_section m bits len js (cur, arr, off) =
    (if unat len \<le> unat cur + 8 * length js then Inl (arr, off) else Inr (cur + of_nat (8 * length js), arr, off))"
  using assms
proof (induction js arbitrary: cur)
  case Nil
  then show ?case by simp
next
  case (Cons j js)
  have z: "load8 m (bits + of_nat j) = 0" using Cons.prems by simp
  show ?case
  proof (cases "unat len \<le> unat cur + 8")
    case True
    then show ?thesis
      by (simp add: z range_byte_free [OF Cons.prems(1)] del: upt_Suc)
  next
    case False
    have c: "unat (cur + 8) = unat cur + 8"
      using False unat_u64_lt [of len] by (simp add: unat_u64_add)
    then have "range_section m bits len js (cur + 8, arr, off) =
      (if unat len \<le> unat cur + 8 + 8 * length js then Inl (arr, off)
       else Inr (cur + 8 + of_nat (8 * length js), arr, off))"
      using Cons.IH [of "cur + 8"] Cons.prems False by simp
    then show ?thesis
      using False by (simp add: z range_byte_free [OF Cons.prems(1)] algebra_simps del: upt_Suc)
  qed
qed

lemma range_byte_full:
  "range_byte 0xFF len j ks (cur, arr, off) = Inr (if ks = [] then (cur, arr, off) else (cur, j, of_nat (last ks)))"
  by (induction ks arbitrary: arr off) auto

lemma range_section_full:
  assumes "\<And>j. j \<in> set js \<Longrightarrow> load8 m (bits + of_nat j) = 0xFF"
  shows "range_section m bits len js (cur, arr, off) =
    Inr (if js = [] then (cur, arr, off) else (cur, of_nat (last js), 7))"
  using assms
proof (induction js arbitrary: arr off)
  case Nil
  then show ?case by simp
next
  case (Cons j js)
  have last8: "last [0 ..< 8] = (7 :: nat)" by (simp add: last_upt)
  have "range_byte 0xFF len (of_nat j) [0 ..< 8] (cur, arr, off) = Inr (cur, of_nat j, 7)"
    unfolding range_byte_full last8 by simp
  moreover have "load8 m (bits + of_nat j) = 0xFF" using Cons.prems by simp
  ultimately show ?case
    using Cons by simp
qed

lemma range_section_append:
  "range_section m bits len (xs @ ys) c =
     (case range_section m bits len xs c of Inl r \<Rightarrow> Inl r | Inr c' \<Rightarrow> range_section m bits len ys c')"
  by (induction xs arbitrary: c) (simp_all split: sum.split)

text \<open>Marking from the first page on.\<close>

definition bitmap_of :: "mem \<Rightarrow> u64 \<Rightarrow> nat \<Rightarrow> bool" where
  "bitmap_of m bits i \<longleftrightarrow> bit (load8 m (bits + of_nat (i div 8))) (i mod 8)"

lemma mark_loop_start:
  assumes hdr: "span sec 28 \<inter> span (sec_bits m sec) k = {}" and n: "n \<le> 8 * k" "8 * k < 18446744073709551616"
  shows "(\<forall>x. x \<notin> span (sec_bits m sec) k \<longrightarrow> mark_loop sec 0 0 n m x = m x) \<and>
    (\<forall>i < 8 * k. bitmap_of (mark_loop sec 0 0 n m) (sec_bits m sec) i \<longleftrightarrow> bitmap_of m (sec_bits m sec) i \<or> i < n)"
  using n(1)
proof (induction n)
  case 0
  then show ?case by simp
next
  case (Suc n)
  let ?m' = "mark_loop sec 0 0 n m" and ?b = "sec_bits m sec"
  have IH: "\<And>x. x \<notin> span ?b k \<Longrightarrow> ?m' x = m x"
    "\<And>i. i < 8 * k \<Longrightarrow> bitmap_of ?m' ?b i \<longleftrightarrow> bitmap_of m ?b i \<or> i < n"
    using Suc by simp_all
  have "?m' x = m x" if "x \<in> span sec 28" for x
    using IH(1) hdr that by blast
  then have bits: "sec_bits ?m' sec = ?b"
    using section_frame(3) [of sec ?m' m] by blast
  have idx: "(of_nat n :: u64) div 8 = of_nat (n div 8)" "unat ((of_nat n :: u64) mod 8) = n mod 8"
  proof -
    have u: "unat (of_nat n :: u64) = n"
      by (rule unat_of_nat_small) (use Suc.prems n(2) in simp)
    show "(of_nat n :: u64) div 8 = of_nat (n div 8)"
      using of_nat_unat_div [of "of_nat n"] u by simp
    show "unat ((of_nat n :: u64) mod 8) = n mod 8"
      using u by (simp add: unat_mod)
  qed
  let ?byte = "?b + of_nat (n div 8)"
  have step: "mark_loop sec 0 0 (Suc n) m = store8 ?m' ?byte (load8 ?m' ?byte OR push_bit (n mod 8) 1)"
    by (simp add: Let_def bits idx)
  have inside: "?byte \<in> span ?b k"
    by (rule span_offset_mem) (use Suc.prems n(2) in auto)
  have bm: "bitmap_of (mark_loop sec 0 0 (Suc n) m) ?b i \<longleftrightarrow> bitmap_of m ?b i \<or> i < Suc n" if i: "i < 8 * k" for i
  proof (cases "i div 8 = n div 8")
    case True
    have "i = n \<longleftrightarrow> i mod 8 = n mod 8"
      using True by (metis div_mult_mod_eq)
    then show ?thesis
      unfolding step using True IH(2) [OF i]
      by (auto simp: bitmap_of_def bit_or_iff bit_push_bit_iff bit_exp_iff less_Suc_eq)
  next
    case False
    have "(of_nat (i div 8) :: u64) \<noteq> of_nat (n div 8)"
    proof -
      have "unat (of_nat (i div 8) :: u64) = i div 8" "unat (of_nat (n div 8) :: u64) = n div 8"
        by (rule unat_of_nat_small; use i Suc.prems n(2) in simp)+
      then show ?thesis using False by metis
    qed
    moreover have "i \<noteq> n" using False by auto
    ultimately show ?thesis
      unfolding step using IH(2) [OF i] by (auto simp: bitmap_of_def less_Suc_eq)
  qed
  have "mark_loop sec 0 0 (Suc n) m x = m x" if "x \<notin> span ?b k" for x
    unfolding step using that inside IH(1) by (auto simp: store8_def simp del: mem_span)
  then show ?case using bm by blast
qed

text \<open>
  \<open>fresh_section k s\<close>: the first section has a bitmap of \<open>k\<close> bytes, all clear, that does not
  overlap its header.
\<close>

definition fresh_section :: "nat \<Rightarrow> 'a phys_state_scheme \<Rightarrow> bool" where
  "fresh_section k s \<longleftrightarrow>
     0 < mem_lenght s \<and> unat (sec_bits_size (bytes s) (sections s)) = k \<and>
     span (sections s) 28 \<inter> span (sec_bits (bytes s) (sections s)) k = {} \<and>
     (\<forall>j < k. load8 (bytes s) (sec_bits (bytes s) (sections s) + of_nat j) = 0)"

lemma section_0: "section_at base 0 = base"
  by (simp add: section_at_def)

lemma first_index:
  assumes "0 < (n :: u64)"
  obtains "is" where "[0 ..< unat n] = 0 # is"
proof -
  have "0 < unat n" using assms by (simp add: unat_gt_0 word_neq_0_conv)
  then show thesis using that by (simp add: upt_conv_Cons)
qed

lemma fresh_range:
  assumes fresh: "fresh_section k s" and len: "0 < unat len" "unat len \<le> 8 * k"
    and start: "first_free_mem s = 0" "first_free_page s = 0" "len < sec_size (bytes s) (sections s)"
  shows "alloc_physical_page_range len s = (sec_ptr (bytes s) (sections s),
      s\<lparr>bytes := mark_loop (sections s) 0 0 (unat len) (bytes s), first_free_page := len\<rparr>)"
proof -
  let ?sec = "sections s" and ?m = "mark_loop (sections s) 0 0 (unat len) (bytes s)"
  have k: "8 * k < 18446744073709551616"
    using fresh unat_lt_2p [of "sec_bits_size (bytes s) ?sec"] by (auto simp: fresh_section_def)
  obtain "is" where "is": "[0 ..< unat (mem_lenght s)] = 0 # is"
    using first_index [of "mem_lenght s"] fresh by (auto simp: fresh_section_def)
  have "range_section (bytes s) (sec_bits (bytes s) ?sec) len [0 ..< k] (0, 0, 0) = Inl (0, 0)"
    using fresh len by (subst range_section_free) (auto simp: fresh_section_def)
  then have search: "range_search (bytes s) ?sec len [0 ..< unat (mem_lenght s)] (0, 0, 0) = Some (0, 0, 0)"
    using fresh by (simp add: "is" section_0 Let_def fresh_section_def)
  have hdr: "span ?sec 28 \<inter> span (sec_bits (bytes s) ?sec) k = {}"
    using fresh by (simp add: fresh_section_def)
  have "?m x = bytes s x" if "x \<in> span ?sec 28" for x
    using mark_loop_start [OF hdr len(2) k] hdr that by blast
  then have "sec_size ?m ?sec = sec_size (bytes s) ?sec"
    using section_frame(2) [of ?sec ?m "bytes s"] by blast
  then show ?thesis
    using start search by (simp add: alloc_physical_page_range_def markUsedArea_def section_0 Let_def not_le [symmetric])
qed

lemma full_byte:
  assumes "\<And>i. 8 * j \<le> i \<Longrightarrow> i < 8 * j + 8 \<Longrightarrow> bitmap_of m bits i"
  shows "load8 m (bits + of_nat j) = 0xFF"
proof -
  have "bit (load8 m (bits + of_nat j)) n" if "n < 8" for n
    using assms [of "8 * j + n"] that by (simp add: bitmap_of_def)
  then have "load8 m (bits + of_nat j) = mask 8"
    by (intro bit_word_eqI) (simp add: bit_mask_iff)
  then show ?thesis by (simp add: mask_eq_exp_minus_1)
qed

lemma empty_byte:
  assumes "\<And>i. 8 * j \<le> i \<Longrightarrow> i < 8 * j + 8 \<Longrightarrow> \<not> bitmap_of m bits i"
  shows "load8 m (bits + of_nat j) = 0"
proof (rule bit_word_eqI)
  fix n
  assume "n < LENGTH(8)"
  then show "bit (load8 m (bits + of_nat j)) n \<longleftrightarrow> bit 0 n"
    using assms [of "8 * j + n"] by (simp add: bitmap_of_def)
qed

text \<open>After \<open>q\<close> full bytes the scan has recorded the last page in use as the start of the range.\<close>

lemma range_after_full_bytes:
  assumes fresh: "fresh_section k s" and q: "0 < q" "8 * q < 8 * k" and len: "0 < unat len" "8 * q + unat len \<le> 8 * k"
  shows "range_search (mark_loop (sections s) 0 0 (8 * q) (bytes s)) (sections s) len [0 ..< unat (mem_lenght s)] (0, 0, 0) =
    Some (0, of_nat (q - 1), 7)"
proof -
  let ?sec = "sections s" and ?m = "mark_loop (sections s) 0 0 (8 * q) (bytes s)" and ?b = "sec_bits (bytes s) (sections s)"
  have k: "8 * k < 18446744073709551616"
    using fresh unat_lt_2p [of "sec_bits_size (bytes s) ?sec"] by (auto simp: fresh_section_def)
  have hdr: "span ?sec 28 \<inter> span ?b k = {}"
    using fresh by (simp add: fresh_section_def)
  have le: "8 * q \<le> 8 * k" using q by simp
  note mark = mark_loop_start [OF hdr le k]
  have "?m x = bytes s x" if "x \<in> span ?sec 28" for x
    using mark hdr that by blast
  then have f: "sec_bits ?m ?sec = ?b" "sec_bits_size ?m ?sec = sec_bits_size (bytes s) ?sec"
    using section_frame(3,4) [of ?sec ?m "bytes s"] by blast+
  have clear: "\<not> bitmap_of (bytes s) ?b i" if "i < 8 * k" for i
    using fresh that by (simp add: fresh_section_def bitmap_of_def)
  have bm: "bitmap_of ?m ?b i \<longleftrightarrow> i < 8 * q" if "i < 8 * k" for i
    using mark that clear by blast
  have full: "load8 ?m (?b + of_nat j) = 0xFF" if "j < q" for j
    by (rule full_byte) (use bm that q in auto)
  have empty: "load8 ?m (?b + of_nat j) = 0" if "q \<le> j" "j < k" for j
    by (rule empty_byte) (use bm that q in auto)
  have split: "[0 ..< k] = [0 ..< q] @ [q ..< k]"
    using q upt_add_eq_append [of 0 q "k - q"] by simp
  have one: "range_section ?m ?b len [0 ..< q] (0, 0, 0) = Inr (0, of_nat (q - 1), 7)"
    using q full by (subst range_section_full) (auto simp: last_upt)
  have two: "range_section ?m ?b len [q ..< k] (0, of_nat (q - 1), 7) = Inl (of_nat (q - 1), 7)"
    using len empty by (subst range_section_free) auto
  have "range_section ?m ?b len [0 ..< k] (0, 0, 0) = Inl (of_nat (q - 1), 7)"
    unfolding split range_section_append one using two by simp
  moreover obtain "is" where "[0 ..< unat (mem_lenght s)] = 0 # is"
    using first_index [of "mem_lenght s"] fresh by (auto simp: fresh_section_def)
  ultimately show ?thesis
    using fresh by (simp add: section_0 Let_def f fresh_section_def)
qed

section \<open>Properties\<close>

text \<open>
  C36: The same page again. \<open>alloc_physical_page\<close> marks the current page, and the search for the next free one stops at once at the mark
  just set. So with a current section whose bitmap has a byte for the current page and lies apart from its header, the first call and every
  later one, however many there are, return the current page: no second page is ever handed out.
\<close>

theorem alloc_physical_page_repeats:
  assumes "current_section_ok s"
  shows "\<exists>s'. ((\<lambda>r. run_bind r (\<lambda>(_, t). alloc_physical_page t)) ^^ n) (alloc_physical_page s) =
    ret (sec_ptr (bytes s) (section_at (sections s) (first_free_mem s)) + 4096 * first_free_page s, s')"
proof -
  let ?sec = "section_at (sections s) (first_free_mem s)"
  let ?p = "sec_ptr (bytes s) ?sec + 4096 * first_free_page s"
  have "\<exists>m. ((\<lambda>r. run_bind r (\<lambda>(_, t). alloc_physical_page t)) ^^ n) (alloc_physical_page s) = ret (?p, s\<lparr>bytes := m\<rparr>) \<and>
    current_section_ok (s\<lparr>bytes := m\<rparr>) \<and> sec_ptr m ?sec = sec_ptr (bytes s) ?sec"
  proof (induction n)
    case 0
    show ?case using alloc_physical_page_step [OF assms] by auto
  next
    case (Suc n)
    then obtain m where m: "((\<lambda>r. run_bind r (\<lambda>(_, t). alloc_physical_page t)) ^^ n) (alloc_physical_page s) = ret (?p, s\<lparr>bytes := m\<rparr>)"
      "current_section_ok (s\<lparr>bytes := m\<rparr>)" "sec_ptr m ?sec = sec_ptr (bytes s) ?sec"
      by blast
    then show ?case using alloc_physical_page_step [OF m(2)] by auto
  qed
  then show ?thesis by blast
qed

text \<open>One section of 64 pages at 0x100000, its header at 0x1000 and its bitmap at 0x2000.\<close>

definition one_section :: phys_state where
  "one_section = \<lparr>bytes = store32 (store64 (store64 (store64 (\<lambda>_. 0) 0x1000 0x100000) 0x1008 0x40000) 0x1010 0x2000) 0x1018 8,
     cr3 = 0, console = [], msr = (\<lambda>_. 0), free_mem_next = 0, free_mem_size = 0,
     same_mem = 0, mem_used = 0, mem_used_size = 0, same_next_free = 0, obj_size = 0,
     kernel_virt_offset = 0, mv_pml4 = 0, mv_pdpt = 0, mv_pd = 0, mv_pt = 0,
     sections = 0x1000, mem_lenght = 1, first_free_mem = 0, first_free_page = 0\<rparr>"

lemma one_section_fields:
  "sec_ptr (bytes one_section) 0x1000 = 0x100000" "sec_size (bytes one_section) 0x1000 = 0x40000"
  "sec_bits (bytes one_section) 0x1000 = 0x2000" "sec_bits_size (bytes one_section) 0x1000 = 8"
  "sections one_section = 0x1000" "mem_lenght one_section = 1" "first_free_mem one_section = 0" "first_free_page one_section = 0"
  by (simp_all add: one_section_def sec_ptr_def sec_size_def sec_bits_def sec_bits_size_def)

theorem alloc_physical_page_repeats_witness:
  "\<exists>s'. ((\<lambda>r. run_bind r (\<lambda>(_, t). alloc_physical_page t)) ^^ 100) (alloc_physical_page one_section) = ret (0x100000, s')"
  using alloc_physical_page_repeats [of one_section 100]
  by (simp add: current_section_ok_def one_section_fields section_0 Let_def)

text \<open>
  C18: a range from a fresh section. The first \<open>len\<close> pages are returned, exactly their bits are
  set, nothing outside the bitmap changes, and the next single page is the one behind them.
\<close>

theorem range_from_fresh_section:
  assumes "fresh_section k s" "0 < unat len" "unat len \<le> 8 * k"
    "first_free_mem s = 0" "first_free_page s = 0" "len < sec_size (bytes s) (sections s)"
  shows "\<exists>m. alloc_physical_page_range len s = (sec_ptr (bytes s) (sections s), s\<lparr>bytes := m, first_free_page := len\<rparr>) \<and>
    (\<forall>i < 8 * k. bitmap_of m (sec_bits (bytes s) (sections s)) i \<longleftrightarrow> i < unat len) \<and>
    (\<forall>x. x \<notin> span (sec_bits (bytes s) (sections s)) k \<longrightarrow> m x = bytes s x)"
proof -
  have k: "8 * k < 18446744073709551616"
    using assms(1) unat_lt_2p [of "sec_bits_size (bytes s) (sections s)"] by (auto simp: fresh_section_def)
  have hdr: "span (sections s) 28 \<inter> span (sec_bits (bytes s) (sections s)) k = {}"
    using assms(1) by (simp add: fresh_section_def)
  have "\<not> bitmap_of (bytes s) (sec_bits (bytes s) (sections s)) i" if "i < 8 * k" for i
    using assms(1) that by (simp add: fresh_section_def bitmap_of_def)
  then show ?thesis
    using fresh_range [OF assms] mark_loop_start [OF hdr assms(3) k] by blast
qed

lemma one_section_fresh: "fresh_section 8 one_section"
proof -
  have nw: "unat (0x1000 :: u64) + 28 \<le> 18446744073709551616" "unat (0x2000 :: u64) + 8 \<le> 18446744073709551616" by simp_all
  have sp: "span 0x1000 28 \<inter> span 0x2000 8 = {}"
    by (rule span_disjoint_no_wrap) simp_all
  have "bytes one_section x = 0" if "x \<in> span 0x2000 8" for x
  proof -
    have "x \<notin> span 0x1000 28" using sp that by blast
    moreover have "span 0x1000 8 \<subseteq> span 0x1000 28" "span 0x1008 8 \<subseteq> span 0x1000 28" "span 0x1010 8 \<subseteq> span 0x1000 28"
      "span 0x1018 4 \<subseteq> span 0x1000 28"
      using span_sub [of 0 8 28 "0x1000"] span_sub [of 8 8 28 "0x1000"] span_sub [of 16 8 28 "0x1000"] span_sub [of 24 4 28 "0x1000"]
      by simp_all
    ultimately have "x \<notin> span 0x1000 8" "x \<notin> span 0x1008 8" "x \<notin> span 0x1010 8" "x \<notin> span 0x1018 4" by blast+
    then show ?thesis
      by (simp add: one_section_def store64_outside store32_outside del: mem_span)
  qed
  moreover have "0x2000 + of_nat j \<in> span 0x2000 8" if "j < 8" for j
    using that by (intro span_offset_mem) simp_all
  ultimately show ?thesis
    using sp by (simp add: fresh_section_def one_section_fields load8_def del: mem_span)
qed

theorem range_from_fresh_section_witness:
  "\<exists>m. alloc_physical_page_range 32 one_section = (0x100000, one_section\<lparr>bytes := m, first_free_page := 32\<rparr>) \<and>
     bitmap_of m 0x2000 31 \<and> \<not> bitmap_of m 0x2000 32"
  using range_from_fresh_section [OF one_section_fresh, of 32] by (auto simp: one_section_fields)

text \<open>
  C21: ranges overlap. After a range of whole bitmap bytes has been taken from a fresh section,
  the next range, of any length that fits, starts at the last page of the first one.
\<close>

theorem ranges_overlap:
  assumes "fresh_section k s" "0 < q" "unat len1 = 8 * q" "0 < unat len2" "8 * q + unat len2 \<le> 8 * k"
    "first_free_mem s = 0" "first_free_page s = 0" "len1 < sec_size (bytes s) (sections s)"
  shows "\<exists>s1 s2. alloc_physical_page_range len1 s = (sec_ptr (bytes s) (sections s), s1) \<and>
    alloc_physical_page_range len2 s1 = (sec_ptr (bytes s) (sections s) + (len1 - 1) * 4096, s2)"
proof -
  let ?sec = "sections s"
  let ?m = "mark_loop ?sec 0 0 (unat len1) (bytes s)"
  let ?s1 = "s\<lparr>bytes := ?m, first_free_page := len1\<rparr>"
  have le: "unat len1 \<le> 8 * k" "0 < unat len1" "8 * q < 8 * k" using assms(2-5) by simp_all
  have one: "alloc_physical_page_range len1 s = (sec_ptr (bytes s) ?sec, ?s1)"
    by (rule fresh_range [OF assms(1) le(2,1) assms(6-8)])
  have search: "range_search ?m ?sec len2 [0 ..< unat (mem_lenght s)] (0, 0, 0) = Some (0, of_nat (q - 1), 7)"
    using range_after_full_bytes [OF assms(1,2) le(3) assms(4,5)] assms(3) by simp
  have k: "8 * k < 18446744073709551616"
    using assms(1) unat_lt_2p [of "sec_bits_size (bytes s) ?sec"] by (auto simp: fresh_section_def)
  have hdr: "span ?sec 28 \<inter> span (sec_bits (bytes s) ?sec) k = {}"
    using assms(1) by (simp add: fresh_section_def)
  have "?m x = bytes s x" if "x \<in> span ?sec 28" for x
    using mark_loop_start [OF hdr le(1) k] hdr that by blast
  then have ptr: "sec_ptr ?m ?sec = sec_ptr (bytes s) ?sec"
    using section_frame(1) [of ?sec ?m "bytes s"] by blast
  have "len1 = of_nat (8 * q)"
    using arg_cong [OF assms(3), of "of_nat :: nat \<Rightarrow> u64"] by simp
  then have off: "of_nat (q - 1) * 8 + 7 = len1 - 1"
    using assms(2) by (cases q) (simp_all add: algebra_simps)
  have "fst (alloc_physical_page_range len2 ?s1) = sec_ptr (bytes s) ?sec + (of_nat (q - 1) * 8 + ucast (7 :: u8)) * 4096"
    using search ptr by (simp add: alloc_physical_page_range_def section_0)
  moreover have "ucast (7 :: u8) = (7 :: u64)" by simp
  ultimately have "fst (alloc_physical_page_range len2 ?s1) = sec_ptr (bytes s) ?sec + (len1 - 1) * 4096"
    by (simp only: off)
  with one show ?thesis
    by (metis surjective_pairing)
qed

theorem ranges_overlap_witness:
  "\<exists>s1 s2. alloc_physical_page_range 32 one_section = (0x100000, s1) \<and>
     alloc_physical_page_range 4 s1 = (0x100000 + 31 * 4096, s2)"
  using ranges_overlap [OF one_section_fresh, of 4 32 4] by (simp add: one_section_fields)

end
