(* ===== verification/Page_Manager.thy ===== *)
theory Page_Manager
  imports Translator Phys_Pages
begin

text \<open>
  The rest of \<open>libc/src/memory/page_manager.c\<close>: the page tables of the current process, reached
  through the translator, the search for free virtual addresses, and the allocation of pages
  that are mapped at once. The four levels of a table walk call each other the way the code
  does, down to the repeated calls, because every lookup may move the cache of the translator. The
  last section runs \<open>alloc_next_page\<close> on a small memory.
\<close>

section \<open>State\<close>

text \<open>
  \<open>current_process\<close>, \<open>translator\<close> and \<open>INTERNAL_MEMORY_OFFSET\<close> are statics; \<open>paging_pdpt\<close>,
  \<open>paging_pd\<close> and \<open>paging_pt\<close> are the addresses of the three static tables.
\<close>

record page_state = phys_state +
  current_process :: u64
  translator :: u64
  INTERNAL_MEMORY_OFFSET :: u64
  paging_pml4 :: u64
  paging_pdpt :: u64
  paging_pd :: u64
  paging_pt :: u64

text \<open>\<open>struct process\<close>: the fields the page manager uses.\<close>

definition p_pml4 :: "mem \<Rightarrow> u64 \<Rightarrow> u64" where "p_pml4 m p = load64 m (p + 8)"
definition p_pml4_entry_free :: "mem \<Rightarrow> u64 \<Rightarrow> u16" where "p_pml4_entry_free m p = load16 m (p + 20)"
definition p_pdpt_entry_free :: "mem \<Rightarrow> u64 \<Rightarrow> u16" where "p_pdpt_entry_free m p = load16 m (p + 22)"
definition p_pd_entry_free :: "mem \<Rightarrow> u64 \<Rightarrow> u16" where "p_pd_entry_free m p = load16 m (p + 24)"
definition p_pt_entry_free :: "mem \<Rightarrow> u64 \<Rightarrow> u16" where "p_pt_entry_free m p = load16 m (p + 26)"
definition p_superviser :: "mem \<Rightarrow> u64 \<Rightarrow> bool" where "p_superviser m p \<longleftrightarrow> load8 m (p + 64) \<noteq> 0"

definition set_current_process :: "u64 \<Rightarrow> 'a page_state_scheme \<Rightarrow> 'a page_state_scheme" where
  "set_current_process process s = s\<lparr>current_process := process\<rparr>"

definition get_current_process_address :: "'a page_state_scheme \<Rightarrow> Memory_Virtual_Address" where
  "get_current_process_address s =
     \<lparr>pml4 = p_pml4_entry_free (bytes s) (current_process s), pdpt = p_pdpt_entry_free (bytes s) (current_process s),
      pd = p_pd_entry_free (bytes s) (current_process s), pt = p_pt_entry_free (bytes s) (current_process s)\<rparr>"

definition set_entry :: "u64 \<Rightarrow> u16 \<Rightarrow> u64 \<Rightarrow> 'a machine_scheme \<Rightarrow> 'a machine_scheme" where
  "set_entry table i v s = s\<lparr>bytes := store64 (bytes s) (table + 8 * ucast i) v\<rparr>"

section \<open>The tables of the current process\<close>

definition get_pml4 :: "u16 \<Rightarrow> 'a page_state_scheme \<Rightarrow> u64 \<times> 'a page_state_scheme" where
  "get_pml4 pml4_id s =
     (if current_process s = 0 \<or> p_pml4 (bytes s) (current_process s) = 0 then (MEMORY_INVALID_RETURN, s)
      else
        let e = entry (bytes s) (p_pml4 (bytes s) (current_process s)) (unat pml4_id)
        in case translator_contains_physically (translator s) e s of
             (present, s1) \<Rightarrow>
               if \<not> present then (MEMORY_INVALID_RETURN, s1)
               else (let e1 = entry (bytes s1) (p_pml4 (bytes s1) (current_process s1)) (unat pml4_id)
                     in case translator_translate_physical (translator s1) e1 s1 of
                          (v, s2) \<Rightarrow> (v AND NOT 0xFFF, s2)))"

text \<open>One entry of a table: \<open>table\<close> finds the table, again for every use.\<close>

definition entry_of :: "('a page_state_scheme \<Rightarrow> (u64 \<times> 'a page_state_scheme) run) \<Rightarrow> u16 \<Rightarrow>
    'a page_state_scheme \<Rightarrow> (u64 \<times> 'a page_state_scheme) run" where
  "entry_of table i s = run_bind (table s) (\<lambda>(t, s1). ret (entry (bytes s1) t (unat i), s1))"

definition get_pdpt :: "u16 \<Rightarrow> u16 \<Rightarrow> 'a page_state_scheme \<Rightarrow> (u64 \<times> 'a page_state_scheme) run" where
  "get_pdpt pml4_id pdpt_id s =
     (case get_pml4 pml4_id s of
        (pdb, s1) \<Rightarrow>
          if pdb = MEMORY_INVALID_RETURN then ret (MEMORY_INVALID_RETURN, s1)
          else
            run_bind (entry_of (\<lambda>s. ret (get_pml4 pml4_id s)) pdpt_id s1) (\<lambda>(e, s2).
              case translator_contains_physically (translator s2) e s2 of
                (present, s3) \<Rightarrow>
                  if \<not> present then ret (MEMORY_INVALID_RETURN, s3)
                  else
                    run_bind (translator_get_level_flags (translator s3) pdb 2 s3) (\<lambda>(fl, s4).
                      if fl AND 0x80 = 0x80 then ret (MEMORY_END_OF_TRAVERSAL_RETURN, s4)
                      else
                        run_bind (entry_of (\<lambda>s. ret (get_pml4 pml4_id s)) pdpt_id s4) (\<lambda>(e1, s5).
                          case translator_translate_physical (translator s5) e1 s5 of
                            (v, s6) \<Rightarrow> ret (v AND NOT 0xFFF, s6)))))"

definition get_pd :: "u16 \<Rightarrow> u16 \<Rightarrow> u16 \<Rightarrow> 'a page_state_scheme \<Rightarrow> (u64 \<times> 'a page_state_scheme) run" where
  "get_pd pml4_id pdpt_id pd_id s =
     run_bind (get_pdpt pml4_id pdpt_id s) (\<lambda>(pdpt, s1).
       if pdpt = MEMORY_INVALID_RETURN then ret (MEMORY_INVALID_RETURN, s1)
       else if pdpt = MEMORY_END_OF_TRAVERSAL_RETURN then ret (MEMORY_INVALID_RETURN, s1)
       else
         run_bind (entry_of (get_pdpt pml4_id pdpt_id) pd_id s1) (\<lambda>(e, s2).
           case translator_contains_physically (translator s2) e s2 of
             (present, s3) \<Rightarrow>
               if \<not> present then ret (MEMORY_INVALID_RETURN, s3)
               else
                 run_bind (translator_get_level_flags (translator s3) pdpt 1 s3) (\<lambda>(fl, s4).
                   if fl AND 0x80 = 0x80 then ret (MEMORY_END_OF_TRAVERSAL_RETURN, s4)
                   else
                     run_bind (entry_of (get_pdpt pml4_id pdpt_id) pd_id s4) (\<lambda>(e1, s5).
                       case translator_translate_physical (translator s5) e1 s5 of
                         (v, s6) \<Rightarrow> ret (v AND NOT 0xFFF, s6)))))"

text \<open>The presence test of this level is not negated in the code.\<close>

definition get_pt :: "u16 \<Rightarrow> u16 \<Rightarrow> u16 \<Rightarrow> u16 \<Rightarrow> 'a page_state_scheme \<Rightarrow> (u64 \<times> 'a page_state_scheme) run" where
  "get_pt pml4_id pdpt_id pd_id pt_id s =
     run_bind (get_pd pml4_id pdpt_id pd_id s) (\<lambda>(pd, s1).
       if pd = MEMORY_INVALID_RETURN then ret (MEMORY_INVALID_RETURN, s1)
       else if pd = MEMORY_END_OF_TRAVERSAL_RETURN then ret (MEMORY_INVALID_RETURN, s1)
       else
         run_bind (entry_of (get_pd pml4_id pdpt_id pd_id) pt_id s1) (\<lambda>(e, s2).
           case translator_contains_physically (translator s2) e s2 of
             (present, s3) \<Rightarrow>
               if present then ret (MEMORY_INVALID_RETURN, s3)
               else
                 run_bind (entry_of (get_pd pml4_id pdpt_id pd_id) pt_id s3) (\<lambda>(e1, s4).
                   case translator_translate_physical (translator s4) e1 s4 of
                     (v, s5) \<Rightarrow> ret (v AND NOT 0xFFF, s5))))"

section \<open>Creating tables\<close>

text \<open>
  A new table from the object heap, entered into slot \<open>i\<close> of \<open>parent\<close> with its translated address
  and the flags (0 in \<open>check_free_and_alloc\<close>, which enters the bare address).
\<close>

definition new_table :: "u64 \<Rightarrow> u16 \<Rightarrow> u64 \<Rightarrow> 'a page_state_scheme \<Rightarrow> u64 \<times> 'a page_state_scheme" where
  "new_table parent i flags s =
     (case malloc_same s of
        (newEntry, s1) \<Rightarrow>
          case translator_translate_virtual (translator s1) newEntry s1 of
            (phys, s2) \<Rightarrow> (newEntry, set_entry parent i (phys OR flags) s2))"

definition check_free_and_alloc_structures ::
  "Memory_Virtual_Address \<Rightarrow> u16 \<Rightarrow> 'a page_state_scheme \<Rightarrow> (bool \<times> 'a page_state_scheme) run" where
  "check_free_and_alloc_structures addr flags s =
     (case translator_contains_virtual_addr (translator s) addr 4 s of
        (present, s1) \<Rightarrow>
          if present then ret (False, s1)
          else case get_pml4 (pml4 addr) s1 of
            (_, s2) \<Rightarrow> case translator_contains_virtual_addr (translator s2) addr 1 s2 of
              (has1, s3) \<Rightarrow>
                if \<not> has1 then
                  (case new_table (p_pml4 (bytes s3) (current_process s3)) (pml4 addr) (ucast flags) s3 of
                     (e1, s4) \<Rightarrow> case new_table e1 (pdpt addr) (ucast flags) s4 of
                       (e2, s5) \<Rightarrow> case new_table e2 (pd addr) (ucast flags) s5 of
                         (_, s6) \<Rightarrow> ret (True, s6))
                else case translator_contains_virtual_addr (translator s3) addr 2 s3 of
                  (has2, s4) \<Rightarrow>
                    if \<not> has2 then
                      run_bind (get_pdpt (pml4 addr) (pdpt addr) s4) (\<lambda>(prev, s5).
                        case new_table (prev AND NOT 0xFFF) (pdpt addr) (ucast flags) s5 of
                          (e1, s6) \<Rightarrow> case new_table e1 (pd addr) (ucast flags) s6 of
                            (_, s7) \<Rightarrow> ret (True, s7))
                    else case translator_contains_virtual_addr (translator s4) addr 3 s4 of
                      (has3, s5) \<Rightarrow>
                        if \<not> has3 then
                          run_bind (get_pd (pml4 addr) (pdpt addr) (pd addr) s5) (\<lambda>(prev, s6).
                            case new_table (prev AND NOT 0xFFF) (pd addr) (ucast flags) s6 of
                              (_, s7) \<Rightarrow> ret (True, s7))
                        else ret (True, s5))"

text \<open>
  A level of \<open>check_free_and_alloc\<close>: the table of that level, created in \<open>parent\<close> when it is missing;
  \<open>None\<close> in the result is the early return at the end of a traversal.
\<close>

definition level_table :: "u64 \<times> 'a page_state_scheme \<Rightarrow> u64 \<Rightarrow> u16 \<Rightarrow> u64 option \<times> 'a page_state_scheme" where
  "level_table current parent i =
     (case current of (c, s) \<Rightarrow>
        if c = MEMORY_END_OF_TRAVERSAL_RETURN then (None, s)
        else if c = MEMORY_INVALID_RETURN then (case new_table parent i 0 s of (n, s') \<Rightarrow> (Some n, s'))
        else (Some c, s))"

text \<open>The result \<open>page & 0x1 == 0\<close> is \<open>page & (0x1 == 0)\<close>, which is 0.\<close>

definition check_free_and_alloc :: "Memory_Virtual_Address \<Rightarrow> 'a page_state_scheme \<Rightarrow> (bool \<times> 'a page_state_scheme) run" where
  "check_free_and_alloc addr s =
     (case get_pml4 (pml4 addr) s of
        (c, s1) \<Rightarrow>
          case (if c = MEMORY_INVALID_RETURN
                then new_table (p_pml4 (bytes s1) (current_process s1)) (pml4 addr) 0 s1 else (c, s1)) of
            (prev, s2) \<Rightarrow>
              run_bind (get_pdpt (pml4 addr) (pdpt addr) s2) (\<lambda>c2.
                case level_table c2 prev (pdpt addr) of
                  (None, s3) \<Rightarrow> ret (False, s3)
                | (Some prev2, s3) \<Rightarrow>
                    run_bind (get_pd (pml4 addr) (pdpt addr) (pd addr) s3) (\<lambda>c3.
                      case level_table c3 prev2 (pd addr) of
                        (None, s4) \<Rightarrow> ret (False, s4)
                      | (Some prev3, s4) \<Rightarrow>
                          run_bind (get_pt (pml4 addr) (pdpt addr) (pd addr) (pt addr) s4) (\<lambda>(c4, s5).
                            let s6 = (if c4 = MEMORY_INVALID_RETURN then snd (new_table prev3 (pt addr) 0 s5) else s5)
                            in ret (entry (bytes s6) prev3 (unat (pt addr)) AND (if (1 :: u64) = 0 then 1 else 0) \<noteq> 0, s6)))))"

section \<open>Free virtual addresses\<close>

partial_function (option) find_virt_loop :: "u64 \<Rightarrow> 'a page_state_scheme \<Rightarrow> (halt + u64 \<times> 'a page_state_scheme) option" where
  "find_virt_loop virt_addr s =
     (if virt_addr > 0 then
        let (c1, s1) = translator_contains_immideate_virtual_addr (translator s) virt_addr 1 s
        in if c1 then find_virt_loop ((virt_addr + 0x8000000000) AND NOT 0x7FFFFFFFFF) s1
           else let (c2, s2) = translator_contains_immideate_virtual_addr (translator s1) virt_addr 2 s1
           in if c2 then find_virt_loop ((virt_addr + 0x40000000) AND NOT 0x3FFFFFFF) s2
           else let (c3, s3) = translator_contains_immideate_virtual_addr (translator s2) virt_addr 3 s2
           in if c3 then find_virt_loop ((virt_addr + 0x200000) AND NOT 0x100000) s3
           else let (c4, s4) = translator_contains_immideate_virtual_addr (translator s3) virt_addr 4 s3
           in if c4 then find_virt_loop (virt_addr + 0x1000) s4
           else Some (Inr (virt_addr, s4))
      else Some (Inl (Abort ''Out of virtual memory space'')))"

definition set_entry_free :: "u64 \<Rightarrow> 'a page_state_scheme \<Rightarrow> 'a page_state_scheme" where
  "set_entry_free virt_addr s =
     (let p = current_process s;
          m = store16 (bytes s) (p + 26) (ucast (0x1FF AND drop_bit 12 virt_addr));
          m = store16 m (p + 24) (ucast (0x1FF AND drop_bit 21 virt_addr));
          m = store16 m (p + 22) (ucast (0x1FF AND drop_bit 30 virt_addr));
          m = store16 m (p + 20) (ucast (0x1FF AND drop_bit 39 virt_addr))
      in s\<lparr>bytes := m\<rparr>)"

definition find_free_virt :: "'a page_state_scheme \<Rightarrow> 'a page_state_scheme run" where
  "find_free_virt s =
     (let virt_addr = get_virtual_address (get_current_process_address s)
      in if p_pml4_entry_free (bytes s) (current_process s) = 512 then stop (Abort ''Out of virtual memory space'')
         else if p_pml4_entry_free (bytes s) (current_process s) < 256 then stop (Abort ''Lower half kernel not supported'')
         else run_bind (find_virt_loop virt_addr s) (\<lambda>(v, s1). ret (set_entry_free v s1)))"

section \<open>Mapping pages\<close>

definition SECURITY_FLAG_MASK :: u64 where "SECURITY_FLAG_MASK = 0x8000000000000FFF"

definition map_next_to :: "u64 \<Rightarrow> u64 \<Rightarrow> 'a page_state_scheme \<Rightarrow> (u64 \<times> 'a page_state_scheme) run" where
  "map_next_to page flags0 s =
     (let flags = flags0 AND SECURITY_FLAG_MASK;
          addr0 = get_current_process_address s
      in run_bind (check_free_and_alloc_structures addr0 (ucast flags) s) (\<lambda>(is_free, s1).
         run_bind (if \<not> is_free then
                     run_bind (find_free_virt s1) (\<lambda>s2.
                       run_bind (check_free_and_alloc_structures (get_current_process_address s2) (ucast flags) s2)
                         (\<lambda>(_, s3). ret (get_current_process_address s2, s3)))
                   else ret (addr0, s1)) (\<lambda>(addr, s4).
         run_bind (get_pd (p_pml4_entry_free (bytes s4) (current_process s4)) (p_pdpt_entry_free (bytes s4) (current_process s4))
                     (p_pd_entry_free (bytes s4) (current_process s4)) s4) (\<lambda>(table, s5).
           let s6 = set_entry table (p_pt_entry_free (bytes s5) (current_process s5)) (page OR flags) s5;
               virt = get_virtual_address addr
           in run_bind (translator_add_entry malloc (translator s6) virt page 0x1000 s6) (\<lambda>s7.
              run_bind (find_free_virt s7) (\<lambda>s8. ret (virt, s8)))))))"

definition alloc_next_page :: "u8 \<Rightarrow> 'a page_state_scheme \<Rightarrow> (u64 \<times> 'a page_state_scheme) run" where
  "alloc_next_page flags s =
     (let sec = section_at (sections s) (first_free_mem s);
          byte = sec_bits (bytes s) sec + first_free_page s div 8;
          m = store8 (bytes s) byte (load8 (bytes s) byte OR push_bit (unat (first_free_page s mod 8)) 1);
          phys = sec_ptr m sec + 4096 * first_free_page s
      in run_bind (map_next_to phys (ucast flags) (s\<lparr>bytes := m\<rparr>)) (\<lambda>(virt, s1).
         run_bind (find_next_free s1) (\<lambda>s2. ret (virt, s2))))"

text \<open>\<open>None\<close> is the address 0 after the last one.\<close>

partial_function (option) directory_loop :: "u64 \<Rightarrow> 'a page_state_scheme \<Rightarrow> (u64 option \<times> 'a page_state_scheme) option" where
  "directory_loop addr s =
     (let (present, s1) = translator_contains_immideate_virtual_addr (translator s) addr 4 s
      in if present
         then (if addr + 0x1FFFFF = 0 then Some (None, s1) else directory_loop (addr + 0x1FFFFF) s1)
         else Some (Some addr, s1))"

text \<open>The flags are \<open>1 << 1 | 1 + 1 << 2 * !superviser | 1\<close>, in which \<open>+\<close> binds before \<open><<\<close>.\<close>

definition directory_flags :: "bool \<Rightarrow> u16" where
  "directory_flags superviser = push_bit 1 1 OR push_bit (2 * (if superviser then 0 else 1)) (1 + 1) OR 1"

definition alloc_next_free_page_directory :: "'a page_state_scheme \<Rightarrow> (u64 \<times> 'a page_state_scheme) run" where
  "alloc_next_free_page_directory s =
     (case directory_loop 0xFFFFC00000000000 s of
        None \<Rightarrow> None
      | Some (None, s1) \<Rightarrow> ret (MEMORY_INVALID_RETURN, s1)
      | Some (Some addr, s1) \<Rightarrow>
          let flags = directory_flags (p_superviser (bytes s1) (current_process s1));
              mem_addr = convertToAddr addr
          in run_bind (check_free_and_alloc_structures mem_addr flags s1) (\<lambda>(is_free, s2).
               if \<not> is_free then stop (Abort ''Invalid new page operation'')
               else
                 run_bind (get_pd (pml4 mem_addr) (pdpt mem_addr) (pd mem_addr) s2) (\<lambda>(table, s3).
                 run_bind (alloc_physical_page s3) (\<lambda>(page, s4).
                   ret (addr, set_entry table 0 (page OR ucast flags) s4)))))"

section \<open>Mapping a range\<close>

text \<open>
  \<open>map_address_space\<close>. The results of the walks to the first and the last level are not used, but
  the walks move the cache and may stop the machine; \<open>visit\<close> makes such a call.
\<close>

definition visit :: "('s \<Rightarrow> (u64 \<times> 's) run) \<Rightarrow> 's \<Rightarrow> 's run" where
  "visit call s = run_bind (call s) (\<lambda>(_, s'). ret s')"

record map_indices =
  i_pml4 :: u16
  i_pdpt :: u16
  i_pd :: u16
  i_pt :: u16

text \<open>The three carries of an iteration. Where the code passes \<open>pt_id\<close> for the directory index, so does the model.\<close>

definition carry_pt :: "map_indices \<Rightarrow> u64 \<Rightarrow> 'a page_state_scheme \<Rightarrow> (map_indices \<times> u64 \<times> 'a page_state_scheme) run" where
  "carry_pt i table s =
     (if i_pt i \<ge> 512 then
        let j = i\<lparr>i_pt := 0, i_pd := i_pd i + 1\<rparr>
        in run_bind (get_pd (i_pml4 j) (i_pdpt j) (i_pd j) s) (\<lambda>(t, s1).
           run_bind (visit (get_pt (i_pml4 j) (i_pdpt j) (i_pt j) (i_pt j)) s1) (\<lambda>s2. ret (j, t, s2)))
      else ret (i, table, s))"

definition carry_pd :: "u16 \<Rightarrow> map_indices \<Rightarrow> u64 \<Rightarrow> 'a page_state_scheme \<Rightarrow> (map_indices \<times> u64 \<times> 'a page_state_scheme) run" where
  "carry_pd flags i table s =
     (if i_pd i \<ge> 512 then
        let j = i\<lparr>i_pd := 0, i_pdpt := i_pdpt i + 1\<rparr>
        in run_bind (visit (get_pdpt (i_pml4 j) (i_pdpt j)) s) (\<lambda>s1.
           run_bind (get_pd (i_pml4 j) (i_pdpt j) (i_pd j) s1) (\<lambda>(t, s2).
             let s3 = set_entry t (i_pt j) (entry (bytes s2) t (unat (i_pt j)) AND NOT 0xFFF) s2;
                 s4 = set_entry t (i_pt j) (entry (bytes s3) t (unat (i_pt j)) OR ucast (flags AND 0xFFF)) s3
             in run_bind (visit (get_pt (i_pml4 j) (i_pdpt j) (i_pt j) (i_pt j)) s4) (\<lambda>s5. ret (j, t, s5))))
      else ret (i, table, s))"

definition carry_pdpt :: "map_indices \<Rightarrow> u64 \<Rightarrow> 'a page_state_scheme \<Rightarrow> (map_indices \<times> u64 \<times> 'a page_state_scheme) run" where
  "carry_pdpt i table s =
     (if i_pdpt i \<ge> 512 then
        let j = i\<lparr>i_pdpt := 0, i_pml4 := i_pml4 i + 1\<rparr>
        in run_bind (visit (\<lambda>s. ret (get_pml4 (i_pml4 j) s)) s) (\<lambda>s1.
           run_bind (visit (get_pdpt (i_pml4 j) (i_pdpt j)) s1) (\<lambda>s2.
           run_bind (get_pd (i_pml4 j) (i_pdpt j) (i_pd j) s2) (\<lambda>(t, s3).
           run_bind (visit (get_pt (i_pml4 j) (i_pdpt j) (i_pt j) (i_pt j)) s3) (\<lambda>s4. ret (j, t, s4)))))
      else ret (i, table, s))"

text \<open>The loop over the pages, with \<open>n\<close> of them left and \<open>cur\<close> done.\<close>

primrec map_space_loop :: "nat \<Rightarrow> u64 \<Rightarrow> u64 \<Rightarrow> u16 \<Rightarrow> map_indices \<Rightarrow> u64 \<Rightarrow> 'a page_state_scheme \<Rightarrow> 'a page_state_scheme run" where
  "map_space_loop 0 cur phys flags i table s = ret s"
| "map_space_loop (Suc n) cur phys flags i table s =
     run_bind (carry_pt i table s) (\<lambda>(i1, t1, s1).
     run_bind (carry_pd flags i1 t1 s1) (\<lambda>(i2, t2, s2).
     run_bind (carry_pdpt i2 t2 s2) (\<lambda>(i3, t3, s3).
       map_space_loop n (cur + 1) phys flags (i3\<lparr>i_pt := i_pt i3 + 1\<rparr>) t3
         (set_entry t3 (i_pt i3) ((phys + 4096 * cur) AND NOT 0xFFF OR ucast (flags AND 0xFFF)) s3))))"

definition map_address_space :: "map_indices \<Rightarrow> u64 \<Rightarrow> u64 \<Rightarrow> u16 \<Rightarrow> 'a page_state_scheme \<Rightarrow> 'a page_state_scheme run" where
  "map_address_space i physical_address len flags s =
     run_bind (visit (\<lambda>s. ret (get_pml4 (i_pml4 i) s)) s) (\<lambda>s1.
     run_bind (visit (get_pdpt (i_pml4 i) (i_pdpt i)) s1) (\<lambda>s2.
     run_bind (get_pd (i_pml4 i) (i_pdpt i) (i_pd i) s2) (\<lambda>(table, s3).
     run_bind (visit (get_pt (i_pml4 i) (i_pdpt i) (i_pt i) (i_pt i)) s3) (\<lambda>s4.
       map_space_loop (unat len) 0 physical_address flags i table s4))))"

section \<open>Starting up\<close>

text \<open>The loop that fills the static page table, after \<open>n\<close> pages.\<close>

primrec heap_pages :: "u64 \<Rightarrow> u64 \<Rightarrow> nat \<Rightarrow> 'a machine_scheme \<Rightarrow> 'a machine_scheme" where
  "heap_pages table phys 0 s = s"
| "heap_pages table phys (Suc i) s = set_entry table (of_nat i) ((phys + of_nat i * 4096) OR 3) (heap_pages table phys i s)"

definition find_page_area :: "u64 \<Rightarrow> 'a page_state_scheme \<Rightarrow> (u64 \<times> 'a page_state_scheme) run" where
  "find_page_area uninit s =
     run_bind (find_next_free_page_area 1 32 256 0 0 0 uninit s) (\<lambda>addr.
       let virt_addr = get_virtual_address addr;
           (phys_addr, s1) = alloc_physical_page_range 32 s;
           s2 = s1\<lparr>paging_pml4 := cr3 s1 + PAGE_VIRT_OFFSET\<rparr>;
           s3 = set_entry (paging_pml4 s2) (pml4 addr) ((paging_pdpt s2 - INTERNAL_MEMORY_OFFSET s2) OR 3) s2;
           s4 = set_entry (paging_pdpt s3) (pdpt addr) ((paging_pd s3 - INTERNAL_MEMORY_OFFSET s3) OR 3) s3;
           s5 = set_entry (paging_pd s4) (pd addr) ((paging_pt s4 - INTERNAL_MEMORY_OFFSET s4) OR 3) s4;
           s6 = heap_pages (paging_pt s5) phys_addr 32 s5
       in run_bind (translator_add_entry malloc (translator s6) virt_addr phys_addr (32 * 4096) s6) (\<lambda>s7.
            ret (virt_addr, s7)))"

text \<open>An entry of the boot loader's memory map: base, length, and whether its type is \<open>USABLE\<close>.\<close>

type_synonym memmap_entry = "u64 \<times> u64 \<times> bool"

primrec fill_sections :: "memmap_entry list \<Rightarrow> u64 \<Rightarrow> 'a page_state_scheme \<Rightarrow> 'a page_state_scheme run" where
  "fill_sections [] use_index s = ret s"
| "fill_sections (e # es) use_index s =
     (case e of (base, len, usable) \<Rightarrow>
        if \<not> usable then fill_sections es use_index s
        else
          let sec = section_at (sections s) use_index;
              m = store64 (bytes s) sec base;
              m = store64 m (sec + 8) len;
              m = store32 m (sec + 24) (ucast (sec_size m sec div (4096 * 8)))
          in run_bind (malloc (ucast (sec_bits_size m sec)) (s\<lparr>bytes := m\<rparr>)) (\<lambda>(bits, s1).
               fill_sections es (use_index + 1) (s1\<lparr>bytes := store64 (bytes s1) (sec + 16) bits\<rparr>)))"

definition init_page :: "u64 \<Rightarrow> memmap_entry list \<Rightarrow> u64 \<Rightarrow> u64 \<Rightarrow> 'a page_state_scheme \<Rightarrow> 'a page_state_scheme run" where
  "init_page uninit memmap virtual_base physical_base s =
     (let s0 = s\<lparr>INTERNAL_MEMORY_OFFSET := virtual_base - physical_base\<rparr>
      in run_bind (create_translator malloc s0) (\<lambda>(tr, s1).
         run_bind (translator_init_kernel_space malloc tr PAGE_VIRT_OFFSET (INTERNAL_MEMORY_OFFSET s1)
                     (s1\<lparr>translator := tr\<rparr>)) (\<lambda>s2.
           let s3 = s2\<lparr>mem_lenght := of_nat (length (filter (\<lambda>(_, _, usable). usable) memmap)), first_free_mem := 0,
                       first_free_page := 0\<rparr>
           in run_bind (malloc (28 * mem_lenght s3) s3) (\<lambda>(secs, s4).
              run_bind (fill_sections memmap 0 (s4\<lparr>sections := secs\<rparr>)) (\<lambda>s5.
              run_bind (find_page_area uninit s5) (\<lambda>(heap_ptr, s6).
                init_same heap_ptr (4096 * 32) 4096 s6))))))"

section \<open>A page from a small memory\<close>

text \<open>A page manager with one section and a translator that knows one page, the tables of the process, mapped at the top half.\<close>

definition paged_bytes :: mem where
  "paged_bytes = store32 (store64 (store64 (store64 (store64 (store64 (store64 (store64 (store64 (store64 (store64 (store32
     (store16 (store16 (store64 (\<lambda>_. 0) 0x408 0xFFFF800000000000) 0x414 256) 0x41A 2) 0x500 1) 0x508 0x600) 0x510 0x600)
     0x600 0xFFFF800000000000) 0x608 0x10000) 0x610 0x1000) 0x700 0x100000) 0x710 0x780) 0x1008 0x1000)
     0xFFFF800000000000 0x10003) 0xFFFF800000000800 0x10003) 0x718 1"

definition paged :: "mem \<Rightarrow> bool" where
  "paged m \<longleftrightarrow> load64 m 0x408 = 0xFFFF800000000000 \<and> load16 m 0x414 = 256 \<and> load16 m 0x416 = 0 \<and> load16 m 0x418 = 0 \<and>
     load16 m 0x41A = 2 \<and> load32 m 0x500 = 1 \<and> load64 m 0x508 = 0x600 \<and> load64 m 0x510 = 0x600 \<and>
     load64 m 0x600 = 0xFFFF800000000000 \<and> load64 m 0x608 = 0x10000 \<and> load64 m 0x610 = 0x1000 \<and>
     load64 m 0x700 = 0x100000 \<and> load64 m 0x710 = 0x780 \<and> load32 m 0x718 = 1 \<and> load64 m 0x1008 = 0x1000 \<and>
     load64 m 0xFFFF800000000000 = 0x10003 \<and> load64 m 0xFFFF800000000800 = 0x10003"

lemma paged_cong:
  assumes "paged m" "\<And>x. x \<notin> span 0x100 44 \<Longrightarrow> m' x = m x"
  shows "paged m'"
proof -
  have out: "m' x = m x" if "apart a k 0x100 44" "x \<in> span a k" for a x k
    using that apart_span [OF that(1)] by (intro assms(2)) blast
  have "load64 m' a = load64 m a" if "apart a 8 0x100 44" for a by (rule load64_cong) (rule out [OF that])
  moreover have "load32 m' a = load32 m a" if "apart a 4 0x100 44" for a by (rule load32_cong) (rule out [OF that])
  moreover have "load16 m' a = load16 m a" if "apart a 2 0x100 44" for a
    unfolding load16_def by (rule arg_cong [OF load_le_cong]) (rule out [OF that], simp_all)
  ultimately show ?thesis using assms(1) by (simp add: paged_def)
qed

lemma paged_bytes: "paged paged_bytes"
proof -
  have "load16 (\<lambda>_. 0) a = 0" for a by (simp add: load16_def numeral_2_eq_2)
  then show ?thesis by (simp add: paged_def paged_bytes_def)
qed

lemma paged_contains:
  assumes "paged (bytes s)"
  shows "translator_contains_immideate_virtual_addr 0x500 a level s =
    (let mask = push_bit (9 * (4 - unat level)) (NOT 0xFFF) in
     (0xFFFF800000000000 AND mask \<le> a AND mask \<and> 0xFFFF800000001000 \<ge> a AND mask, s))"
proof -
  have "unat (1 :: u32) = Suc 0" by simp
  then show ?thesis
    using assms set_cache_same [of s "0x500" "0x600"]
    by (auto simp: translator_contains_immideate_virtual_addr_def paged_def Let_def tr_size_def tr_first_def tr_cache_def
        e_virt_def e_len_def e_next_def)
qed

lemma paged_physically:
  assumes "paged (bytes s)" "e AND NOT 0xFFF = 0x10000"
  shows "translator_contains_physically 0x500 e s = (True, s)"
    "translator_translate_physical 0x500 e s = (0xFFFF800000000000 + (e AND 0xFFF), s)"
proof -
  have "unat (1 :: u32) = Suc 0" by simp
  then show "translator_contains_physically 0x500 e s = (True, s)"
    using assms set_cache_same [of s "0x500" "0x600"]
    by (auto simp: translator_contains_physically_def paged_def Let_def tr_size_def tr_first_def tr_cache_def
        e_phys_def e_len_def e_next_def phys_in_def)
  show "translator_translate_physical 0x500 e s = (0xFFFF800000000000 + (e AND 0xFFF), s)"
    using assms by (simp add: translator_translate_physical_def paged_def Let_def tr_cache_def e_phys_def e_virt_def)
qed

definition at_pages :: "page_state \<Rightarrow> bool" where
  "at_pages s \<longleftrightarrow> paged (bytes s) \<and> cr3 s = 0x10000 \<and> current_process s = 0x400 \<and> translator s = 0x500"

lemma paged_tables:
  assumes "at_pages s"
  shows "get_pml4 256 s = (0xFFFF800000000000, s)" "get_pdpt 256 0 s = ret (0xFFFF800000000000, s)"
    "get_pd 256 0 0 s = ret (0xFFFF800000000000, s)"
proof -
  have p: "paged (bytes s)" and f: "cr3 s = 0x10000" "current_process s = 0x400" "translator s = 0x500"
    using assms by (auto simp: at_pages_def)
  note l = p [unfolded paged_def]
  note ph = paged_physically [OF p]
  show 1: "get_pml4 256 s = (0xFFFF800000000000, s)"
    using l by (simp add: get_pml4_def f p_pml4_def entry_def ph)
  have fl: "translator_get_level_flags 0x500 0xFFFF800000000000 2 s = ret (3, s)"
    "translator_get_level_flags 0x500 0xFFFF800000000000 1 s = ret (3, s)"
    using l by (simp_all add: translator_get_level_flags_def Let_def f entry_def ph FRAME_MASK_def)
  show 2: "get_pdpt 256 0 s = ret (0xFFFF800000000000, s)"
    using l by (simp add: get_pdpt_def 1 entry_of_def f fl entry_def ph MEMORY_INVALID_RETURN_def)
  show "get_pd 256 0 0 s = ret (0xFFFF800000000000, s)"
    using l by (simp add: get_pd_def 2 entry_of_def f fl entry_def ph MEMORY_INVALID_RETURN_def MEMORY_END_OF_TRAVERSAL_RETURN_def)
qed

lemma paged_structures:
  assumes "at_pages s"
  shows "check_free_and_alloc_structures (get_current_process_address s) fl s = ret (True, s)"
    "get_virtual_address (get_current_process_address s) = 0xFFFF800000002000"
proof -
  have p: "paged (bytes s)" and f: "cr3 s = 0x10000" "current_process s = 0x400" "translator s = 0x500"
    using assms by (auto simp: at_pages_def)
  have a: "get_current_process_address s = \<lparr>pml4 = 256, pdpt = 0, pd = 0, pt = 2\<rparr>"
    using p by (simp add: get_current_process_address_def paged_def f p_pml4_entry_free_def p_pdpt_entry_free_def
        p_pd_entry_free_def p_pt_entry_free_def)
  have v: "translateAddrToInt \<lparr>pml4 = 256, pdpt = 0, pd = 0, pt = 2\<rparr> = 0xFFFF800000002000"
    by (simp add: translateAddrToInt_def Let_def)
  show "check_free_and_alloc_structures (get_current_process_address s) fl s = ret (True, s)"
    by (simp add: check_free_and_alloc_structures_def translator_contains_virtual_addr_def a v f paged_contains [OF p] paged_tables [OF assms])
  show "get_virtual_address (get_current_process_address s) = 0xFFFF800000002000"
    by (simp add: a get_virtual_address_def Let_def)
qed

text \<open>The node of the new page: the heap block at \<open>0x1000\<close> gives its last 40 bytes.\<close>

lemma paged_adds:
  assumes "at_pages s" "free_mem_next s = 0x1000"
  defines "m2 \<equiv> store64 (store64 (memset 0x1FE0 0 32 (bytes s)) 0x1008 0xFD8) 0x1FD8 40"
  defines "m3 \<equiv> store64 (store64 (store64 (store64 (store64 (store64 m2 0x1FF8 (load64 m2 0x618)) 0x618 0x1FE0) 0x1FE0 0xFFFF800000002000)
    0x1FE8 0x100000) 0x1FF0 0x1000) 0x510 0x1FE0"
  shows "translator_add_entry malloc 0x500 0xFFFF800000002000 0x100000 0x1000 s = ret (s\<lparr>bytes := store32 m3 0x500 2\<rparr>)"
proof -
  have p: "paged (bytes s)" using assms(1) by (simp add: at_pages_def)
  note l = p [unfolded paged_def]
  have search: "malloc_search (bytes s) 32 0 0x1000 = Some (0, 0x1000)"
    by (rule malloc_search_stop) (use l in simp_all)
  have "malloc 32 s = ret (0x1FE0, s\<lparr>bytes := m2\<rparr>)"
    using l by (simp add: malloc_def search assms(2) malloc_take_def Let_def m2_def load64_memset_apart)
  moreover have "tr_size m3 0x500 = 1"
    using l by (simp add: tr_size_def m3_def m2_def load_memset_apart)
  ultimately show ?thesis
    using l by (simp add: translator_add_entry_def Let_def tr_size_def tr_first_def adjoins_def e_virt_def e_phys_def e_len_def e_next_def m3_def)
qed

text \<open>The translator of two entries, the tables and the new page; the next free address is in the next slot of the top table.\<close>

definition two_pages :: "mem \<Rightarrow> bool" where
  "two_pages m \<longleftrightarrow> load16 m 0x414 = 256 \<and> load16 m 0x416 = 0 \<and> load16 m 0x418 = 0 \<and> load16 m 0x41A = 2 \<and>
     load32 m 0x500 = 2 \<and> load64 m 0x508 = 0x600 \<and>
     load64 m 0x600 = 0xFFFF800000000000 \<and> load64 m 0x610 = 0x1000 \<and> load64 m 0x618 = 0x1FE0 \<and>
     load64 m 0x1FE0 = 0xFFFF800000002000 \<and> load64 m 0x1FF0 = 0x1000 \<and>
     (load64 m 0x510 = 0x600 \<or> load64 m 0x510 = 0x1FE0)"

lemma two_contains:
  fixes s :: "'a page_state_scheme"
  assumes "two_pages (bytes s)"
  defines "hit v msk a \<equiv> v AND msk \<le> a AND msk \<and> v + 0x1000 \<ge> a AND msk"
  shows "translator_contains_immideate_virtual_addr 0x500 a level s =
    (let msk = push_bit (9 * (4 - unat level)) (NOT 0xFFF) in
     if hit 0xFFFF800000000000 msk a then (True, set_cache 0x500 0x600 s)
     else if hit 0xFFFF800000002000 msk a then (True, set_cache 0x500 0x1FE0 s)
     else (False, s))"
proof -
  let ?m = "bytes s"
  note l = assms(1) [unfolded two_pages_def]
  have "e_virt ?m (tr_cache ?m 0x500) AND (if b then 1 else 0) = 0" for b
    using l by (cases b; elim conjE disjE) (simp_all add: tr_cache_def e_virt_def)
  moreover have "tr_search m P e 2 = (if P e then Some e else if P (e_next m e) then Some (e_next m e) else None)" for m P e
    by (simp add: numeral_2_eq_2)
  moreover have "tr_first ?m 0x500 = 0x600" "unat (tr_size ?m 0x500) = 2" "e_next ?m 0x600 = 0x1FE0" "e_virt ?m 0x600 = 0xFFFF800000000000"
    "e_virt ?m 0x1FE0 = 0xFFFF800000002000" "e_len ?m 0x600 = 0x1000" "e_len ?m 0x1FE0 = 0x1000"
    using l by (simp_all add: tr_first_def tr_size_def e_next_def e_virt_def e_len_def)
  moreover have "(case if A then Some x else if B then Some y else None of None \<Rightarrow> c | Some e \<Rightarrow> f e) = (if A then f x else if B then f y else c)"
    for A B c and x y :: u64 and f :: "u64 \<Rightarrow> bool \<times> 'a page_state_scheme"
    by simp
  ultimately show ?thesis
    by (simp add: translator_contains_immideate_virtual_addr_def Let_def hit_def cong: if_cong split del: if_split)
qed

lemma two_find:
  assumes t: "two_pages (bytes s)" and f: "current_process s = 0x400" "translator s = 0x500"
  shows "find_free_virt s = ret (set_entry_free 0xFFFF808000000000 (set_cache 0x500 0x600 s))"
proof -
  let ?s = "set_cache 0x500 0x600 s"
  have t': "two_pages (bytes ?s)" and f': "translator ?s = 0x500"
    using t f by (simp_all add: two_pages_def set_cache_def)
  have a: "get_current_process_address s = \<lparr>pml4 = 256, pdpt = 0, pd = 0, pt = 2\<rparr>"
    using t by (simp add: get_current_process_address_def two_pages_def f p_pml4_entry_free_def p_pdpt_entry_free_def
        p_pd_entry_free_def p_pt_entry_free_def)
  have v: "get_virtual_address \<lparr>pml4 = 256, pdpt = 0, pd = 0, pt = 2\<rparr> = 0xFFFF800000002000"
    by (simp add: get_virtual_address_def Let_def)
  have "find_virt_loop 0xFFFF800000002000 s = find_virt_loop 0xFFFF808000000000 ?s"
    by (subst find_virt_loop.simps) (simp add: f two_contains [OF t])
  also have "\<dots> = ret (0xFFFF808000000000, ?s)"
    by (subst find_virt_loop.simps) (simp add: f' two_contains [OF t'] ret_def)
  finally show ?thesis
    using t by (simp add: find_free_virt_def a v f p_pml4_entry_free_def two_pages_def)
qed

lemma paged_page:
  assumes s: "at_pages s" and h: "free_mem_next s = 0x1000" and k: "sections s = 0x700" "mem_lenght s = 1" "first_free_mem s = 0" "first_free_page s = 0"
  shows "\<exists>m. alloc_next_page 3 s = ret (0xFFFF800000002000, s\<lparr>bytes := m\<rparr>)"
proof -
  have p: "paged (bytes s)" and f: "cr3 s = 0x10000" "current_process s = 0x400" "translator s = 0x500"
    using s by (auto simp: at_pages_def)
  note l = p [unfolded paged_def]
  let ?m1 = "store8 (bytes s) 0x780 (load8 (bytes s) 0x780 OR 1)"
  let ?s1 = "s\<lparr>bytes := ?m1\<rparr>"
  define s2 where "s2 = s\<lparr>bytes := store64 ?m1 0xFFFF800000000010 0x100003\<rparr>"
  have ok: "at_pages ?s1" "at_pages s2"
    using l f by (simp_all add: at_pages_def paged_def s2_def load_store8_apart)
  note add = paged_adds [OF ok(2)]
  define m3 where "m3 = (let m2 = store64 (store64 (memset 0x1FE0 0 32 (bytes s2)) 0x1008 0xFD8) 0x1FD8 40
    in store64 (store64 (store64 (store64 (store64 (store64 m2 0x1FF8 (load64 m2 0x618)) 0x618 0x1FE0) 0x1FE0 0xFFFF800000002000)
      0x1FE8 0x100000) 0x1FF0 0x1000) 0x510 0x1FE0)"
  let ?s3 = "s\<lparr>bytes := store32 m3 0x500 2\<rparr>"
  have add: "translator_add_entry malloc 0x500 0xFFFF800000002000 0x100000 0x1000 s2 = ret ?s3"
    using paged_adds [OF ok(2)] h by (simp add: m3_def Let_def s2_def)
  have two: "two_pages (bytes ?s3)"
    using l by (simp add: two_pages_def m3_def Let_def s2_def load64_memset_apart load_memset_apart load_store8_apart)
  let ?s4 = "set_entry_free 0xFFFF808000000000 (set_cache 0x500 0x600 ?s3)"
  have "find_free_virt ?s3 = ret ?s4"
    by (rule two_find [OF two]) (simp_all add: s2_def f)
  then have "map_next_to 0x100000 3 ?s1 = ret (0xFFFF800000002000, ?s4)"
    using add [unfolded s2_def] l f ok(1)
    by (simp add: map_next_to_def Let_def paged_structures paged_tables set_entry_def SECURITY_FLAG_MASK_def
        p_pml4_entry_free_def p_pdpt_entry_free_def p_pd_entry_free_def p_pt_entry_free_def )
  moreover have "find_next_free ?s4 = ret ?s4"
  proof -
    have "load64 (bytes ?s4) 0x710 = 0x780" "load32 (bytes ?s4) 0x718 = 1" "bit (load8 (bytes ?s4) 0x780) 0"
      using l by (simp_all add: set_entry_free_def set_cache_def Let_def m3_def s2_def f load64_memset_apart load_memset_apart load_store8_apart bit_simps)
    moreover have "sections ?s4 = 0x700" "mem_lenght ?s4 = 1" "first_free_mem ?s4 = 0" "first_free_page ?s4 = 0"
      using k by (simp_all add: set_entry_free_def set_cache_def Let_def s2_def)
    ultimately show ?thesis
      using find_free_loop_here [of 0 1 0 "bytes ?s4" "0x700" 0]
      by (simp add: find_next_free_def section_at_def sec_bits_def sec_bits_size_def)
  qed
  ultimately have "alloc_next_page 3 s = ret (0xFFFF800000002000, ?s4)"
    using l k by (simp add: alloc_next_page_def Let_def sec_bits_def sec_ptr_def section_at_def load_store8_apart)
  moreover have "?s4 = s\<lparr>bytes := bytes ?s4\<rparr>"
    by (simp add: set_entry_free_def set_cache_def s2_def Let_def)
  ultimately show ?thesis by metis
qed

end
