(* ===== verification/Free_Regions.thy ===== *)
theory Free_Regions
  imports Page_Manager
begin

text \<open>
  What \<open>find_free_virt\<close> finds: its four tests of regions of 512 GB, 1 GB, 2 MB and 4 KB come down to the first one.
  A region counts as used once a mapping touches it, and a mapping that touches a smaller region touches the 512 GB around it.
\<close>

section \<open>Regions\<close>

definition SLOT :: nat where "SLOT = 549755813888"

text \<open>The test of the code for entry \<open>e\<close> and the region of \<open>k\<close> bytes around \<open>a\<close>; the end of an entry counts as mapped.\<close>

definition region_hit :: "mem \<Rightarrow> nat \<Rightarrow> nat \<Rightarrow> u64 \<Rightarrow> bool" where
  "region_hit m k a e \<longleftrightarrow> unat (e_virt m e) div k \<le> a div k \<and> a div k * k \<le> unat (e_virt m e) + unat (e_len m e)"

text \<open>The 512 GB region number \<open>r\<close> is touched by a mapping.\<close>

definition slot_used :: "mem \<Rightarrow> u64 \<Rightarrow> nat \<Rightarrow> bool" where
  "slot_used m t r \<longleftrightarrow> (\<exists>e \<in> set (tr_ptrs m t). region_hit m SLOT (r * SLOT) e)"

lemma unat_high: "unat (a AND NOT (mask n)) = unat a div 2 ^ n * 2 ^ n" for a :: u64
proof -
  have "(a AND NOT (mask n)) + take_bit n a = a"
    using and_split [of a "mask n"] by (simp add: take_bit_eq_mask)
  then have "a AND NOT (mask n) = a - take_bit n a" by (simp add: eq_diff_eq)
  moreover have "unat (take_bit n a) = unat a mod 2 ^ n"
    by (simp only: unsigned_take_bit_eq) (simp add: take_bit_eq_mod)
  ultimately show ?thesis
    by (simp add: unat_sub_no_wrap minus_mod_eq_div_mult)
qed

lemma region_hit_larger:
  assumes "region_hit m k a e" "K = k * c" "0 < c"
  shows "region_hit m K a e"
proof -
  have "unat (e_virt m e) div k div c \<le> a div k div c"
    using assms(1) unfolding region_hit_def by (blast intro: div_le_mono)
  moreover have "a div k div c * (k * c) \<le> a div k * k"
    using div_times_less_eq_dividend [of "a div k" c] by (simp add: ac_simps)
  ultimately show ?thesis
    using assms(1) unfolding region_hit_def assms(2) div_mult2_eq by linarith
qed

text \<open>The first of the entries decides; on a miss nothing changes.\<close>

lemma contains_region:
  assumes wf: "tr_wf (bytes s) t" and n: "push_bit (9 * (4 - unat level)) (NOT 0xFFF) = (NOT (mask n) :: u64)"
  shows "translator_contains_immideate_virtual_addr t a level s =
    (case find (region_hit (bytes s) (2 ^ n) (unat a)) (tr_ptrs (bytes s) t) of
       None \<Rightarrow> (False, s) | Some e \<Rightarrow> (True, set_cache t e s))"
proof -
  let ?m = "bytes s"
  have even: "\<not> bit (e_virt ?m p) 0" if "p \<in> set (tr_ptrs ?m t)" for p
  proof -
    have "e_virt ?m p = e_virt ?m p AND NOT 0xFFF" using wf that by (simp add: tr_wf_def page_aligned_def)
    moreover have "\<not> bit (e_virt ?m p AND NOT 0xFFF) 0" by (simp only: bit_and_iff bit_not_iff) simp
    ultimately show ?thesis by metis
  qed
  have c: "e_virt ?m (tr_cache ?m t) AND (if b then 1 else 0) = 0" for b
    using even wf by (auto simp: tr_wf_def and_one_eq bit_0 odd_iff_mod_2_eq_one)
  have "find (\<lambda>e. e_virt ?m e AND NOT (mask n) \<le> a AND NOT (mask n) \<and> e_virt ?m e + e_len ?m e \<ge> a AND NOT (mask n)) (tr_ptrs ?m t) =
    find (region_hit ?m (2 ^ n) (unat a)) (tr_ptrs ?m t)"
  proof (rule find_cong [OF refl])
    fix e assume "e \<in> set (tr_ptrs ?m t)"
    then have "unat (e_virt ?m e + e_len ?m e) = unat (e_virt ?m e) + unat (e_len ?m e)"
      using wf by (intro unat_u64_add) (simp add: tr_wf_def)
    then show "(e_virt ?m e AND NOT (mask n) \<le> a AND NOT (mask n) \<and> e_virt ?m e + e_len ?m e \<ge> a AND NOT (mask n)) =
        region_hit ?m (2 ^ n) (unat a) e"
      by (simp add: word_le_nat_alt unat_high region_hit_def)
  qed
  with c show ?thesis
    unfolding translator_contains_immideate_virtual_addr_def Let_def n by (simp add: tr_search_find tr_ptrs_def)
qed

lemma level_masks:
  "push_bit (9 * (4 - unat (1 :: u8))) (NOT 0xFFF) = (NOT (mask 39) :: u64)" "push_bit (9 * (4 - unat (2 :: u8))) (NOT 0xFFF) = (NOT (mask 30) :: u64)"
  "push_bit (9 * (4 - unat (3 :: u8))) (NOT 0xFFF) = (NOT (mask 21) :: u64)" "push_bit (9 * (4 - unat (4 :: u8))) (NOT 0xFFF) = (NOT (mask 12) :: u64)"
  by (simp_all add: mask_eq_exp_minus_1 push_bit_eq_mult)

text \<open>The state after lookups: at most the cache of the translator points elsewhere.\<close>

definition recached :: "u64 \<Rightarrow> 'a machine_scheme \<Rightarrow> 'a machine_scheme \<Rightarrow> bool" where
  "recached t s s' \<longleftrightarrow> s' = s \<or> (\<exists>e \<in> set (tr_ptrs (bytes s) t). s' = set_cache t e s)"

lemma set_cache_twice: "set_cache t e' (set_cache t e s) = set_cache t e' s"
proof -
  have "store64 (store64 m a v) a w = store64 m a w" for m a v w
    by (simp add: store64_def store_le_def fun_eq_iff)
  then show ?thesis by (simp add: set_cache_def)
qed

lemma tr_wf_apart: "tr_wf m t \<Longrightarrow> \<forall>p \<in> set (tr_ptrs m t). apart p 32 t 24"
  by (simp add: tr_wf_def)

lemma set_cache_keeps:
  assumes "tr_wf (bytes s) t" "e \<in> set (tr_ptrs (bytes s) t)"
  shows "tr_ptrs (bytes (set_cache t e s)) t = tr_ptrs (bytes s) t" "tr_wf (bytes (set_cache t e s)) t"
    "slot_used (bytes (set_cache t e s)) t r = slot_used (bytes s) t r"
proof -
  let ?m = "bytes (set_cache t e s)"
  note frame = set_cache_frame [OF tr_wf_apart [OF assms(1)], where e = e]
  show p: "tr_ptrs ?m t = tr_ptrs (bytes s) t" by (rule frame(1))
  have f: "e_virt ?m p = e_virt (bytes s) p" "e_phys ?m p = e_phys (bytes s) p" "e_len ?m p = e_len (bytes s) p"
    if "p \<in> set (tr_ptrs (bytes s) t)" for p
    using frame(2) [OF that] by (simp_all add: contents_def)
  show "tr_wf ?m t" using assms by (simp add: tr_wf_def p frame(3) f)
  show "slot_used ?m t r = slot_used (bytes s) t r" by (simp add: slot_used_def region_hit_def p f cong: bex_cong_simp)
qed

lemma recached_step:
  assumes "tr_wf (bytes s) t" "e \<in> set (tr_ptrs (bytes s) t)" "recached t (set_cache t e s) s'"
  shows "recached t s s'"
  using assms set_cache_keeps(1) [OF assms(1,2)] by (auto simp: recached_def set_cache_twice)

section \<open>The search\<close>

lemma loop_free:
  assumes "tr_wf (bytes s) (translator s)" "0 < va" "\<not> slot_used (bytes s) (translator s) (unat va div SLOT)"
  shows "find_virt_loop va s = ret (va, s)"
proof -
  have miss: "\<not> region_hit (bytes s) (2 ^ n) (unat va) e" if "e \<in> set (tr_ptrs (bytes s) (translator s))" "n \<in> {39, 30, 21, 12}" for n e
  proof
    assume h: "region_hit (bytes s) (2 ^ n) (unat va) e"
    have "SLOT = 2 ^ n * 2 ^ (39 - n)" using that(2) by (auto simp: SLOT_def)
    then have "region_hit (bytes s) SLOT (unat va) e" by (rule region_hit_larger [OF h]) simp
    then have "region_hit (bytes s) SLOT (unat va div SLOT * SLOT) e" by (simp add: region_hit_def SLOT_def)
    with assms(3) that(1) show False by (auto simp: slot_used_def)
  qed
  have "translator_contains_immideate_virtual_addr (translator s) va l s = (False, s)" if "l \<in> {1, 2, 3, 4}" for l
  proof -
    have none: "find (region_hit (bytes s) (2 ^ n) (unat va)) (tr_ptrs (bytes s) (translator s)) = None" if "n \<in> {39, 30, 21, 12}" for n
      using miss [OF _ that] by (auto simp: find_None_iff)
    show ?thesis
      using that contains_region [OF assms(1) level_masks(1)] contains_region [OF assms(1) level_masks(2)]
        contains_region [OF assms(1) level_masks(3)] contains_region [OF assms(1) level_masks(4)] none [of 39] none [of 30] none [of 21] none [of 12] by auto
  qed
  then show ?thesis
    using assms(2) by (subst find_virt_loop.simps) (simp add: ret_def)
qed

lemma loop_used:
  assumes "tr_wf (bytes s) (translator s)" "0 < va" "slot_used (bytes s) (translator s) (unat va div SLOT)"
  shows "\<exists>e \<in> set (tr_ptrs (bytes s) (translator s)).
    find_virt_loop va s = find_virt_loop ((va + 0x8000000000) AND NOT 0x7FFFFFFFFF) (set_cache (translator s) e s)"
proof -
  obtain e0 where "e0 \<in> set (tr_ptrs (bytes s) (translator s))" "region_hit (bytes s) (2 ^ 39) (unat va) e0"
    using assms(3) by (auto simp: slot_used_def region_hit_def SLOT_def)
  then obtain e where e: "find (region_hit (bytes s) (2 ^ 39) (unat va)) (tr_ptrs (bytes s) (translator s)) = Some e"
    by (metis find_None_iff option.exhaust)
  then have "translator_contains_immideate_virtual_addr (translator s) va 1 s = (True, set_cache (translator s) e s)"
    using contains_region [OF assms(1) level_masks(1)] by simp
  then have "find_virt_loop va s = find_virt_loop ((va + 0x8000000000) AND NOT 0x7FFFFFFFFF) (set_cache (translator s) e s)"
    using assms(2) by (subst find_virt_loop.simps) simp
  moreover have "e \<in> set (tr_ptrs (bytes s) (translator s))" using e by (auto simp: find_Some_iff)
  ultimately show ?thesis by blast
qed

lemma translator_set_cache [simp]:
  fixes s :: "'a page_state_scheme"
  shows "translator (set_cache t e s) = translator s" "current_process (set_cache t e s) = current_process s"
  by (simp_all add: set_cache_def)

text \<open>The next 512 GB region, or 0 after the last one.\<close>

lemma next_slot:
  fixes va :: u64
  assumes "unat va div SLOT = 33553920 + i" "i < 512"
  shows "(va + 0x8000000000) AND NOT 0x7FFFFFFFFF = of_nat ((33553920 + Suc i) * SLOT)"
    and "Suc i < 512 \<Longrightarrow> unat (of_nat ((33553920 + Suc i) * SLOT) :: u64) div SLOT = 33553920 + Suc i"
    and "Suc i = 512 \<Longrightarrow> (of_nat ((33553920 + Suc i) * SLOT) :: u64) = 0"
proof -
  have va: "(33553920 + i) * SLOT \<le> unat va" "unat va < (33553920 + Suc i) * SLOT"
    using assms(1) div_mult_mod_eq [of "unat va" SLOT] mod_less_divisor [of SLOT "unat va"] by (simp_all add: SLOT_def)
  show last: "(of_nat ((33553920 + Suc i) * SLOT) :: u64) = 0" if "Suc i = 512"
    unfolding that by (simp add: SLOT_def)
  have small: "unat (of_nat ((33553920 + Suc i) * SLOT) :: u64) = (33553920 + Suc i) * SLOT" if "Suc i < 512"
    using that by (intro unat_of_nat_u64) (simp add: SLOT_def)
  then show "Suc i < 512 \<Longrightarrow> unat (of_nat ((33553920 + Suc i) * SLOT) :: u64) div SLOT = 33553920 + Suc i"
    by (simp add: SLOT_def del: of_nat_mult of_nat_add)
  have mask: "(va + 0x8000000000) AND NOT 0x7FFFFFFFFF = (va + 0x8000000000) AND NOT (mask 39)"
    by (simp add: mask_eq_exp_minus_1)
  show "(va + 0x8000000000) AND NOT 0x7FFFFFFFFF = of_nat ((33553920 + Suc i) * SLOT)"
  proof (cases "Suc i = 512")
    case True
    then have b: "18446744073709551616 \<le> unat va + 549755813888" "unat va < 18446744073709551616"
      using va by (simp_all add: SLOT_def)
    then have "(unat va + 549755813888) mod 18446744073709551616 = unat va + 549755813888 - 18446744073709551616"
      by (simp add: le_mod_geq)
    with b have "unat (va + 0x8000000000) div 2 ^ 39 = 0"
      by (simp add: unat_word_ariths)
    then have "unat ((va + 0x8000000000) AND NOT (mask 39)) = 0" by (simp only: unat_high)
    then show ?thesis unfolding mask last [OF True] by (simp add: word_eq_iff_unat)
  next
    case False
    then have i: "Suc i < 512" using assms(2) by simp
    have "unat (va + 0x8000000000) = unat va + 549755813888"
      using va i by (subst unat_u64_add) (simp_all add: SLOT_def)
    then have "unat (va + 0x8000000000) div 2 ^ 39 = 33553920 + Suc i"
      using assms(1) by (simp add: SLOT_def)
    then have "unat ((va + 0x8000000000) AND NOT (mask 39)) = (33553920 + Suc i) * SLOT"
      unfolding unat_high by (simp add: SLOT_def)
    then show ?thesis unfolding mask using small [OF i] by (simp only: word_eq_iff_unat)
  qed
qed

lemma find_virt_loop_finds:
  assumes "tr_wf (bytes s) (translator s)" "unat va div SLOT = 33553920 + i" "i < 512"
  shows "\<exists>s'. recached (translator s) s s' \<and> find_virt_loop va s =
    (case find (\<lambda>j. \<not> slot_used (bytes s) (translator s) (33553920 + j)) [i ..< 512] of
       None \<Rightarrow> stop (Abort ''Out of virtual memory space'')
     | Some j \<Rightarrow> ret (if j = i then va else of_nat ((33553920 + j) * SLOT), s'))"
  using assms
proof (induction "512 - i" arbitrary: i va s rule: less_induct)
  case less
  note wf = less.prems(1) and va = less.prems(2) and i = less.prems(3)
  have pos: "0 < va" using va by (auto simp: word_gt_0)
  have upt: "[i ..< 512] = i # [Suc i ..< 512]" using i by (rule upt_conv_Cons)
  show ?case
  proof (cases "slot_used (bytes s) (translator s) (33553920 + i)")
    case False
    then have "find_virt_loop va s = ret (va, s)"
      using loop_free [OF wf pos] va by simp
    then show ?thesis
      using False unfolding upt by (intro exI [of _ s]) (simp add: recached_def)
  next
    case True
    then obtain e where e: "e \<in> set (tr_ptrs (bytes s) (translator s))"
      "find_virt_loop va s = find_virt_loop (of_nat ((33553920 + Suc i) * SLOT)) (set_cache (translator s) e s)"
      using loop_used [OF wf pos] va next_slot(1) [OF va i] by metis
    let ?s = "set_cache (translator s) e s" and ?va = "of_nat ((33553920 + Suc i) * SLOT) :: u64"
    note keeps = set_cache_keeps [OF wf e(1)]
    show ?thesis
    proof (cases "Suc i = 512")
      case True
      have "find_virt_loop ?va ?s = stop (Abort ''Out of virtual memory space'')"
        unfolding next_slot(3) [OF va i True] by (subst find_virt_loop.simps) (simp add: stop_def)
      with True e(2) \<open>slot_used _ _ (33553920 + i)\<close> show ?thesis
        unfolding upt by (intro exI [of _ s]) (simp add: recached_def)
    next
      case False
      then have i': "Suc i < 512" using i by simp
      have "\<exists>s'. recached (translator ?s) ?s s' \<and> find_virt_loop ?va ?s =
        (case find (\<lambda>j. \<not> slot_used (bytes ?s) (translator ?s) (33553920 + j)) [Suc i ..< 512] of
           None \<Rightarrow> stop (Abort ''Out of virtual memory space'')
         | Some j \<Rightarrow> ret (if j = Suc i then ?va else of_nat ((33553920 + j) * SLOT), s'))"
        by (rule less.hyps) (use i' keeps(2) next_slot(2) [OF va i i'] in simp_all)
      then obtain s' where s': "recached (translator s) ?s s'" "find_virt_loop ?va ?s =
        (case find (\<lambda>j. \<not> slot_used (bytes s) (translator s) (33553920 + j)) [Suc i ..< 512] of
           None \<Rightarrow> stop (Abort ''Out of virtual memory space'')
         | Some j \<Rightarrow> ret (if j = Suc i then ?va else of_nat ((33553920 + j) * SLOT), s'))"
        unfolding translator_set_cache keeps(3) by blast
      have "recached (translator s) s s'" by (rule recached_step [OF wf e(1) s'(1)])
      moreover have "j \<noteq> i" if "find (\<lambda>j. \<not> slot_used (bytes s) (translator s) (33553920 + j)) [Suc i ..< 512] = Some j" for j
        using that by (auto simp: find_Some_iff simp del: upt_Suc)
      ultimately show ?thesis
        using True e(2) s'(2) unfolding upt
        by (intro exI [of _ s']) (auto split: option.splits simp del: of_nat_mult of_nat_add upt_Suc)
    qed
  qed
qed

section \<open>The result in table indices\<close>

lemma upper_half_slot:
  assumes "table_indices a" "256 \<le> pml4 a"
  shows "unat (get_virtual_address a) div SLOT = 33553920 + unat (pml4 a)"
proof -
  let ?v = "get_virtual_address a"
  have x: "256 \<le> unat (pml4 a)" "unat (pml4 a) < 512"
    using assms by (simp_all add: table_indices_def word_le_nat_alt word_less_nat_alt)
  then have "unat (pml4 a) div 2 ^ 8 = 1" by simp
  then have "bit (unat (pml4 a)) 8" by (simp add: bit_iff_odd)
  then have top: "bit (pml4 a) 8" by (simp add: bit_unsigned_iff)
  have low: "bit (pml4 a) n \<Longrightarrow> n < 9" for n
    by (rule index_bits) (use assms(1) in \<open>simp_all add: table_indices_def\<close>)
  have "drop_bit 39 ?v = push_bit 9 (mask 16) OR ucast (pml4 a)"
  proof (rule bit_word_eqI)
    fix n assume "n < LENGTH(64)"
    show "bit (drop_bit 39 ?v) n \<longleftrightarrow> bit (push_bit 9 (mask 16) OR ucast (pml4 a) :: u64) n"
      using bit_get_virtual_address [OF assms(1), of "39 + n"] bit_imp_le_length [of ?v "39 + n"] low [of n] top
      by (cases "n < 25") (auto simp: bit_drop_bit_eq bit_or_iff bit_push_bit_iff bit_mask_iff bit_ucast_iff)
  qed
  also have "\<dots> = push_bit 9 (mask 16) + ucast (pml4 a)"
    by (rule disjunctive_add_eq_or [symmetric], rule bit_word_eqI)
      (use low in \<open>auto simp: bit_and_iff bit_push_bit_iff bit_ucast_iff dest!: low\<close>)
  finally have d: "drop_bit 39 ?v = push_bit 9 (mask 16) + ucast (pml4 a)" .
  have "unat (ucast (pml4 a) :: u64) = unat (pml4 a)" using x by (simp add: unsigned_ucast_eq take_bit_nat_eq_self)
  then have "unat (push_bit 9 (mask 16) + ucast (pml4 a) :: u64) = 33553920 + unat (pml4 a)"
    using x by (subst unat_u64_add) (simp_all add: mask_eq_exp_minus_1 push_bit_eq_mult)
  then have "unat (drop_bit 39 ?v) = 33553920 + unat (pml4 a)" by (simp only: d)
  moreover have "unat (drop_bit 39 ?v) = unat ?v div SLOT"
    by (simp only: unat_drop_bit_eq) (simp add: drop_bit_eq_div SLOT_def)
  ultimately show ?thesis by simp
qed

lemma slot_address:
  assumes "256 \<le> j" "j < 512"
  shows "get_virtual_address \<lparr>pml4 = of_nat j, pdpt = 0, pd = 0, pt = 0\<rparr> = of_nat ((33553920 + j) * SLOT)"
proof -
  let ?a = "\<lparr>pml4 = of_nat j, pdpt = 0, pd = 0, pt = 0\<rparr> :: Memory_Virtual_Address"
  let ?v = "get_virtual_address ?a"
  have j: "unat (of_nat j :: u16) = j" using assms(2) by (intro unat_of_nat_small) simp
  then have ti: "table_indices ?a" and ge: "256 \<le> pml4 ?a"
    using assms by (simp_all add: table_indices_def word_less_nat_alt word_le_nat_alt del: unat_of_nat)
  have "take_bit 39 ?v = 0"
    by (rule bit_word_eqI) (auto simp: bit_take_bit_iff bit_get_virtual_address [OF ti])
  then have "unat (take_bit 39 ?v) = 0" by simp
  then have "unat ?v mod SLOT = 0"
    by (simp only: unsigned_take_bit_eq) (simp add: take_bit_eq_mod SLOT_def)
  moreover have "unat ?v div SLOT = 33553920 + j"
    using upper_half_slot [OF ti ge] j by simp
  ultimately have "unat ?v = (33553920 + j) * SLOT"
    by (metis add.right_neutral div_mult_mod_eq)
  then have "of_nat (unat ?v) = (of_nat ((33553920 + j) * SLOT) :: u64)" by (simp only:)
  then show ?thesis by simp
qed

lemma indices_of_set_entry: "get_current_process_address (set_entry_free v s) = convertToAddr v"
  by (simp add: get_current_process_address_def set_entry_free_def convertToAddr_def p_pml4_entry_free_def p_pdpt_entry_free_def
      p_pd_entry_free_def p_pt_entry_free_def Let_def and.commute)

lemma convertToAddr_slot:
  assumes "256 \<le> j" "j < 512"
  shows "convertToAddr (of_nat ((33553920 + j) * SLOT)) = \<lparr>pml4 = of_nat j, pdpt = 0, pd = 0, pt = 0\<rparr>"
proof -
  have "unat (of_nat j :: u16) = j" using assms(2) by (intro unat_of_nat_small) simp
  then have "table_indices \<lparr>pml4 = of_nat j, pdpt = 0, pd = 0, pt = 0\<rparr>"
    using assms(2) by (simp add: table_indices_def word_less_nat_alt del: unat_of_nat)
  from disassemble_get [OF this] show ?thesis by (simp only: slot_address [OF assms])
qed

lemma recached_process:
  fixes s :: "'a page_state_scheme"
  assumes "recached (translator s) s s'" "apart (current_process s) 72 (translator s) 24"
  shows "get_current_process_address s' = get_current_process_address s" "current_process s' = current_process s"
    "translator s' = translator s"
proof -
  have "apart (current_process s + d) 2 (translator s + 16) 8" if "unat d + 2 \<le> 72" for d
    using apart_field [OF assms(2) that, of 16 8] by simp
  from this [of 20] this [of 22] this [of 24] this [of 26]
  show "get_current_process_address s' = get_current_process_address s"
    using assms(1)
    by (auto simp: recached_def set_cache_def get_current_process_address_def p_pml4_entry_free_def p_pdpt_entry_free_def
        p_pd_entry_free_def p_pt_entry_free_def)
  show "current_process s' = current_process s" "translator s' = translator s"
    using assms(1) by (auto simp: recached_def)
qed

lemma recached_outside: "recached t s s' \<Longrightarrow> x \<notin> span t 24 \<Longrightarrow> bytes s' x = bytes s x"
proof -
  assume "recached t s s'" "x \<notin> span t 24"
  moreover have "span (t + 16) 8 \<subseteq> span t 24" by (rule span_sub) simp
  ultimately have "recached t s s'" "x \<notin> span (t + 16) 8" by blast+
  then show ?thesis by (auto simp: recached_def set_cache_def store64_outside simp del: mem_span)
qed

lemma set_entry_free_outside: "x \<notin> span (current_process s) 72 \<Longrightarrow> bytes (set_entry_free v s) x = bytes s x"
proof -
  assume x: "x \<notin> span (current_process s) 72"
  have "x \<notin> span (current_process s + d) 2" if "unat d + 2 \<le> 72" for d
    using span_sub [OF that, of "current_process s"] x by blast
  from this [of 20] this [of 22] this [of 24] this [of 26] show ?thesis
    by (simp add: set_entry_free_def Let_def store16_outside del: mem_span)
qed

section \<open>Properties\<close>

text \<open>
  C35: \<open>find_free_virt\<close> always returns. It keeps the indices of the process when no mapping touches the 512 GB region of its
  first index; else it goes to the start of the first later region that no mapping touches, and stops the machine when there
  is none. So at most one address of each of the 256 regions is ever given out, whatever its size.
\<close>

theorem find_free_virt_takes_region:
  assumes "tr_wf (bytes s) (translator s)" "apart (current_process s) 72 (translator s) 24"
    and "get_current_process_address s = a" "table_indices a" "256 \<le> pml4 a"
  shows "case find (\<lambda>j. \<not> slot_used (bytes s) (translator s) (33553920 + j)) [unat (pml4 a) ..< 512] of
      None \<Rightarrow> find_free_virt s = stop (Abort ''Out of virtual memory space'')
    | Some j \<Rightarrow> \<exists>s'. find_free_virt s = ret s' \<and>
        get_current_process_address s' = (if j = unat (pml4 a) then a else \<lparr>pml4 = of_nat j, pdpt = 0, pd = 0, pt = 0\<rparr>) \<and>
        (\<forall>x. x \<notin> span (current_process s) 72 \<union> span (translator s) 24 \<longrightarrow> bytes s' x = bytes s x)"
proof -
  let ?i = "unat (pml4 a)" and ?va = "get_virtual_address a"
  let ?found = "find (\<lambda>j. \<not> slot_used (bytes s) (translator s) (33553920 + j)) [?i ..< 512]"
  have i: "256 \<le> ?i" "?i < 512" using assms(4,5) by (simp_all add: table_indices_def word_le_nat_alt word_less_nat_alt)
  have index: "p_pml4_entry_free (bytes s) (current_process s) = pml4 a"
    using assms(3) by (auto simp: get_current_process_address_def)
  have run: "find_free_virt s = run_bind (find_virt_loop ?va s) (\<lambda>(v, s1). ret (set_entry_free v s1))"
    using i by (auto simp: find_free_virt_def assms(3) index Let_def word_less_nat_alt)
  obtain s' where s': "recached (translator s) s s'" "find_virt_loop ?va s =
    (case ?found of None \<Rightarrow> stop (Abort ''Out of virtual memory space'')
     | Some j \<Rightarrow> ret (if j = ?i then ?va else of_nat ((33553920 + j) * SLOT), s'))"
    using find_virt_loop_finds [OF assms(1) upper_half_slot [OF assms(4,5)] i(2)] by blast
  show ?thesis
  proof (cases ?found)
    case None
    then show ?thesis using run s'(2) by simp
  next
    case (Some j)
    then have j: "256 \<le> j" "j < 512" using i by (auto simp: find_Some_iff nth_append)
    let ?v = "if j = ?i then ?va else of_nat ((33553920 + j) * SLOT)"
    have A: "find_free_virt s = ret (set_entry_free ?v s')" using run s'(2) Some by simp
    have B: "convertToAddr ?v = (if j = ?i then a else \<lparr>pml4 = of_nat j, pdpt = 0, pd = 0, pt = 0\<rparr>)"
      using disassemble_get [OF assms(4)] convertToAddr_slot [OF j] by simp
    have C: "bytes (set_entry_free ?v s') x = bytes s x"
      if "x \<notin> span (current_process s) 72 \<union> span (translator s) 24" for x
      using that set_entry_free_outside [of x s' ?v] recached_outside [OF s'(1), of x] recached_process(2) [OF s'(1) assms(2)]
      by (simp del: mem_span)
    show ?thesis
      unfolding Some option.case
    proof (intro exI conjI allI impI)
      show "get_current_process_address (set_entry_free ?v s') = (if j = ?i then a else \<lparr>pml4 = of_nat j, pdpt = 0, pd = 0, pt = 0\<rparr>)"
        unfolding indices_of_set_entry by (rule B)
    qed (fact A, fact C)
  qed
qed

text \<open>A process at its first region, in which a page is mapped; the other entry lies far below.\<close>

definition at_first_region :: "page_state \<Rightarrow> page_state" where
  "at_first_region s = s\<lparr>bytes := store16 (store64 (bytes two_entries) 0x2000 0xFFFF800000001000) 0x5014 256, translator := 0x1000,
     current_process := 0x5000\<rparr>"

lemma load16_blank: "load16 (\<lambda>_. 0) a = 0"
  by (simp add: load16_def eval_nat_numeral)

lemma at_first_region_fields:
  fixes s :: page_state
  defines "m \<equiv> bytes (at_first_region s)"
  shows "tr_size m 0x1000 = 2" "tr_first m 0x1000 = 0x2000" "tr_cache m 0x1000 = 0x2000"
    "e_virt m 0x2000 = 0xFFFF800000001000" "e_phys m 0x2000 = 0x50000" "e_len m 0x2000 = 0x1000" "e_next m 0x2000 = 0x3000"
    "e_virt m 0x3000 = 0x20000" "e_phys m 0x3000 = 0x80000" "e_len m 0x3000 = 0x2000"
  by (simp_all add: m_def at_first_region_def two_entries_def tr_size_def tr_first_def tr_cache_def e_virt_def e_phys_def e_len_def e_next_def)

lemma at_first_region_ptrs: "tr_ptrs (bytes (at_first_region s)) 0x1000 = [0x2000, 0x3000]"
proof -
  have "unat (2 :: u32) = Suc (Suc 0)" by simp
  then show ?thesis by (simp only: tr_ptrs_def at_first_region_fields eptrs.simps)
qed

theorem find_free_virt_takes_region_witness:
  "\<forall>s. \<exists>s'. find_free_virt (at_first_region s) = ret s' \<and> get_current_process_address s' = \<lparr>pml4 = 257, pdpt = 0, pd = 0, pt = 0\<rparr>"
proof
  fix s
  let ?s = "at_first_region s" and ?a = "\<lparr>pml4 = 256, pdpt = 0, pd = 0, pt = 0\<rparr> :: Memory_Virtual_Address"
  have t: "translator ?s = 0x1000" and p: "current_process ?s = 0x5000" by (simp_all add: at_first_region_def)
  have wf: "tr_wf (bytes ?s) (translator ?s)"
    by (simp add: t tr_wf_def at_first_region_ptrs at_first_region_fields page_aligned_def)
  have a: "get_current_process_address ?s = ?a"
    by (simp add: get_current_process_address_def p_pml4_entry_free_def p_pdpt_entry_free_def p_pd_entry_free_def p_pt_entry_free_def p)
      (simp add: at_first_region_def two_entries_def load16_blank)
  have used: "slot_used (bytes ?s) (translator ?s) (33553920 + 256)" "\<not> slot_used (bytes ?s) (translator ?s) (33553920 + 257)"
    by (simp_all add: t slot_used_def at_first_region_ptrs region_hit_def at_first_region_fields SLOT_def)
  have "[256 ..< 512] = (256 :: nat) # 257 # [258 ..< 512]" by (simp only: upt_rec_numeral) simp
  then have "find (\<lambda>j. \<not> slot_used (bytes ?s) (translator ?s) (33553920 + j)) [256 ..< 512] = Some 257"
    using used by simp
  with find_free_virt_takes_region [OF wf _ a]
  show "\<exists>s'. find_free_virt ?s = ret s' \<and> get_current_process_address s' = \<lparr>pml4 = 257, pdpt = 0, pd = 0, pt = 0\<rparr>"
    by (auto simp: t p table_indices_def)
qed

end
