(* ===== verification/Layouts.thy ===== *)
theory Layouts
  imports Main
begin

text \<open>
  The structures of the program as C types, and the layout the x86-64 ABI gives them. The other theories write the offset of a
  field as a number; the layout here is what these numbers are checked against.
\<close>

section \<open>Types and their layout\<close>

text \<open>
  The integer types by width, pointers, arrays (a flexible array has length 0), and structures, packed or not, with
  fields and bit-fields. All bit-fields of the program have the base type \<open>uint8_t\<close>; a \<open>bool\<close> is a byte and an
  enumeration 32 bits.
\<close>

datatype ctype = U8 | U16 | U32 | U64 | Ptr | Arr ctype nat | Struct bool "member list"
and member = Field string ctype | Bits string nat

definition round_up :: "nat \<Rightarrow> nat \<Rightarrow> nat" where
  "round_up a n = (n + a - 1) div a * a"

text \<open>A bit-field goes to the next byte when it does not fit into the rest of this one.\<close>

definition bits_start :: "nat \<Rightarrow> nat \<Rightarrow> nat" where
  "bits_start pos w = (if pos mod 8 + w \<le> 8 then pos else round_up 8 pos)"

text \<open>Positions in a structure count bits.\<close>

fun align_of :: "ctype \<Rightarrow> nat" and max_align :: "member list \<Rightarrow> nat" where
  "align_of U8 = 1"
| "align_of U16 = 2"
| "align_of U32 = 4"
| "align_of U64 = 8"
| "align_of Ptr = 8"
| "align_of (Arr t n) = align_of t"
| "align_of (Struct packed ms) = (if packed then 1 else max_align ms)"
| "max_align [] = 1"
| "max_align (Field _ t # ms) = max (align_of t) (max_align ms)"
| "max_align (Bits _ _ # ms) = max_align ms"

definition field_start :: "bool \<Rightarrow> ctype \<Rightarrow> nat \<Rightarrow> nat" where
  "field_start packed t pos = round_up (8 * (if packed then 1 else align_of t)) pos"

fun size_of :: "ctype \<Rightarrow> nat" and members_end :: "bool \<Rightarrow> member list \<Rightarrow> nat \<Rightarrow> nat" where
  "size_of U8 = 1"
| "size_of U16 = 2"
| "size_of U32 = 4"
| "size_of U64 = 8"
| "size_of Ptr = 8"
| "size_of (Arr t n) = n * size_of t"
| "size_of (Struct packed ms) = round_up (if packed then 1 else max_align ms) (round_up 8 (members_end packed ms 0) div 8)"
| "members_end packed [] pos = pos"
| "members_end packed (Field _ t # ms) pos = members_end packed ms (field_start packed t pos + 8 * size_of t)"
| "members_end packed (Bits _ w # ms) pos = members_end packed ms (bits_start pos w + w)"

text \<open>The position and the width of a member, in bits.\<close>

fun member_at :: "bool \<Rightarrow> member list \<Rightarrow> nat \<Rightarrow> string \<Rightarrow> (nat \<times> nat) option" where
  "member_at packed [] pos f = None"
| "member_at packed (Field g t # ms) pos f =
     (let p = field_start packed t pos
      in if f = g then Some (p, 8 * size_of t) else member_at packed ms (p + 8 * size_of t) f)"
| "member_at packed (Bits g w # ms) pos f =
     (let p = bits_start pos w in if f = g then Some (p, w) else member_at packed ms (p + w) f)"

fun field_at :: "ctype \<Rightarrow> string \<Rightarrow> (nat \<times> nat) option" where
  "field_at (Struct packed ms) f = member_at packed ms 0 f"
| "field_at t f = None"

section \<open>The structures of the program\<close>

text \<open>The attribute \<open>aligned(4096)\<close> of the page tables changes no offset and no size, since their size is a multiple of it.\<close>

subsection \<open>\<open>libc/include/memory.h\<close>\<close>

definition struct_free_memory :: ctype where
  "struct_free_memory = Struct False
    [Field ''next_block'' Ptr, Field ''size'' U64]"

definition struct_used_metadata :: ctype where
  "struct_used_metadata = Struct False
    [Field ''size'' U64]"

definition struct_page_table :: ctype where
  "struct_page_table = Struct True
    [Field ''page'' (Arr Ptr 512)]"

definition struct_page_directory :: ctype where
  "struct_page_directory = Struct True
    [Field ''tables'' (Arr Ptr 512)]"

definition struct_page_dir_pointer :: ctype where
  "struct_page_dir_pointer = Struct True
    [Field ''dirs'' (Arr Ptr 512)]"

definition struct_page_level_4 :: ctype where
  "struct_page_level_4 = Struct True
    [Field ''dirs'' (Arr Ptr 512)]"

definition struct_page_existing :: ctype where
  "struct_page_existing = Struct False
    [Field ''exists_ptr'' (Arr Ptr 512)]"

definition struct_memory :: ctype where
  "struct_memory = Struct True
    [Field ''ptr'' Ptr, Field ''size'' U64, Field ''used_bits'' Ptr, Field ''used_bits_size'' U32]"

definition struct_address_space_translator_entry :: ctype where
  "struct_address_space_translator_entry = Struct False
    [Field ''virtual_address'' U64, Field ''physical_address'' U64, Field ''length'' U64, Field ''next'' Ptr]"

definition struct_address_space_translator :: ctype where
  "struct_address_space_translator = Struct False
    [Field ''size'' U32, Field ''first'' Ptr, Field ''cache'' Ptr]"


subsection \<open>\<open>libc/include/lists.h\<close>\<close>

definition struct_ArrayList :: ctype where
  "struct_ArrayList = Struct False
    [Field ''content'' Ptr, Field ''size'' U64, Field ''capacity'' U64, Field ''bucketSize'' U64]"


subsection \<open>\<open>kernel/include/kernel/memory.h\<close>\<close>

definition struct_Memory_Virtual_Address :: ctype where
  "struct_Memory_Virtual_Address = Struct False
    [Field ''pml4'' U16, Field ''pdpt'' U16, Field ''pd'' U16, Field ''pt'' U16]"


subsection \<open>\<open>kernel/include/kernel/process.h\<close>\<close>

definition struct_thread :: ctype where
  "struct_thread = Struct False
    [Field ''tid'' U64, Field ''parent_pid'' U64, Field ''rsp'' Ptr, Field ''state'' U32, Field ''flags'' U64]"

definition struct_process :: ctype where
  "struct_process = Struct False
    [Field ''pid'' U64, Field ''pml4'' Ptr, Field ''processor_id'' U32, Field ''pml4_entry_free'' U16,
     Field ''pdpt_entry_free'' U16, Field ''pd_entry_free'' U16, Field ''pt_entry_free'' U16, Field ''memory_map_size'' U64,
     Field ''child_thread_count'' U32, Field ''children'' Ptr, Field ''flags'' U64, Field ''superviser'' U8]"


subsection \<open>\<open>kernel/include/kernel/scheduler.h\<close>\<close>

definition struct_list_data :: ctype where
  "struct_list_data = Struct False
    [Field ''thread'' Ptr, Field ''score'' U64, Field ''next'' Ptr]"


subsection \<open>\<open>kernel/include/kernel/interrupts.h\<close>\<close>

definition struct_interrupt_frame :: ctype where
  "struct_interrupt_frame = Struct False
    [Field ''ip'' U64, Field ''cs'' U64, Field ''flags'' U64, Field ''sp'' Ptr, Field ''ss'' U64]"


subsection \<open>\<open>kernel/arch/x86_64/gdt.c\<close>\<close>

definition struct_TaskStateSegment :: ctype where
  "struct_TaskStateSegment = Struct True
    [Field ''res'' U32, Field ''rsp0'' U64, Field ''rsp1'' U64, Field ''rsp2'' U64, Field ''res2'' U64, Field ''IST1'' U64,
     Field ''IST2'' U64, Field ''IST3'' U64, Field ''IST4'' U64, Field ''IST5'' U64, Field ''IST6'' U64, Field ''IST7'' U64,
     Field ''res3'' U64, Field ''res4'' U16, Field ''IOPB'' U16]"

definition struct_GDT :: ctype where
  "struct_GDT = Struct True
    [Field ''base'' U64, Field ''limit'' U32, Field ''access_byte'' U8, Field ''flags'' U8]"

definition struct_gdt_ptr :: ctype where
  "struct_gdt_ptr = Struct True
    [Field ''limit'' U16, Field ''base'' U64]"


subsection \<open>\<open>kernel/arch/x86_64/interrupts.c\<close>\<close>

definition struct_idt_entry :: ctype where
  "struct_idt_entry = Struct True
    [Field ''isr_low'' U16, Field ''kernel_cs'' U16, Field ''ist'' U8, Field ''attributes'' U8, Field ''isr_mid'' U16,
     Field ''isr_high'' U32, Field ''reserved'' U32]"

definition struct_idtr_t :: ctype where
  "struct_idtr_t = Struct True
    [Field ''limit'' U16, Field ''base'' U64]"


subsection \<open>\<open>kernel/arch/x86_64/APIC.c\<close>\<close>

definition struct_Timer_waits :: ctype where
  "struct_Timer_waits = Struct False
    [Field ''tID'' U64, Field ''relative_time'' U64, Field ''next'' Ptr]"


subsection \<open>\<open>kernel/include/kernel/vtty.h\<close>\<close>

definition struct_video_Image :: ctype where
  "struct_video_Image = Struct False
    [Field ''pixels'' Ptr, Field ''width'' U32, Field ''height'' U32]"

definition struct_video_Text :: ctype where
  "struct_video_Text = Struct False
    [Field ''txt'' Ptr, Field ''color'' U32, Field ''size'' U32]"

definition struct_video_Rect :: ctype where
  "struct_video_Rect = Struct False
    [Field ''color'' U32, Field ''width'' U32, Field ''height'' U32]"


subsection \<open>\<open>kernel/src/kernel/kernel.c\<close>\<close>

definition struct_key_line :: ctype where
  "struct_key_line = Struct False
    [Field ''keys'' (Arr U8 100), Field ''length'' U16]"


subsection \<open>\<open>kernel/include/kernel/RSDP.h\<close>\<close>

definition struct_RSDP_t :: ctype where
  "struct_RSDP_t = Struct True
    [Field ''Signature'' (Arr U8 8), Field ''Checksum'' U8, Field ''OEMID'' (Arr U8 6), Field ''Revision'' U8,
     Field ''RsdtAddress'' U32]"

definition struct_XSDP_t :: ctype where
  "struct_XSDP_t = Struct True
    [Field ''Signature'' (Arr U8 8), Field ''Checksum'' U8, Field ''OEMID'' (Arr U8 6), Field ''Revision'' U8,
     Field ''RsdtAddress'' U32, Field ''Length'' U32, Field ''XsdtAddress'' U64, Field ''ExtendedChecksum'' U8,
     Field ''reserved'' (Arr U8 3)]"

definition struct_ACPISDTHeader :: ctype where
  "struct_ACPISDTHeader = Struct True
    [Field ''Signature'' (Arr U8 4), Field ''Length'' U32, Field ''Revision'' U8, Field ''Checksum'' U8,
     Field ''OEMID'' (Arr U8 6), Field ''OEMTableID'' (Arr U8 8), Field ''OEMRevision'' U32, Field ''CreatorID'' U32,
     Field ''CreatorRevision'' U32]"

definition struct_RSDT :: ctype where
  "struct_RSDT = Struct True
    [Field ''h'' struct_ACPISDTHeader, Field ''PointerToOtherSDT'' (Arr U32 0)]"

definition struct_MADT :: ctype where
  "struct_MADT = Struct True
    [Field ''header'' struct_ACPISDTHeader, Field ''LAPIC_addr'' U32, Field ''flags'' U32]"

definition struct_PCIe_entry :: ctype where
  "struct_PCIe_entry = Struct True
    [Field ''base_addr'' U64, Field ''PCI_segment_group'' U16, Field ''start_pci'' U8, Field ''end_pci'' U8,
     Field ''reserved'' U32]"

definition struct_PCIe :: ctype where
  "struct_PCIe = Struct True
    [Field ''header'' struct_ACPISDTHeader, Field ''reserved'' U64, Field ''entries'' (Arr struct_PCIe_entry 0)]"

definition struct_GenericAddressStructure :: ctype where
  "struct_GenericAddressStructure = Struct True
    [Field ''AddressSpace'' U8, Field ''BitWidth'' U8, Field ''BitOffset'' U8, Field ''AccessSize'' U8,
     Field ''Address'' U64]"

definition struct_FADT :: ctype where
  "struct_FADT = Struct True
    [Field ''h'' struct_ACPISDTHeader, Field ''FirmwareCtrl'' U32, Field ''Dsdt'' U32, Field ''Reserved'' U8,
     Field ''PreferredPowerManagementProfile'' U8, Field ''SCI_Interrupt'' U16, Field ''SMI_CommandPort'' U32,
     Field ''AcpiEnable'' U8, Field ''AcpiDisable'' U8, Field ''S4BIOS_REQ'' U8, Field ''PSTATE_Control'' U8,
     Field ''PM1aEventBlock'' U32, Field ''PM1bEventBlock'' U32, Field ''PM1aControlBlock'' U32,
     Field ''PM1bControlBlock'' U32, Field ''PM2ControlBlock'' U32, Field ''PMTimerBlock'' U32, Field ''GPE0Block'' U32,
     Field ''GPE1Block'' U32, Field ''PM1EventLength'' U8, Field ''PM1ControlLength'' U8, Field ''PM2ControlLength'' U8,
     Field ''PMTimerLength'' U8, Field ''GPE0Length'' U8, Field ''GPE1Length'' U8, Field ''GPE1Base'' U8,
     Field ''CStateControl'' U8, Field ''WorstC2Latency'' U16, Field ''WorstC3Latency'' U16, Field ''FlushSize'' U16,
     Field ''FlushStride'' U16, Field ''DutyOffset'' U8, Field ''DutyWidth'' U8, Field ''DayAlarm'' U8,
     Field ''MonthAlarm'' U8, Field ''Century'' U8, Field ''BootArchitectureFlags'' U16, Field ''Reserved2'' U8,
     Field ''Flags'' U32, Field ''ResetReg'' struct_GenericAddressStructure, Field ''ResetValue'' U8,
     Field ''Reserved3'' (Arr U8 3), Field ''X_FirmwareControl'' U64, Field ''X_Dsdt'' U64,
     Field ''X_PM1aEventBlock'' struct_GenericAddressStructure, Field ''X_PM1bEventBlock'' struct_GenericAddressStructure,
     Field ''X_PM1aControlBlock'' struct_GenericAddressStructure,
     Field ''X_PM1bControlBlock'' struct_GenericAddressStructure,
     Field ''X_PM2ControlBlock'' struct_GenericAddressStructure, Field ''X_PMTimerBlock'' struct_GenericAddressStructure,
     Field ''X_GPE0Block'' struct_GenericAddressStructure, Field ''X_GPE1Block'' struct_GenericAddressStructure]"

definition struct_address_structure :: ctype where
  "struct_address_structure = Struct True
    [Field ''address_space_id'' U8, Field ''register_bit_width'' U8, Field ''register_bit_offset'' U8,
     Field ''reserved'' U8, Field ''address'' U64]"

definition struct_HPET :: ctype where
  "struct_HPET = Struct True
    [Field ''header'' struct_ACPISDTHeader, Field ''hardware_rev_id'' U8, Bits ''comparator_count'' 5,
     Bits ''counter_size'' 1, Bits ''reserved'' 1, Bits ''legacy_replacement'' 1, Field ''pci_vendor_id'' U16,
     Field ''address'' struct_address_structure, Field ''hpet_number'' U8, Field ''minimum_tick'' U16,
     Field ''page_protection'' U8]"


subsection \<open>\<open>kernel/include/drivers/PCI.h\<close>\<close>

definition struct_PCIe_device :: ctype where
  "struct_PCIe_device = Struct False
    [Field ''group'' U16, Field ''bus'' U8, Field ''device'' U8, Field ''supported_functions'' U16]"

definition struct_PCIe_Header :: ctype where
  "struct_PCIe_Header = Struct True
    [Field ''vendor_id'' U16, Field ''device_id'' U16, Field ''command'' U16, Field ''status'' U16, Field ''revision'' U8,
     Field ''prog_IF'' U8, Field ''subClass'' U8, Field ''class_code'' U8, Field ''cache_line_size'' U8,
     Field ''latency'' U8, Field ''header'' U8, Field ''BIST'' U8, Field ''BAR0'' Ptr, Field ''BAR2'' Ptr,
     Field ''BAR4'' Ptr]"


subsection \<open>\<open>kernel/include/drivers/SATA.h\<close>\<close>

definition struct_HBA_PORT :: ctype where
  "struct_HBA_PORT = Struct False
    [Field ''clb'' U32, Field ''clbu'' U32, Field ''fb'' U32, Field ''fbu'' U32, Field ''is'' U32, Field ''ie'' U32,
     Field ''cmd'' U32, Field ''rsv0'' U32, Field ''tfd'' U32, Field ''sig'' U32, Field ''ssts'' U32, Field ''sctl'' U32,
     Field ''serr'' U32, Field ''sact'' U32, Field ''ci'' U32, Field ''sntf'' U32, Field ''fbs'' U32,
     Field ''rsv1'' (Arr U32 11), Field ''vendor'' (Arr U32 4)]"

definition struct_SATA_HBA_MEM :: ctype where
  "struct_SATA_HBA_MEM = Struct False
    [Field ''cap'' U32, Field ''ghc'' U32, Field ''is'' U32, Field ''pi'' U32, Field ''vs'' U32, Field ''ccc_ctl'' U32,
     Field ''ccc_pts'' U32, Field ''em_loc'' U32, Field ''em_ctl'' U32, Field ''cap2'' U32, Field ''bohc'' U32,
     Field ''rsv'' (Arr U8 116), Field ''vendor'' (Arr U8 96), Field ''ports'' (Arr struct_HBA_PORT 32)]"

definition struct_FIS_REG_H2D :: ctype where
  "struct_FIS_REG_H2D = Struct False
    [Field ''fis_type'' U8, Bits ''pmport'' 4, Bits ''rsv0'' 3, Bits ''c'' 1, Field ''command'' U8, Field ''featurel'' U8,
     Field ''lba0'' U8, Field ''lba1'' U8, Field ''lba2'' U8, Field ''device'' U8, Field ''lba3'' U8, Field ''lba4'' U8,
     Field ''lba5'' U8, Field ''featureh'' U8, Field ''countl'' U8, Field ''counth'' U8, Field ''icc'' U8,
     Field ''control'' U8, Field ''rsv1'' (Arr U8 4)]"

definition struct_FIS_REG_D2H :: ctype where
  "struct_FIS_REG_D2H = Struct False
    [Field ''fis_type'' U8, Bits ''pmport'' 4, Bits ''rsv0'' 2, Bits ''i'' 1, Bits ''rsv1'' 1, Field ''status'' U8,
     Field ''error'' U8, Field ''lba0'' U8, Field ''lba1'' U8, Field ''lba2'' U8, Field ''device'' U8, Field ''lba3'' U8,
     Field ''lba4'' U8, Field ''lba5'' U8, Field ''rsv2'' U8, Field ''countl'' U8, Field ''counth'' U8,
     Field ''rsv3'' (Arr U8 2), Field ''rsv4'' (Arr U8 4)]"

definition struct_FIS_DATA :: ctype where
  "struct_FIS_DATA = Struct False
    [Field ''fis_type'' U8, Bits ''pmport'' 4, Bits ''rsv0'' 4, Field ''rsv1'' (Arr U8 2), Field ''data'' (Arr U32 1)]"

definition struct_FIS_PIO_SETUP :: ctype where
  "struct_FIS_PIO_SETUP = Struct False
    [Field ''fis_type'' U8, Bits ''pmport'' 4, Bits ''rsv0'' 1, Bits ''d'' 1, Bits ''i'' 1, Bits ''rsv1'' 1,
     Field ''status'' U8, Field ''error'' U8, Field ''lba0'' U8, Field ''lba1'' U8, Field ''lba2'' U8, Field ''device'' U8,
     Field ''lba3'' U8, Field ''lba4'' U8, Field ''lba5'' U8, Field ''rsv2'' U8, Field ''countl'' U8, Field ''counth'' U8,
     Field ''rsv3'' U8, Field ''e_status'' U8, Field ''tc'' U16, Field ''rsv4'' (Arr U8 2)]"

definition struct_FIS_DMA_SETUP :: ctype where
  "struct_FIS_DMA_SETUP = Struct False
    [Field ''fis_type'' U8, Bits ''pmport'' 4, Bits ''rsv0'' 1, Bits ''d'' 1, Bits ''i'' 1, Bits ''a'' 1,
     Field ''rsved'' (Arr U8 2), Field ''DMAbufferID'' U64, Field ''rsvd'' U32, Field ''DMAbufOffset'' U32,
     Field ''TransferCount'' U32, Field ''resvd'' U32]"

definition struct_HBA_CMD_HEADER :: ctype where
  "struct_HBA_CMD_HEADER = Struct False
    [Bits ''cfl'' 5, Bits ''a'' 1, Bits ''w'' 1, Bits ''p'' 1, Bits ''r'' 1, Bits ''b'' 1, Bits ''c'' 1, Bits ''rsv0'' 1,
     Bits ''pmp'' 4, Field ''prdtl'' U16, Field ''prdbc'' U32, Field ''ctba'' U32, Field ''ctbau'' U32,
     Field ''rsv1'' (Arr U32 4)]"


subsection \<open>\<open>kernel/include/drivers/USB.h\<close>\<close>

definition struct_xHCI_capabilities :: ctype where
  "struct_xHCI_capabilities = Struct True
    [Field ''length'' U8, Field ''reserved'' U8, Field ''version'' U16, Field ''s_param_1'' U32, Field ''s_param_2'' U32,
     Field ''s_param_3'' U32, Field ''c_param_1'' U32, Field ''doorbell_offset'' U32, Field ''rrso'' U32,
     Field ''c_param_2'' U32]"


section \<open>Members lie apart\<close>

lemma round_up_ge:
  assumes "0 < a"
  shows "n \<le> round_up a n"
proof -
  have "(n + a - 1) mod a \<le> a - 1" using mod_less_divisor [OF assms, of "n + a - 1"] by linarith
  then have "n \<le> (n + a - 1) - (n + a - 1) mod a" using assms by linarith
  then show ?thesis by (simp only: round_up_def minus_mod_eq_div_mult)
qed

lemma align_pos: "0 < align_of t" "0 < max_align ms"
  by (induction t and ms rule: align_of_max_align.induct) auto

lemma field_start_ge: "pos \<le> field_start packed t pos"
  unfolding field_start_def by (rule round_up_ge) (use align_pos(1) [of t] in simp)

lemma bits_start_ge: "pos \<le> bits_start pos w"
  by (simp add: bits_start_def round_up_ge)

lemma members_end_ge: "pos \<le> members_end packed ms pos"
proof (induction ms arbitrary: pos)
  case (Cons m ms)
  have later: "pos \<le> members_end packed ms q" if "pos \<le> q" for q using Cons [of q] that by simp
  show ?case using field_start_ge bits_start_ge by (cases m) (auto intro!: later trans_le_add1)
qed simp

text \<open>A member lies between the position where the layout of the list starts and the end of the list.\<close>

lemma member_at_bounds: "member_at packed ms pos f = Some (b, w) \<Longrightarrow> pos \<le> b \<and> b + w \<le> members_end packed ms pos"
proof (induction ms arbitrary: pos)
  case (Cons m ms)
  have start: "pos \<le> field_start packed t pos" "pos \<le> bits_start pos n" for t n by (rule field_start_ge, rule bits_start_ge)
  show ?case
  proof (cases m)
    case (Field g t)
    then show ?thesis
      using Cons.prems Cons.IH [of "field_start packed t pos + 8 * size_of t"] start(1) [of t]
        members_end_ge [of "field_start packed t pos + 8 * size_of t" packed ms]
      by (auto simp: Let_def split: if_splits)
  next
    case (Bits g n)
    then show ?thesis
      using Cons.prems Cons.IH [of "bits_start pos n + n"] start(2) [of n] members_end_ge [of "bits_start pos n + n" packed ms]
      by (auto simp: Let_def split: if_splits)
  qed
qed simp

lemma members_apart:
  assumes "f \<noteq> g" "member_at packed ms pos f = Some (b, w)" "member_at packed ms pos g = Some (b', w')"
  shows "b + w \<le> b' \<or> b' + w' \<le> b"
  using assms
proof (induction ms arbitrary: pos)
  case (Cons m ms)
  then show ?case
    using member_at_bounds [of packed ms _ f b w] member_at_bounds [of packed ms _ g b' w']
    by (cases m) (fastforce simp: Let_def split: if_splits)+
qed simp

lemma size_covers: "members_end packed ms 0 \<le> 8 * size_of (Struct packed ms)"
proof -
  let ?e = "members_end packed ms 0"
  have "?e \<le> round_up 8 ?e" by (rule round_up_ge) simp
  also have "\<dots> = 8 * (round_up 8 ?e div 8)" by (simp add: round_up_def)
  also have "\<dots> \<le> 8 * round_up (if packed then 1 else max_align ms) (round_up 8 ?e div 8)"
    by (intro mult_le_mono2 round_up_ge) (use align_pos(2) [of ms] in simp)
  finally show ?thesis by simp
qed

text \<open>Different members of a structure share no bit, and all of them lie within its size.\<close>

lemma fields_apart:
  assumes "field_at t f = Some (b, w)"
  shows "b + w \<le> 8 * size_of t" "\<lbrakk>field_at t g = Some (b', w'); f \<noteq> g\<rbrakk> \<Longrightarrow> b + w \<le> b' \<or> b' + w' \<le> b"
proof -
  obtain packed ms where t: "t = Struct packed ms" using assms by (cases t) auto
  show "b + w \<le> 8 * size_of t"
    using member_at_bounds [of packed ms 0 f b w] size_covers [of packed ms] assms unfolding t by simp
  show "\<lbrakk>field_at t g = Some (b', w'); f \<noteq> g\<rbrakk> \<Longrightarrow> b + w \<le> b' \<or> b' + w' \<le> b"
    using members_apart [of f g packed ms 0 b w b' w'] assms unfolding t by simp
qed

section \<open>Documented layouts\<close>

text \<open>
  The comments of \<open>SATA.h\<close> give the offset of every register; the structure of the controller and of a port follow them, and a port
  is 0x80 bytes.
\<close>

definition offsets :: "ctype \<Rightarrow> string list \<Rightarrow> nat option list" where
  "offsets t fs = map (\<lambda>f. map_option (\<lambda>(b, w). b div 8) (field_at t f)) fs"

lemma sata_registers:
  "offsets struct_HBA_PORT [''clb'', ''clbu'', ''fb'', ''fbu'', ''is'', ''ie'', ''cmd'', ''rsv0'', ''tfd'', ''sig'', ''ssts'', ''sctl'',
     ''serr'', ''sact'', ''ci'', ''sntf'', ''fbs'', ''rsv1'', ''vendor''] =
     map Some [0x00, 0x04, 0x08, 0x0C, 0x10, 0x14, 0x18, 0x1C, 0x20, 0x24, 0x28, 0x2C, 0x30, 0x34, 0x38, 0x3C, 0x40, 0x44, 0x70]"
  "size_of struct_HBA_PORT = 0x80"
  "offsets struct_SATA_HBA_MEM [''cap'', ''ghc'', ''is'', ''pi'', ''vs'', ''ccc_ctl'', ''ccc_pts'', ''em_loc'', ''em_ctl'', ''cap2'',
     ''bohc'', ''rsv'', ''vendor'', ''ports''] =
     map Some [0x00, 0x04, 0x08, 0x0C, 0x10, 0x14, 0x18, 0x1C, 0x20, 0x24, 0x28, 0x2C, 0xA0, 0x100]"
  by code_simp+

text \<open>
  The setup structure of a DMA transfer does not: its comments place the buffer identifier in the words 1 and 2 and the
  transfer count in word 5, but it is not packed, so the 64-bit field is aligned and all later ones are one word too far.
\<close>

lemma dma_setup_shifted:
  "offsets struct_FIS_DMA_SETUP [''DMAbufferID'', ''rsvd'', ''DMAbufOffset'', ''TransferCount'', ''resvd''] =
     map (\<lambda>word. Some (4 * (word + 1))) [1, 3, 4, 5, 6]"
  "size_of struct_FIS_DMA_SETUP = 4 * (7 + 1)"
  by code_simp+

text \<open>The tables of the firmware have the sizes their specifications give.\<close>

lemma table_sizes:
  "size_of struct_RSDP_t = 20" "size_of struct_XSDP_t = 36" "size_of struct_ACPISDTHeader = 36" "size_of struct_FADT = 244"
  "size_of struct_HPET = 56" "size_of struct_PCIe_entry = 16" "size_of struct_GenericAddressStructure = 12"
  by code_simp+

section \<open>Frame types\<close>

text \<open>The types of SATA frames, the first byte of each frame structure.\<close>

datatype FIS_TYPE =
  FIS_TYPE_REG_H2D | FIS_TYPE_REG_D2H | FIS_TYPE_DMA_ACT | FIS_TYPE_DMA_SETUP | FIS_TYPE_DATA | FIS_TYPE_BIST
  | FIS_TYPE_PIO_SETUP | FIS_TYPE_DEV_BITS

fun fis_code :: "FIS_TYPE \<Rightarrow> nat" where
  "fis_code FIS_TYPE_REG_H2D = 0x27"
| "fis_code FIS_TYPE_REG_D2H = 0x34"
| "fis_code FIS_TYPE_DMA_ACT = 0x39"
| "fis_code FIS_TYPE_DMA_SETUP = 0x41"
| "fis_code FIS_TYPE_DATA = 0x46"
| "fis_code FIS_TYPE_BIST = 0x58"
| "fis_code FIS_TYPE_PIO_SETUP = 0x5F"
| "fis_code FIS_TYPE_DEV_BITS = 0xA1"

lemma fis_code_inj: "fis_code a = fis_code b \<longleftrightarrow> a = b" and fis_code_byte: "fis_code a < 256"
  by (cases a; cases b; simp) (cases a; simp)

end
