(* ===== verification/Descriptors.thy ===== *)
theory Descriptors
  imports Kernel_Heap
begin

text \<open>
  The descriptor tables of the processor: \<open>gdt.c\<close> (segment descriptors and the task state
  segment), \<open>interrupts.c\<close> (the interrupt descriptor table) and the handlers of
  \<open>interrupts.c\<close> and \<open>exceptions.c\<close>. The tables are bytes in memory at the addresses of the static
  objects, which are arguments; the registers the assembly helpers load are fields of the state.
\<close>

section \<open>State\<close>

record cpu_state = machine +
  gdtr_limit :: u16
  gdtr_base :: u64
  code_selector :: u16
  data_selector :: u16
  task_register :: u16
  idtr_limit :: u16
  idtr_base :: u64
  interrupts_on :: bool

section \<open>Segment descriptors\<close>

text \<open>\<open>struct GDT\<close>: the source of a descriptor.\<close>

record gdt_source =
  g_base :: u64
  g_limit :: u32
  g_access :: u8
  g_flags :: u8

definition encodeGdtEntry :: "u64 \<Rightarrow> gdt_source \<Rightarrow> mem \<Rightarrow> mem" where
  "encodeGdtEntry target source m =
     (let m = store8 m target (ucast (g_limit source AND 0xFF));
          m = store8 m (target + 1) (ucast (drop_bit 8 (g_limit source) AND 0xFF));
          m = store8 m (target + 6) (ucast (drop_bit 16 (g_limit source) AND 0x0F));
          m = store8 m (target + 2) (ucast (g_base source AND 0xFF));
          m = store8 m (target + 3) (ucast (drop_bit 8 (g_base source) AND 0xFF));
          m = store8 m (target + 4) (ucast (drop_bit 16 (g_base source) AND 0xFF));
          m = store8 m (target + 7) (ucast (drop_bit 24 (g_base source) AND 0xFF));
          m = (if g_access source AND 0x89 \<noteq> 0
               then (let m = store8 m (target + 8) (ucast (drop_bit 32 (g_base source) AND 0xFF));
                         m = store8 m (target + 9) (ucast (drop_bit 40 (g_base source) AND 0xFF));
                         m = store8 m (target + 10) (ucast (drop_bit 48 (g_base source) AND 0xFF))
                     in store8 m (target + 11) (ucast (drop_bit 56 (g_base source) AND 0xFF)))
               else m);
          m = store8 m (target + 5) (g_access source)
      in store8 m (target + 6) (load8 m (target + 6) OR push_bit 4 (g_flags source)))"

text \<open>\<open>sizeof(tss)\<close> of the packed struct, and \<open>GDT_ENTRY_SIZE * GDT_ENTRY_COUNT\<close>.\<close>

definition tss_size :: u32 where "tss_size = 104"
definition gdt_bytes :: u16 where "gdt_bytes = 8 * 7"

text \<open>The assembly helpers of \<open>gdt.asm\<close>.\<close>

definition setGdt :: "u16 \<Rightarrow> u64 \<Rightarrow> 'a cpu_state_scheme \<Rightarrow> 'a cpu_state_scheme" where
  "setGdt limit base s = s\<lparr>gdtr_limit := limit, gdtr_base := base\<rparr>"

definition setTSS :: "'a cpu_state_scheme \<Rightarrow> 'a cpu_state_scheme" where
  "setTSS s = s\<lparr>interrupts_on := False, task_register := 0x28\<rparr>"

definition reloadSegments :: "'a cpu_state_scheme \<Rightarrow> 'a cpu_state_scheme" where
  "reloadSegments s = s\<lparr>interrupts_on := False, code_selector := 0x08, data_selector := 0x10\<rparr>"

definition setupGDT ::
  "u64 \<Rightarrow> u64 \<Rightarrow> (u8 \<Rightarrow> 'a cpu_state_scheme \<Rightarrow> (u64 \<times> 'a cpu_state_scheme) run) \<Rightarrow>
   'a cpu_state_scheme \<Rightarrow> 'a cpu_state_scheme run" where
  "setupGDT gdtPtr tss alloc_next_page s =
     (let m = encodeGdtEntry gdtPtr \<lparr>g_base = 0, g_limit = 0, g_access = 0, g_flags = 0\<rparr> (bytes s);
          m = encodeGdtEntry (gdtPtr + 8) \<lparr>g_base = 0, g_limit = 0xFFFFF, g_access = 0x9A, g_flags = 0xA\<rparr> m;
          m = encodeGdtEntry (gdtPtr + 16) \<lparr>g_base = 0, g_limit = 0xFFFFF, g_access = 0x92, g_flags = 0xC\<rparr> m;
          m = encodeGdtEntry (gdtPtr + 24) \<lparr>g_base = 0, g_limit = 0xFFFFF, g_access = 0xFA, g_flags = 0xA\<rparr> m;
          m = encodeGdtEntry (gdtPtr + 32) \<lparr>g_base = 0, g_limit = 0xFFFFF, g_access = 0xF2, g_flags = 0xC\<rparr> m
      in run_bind (alloc_next_page 3 (s\<lparr>bytes := m\<rparr>)) (\<lambda>(stack, s1).
           let m = store64 (bytes s1) (tss + 4) stack;
               m = store64 m (tss + 12) stack;
               m = store64 m (tss + 20) stack;
               m = store64 m (tss + 36) stack;
               m = encodeGdtEntry (gdtPtr + 40)
                     \<lparr>g_base = tss, g_limit = tss_size - 1, g_access = 0x89, g_flags = 0\<rparr> m
           in ret (reloadSegments (setTSS (setGdt gdt_bytes gdtPtr (s1\<lparr>bytes := m\<rparr>))))))"

section \<open>The interrupt descriptor table\<close>

text \<open>The interrupt entry points, in the order of \<open>interrupt_pointers\<close>.\<close>

datatype isr =
  asm_divide_error | asm_debug | asm_NMII | asm_breakP | asm_overflow | asm_boundRange |
  asm_inv_op | asm_device_np | asm_double_fault | asm_co_seg_over | asm_inv_tss | asm_seg_abs |
  asm_ss_fault | asm_prot | asm_page_fault | reserved | asm_fpu_err | asm_all_check |
  asm_mach_check | asm_simd | asm_virt_exc | asm_con_p_excetpion | asm_PITI |
  asm_keyboard_handler | asm_cascade | asm_com2 | asm_com1 | asm_ltp2 | asm_floppy_disk |
  asm_spurious | asm_cmos | asm_periph | asm_mouse | asm_copu | asm_pATA | asm_sATA | asm_syscall |
  asm_APIC_timer_handler

definition interrupt_pointers :: "isr list" where
  "interrupt_pointers =
    [asm_divide_error, asm_debug, asm_NMII, asm_breakP, asm_overflow, asm_boundRange, asm_inv_op,
     asm_device_np, asm_double_fault, asm_co_seg_over, asm_inv_tss, asm_seg_abs, asm_ss_fault,
     asm_prot, asm_page_fault, reserved, asm_fpu_err, asm_all_check, asm_mach_check, asm_simd,
     asm_virt_exc, asm_con_p_excetpion, reserved, reserved, reserved, reserved, reserved, reserved,
     reserved, reserved, reserved, reserved, asm_PITI, asm_keyboard_handler, asm_cascade, asm_com2,
     asm_com1, asm_ltp2, asm_floppy_disk, asm_spurious, asm_cmos, asm_periph, asm_periph,
     asm_periph, asm_mouse, asm_copu, asm_pATA, asm_sATA, asm_syscall, asm_APIC_timer_handler]"

text \<open>\<open>idt_entry\<close>: 16 bytes; the attribute word of every gate is an argument of the call.\<close>

definition idt_set_descriptor :: "u64 \<Rightarrow> u8 \<Rightarrow> u64 \<Rightarrow> u8 \<Rightarrow> u8 \<Rightarrow> mem \<Rightarrow> mem" where
  "idt_set_descriptor idt vector isr flags ist m =
     (let descriptor = idt + 16 * ucast vector;
          m = store16 m descriptor (ucast (isr AND 0xFFFF));
          m = store16 m (descriptor + 2) 0x0008;
          m = store8 m (descriptor + 4) 0;
          m = store8 m (descriptor + 5) flags;
          m = store16 m (descriptor + 6) (ucast (drop_bit 16 isr AND 0xFFFF));
          m = store32 m (descriptor + 8) (ucast (drop_bit 32 isr AND 0xFFFFFFFF))
      in store32 m (descriptor + 12) 0)"

text \<open>
  \<open>addr\<close> is the address of each entry point; the entry points are written in assembly.
  \<open>idt_loop n\<close> is the loop after the vectors \<open>0, \<dots>, n - 1\<close>.
\<close>

primrec idt_loop :: "(isr \<Rightarrow> u64) \<Rightarrow> u64 \<Rightarrow> u64 \<Rightarrow> nat \<Rightarrow> mem \<Rightarrow> mem" where
  "idt_loop addr idt vectors 0 m = m"
| "idt_loop addr idt vectors (Suc v) m =
     store8 (idt_set_descriptor idt (of_nat v) (addr (interrupt_pointers ! v)) 0x8E 0 (idt_loop addr idt vectors v m))
       (vectors + of_nat v) 1"

definition idt_init :: "(isr \<Rightarrow> u64) \<Rightarrow> u64 \<Rightarrow> u64 \<Rightarrow> 'a cpu_state_scheme \<Rightarrow> 'a cpu_state_scheme" where
  "idt_init addr idt vectors s =
     s\<lparr>bytes := idt_loop addr idt vectors 50 (bytes s), idtr_base := idt, idtr_limit := 16 * 50 - 1,
       interrupts_on := True\<rparr>"

section \<open>Handlers\<close>

definition write_msr :: "u64 \<Rightarrow> u64 \<Rightarrow> 'a machine_scheme \<Rightarrow> 'a machine_scheme" where
  "write_msr r v s = s\<lparr>msr := (msr s)(r := v)\<rparr>"

definition read_msr :: "u64 \<Rightarrow> 'a machine_scheme \<Rightarrow> u64" where
  "read_msr r s = msr s r"

text \<open>The message of a handler, and the EOI register of the local APIC.\<close>

definition say :: "string \<Rightarrow> 'a machine_scheme \<Rightarrow> 'a machine_scheme" where
  "say msg s = s\<lparr>console := console s @ msg\<rparr>"

definition end_of_interrupt :: "'a machine_scheme \<Rightarrow> 'a machine_scheme" where
  "end_of_interrupt s = write_msr (0x800 + 0xB) 0 s"

definition PITI :: "'a machine_scheme \<Rightarrow> 'a machine_scheme" where
  "PITI s = end_of_interrupt (say ''PITI'' s)"

definition cascade :: "'a machine_scheme \<Rightarrow> 'a machine_scheme" where
  "cascade s = end_of_interrupt (say ''Cascade'' s)"

definition com2 :: "'a machine_scheme \<Rightarrow> 'a machine_scheme" where
  "com2 s = end_of_interrupt (say ''COM2'' s)"

definition com1 :: "'a machine_scheme \<Rightarrow> 'a machine_scheme" where
  "com1 s = end_of_interrupt (say ''COM1'' s)"

definition ltp2 :: "'a machine_scheme \<Rightarrow> 'a machine_scheme" where
  "ltp2 s = end_of_interrupt (say ''LPT2'' s)"

definition floppy_disk :: "'a machine_scheme \<Rightarrow> 'a machine_scheme" where
  "floppy_disk s = end_of_interrupt (say ''FLOPPY'' s)"

definition spurious :: "'a machine_scheme \<Rightarrow> 'a machine_scheme" where
  "spurious s = end_of_interrupt (say ''supurios'' s)"

definition cmos :: "'a machine_scheme \<Rightarrow> 'a machine_scheme" where
  "cmos s = end_of_interrupt (say ''CMOS'' s)"

definition periph :: "'a machine_scheme \<Rightarrow> 'a machine_scheme" where
  "periph s = end_of_interrupt (say ''Peripheral'' s)"

definition mouse :: "'a machine_scheme \<Rightarrow> 'a machine_scheme" where
  "mouse s = end_of_interrupt (say ''mouse'' s)"

definition copu :: "'a machine_scheme \<Rightarrow> 'a machine_scheme" where
  "copu s = end_of_interrupt (say ''Coprocessor'' s)"

definition pATA :: "'a machine_scheme \<Rightarrow> 'a machine_scheme" where
  "pATA s = end_of_interrupt (say ''Primary ATA'' s)"

definition sATA :: "'a machine_scheme \<Rightarrow> 'a machine_scheme" where
  "sATA s = end_of_interrupt (say ''Secondary ATA'' s)"

definition pic_remap :: "'a machine_scheme \<Rightarrow> 'a machine_scheme" where
  "pic_remap s = end_of_interrupt (say ''PIC'' s)"

text \<open>\<open>exceptions.c\<close>: an exception stops the machine with its message, two of them return.\<close>

definition reserved_vector :: "'a machine_scheme \<Rightarrow> 'a machine_scheme run" where
  "reserved_vector s = stop Hcf"

definition debug :: "'a machine_scheme \<Rightarrow> 'a machine_scheme run" where
  "debug s = ret (say ''Debug'' s)"

definition breakP :: "'a machine_scheme \<Rightarrow> 'a machine_scheme run" where
  "breakP s = ret s"

definition divide_error :: "'a machine_scheme \<Rightarrow> 'a machine_scheme run" where
  "divide_error s = stop (Panic ''Divide by 0 exception'')"

definition NMII :: "'a machine_scheme \<Rightarrow> 'a machine_scheme run" where
  "NMII s = stop (Panic ''Non maskable external interrupt'')"

definition overflow :: "'a machine_scheme \<Rightarrow> 'a machine_scheme run" where
  "overflow s = stop (Panic ''Overflow'')"

definition boundRange :: "'a machine_scheme \<Rightarrow> 'a machine_scheme run" where
  "boundRange s = stop (Panic ''Bound range exceded'')"

definition inv_op :: "'a machine_scheme \<Rightarrow> 'a machine_scheme run" where
  "inv_op s = stop (Panic ''Invalid Opcode'')"

definition device_np :: "'a machine_scheme \<Rightarrow> 'a machine_scheme run" where
  "device_np s = stop (Panic ''Device not Available(FPU)'')"

definition double_fault :: "'a machine_scheme \<Rightarrow> 'a machine_scheme run" where
  "double_fault s = stop (Panic ''Double fault'')"

definition co_seg_over :: "'a machine_scheme \<Rightarrow> 'a machine_scheme run" where
  "co_seg_over s = stop (Panic ''Coprocessor overrun'')"

definition inv_tss :: "'a machine_scheme \<Rightarrow> 'a machine_scheme run" where
  "inv_tss s = stop (Panic ''Invalid TSS'')"

definition seg_abs :: "'a machine_scheme \<Rightarrow> 'a machine_scheme run" where
  "seg_abs s = stop (Panic ''Segment not present'')"

definition ss_fault :: "'a machine_scheme \<Rightarrow> 'a machine_scheme run" where
  "ss_fault s = stop (Panic ''Stack Segment Fault'')"

definition prot :: "'a machine_scheme \<Rightarrow> 'a machine_scheme run" where
  "prot s = stop (Panic ''General Protection'')"

definition page_fault :: "'a machine_scheme \<Rightarrow> 'a machine_scheme run" where
  "page_fault s = stop (Panic ''Page Fault'')"

definition fpu_err :: "'a machine_scheme \<Rightarrow> 'a machine_scheme run" where
  "fpu_err s = stop (Panic ''Floating-point error'')"

definition all_check :: "'a machine_scheme \<Rightarrow> 'a machine_scheme run" where
  "all_check s = stop (Panic ''Alignment Check'')"

definition mach_check :: "'a machine_scheme \<Rightarrow> 'a machine_scheme run" where
  "mach_check s = stop (Panic ''Machine CHeck'')"

definition simd :: "'a machine_scheme \<Rightarrow> 'a machine_scheme run" where
  "simd s = stop (Panic ''SIMD FP Exception'')"

definition virt_exc :: "'a machine_scheme \<Rightarrow> 'a machine_scheme run" where
  "virt_exc s = stop (Panic ''Virtualisation exception'')"

definition con_p_excetpion :: "'a machine_scheme \<Rightarrow> 'a machine_scheme run" where
  "con_p_excetpion s = stop (Panic ''Control Protection Exception'')"

section \<open>What the processor reads\<close>

text \<open>The fields of a segment descriptor; a system descriptor has the upper half of its base behind it.\<close>

definition d_limit :: "mem \<Rightarrow> u64 \<Rightarrow> u32" where
  "d_limit m a = ucast (m a) OR push_bit 8 (ucast (m (a + 1))) OR push_bit 16 (ucast (m (a + 6) AND 0x0F))"

definition d_base :: "mem \<Rightarrow> u64 \<Rightarrow> u64" where
  "d_base m a = ucast (m (a + 2)) OR push_bit 8 (ucast (m (a + 3))) OR push_bit 16 (ucast (m (a + 4))) OR
     push_bit 24 (ucast (m (a + 7)))"

definition d_base_upper :: "mem \<Rightarrow> u64 \<Rightarrow> u64" where
  "d_base_upper m a = push_bit 32 (ucast (m (a + 8))) OR push_bit 40 (ucast (m (a + 9))) OR
     push_bit 48 (ucast (m (a + 10))) OR push_bit 56 (ucast (m (a + 11)))"

definition d_access :: "mem \<Rightarrow> u64 \<Rightarrow> u8" where "d_access m a = m (a + 5)"
definition d_flags :: "mem \<Rightarrow> u64 \<Rightarrow> u8" where "d_flags m a = drop_bit 4 (m (a + 6))"

lemmas descriptor_defs = d_limit_def d_base_def d_base_upper_def d_access_def d_flags_def store8_def load8_def

lemma take_bit_join: "take_bit k w OR push_bit k (take_bit j (drop_bit k w)) = take_bit (k + j) (w :: 'b :: len word)"
  by (rule bit_word_eqI) (auto simp: bit_simps)

lemma low_bits: "w AND 0xFF = take_bit 8 (w :: 'b :: len word)" "w AND 0x0F = take_bit 4 w"
  by (simp_all add: take_bit_eq_mask mask_eq_exp_minus_1)

lemma byte_field:
  "ucast (ucast (take_bit 8 w) :: u8) = (take_bit 8 w :: u64)" "ucast (ucast (take_bit 8 v) :: u8) = (take_bit 8 v :: u32)"
  "ucast (take_bit 4 (ucast (take_bit 4 v) :: u8)) = (take_bit 4 v :: u32)"
  by (rule bit_word_eqI, force simp: bit_simps)+

lemma nibbles: "take_bit 4 (x OR push_bit 4 f) = take_bit 4 (x :: u8)"
    "f < 16 \<Longrightarrow> drop_bit 4 (ucast (take_bit 4 v) OR push_bit 4 f) = (f :: u8)"
proof -
  show "take_bit 4 (x OR push_bit 4 f) = take_bit 4 (x :: u8)"
    by (rule bit_word_eqI) (auto simp: bit_simps)
  assume "f < 16"
  then have "take_bit 4 f = f" by (simp add: word_eq_iff_unat unsigned_take_bit_eq take_bit_nat_eq_self word_less_nat_alt)
  then have f: "bit f n \<longleftrightarrow> n < 4 \<and> bit f n" for n by (metis bit_take_bit_iff)
  show "drop_bit 4 (ucast (take_bit 4 v) OR push_bit 4 f) = (f :: u8)"
    by (rule bit_word_eqI) (use f in \<open>auto simp: bit_simps\<close>)
qed

lemma limit_field:
  "take_bit 8 w OR push_bit 8 (take_bit 8 (drop_bit 8 w)) OR push_bit 16 (take_bit 4 (drop_bit 16 w)) = take_bit 20 (w :: u32)"
  using take_bit_join [of 8 w 8] take_bit_join [of 16 w 4] by (simp add: or.assoc [symmetric])

lemma base_field:
  "take_bit 8 w OR push_bit 8 (take_bit 8 (drop_bit 8 w)) OR push_bit 16 (take_bit 8 (drop_bit 16 w)) OR
    push_bit 24 (take_bit 8 (drop_bit 24 w)) = take_bit 32 (w :: u64)"
  using take_bit_join [of 8 w 8] take_bit_join [of 16 w 8] take_bit_join [of 24 w 8] by (simp add: or.assoc [symmetric])

lemma base_upper_field:
  "push_bit 32 (take_bit 8 (drop_bit 32 w)) OR push_bit 40 (take_bit 8 (drop_bit 40 w)) OR
    push_bit 48 (take_bit 8 (drop_bit 48 w)) OR push_bit 56 (take_bit 8 (drop_bit 56 w)) = push_bit 32 (drop_bit 32 (w :: u64))"
proof (rule bit_word_eqI)
  fix n
  assume "n < LENGTH(64)"
  then have "n < 32 \<or> (\<exists>k < 8. n = 32 + k \<or> n = 40 + k \<or> n = 48 + k \<or> n = 56 + k)"
    by simp presburger
  then show "bit (push_bit 32 (take_bit 8 (drop_bit 32 w)) OR push_bit 40 (take_bit 8 (drop_bit 40 w)) OR
    push_bit 48 (take_bit 8 (drop_bit 48 w)) OR push_bit 56 (take_bit 8 (drop_bit 56 w))) n =
    bit (push_bit 32 (drop_bit 32 w)) n"
    by (auto simp: bit_simps)
qed

lemma descriptor_reads:
  assumes "g_limit source \<le> 0xFFFFF" "g_flags source < 16"
  shows "d_limit (encodeGdtEntry a source m) a = g_limit source"
    "d_base (encodeGdtEntry a source m) a = take_bit 32 (g_base source)"
    "d_access (encodeGdtEntry a source m) a = g_access source" "d_flags (encodeGdtEntry a source m) a = g_flags source"
    "g_access source AND 0x89 \<noteq> 0 \<Longrightarrow>
      d_base (encodeGdtEntry a source m) a OR d_base_upper (encodeGdtEntry a source m) a = g_base source"
proof -
  let ?m = "encodeGdtEntry a source m"
  have "take_bit 20 (g_limit source) = g_limit source"
    using assms(1) by (simp add: word_eq_iff_unat unsigned_take_bit_eq take_bit_nat_eq_self word_le_nat_alt)
  then show "d_limit ?m a = g_limit source"
    by (simp add: encodeGdtEntry_def descriptor_defs Let_def low_bits byte_field take_bit_push_bit limit_field)
  show base: "d_base ?m a = take_bit 32 (g_base source)"
    by (simp add: encodeGdtEntry_def descriptor_defs Let_def low_bits byte_field base_field)
  show "d_flags ?m a = g_flags source"
    using nibbles(2) [OF assms(2), of "drop_bit 16 (g_limit source)"] by (simp add: encodeGdtEntry_def descriptor_defs Let_def low_bits)
  show "d_access ?m a = g_access source"
    by (simp add: encodeGdtEntry_def descriptor_defs Let_def)
  show "d_base ?m a OR d_base_upper ?m a = g_base source" if "g_access source AND 0x89 \<noteq> 0"
  proof -
    have "d_base_upper ?m a = push_bit 32 (drop_bit 32 (g_base source))"
      using that by (simp add: encodeGdtEntry_def descriptor_defs Let_def low_bits byte_field base_upper_field)
    moreover have "take_bit 32 w OR push_bit 32 (drop_bit 32 w) = (w :: u64)" for w
    proof (rule bit_word_eqI)
      fix n
      show "bit (take_bit 32 w OR push_bit 32 (drop_bit 32 w)) n = bit w n" if "n < LENGTH(64)"
        using that by (cases "n < 32") (simp_all add: bit_simps)
    qed
    ultimately show ?thesis using base by simp
  qed
qed

text \<open>
  A segment descriptor reads back as it was written. The processor's view of the eight bytes
  gives the limit (up to 20 bits), the lower half of the base, the access byte and the flags of the
  source; for a present or accessed descriptor the next four bytes give the upper half of the base.
\<close>

lemma descriptor_round_trip:
  assumes "g_limit source \<le> 0xFFFFF" "g_flags source < 16"
  shows "let m' = encodeGdtEntry a source m in
    d_limit m' a = g_limit source \<and> d_base m' a = take_bit 32 (g_base source) \<and>
    d_access m' a = g_access source \<and> d_flags m' a = g_flags source \<and>
    (g_access source AND 0x89 \<noteq> 0 \<longrightarrow> d_base m' a OR d_base_upper m' a = g_base source)"
  using descriptor_reads [OF assms] by (simp add: Let_def)

lemma descriptor_round_trip_example:
  "d_limit (encodeGdtEntry 0x5000 \<lparr>g_base = 0xFFFF800000123456, g_limit = 103, g_access = 0x89, g_flags = 0\<rparr> (\<lambda>_. 0)) 0x5000 = 103"
  using descriptor_round_trip [where source = "\<lparr>g_base = 0xFFFF800000123456, g_limit = 103, g_access = 0x89, g_flags = 0\<rparr>"
      and m = "\<lambda>_. 0" and a = "0x5000"]
  by (simp add: Let_def)

text \<open>Encoding writes nothing outside the descriptor, and eight bytes only if the access byte has none of the bits.\<close>

lemma encode_outside: "x \<notin> span a 12 \<Longrightarrow> encodeGdtEntry a source m x = m x"
proof -
  assume x: "x \<notin> span a 12"
  have "x \<noteq> a + of_nat k" if "k < 12" for k
    using x that by (auto simp: unat_of_nat take_bit_eq_mod)
  from this [of 0] this [of 1] this [of 2] this [of 3] this [of 4] this [of 5] this [of 6] this [of 7] this [of 8]
    this [of 9] this [of 10] this [of 11]
  show ?thesis by (simp add: encodeGdtEntry_def store8_def Let_def)
qed

lemma load64_encode_later: "apart b 8 a 12 \<Longrightarrow> load64 (encodeGdtEntry a source m) b = load64 m b"
proof (rule load64_cong)
  fix x
  assume "apart b 8 a 12" "x \<in> span b 8"
  then show "encodeGdtEntry a source m x = m x" using apart_span [of b 8 a 12] by (intro encode_outside) blast
qed

lemma load64_bytes: "load64 m a = ucast (m a) OR push_bit 8 (ucast (m (a + 1)) OR push_bit 8 (ucast (m (a + 2)) OR
    push_bit 8 (ucast (m (a + 3)) OR push_bit 8 (ucast (m (a + 4)) OR push_bit 8 (ucast (m (a + 5)) OR
    push_bit 8 (ucast (m (a + 6)) OR push_bit 8 (ucast (m (a + 7)))))))))"
proof -
  have "(8 :: nat) = Suc (Suc (Suc (Suc (Suc (Suc (Suc (Suc 0)))))))" by simp
  then have "load64 m a = load_le (Suc (Suc (Suc (Suc (Suc (Suc (Suc (Suc 0)))))))) m a"
    unfolding load64_def by (rule arg_cong)
  then show ?thesis by (simp add: add.assoc)
qed

lemma load64_encode_code:
  "load64 (encodeGdtEntry a \<lparr>g_base = 0, g_limit = 0xFFFFF, g_access = 0x9A, g_flags = 0xA\<rparr> m) a = 0x00AF9A000000FFFF"
  "load64 (encodeGdtEntry a \<lparr>g_base = 0, g_limit = 0xFFFFF, g_access = 0x92, g_flags = 0xC\<rparr> m) a = 0x00CF92000000FFFF"
  "load64 (encodeGdtEntry a \<lparr>g_base = 0, g_limit = 0xFFFFF, g_access = 0xFA, g_flags = 0xA\<rparr> m) a = 0x00AFFA000000FFFF"
  "load64 (encodeGdtEntry a \<lparr>g_base = 0, g_limit = 0xFFFFF, g_access = 0xF2, g_flags = 0xC\<rparr> m) a = 0x00CFF2000000FFFF"
  "load64 (encodeGdtEntry a \<lparr>g_base = 0, g_limit = 0, g_access = 0, g_flags = 0\<rparr> m) a = 0"
  by (simp_all add: load64_bytes encodeGdtEntry_def store8_def load8_def Let_def)

text \<open>The first five descriptors, each encoded behind the one before.\<close>

lemma first_descriptors:
  fixes gdt :: u64 and m :: mem
  defines "m1 \<equiv> encodeGdtEntry gdt \<lparr>g_base = 0, g_limit = 0, g_access = 0, g_flags = 0\<rparr> m"
  defines "m2 \<equiv> encodeGdtEntry (gdt + 8) \<lparr>g_base = 0, g_limit = 0xFFFFF, g_access = 0x9A, g_flags = 0xA\<rparr> m1"
  defines "m3 \<equiv> encodeGdtEntry (gdt + 16) \<lparr>g_base = 0, g_limit = 0xFFFFF, g_access = 0x92, g_flags = 0xC\<rparr> m2"
  defines "m4 \<equiv> encodeGdtEntry (gdt + 24) \<lparr>g_base = 0, g_limit = 0xFFFFF, g_access = 0xFA, g_flags = 0xA\<rparr> m3"
  defines "m5 \<equiv> encodeGdtEntry (gdt + 32) \<lparr>g_base = 0, g_limit = 0xFFFFF, g_access = 0xF2, g_flags = 0xC\<rparr> m4"
  shows "load64 m5 gdt = 0" "load64 m5 (gdt + 8) = 0x00AF9A000000FFFF" "load64 m5 (gdt + 16) = 0x00CF92000000FFFF"
    "load64 m5 (gdt + 24) = 0x00AFFA000000FFFF" "load64 m5 (gdt + 32) = 0x00CFF2000000FFFF"
  by (simp_all add: m5_def m4_def m3_def m2_def m1_def load64_encode_later load64_encode_code)

text \<open>
  The two halves of \<open>setupGDT\<close>: the five descriptors before the call of the page allocator, and what follows with the stack it
  returned, the task state segment and its descriptor.
\<close>

definition tss_written :: "u64 \<Rightarrow> u64 \<Rightarrow> u64 \<Rightarrow> mem \<Rightarrow> mem" where
  "tss_written gdt tss stack m =
     encodeGdtEntry (gdt + 40) \<lparr>g_base = tss, g_limit = tss_size - 1, g_access = 0x89, g_flags = 0\<rparr>
       (store64 (store64 (store64 (store64 m (tss + 4) stack) (tss + 12) stack) (tss + 20) stack) (tss + 36) stack)"

definition five_descriptors :: "mem \<Rightarrow> u64 \<Rightarrow> bool" where
  "five_descriptors m gdt \<longleftrightarrow>
     load64 m gdt = 0 \<and> load64 m (gdt + 8) = 0x00AF9A000000FFFF \<and> load64 m (gdt + 16) = 0x00CF92000000FFFF \<and>
     load64 m (gdt + 24) = 0x00AFFA000000FFFF \<and> load64 m (gdt + 32) = 0x00CFF2000000FFFF"

text \<open>The descriptor of the segment with its stacks.\<close>

definition tss_in_place :: "mem \<Rightarrow> u64 \<Rightarrow> u64 \<Rightarrow> u64 \<Rightarrow> bool" where
  "tss_in_place m gdt tss stack \<longleftrightarrow>
     d_base m (gdt + 40) OR d_base_upper m (gdt + 40) = tss \<and> d_limit m (gdt + 40) = 103 \<and> d_access m (gdt + 40) = 0x89 \<and>
     (\<forall>i \<in> {4, 12, 20, 36}. load64 m (tss + i) = stack)"

lemma setupGDT_halves:
  obtains m where "five_descriptors m gdt" "\<And>x. x \<notin> span gdt 44 \<Longrightarrow> m x = bytes s x"
    "setupGDT gdt tss alloc_next_page s = run_bind (alloc_next_page 3 (s\<lparr>bytes := m\<rparr>)) (\<lambda>(stack, s1).
       ret (reloadSegments (setTSS (setGdt gdt_bytes gdt (s1\<lparr>bytes := tss_written gdt tss stack (bytes s1)\<rparr>)))))"
proof -
  let ?d = "\<lambda>l a fl. \<lparr>g_base = 0, g_limit = l, g_access = a, g_flags = fl\<rparr>"
  define m1 where "m1 = encodeGdtEntry gdt (?d 0 0 0) (bytes s)"
  define m2 where "m2 = encodeGdtEntry (gdt + 8) (?d 0xFFFFF 0x9A 0xA) m1"
  define m3 where "m3 = encodeGdtEntry (gdt + 16) (?d 0xFFFFF 0x92 0xC) m2"
  define m4 where "m4 = encodeGdtEntry (gdt + 24) (?d 0xFFFFF 0xFA 0xA) m3"
  define m5 where "m5 = encodeGdtEntry (gdt + 32) (?d 0xFFFFF 0xF2 0xC) m4"
  have "five_descriptors m5 gdt"
    by (simp add: five_descriptors_def m5_def m4_def m3_def m2_def m1_def first_descriptors)
  moreover have "m5 x = bytes s x" if x: "x \<notin> span gdt 44" for x
  proof -
    have "span gdt 12 \<subseteq> span gdt 44" "span (gdt + 8) 12 \<subseteq> span gdt 44" "span (gdt + 16) 12 \<subseteq> span gdt 44"
      "span (gdt + 24) 12 \<subseteq> span gdt 44" "span (gdt + 32) 12 \<subseteq> span gdt 44"
      by (rule span_sub span_mono; simp)+
    then have "x \<notin> span gdt 12" "x \<notin> span (gdt + 8) 12" "x \<notin> span (gdt + 16) 12" "x \<notin> span (gdt + 24) 12" "x \<notin> span (gdt + 32) 12"
      using x by blast+
    then show ?thesis by (simp add: m5_def m4_def m3_def m2_def m1_def encode_outside del: mem_span)
  qed
  moreover have "setupGDT gdt tss alloc_next_page s = run_bind (alloc_next_page 3 (s\<lparr>bytes := m5\<rparr>)) (\<lambda>(stack, s1).
       ret (reloadSegments (setTSS (setGdt gdt_bytes gdt (s1\<lparr>bytes := tss_written gdt tss stack (bytes s1)\<rparr>)))))"
    unfolding setupGDT_def Let_def m1_def [symmetric] m2_def [symmetric] m3_def [symmetric] m4_def [symmetric] m5_def [symmetric]
      tss_written_def ..
  ultimately show thesis by (rule that)
qed

lemma tss_written_facts:
  assumes sep: "apart gdt 56 tss 104"
  shows "tss_in_place (tss_written gdt tss stack m) gdt tss stack"
    "five_descriptors m gdt \<Longrightarrow> five_descriptors (tss_written gdt tss stack m) gdt"
    "x \<notin> span (gdt + 40) 12 \<Longrightarrow> x \<notin> span tss 104 \<Longrightarrow> tss_written gdt tss stack m x = m x"
proof -
  let ?tss = "\<lparr>g_base = tss, g_limit = tss_size - 1, g_access = 0x89, g_flags = 0\<rparr>" and ?m' = "tss_written gdt tss stack m"
  define m6 where "m6 = store64 (store64 (store64 (store64 m (tss + 4) stack) (tss + 12) stack) (tss + 20) stack) (tss + 36) stack"
  have m': "?m' = encodeGdtEntry (gdt + 40) ?tss m6" by (simp add: tss_written_def m6_def)
  have field: "apart (gdt + i) 8 (tss + j) 8" if "unat i + 8 \<le> 56" "unat j + 8 \<le> 104" for i j
    by (rule apart_field [OF sep that]) simp_all
  have keep: "load64 ?m' (gdt + i) = load64 m (gdt + i)" if "unat i + 8 \<le> 40" for i
  proof -
    have "apart (gdt + i) 8 (gdt + 40) 12"
      using that by (simp, intro apart_no_wrap) simp_all
    then show ?thesis unfolding m' m6_def using that by (simp add: load64_encode_later field)
  qed
  show "five_descriptors ?m' gdt" if "five_descriptors m gdt"
    using that keep [of 0] keep [of 8] keep [of 16] keep [of 24] keep [of 32] by (simp add: five_descriptors_def)
  have "load64 ?m' (tss + i) = stack" if "i \<in> {4, 12, 20, 36}" for i
  proof -
    have "apart (gdt + 40) 12 (tss + i) 8" by (rule apart_field [OF sep]) (use that in auto)
    then have "load64 ?m' (tss + i) = load64 m6 (tss + i)"
      unfolding m' by (simp add: load64_encode_later apart_sym)
    then show ?thesis using that by (auto simp: m6_def)
  qed
  moreover have "d_base ?m' (gdt + 40) OR d_base_upper ?m' (gdt + 40) = tss" "d_limit ?m' (gdt + 40) = 103"
    "d_access ?m' (gdt + 40) = 0x89"
    unfolding m' using descriptor_reads [of ?tss "gdt + 40" m6] by (simp_all add: tss_size_def del: or.assoc)
  ultimately show "tss_in_place ?m' gdt tss stack" by (simp add: tss_in_place_def)
  show "?m' x = m x" if x: "x \<notin> span (gdt + 40) 12" "x \<notin> span tss 104"
  proof -
    have "span (tss + 4) 8 \<subseteq> span tss 104" "span (tss + 12) 8 \<subseteq> span tss 104" "span (tss + 20) 8 \<subseteq> span tss 104"
      "span (tss + 36) 8 \<subseteq> span tss 104"
      by (rule span_sub; simp)+
    then have "x \<notin> span (tss + 4) 8" "x \<notin> span (tss + 12) 8" "x \<notin> span (tss + 20) 8" "x \<notin> span (tss + 36) 8"
      using x(2) by blast+
    then show ?thesis using x(1) by (simp add: m' m6_def encode_outside store64_outside del: mem_span)
  qed
qed

definition zero_cpu :: cpu_state where
  "zero_cpu = \<lparr>bytes = (\<lambda>_. 0), cr3 = 0, console = [], msr = (\<lambda>_. 0), gdtr_limit = 0, gdtr_base = 0, code_selector = 0,
     data_selector = 0, task_register = 0, idtr_limit = 0, idtr_base = 0, interrupts_on = False\<rparr>"

section \<open>Gates\<close>

text \<open>The fields of gate \<open>v\<close> as the processor reads them.\<close>

definition gate :: "u64 \<Rightarrow> nat \<Rightarrow> u64" where "gate idt v = idt + 16 * of_nat v"

definition gate_offset :: "mem \<Rightarrow> u64 \<Rightarrow> u64" where
  "gate_offset m a = ucast (load16 m a) OR push_bit 16 (ucast (load16 m (a + 6))) OR push_bit 32 (ucast (load32 m (a + 8)))"

definition gate_ok :: "mem \<Rightarrow> u64 \<Rightarrow> u64 \<Rightarrow> bool" where
  "gate_ok m a isr \<longleftrightarrow> gate_offset m a = isr \<and> load16 m (a + 2) = 0x0008 \<and> load8 m (a + 4) = 0 \<and> load8 m (a + 5) = 0x8E \<and>
     load32 m (a + 12) = 0"

lemma idt_set_descriptor_reads: "gate_ok (idt_set_descriptor idt v isr 0x8E ist m) (idt + 16 * ucast v) isr"
proof -
  let ?a = "idt + 16 * ucast v"
  have f: "isr AND 0xFFFF = take_bit 16 isr" "isr AND 0xFFFFFFFF = take_bit 32 isr" for isr :: u64
    by (simp_all add: take_bit_eq_mask mask_eq_exp_minus_1)
  have u: "ucast (ucast (take_bit 16 w) :: u16) = take_bit 16 w" "ucast (ucast (take_bit 32 w) :: u32) = take_bit 32 w" for w :: u64
    by (rule bit_word_eqI, force simp: bit_simps)+
  have "take_bit 16 isr OR push_bit 16 (take_bit 16 (drop_bit 16 isr)) OR push_bit 32 (take_bit 32 (drop_bit 32 isr)) = isr"
    using take_bit_join [of 16 isr 16] take_bit_join [of 32 isr 32]
    by (simp add: or.assoc [symmetric] take_bit_word_eq_self)
  then have "gate_offset (idt_set_descriptor idt v isr 0x8E ist m) ?a = isr"
    by (simp add: gate_offset_def idt_set_descriptor_def Let_def f u)
  then show ?thesis by (simp add: gate_ok_def idt_set_descriptor_def Let_def)
qed

lemma idt_set_descriptor_outside:
  "x \<notin> span (idt + 16 * ucast v) 16 \<Longrightarrow> idt_set_descriptor idt v isr flags ist m x = m x"
proof -
  let ?a = "idt + 16 * ucast v"
  assume x: "x \<notin> span ?a 16"
  have "x \<notin> span (?a + k) n" if "unat k + n \<le> 16" for k n
    using x span_sub [OF that] by blast
  from this [of 0 2] this [of 2 2] this [of 4 1] this [of 5 1] this [of 6 2] this [of 8 4] this [of 12 4]
  show ?thesis
    by (simp add: idt_set_descriptor_def Let_def store16_outside store32_outside store8_is_store_le store_le_outside del: mem_span)
qed

lemma gate_ok_cong: "(\<And>x. x \<in> span a 16 \<Longrightarrow> m' x = m x) \<Longrightarrow> gate_ok m' a isr \<longleftrightarrow> gate_ok m a isr"
proof -
  assume eq: "\<And>x. x \<in> span a 16 \<Longrightarrow> m' x = m x"
  have le: "load_le n m' (a + k) = load_le n m (a + k)" if "unat k + n \<le> 16" "n \<le> 8" for n k
    by (rule load_le_cong) (use span_sub [OF that(1)] that(2) eq in blast)+
  have "load8 m' (a + k) = load8 m (a + k)" if "unat k + 1 \<le> 16" for k
    unfolding load8_def by (rule eq) (use that in simp)
  then show ?thesis
    using le [of 0 2] by (simp add: gate_ok_def gate_offset_def load16_def load32_def le)
qed

lemma unat_gate: "v < 256 \<Longrightarrow> unat (16 * of_nat v :: u64) = 16 * v"
  by (simp add: unat_word_ariths unat_of_nat take_bit_eq_mod)

lemma gate_apart: "v < 256 \<Longrightarrow> n < 256 \<Longrightarrow> v \<noteq> n \<Longrightarrow> span (gate idt v) 16 \<inter> span (gate idt n) 16 = {}"
proof (rule apart_span)
  assume "v < 256" "n < 256" "v \<noteq> n"
  then consider "v < n" | "n < v" by linarith
  then have "apart (16 * of_nat v) 16 (16 * of_nat n) 16"
  proof cases
    case 1
    then show ?thesis using unat_gate [of v] unat_gate [of n] \<open>n < 256\<close> by (intro apart_no_wrap) simp_all
  next
    case 2
    then have "apart (16 * of_nat n) 16 (16 * of_nat v) 16"
      using unat_gate [of v] unat_gate [of n] \<open>v < 256\<close> by (intro apart_no_wrap) simp_all
    then show ?thesis by (simp add: apart_sym)
  qed
  then show "apart (gate idt v) 16 (gate idt n) 16" by (simp add: gate_def)
qed

lemma gate_vectors:
  assumes "apart idt 4096 vectors 50" "v < 256" "n < 50"
  shows "vectors + of_nat n \<notin> span (gate idt v) 16"
proof -
  have "span (gate idt v) 16 \<subseteq> span idt 4096"
    unfolding gate_def using assms(2) unat_gate [of v] by (intro span_sub) simp
  moreover have "vectors + of_nat n \<in> span vectors 50"
    using assms(3) by (simp add: unat_of_nat take_bit_eq_mod)
  ultimately show ?thesis using apart_span [OF assms(1)] by blast
qed

lemma idt_loop_gates:
  assumes sep: "apart idt 4096 vectors 50"
  shows "n \<le> 50 \<Longrightarrow> (v < n \<longrightarrow> gate_ok (idt_loop addr idt vectors n m) (gate idt v) (addr (interrupt_pointers ! v))) \<and>
    (n \<le> v \<longrightarrow> v < 256 \<longrightarrow> (\<forall>x \<in> span (gate idt v) 16. idt_loop addr idt vectors n m x = m x))"
proof (induction n)
  case (Suc n)
  let ?m = "idt_loop addr idt vectors n m" and ?g = "gate idt n" and ?i = "addr (interrupt_pointers ! n)"
  let ?m' = "idt_set_descriptor idt (of_nat n) ?i 0x8E 0 ?m"
  have g: "idt + 16 * ucast (of_nat n :: u8) = ?g"
    using Suc.prems by (simp add: gate_def unsigned_of_nat take_bit_nat_eq_self)
  have out: "?m' x = ?m x" if "x \<notin> span ?g 16" for x
    by (rule idt_set_descriptor_outside) (use g that in simp)
  have step: "idt_loop addr idt vectors (Suc n) m x = ?m' x" if "x \<in> span (gate idt v) 16" "v < 256" for x v
    using gate_vectors [OF sep, of v n] that Suc.prems by (auto simp: store8_def simp del: mem_span)
  have "gate_ok ?m' ?g ?i" using idt_set_descriptor_reads [of idt "of_nat n" ?i 0 ?m] by (simp only: g)
  then have now: "gate_ok (idt_loop addr idt vectors (Suc n) m) ?g ?i"
    using gate_ok_cong [of ?g "idt_loop addr idt vectors (Suc n) m" ?m' ?i] step [of _ n] Suc.prems
    by (simp del: mem_span idt_loop.simps)
  have other: "idt_loop addr idt vectors (Suc n) m x = ?m x" if "x \<in> span (gate idt v) 16" "v < 256" "v \<noteq> n" for x v
  proof -
    have "x \<notin> span ?g 16" using gate_apart [of v n idt] that Suc.prems by auto
    then show ?thesis using step [OF that(1,2)] out by simp
  qed
  show ?case
  proof (intro conjI impI ballI)
    assume "v < Suc n"
    then show "gate_ok (idt_loop addr idt vectors (Suc n) m) (gate idt v) (addr (interrupt_pointers ! v))"
    proof (cases "v = n")
      case False
      then have "gate_ok ?m (gate idt v) (addr (interrupt_pointers ! v))" using Suc \<open>v < Suc n\<close> by simp
      then show ?thesis 
        using gate_ok_cong [of "gate idt v" "idt_loop addr idt vectors (Suc n) m" ?m] other [of _ v] False \<open>v < Suc n\<close> Suc.prems
        by (simp del: mem_span idt_loop.simps)
    qed (use now in simp)
  next
    fix x
    assume "Suc n \<le> v" "v < 256" "x \<in> span (gate idt v) 16"
    then show "idt_loop addr idt vectors (Suc n) m x = m x" using other [of x v] Suc by (simp del: mem_span idt_loop.simps)
  qed
qed simp

text \<open>
  C24: idt_init installs every handler. Each of the 50 vectors has a present ring-0 interrupt
  gate in the kernel code segment whose three offset fields together are the address of its entry
  point; the gates behind them are left alone, and the limit covers the 50 gates exactly.
\<close>

theorem idt_gates:
  assumes "apart idt 4096 vectors 50" "v < 256"
  shows "let s' = idt_init addr idt vectors s in
    idtr_base s' = idt \<and> unat (idtr_limit s') + 1 = 16 * length interrupt_pointers \<and> interrupts_on s' \<and>
    (if v < 50 then gate_ok (bytes s') (gate idt v) (addr (interrupt_pointers ! v))
     else \<forall>x \<in> span (gate idt v) 16. bytes s' x = bytes s x)"
  using idt_loop_gates [OF assms(1), of 50 v addr "bytes s"] assms(2)
  by (simp add: idt_init_def Let_def interrupt_pointers_def)

theorem idt_gates_witness:
  "gate_ok (bytes (idt_init (\<lambda>i. if i = asm_keyboard_handler then 0xFFFFFFFF80001234 else 0) 0x1000 0x8000 zero_cpu))
     (gate 0x1000 33) 0xFFFFFFFF80001234"
  using idt_gates [where idt = "0x1000" and vectors = "0x8000" and v = 33 and s = zero_cpu
      and addr = "\<lambda>i. if i = asm_keyboard_handler then 0xFFFFFFFF80001234 else 0"]
  by (simp add: Let_def interrupt_pointers_def)

end
