(* ===== verification/Scheduler.thy ===== *)
theory Scheduler
  imports Kernel_Heap "HOL-Library.Multiset"
begin

text \<open>
  The thread scheduler (\<open>kernel/src/kernel/scheduling\<close>): a run queue of list nodes, the lists of
  sleeping and waiting threads, a pool of empty nodes taken from the heap ten at a time, and
  the policy, a function pointer that inserts a node into the run queue. What a policy promises is
  the locale \<open>sched_policy\<close>, with \<open>fifo_policy\<close> for those that append; the kernel's own
  \<open>standart_FCFS_scheduler\<close> is shown to be one. Routines of other components that the
  scheduler calls are arguments of its definitions.
\<close>

section \<open>Data\<close>

datatype thread_state = un_started | dead | running | ready | sleeping | waiting

fun state_code :: "thread_state \<Rightarrow> u32" where
  "state_code un_started = 0"
| "state_code dead = 1"
| "state_code running = 2"
| "state_code ready = 3"
| "state_code sleeping = 4"
| "state_code waiting = 5"

text \<open>\<open>struct list_data\<close> (24 bytes) and \<open>struct thread\<close> (40 bytes), field by field.\<close>

definition l_thread :: "mem \<Rightarrow> u64 \<Rightarrow> u64" where "l_thread m e = load64 m e"
definition l_score :: "mem \<Rightarrow> u64 \<Rightarrow> u64" where "l_score m e = load64 m (e + 8)"
definition l_next :: "mem \<Rightarrow> u64 \<Rightarrow> u64" where "l_next m e = load64 m (e + 16)"
definition t_tid :: "mem \<Rightarrow> u64 \<Rightarrow> u64" where "t_tid m t = load64 m t"
definition t_parent_pid :: "mem \<Rightarrow> u64 \<Rightarrow> u64" where "t_parent_pid m t = load64 m (t + 8)"
definition t_rsp :: "mem \<Rightarrow> u64 \<Rightarrow> u64" where "t_rsp m t = load64 m (t + 16)"
definition t_state :: "mem \<Rightarrow> u64 \<Rightarrow> u32" where "t_state m t = load32 m (t + 24)"

definition set_thread_state :: "u64 \<Rightarrow> thread_state \<Rightarrow> mem \<Rightarrow> mem" where
  "set_thread_state t st m = store32 m (t + 24) (state_code st)"

text \<open>A policy gets the head of the run queue and the node to insert; \<open>None\<close> is an endless loop.\<close>

type_synonym policy = "u64 \<Rightarrow> u64 \<Rightarrow> mem \<Rightarrow> mem option"

record sched_state = heap_state +
  empty_scheduling :: bool
  next_running_thread :: u64
  next_count :: u64
  next_waiting_thread :: u64
  waiting_count :: u64
  next_sleeping_thread :: u64
  sleeping_count :: u64
  empty_thread_data :: u64
  empty_count :: u64
  current_running_thread :: u64
  thread_id_inc :: u64
  scheduler_function :: policy

section \<open>Operations\<close>

partial_function (option) fcfs_last :: "mem \<Rightarrow> u64 \<Rightarrow> u64 option" where
  "fcfs_last m first = (if l_next m first \<noteq> 0 then fcfs_last m (l_next m first) else Some first)"

definition standart_FCFS_scheduler :: policy where
  "standart_FCFS_scheduler lst to_insert m =
     map_option (\<lambda>first. store64 m (first + 16) to_insert) (fcfs_last m lst)"

definition set_scheduler_function :: "policy \<Rightarrow> 'a sched_state_scheme \<Rightarrow> 'a sched_state_scheme" where
  "set_scheduler_function f s = s\<lparr>scheduler_function := f\<rparr>"

definition call_policy :: "u64 \<Rightarrow> u64 \<Rightarrow> 'a sched_state_scheme \<Rightarrow> 'a sched_state_scheme run" where
  "call_policy lst e s =
     (case scheduler_function s lst e (bytes s) of None \<Rightarrow> None | Some m \<Rightarrow> ret (s\<lparr>bytes := m\<rparr>))"

definition pop_next_thread :: "'a sched_state_scheme \<Rightarrow> u64 \<times> 'a sched_state_scheme" where
  "pop_next_thread s =
     (let element = next_running_thread s;
          thread = l_thread (bytes s) element;
          s1 = s\<lparr>next_running_thread := l_next (bytes s) element, next_count := next_count s - 1\<rparr>;
          s2 = s1\<lparr>empty_scheduling := (next_count s1 = 0)\<rparr>;
          s3 = s2\<lparr>bytes := store64 (bytes s2) (element + 16) 0, current_running_thread := element\<rparr>
      in (thread, s3\<lparr>bytes := set_thread_state thread running (bytes s3)\<rparr>))"

definition pop_next_and_readd_running :: "u64 \<Rightarrow> 'a sched_state_scheme \<Rightarrow> (u64 \<times> 'a sched_state_scheme) run" where
  "pop_next_and_readd_running rsp s =
     (let cur = current_running_thread s;
          s1 = s\<lparr>bytes := store64 (bytes s) (l_thread (bytes s) cur + 16) rsp\<rparr>
      in if empty_scheduling s1 then ret (l_thread (bytes s1) cur, s1)
         else
           let s2 = s1\<lparr>bytes := set_thread_state (l_thread (bytes s1) cur) ready (bytes s1)\<rparr>
           in run_bind (call_policy (next_running_thread s2) cur s2) (\<lambda>s3.
                ret (pop_next_thread (s3\<lparr>next_count := next_count s3 + 1\<rparr>))))"

text \<open>The first loop of \<open>malloc_empty_bucket\<close>, after the iterations \<open>0, \<dots>, n - 1\<close>.\<close>

primrec bucket_links :: "u64 \<Rightarrow> nat \<Rightarrow> mem \<Rightarrow> mem" where
  "bucket_links bucket 0 m = m"
| "bucket_links bucket (Suc i) m =
     store64 (bucket_links bucket i m) (bucket + 24 * of_nat i + 16) (bucket + 24 * of_nat (Suc i))"

definition malloc_empty_bucket :: "'a sched_state_scheme \<Rightarrow> 'a sched_state_scheme run" where
  "malloc_empty_bucket s =
     run_bind (malloc 240 s) (\<lambda>(bucket, s1).
       let m1 = bucket_links bucket 9 (bytes s1);
           m2 = store64 m1 (bucket + 24 * 9 + 16) (empty_thread_data s1)
       in ret (s1\<lparr>bytes := m2, empty_thread_data := bucket, empty_count := empty_count s1 + 10\<rparr>))"

definition add_thread_to_schedule :: "u64 \<Rightarrow> 'a sched_state_scheme \<Rightarrow> 'a sched_state_scheme run" where
  "add_thread_to_schedule thread s =
     (let s0 = s\<lparr>bytes := set_thread_state thread ready (bytes s)\<rparr>
      in run_bind (if empty_count s0 = 0 then malloc_empty_bucket s0 else ret s0) (\<lambda>s1.
           let to_use = empty_thread_data s1;
               s2 = s1\<lparr>bytes := store64 (bytes s1) to_use thread\<rparr>;
               s3 = s2\<lparr>empty_thread_data := l_next (bytes s2) to_use, empty_count := empty_count s2 - 1\<rparr>;
               s4 = s3\<lparr>bytes := store64 (bytes s3) (to_use + 16) 0\<rparr>
           in run_bind (if next_count s4 = 0 then ret (s4\<lparr>next_running_thread := to_use\<rparr>)
                        else call_policy (next_running_thread s4) to_use s4) (\<lambda>s5.
                ret (s5\<lparr>next_count := next_count s5 + 1, empty_scheduling := False\<rparr>))))"

partial_function (option) find_sleeper :: "mem \<Rightarrow> u64 \<Rightarrow> u64 \<Rightarrow> u64 option" where
  "find_sleeper m tID cur =
     (if cur \<noteq> 0 \<and> t_tid m (l_thread m cur) \<noteq> tID then find_sleeper m tID (l_next m cur) else Some cur)"

definition awake_thread :: "u64 \<Rightarrow> 'a sched_state_scheme \<Rightarrow> 'a sched_state_scheme run" where
  "awake_thread tID s =
     (let wake = (\<lambda>cur.
            let s1 = s\<lparr>bytes := set_thread_state (l_thread (bytes s) cur) ready (bytes s)\<rparr>
            in run_bind (call_policy (next_running_thread s1) cur s1) (\<lambda>s2.
                 ret (s2\<lparr>next_count := next_count s2 + 1\<rparr>)))
      in if t_tid (bytes s) (l_thread (bytes s) (next_sleeping_thread s)) = tID
         then wake (next_sleeping_thread s)
         else case find_sleeper (bytes s) tID (next_sleeping_thread s) of
                None \<Rightarrow> None
              | Some cur \<Rightarrow> if cur = 0 then ret s else wake cur)"

definition this_wait :: "'a sched_state_scheme \<Rightarrow> 'a sched_state_scheme" where
  "this_wait s =
     (let cur = current_running_thread s;
          m1 = set_thread_state (l_thread (bytes s) cur) waiting (bytes s);
          m2 = store64 m1 (cur + 16) (next_waiting_thread s)
      in s\<lparr>bytes := m2, next_waiting_thread := cur, waiting_count := waiting_count s + 1\<rparr>)"

definition this_sleep ::
  "(u64 \<Rightarrow> u64 \<Rightarrow> 'a sched_state_scheme \<Rightarrow> 'a sched_state_scheme run) \<Rightarrow> u64 \<Rightarrow>
   'a sched_state_scheme \<Rightarrow> 'a sched_state_scheme run" where
  "this_sleep add_to_sleep delta s =
     (let cur = current_running_thread s;
          m1 = set_thread_state (l_thread (bytes s) cur) sleeping (bytes s);
          m2 = store64 m1 (cur + 16) (next_sleeping_thread s);
          m3 = store64 m2 (cur + 8) delta;
          s1 = s\<lparr>bytes := m3, next_sleeping_thread := cur, sleeping_count := sleeping_count s + 1\<rparr>
      in add_to_sleep delta (t_tid (bytes s1) (l_thread (bytes s1) cur)) s1)"

definition this_kill :: "'a sched_state_scheme \<Rightarrow> 'a sched_state_scheme" where
  "this_kill s =
     (let cur = current_running_thread s;
          m1 = set_thread_state (l_thread (bytes s) cur) dead (bytes s);
          m2 = store64 m1 cur 0;
          m3 = store64 m2 (cur + 8) 0;
          m4 = store64 m3 (cur + 16) (empty_thread_data s)
      in s\<lparr>bytes := m4, empty_thread_data := cur, empty_count := empty_count s + 1\<rparr>)"

definition spawn_child_thread ::
  "('a sched_state_scheme \<Rightarrow> (u64 \<times> 'a sched_state_scheme) run) \<Rightarrow> u64 \<Rightarrow>
   'a sched_state_scheme \<Rightarrow> (u64 \<times> 'a sched_state_scheme) run" where
  "spawn_child_thread alloc_next_free_page_directory start_instruction_address s =
     run_bind (malloc 40 s) (\<lambda>(thread, s1).
       let cur = current_running_thread s1;
           m1 = set_thread_state thread un_started (bytes s1);
           m2 = store64 m1 (thread + 8) (t_parent_pid m1 (l_thread m1 cur));
           m3 = store64 m2 thread (thread_id_inc s1);
           m4 = store64 m3 (thread + 32) 0;
           s2 = s1\<lparr>bytes := m4, thread_id_inc := thread_id_inc s1 + 1\<rparr>
       in run_bind (alloc_next_free_page_directory s2) (\<lambda>(start_stack, s3).
            let stack = start_stack + 0x1000 - 0xA0;
                n1 = memset stack 0 (20 * 8) (bytes s3);
                n2 = store64 n1 (stack + 8 * 15) start_instruction_address;
                n3 = store64 n2 (stack + 8 * 16) 0x8;
                n4 = store64 n3 (stack + 8 * 17) 0x102;
                n5 = store64 n4 (stack + 8 * 18) (stack + 0xA0);
                n6 = store64 n5 (stack + 8 * 19) 0x10;
                n7 = store64 n6 (thread + 16) stack
            in ret (thread, s3\<lparr>bytes := n7\<rparr>)))"

definition init_kernel_thread :: "'a sched_state_scheme \<Rightarrow> 'a sched_state_scheme run" where
  "init_kernel_thread s =
     run_bind (malloc_empty_bucket s) (\<lambda>s1.
       let cur = empty_thread_data s1;
           s2 = s1\<lparr>current_running_thread := cur, empty_thread_data := l_next (bytes s1) cur, empty_count := empty_count s1 - 1\<rparr>;
           s3 = s2\<lparr>bytes := store64 (bytes s2) (cur + 16) 0\<rparr>
       in run_bind (malloc 40 s3) (\<lambda>(thread, s4).
            let m1 = store64 (bytes s4) cur thread;
                m2 = set_thread_state (l_thread m1 cur) running m1;
                m3 = store64 m2 (l_thread m2 cur) 0;
                m4 = store64 m3 (l_thread m3 cur + 32) 0;
                m5 = store64 m4 (l_thread m4 cur + 8) 0
            in ret (s4\<lparr>bytes := m5\<rparr>)))"

definition scheduler_init :: "'a sched_state_scheme \<Rightarrow> 'a sched_state_scheme run" where
  "scheduler_init s = init_kernel_thread (set_scheduler_function standart_FCFS_scheduler s)"

section \<open>Queues in memory\<close>

primrec queue :: "mem \<Rightarrow> u64 \<Rightarrow> u64 list \<Rightarrow> bool" where
  "queue m p [] \<longleftrightarrow> p = 0"
| "queue m p (q # qs) \<longleftrightarrow> p = q \<and> q \<noteq> 0 \<and> queue m (l_next m q) qs"

text \<open>Nodes that do not overlap.\<close>

definition nodes :: "u64 list \<Rightarrow> bool" where
  "nodes qs \<longleftrightarrow> distinct qs \<and> (\<forall>p \<in> set qs. \<forall>q \<in> set qs. p \<noteq> q \<longrightarrow> apart p 24 q 24)"

lemma queue_unique: "queue m p qs \<Longrightarrow> queue m p rs \<Longrightarrow> qs = rs"
proof (induction qs arbitrary: p rs)
  case Nil
  then show ?case by (cases rs) auto
next
  case (Cons q qs)
  then show ?case by (cases rs) auto
qed

lemma queue_cong: "(\<And>q. q \<in> set qs \<Longrightarrow> l_next m' q = l_next m q) \<Longrightarrow> queue m' p qs \<longleftrightarrow> queue m p qs"
  by (induction qs arbitrary: p) auto

lemma node_span: "span (e + 16) 8 \<subseteq> span e 24" "span (e + 8) 8 \<subseteq> span e 24" "span e 8 \<subseteq> span e 24"
  by (rule span_sub span_mono; simp)+

lemma node_cong:
  assumes "\<And>x. x \<in> span e 24 \<Longrightarrow> m' x = m x"
  shows "l_thread m' e = l_thread m e" "l_score m' e = l_score m e" "l_next m' e = l_next m e"
  unfolding l_thread_def l_score_def l_next_def using assms node_span [of e] by (blast intro: load64_cong)+

lemma queue_append_end:
  assumes "queue m p (qs @ [z])" "l_next m' z = e" "e \<noteq> 0" "l_next m' e = 0"
    "\<And>q. q \<in> set qs \<Longrightarrow> l_next m' q = l_next m q"
  shows "queue m' p (qs @ [z, e])"
  using assms by (induction qs arbitrary: p) auto

text \<open>Ten nodes from the heap in front of the pool.\<close>

lemma nonnull_inside: "p \<noteq> 0 \<Longrightarrow> unat p + n < 18446744073709551616 \<Longrightarrow> k \<le> n \<Longrightarrow> p + of_nat k \<noteq> (0 :: u64)"
proof -
  assume "p \<noteq> 0" "unat p + n < 18446744073709551616" "k \<le> n"
  then have "unat (p + of_nat k) = unat p + k" "unat p \<noteq> 0"
    by (simp_all add: unat_word_ariths unat_of_nat take_bit_eq_mod unat_eq_0)
  then show ?thesis by (metis add_eq_0_iff_both_eq_0 unat_0)
qed

abbreviation bucket_nodes :: "u64 \<Rightarrow> u64 list" where
  "bucket_nodes b \<equiv> [b, b + 24, b + 48, b + 72, b + 96, b + 120, b + 144, b + 168, b + 192, b + 216]"

lemma bucket_apart: "i < n \<Longrightarrow> n \<le> 9 \<Longrightarrow> apart (24 * of_nat i + 16) 8 (24 * of_nat n + 16) 8"
proof -
  have "unat (24 * of_nat k + 16 :: u64) = 24 * k + 16" if "k \<le> 9" for k
    using that by (simp add: unat_word_ariths unat_of_nat take_bit_eq_mod)
  then show "i < n \<Longrightarrow> n \<le> 9 \<Longrightarrow> ?thesis" by (intro apart_no_wrap) simp_all
qed

lemma bucket_outside: "x \<notin> span b 240 \<Longrightarrow> n \<le> 9 \<Longrightarrow> bucket_links b n m x = m x"
proof (induction n)
  case (Suc n)
  have "unat (24 * of_nat n + 16 :: u64) = 24 * n + 16"
    using Suc.prems(2) by (simp add: unat_word_ariths unat_of_nat take_bit_eq_mod)
  then have "span (b + (24 * of_nat n + 16)) 8 \<subseteq> span b 240"
    using Suc.prems(2) by (intro span_sub) simp
  then show ?case
    using Suc by (simp add: add.assoc del: mem_span) (subst store64_outside, auto simp del: mem_span)
qed simp

lemma bucket_next: "i < n \<Longrightarrow> n \<le> 9 \<Longrightarrow> l_next (bucket_links b n m) (b + 24 * of_nat i) = b + 24 * of_nat (Suc i)"
proof (induction n)
  case (Suc n)
  show ?case
  proof (cases "i = n")
    case True
    then show ?thesis by (simp add: l_next_def)
  next
    case False
    then have "apart (b + (24 * of_nat i + 16)) 8 (b + (24 * of_nat n + 16)) 8"
      using Suc.prems bucket_apart [of i n] by simp
    then show ?thesis using Suc False by (simp add: l_next_def add.assoc)
  qed
qed simp

lemma bucket_queue:
  assumes "b \<noteq> 0" "unat b + 240 < 18446744073709551616" "queue m e es" "\<And>q. q \<in> set es \<Longrightarrow> span q 24 \<inter> span b 240 = {}"
  shows "queue (store64 (bucket_links b 9 m) (b + 24 * 9 + 16) e) b (bucket_nodes b @ es)"
proof -
  let ?m = "store64 (bucket_links b 9 m) (b + 24 * 9 + 16) e"
  have nz: "b + 24 \<noteq> 0" "b + 48 \<noteq> 0" "b + 72 \<noteq> 0" "b + 96 \<noteq> 0" "b + 120 \<noteq> 0" "b + 144 \<noteq> 0" "b + 168 \<noteq> 0"
    "b + 192 \<noteq> 0" "b + 216 \<noteq> 0"
    using nonnull_inside [OF assms(1,2), of 24] nonnull_inside [OF assms(1,2), of 48] nonnull_inside [OF assms(1,2), of 72]
      nonnull_inside [OF assms(1,2), of 96] nonnull_inside [OF assms(1,2), of 120] nonnull_inside [OF assms(1,2), of 144]
      nonnull_inside [OF assms(1,2), of 168] nonnull_inside [OF assms(1,2), of 192] nonnull_inside [OF assms(1,2), of 216]
    by simp_all
  have outside: "?m x = m x" if "x \<notin> span b 240" for x
  proof -
    have "span (b + (24 * 9 + 16)) 8 \<subseteq> span b 240" by (rule span_sub) simp
    then show ?thesis
      using that bucket_outside [OF that, of 9 m] by (subst store64_outside) (auto simp: add.assoc simp del: mem_span)
  qed
  have "l_next ?m q = l_next m q" if "q \<in> set es" for q
    using assms(4) [OF that] outside by (intro node_cong) blast
  then have es: "queue ?m e es" using assms(3) queue_cong [of es ?m m] by blast
  have nx: "l_next ?m (b + 24 * of_nat i) = b + 24 * of_nat (Suc i)" if "i < 9" for i
  proof -
    have "apart (b + (24 * of_nat i + 16)) 8 (b + (24 * of_nat 9 + 16)) 8"
      using bucket_apart [of i 9] that by simp
    then show ?thesis using bucket_next [OF that, of b m] by (simp add: l_next_def add.assoc)
  qed
  show ?thesis
    using assms(1) nz es nx [of 0] nx [of 1] nx [of 2] nx [of 3] nx [of 4] nx [of 5] nx [of 6]
      nx [of 7] nx [of 8] by (simp add: l_next_def)
qed

section \<open>The contract of a policy\<close>

text \<open>
  A policy inserts the node, wherever it likes behind the head (which the caller does not update),
  and writes nothing but the links of the nodes involved.
\<close>

locale sched_policy =
  fixes schedule :: policy
  assumes schedule_law: "queue m p qs \<Longrightarrow> qs \<noteq> [] \<Longrightarrow> nodes (e # qs) \<Longrightarrow> e \<noteq> 0 \<Longrightarrow> l_next m e = 0 \<Longrightarrow>
      \<exists>m' qs'. schedule p e m = Some m' \<and> queue m' p qs' \<and> mset qs' = add_mset e (mset qs) \<and>
        (\<forall>x. (\<forall>q \<in> set (e # qs). x \<notin> span (q + 16) 8) \<longrightarrow> m' x = m x)"

text \<open>A policy that always appends.\<close>

locale fifo_policy = sched_policy +
  assumes fifo_law: "queue m p qs \<Longrightarrow> qs \<noteq> [] \<Longrightarrow> nodes (e # qs) \<Longrightarrow> e \<noteq> 0 \<Longrightarrow> l_next m e = 0 \<Longrightarrow>
      schedule p e m = Some m' \<Longrightarrow> queue m' p (qs @ [e])"

lemma queue_nonnull: "queue m p qs \<Longrightarrow> qs \<noteq> [] \<Longrightarrow> p \<noteq> 0"
  by (cases qs) auto

lemma fcfs_last_queue: "queue m p (qs @ [z]) \<Longrightarrow> fcfs_last m p = Some z"
proof (induction qs arbitrary: p)
  case Nil
  then show ?case by (subst fcfs_last.simps) simp
next
  case (Cons q qs)
  then have "queue m (l_next m q) (qs @ [z])" "p = q" by auto
  then show ?case
    using queue_nonnull [of m "l_next m q" "qs @ [z]"] Cons.IH by (subst fcfs_last.simps) simp
qed

lemma nodes_apart: "nodes qs \<Longrightarrow> p \<in> set qs \<Longrightarrow> q \<in> set qs \<Longrightarrow> p \<noteq> q \<Longrightarrow> span p 24 \<inter> span q 24 = {}"
  by (auto simp: nodes_def simp del: mem_span intro!: apart_span)

lemma fcfs_appends:
  assumes "queue m p qs" "qs \<noteq> []" "nodes (e # qs)" "e \<noteq> 0" "l_next m e = 0"
  obtains z where "z \<in> set qs" "standart_FCFS_scheduler p e m = Some (store64 m (z + 16) e)"
    "queue (store64 m (z + 16) e) p (qs @ [e])"
proof -
  obtain ps z where qs: "qs = ps @ [z]" using assms(2) by (metis rev_exhaust)
  let ?m' = "store64 m (z + 16) e"
  have other: "l_next ?m' q = l_next m q" if "q \<in> set (e # qs)" "q \<noteq> z" for q
  proof -
    have "span q 24 \<inter> span z 24 = {}"
      using nodes_apart [OF assms(3), of q z] that qs by auto
    then have "?m' x = m x" if "x \<in> span q 24" for x
      using that node_span(1) [of z] by (intro store64_outside) blast
    then show ?thesis by (rule node_cong)
  qed
  have z: "z \<noteq> e" "z \<notin> set ps" using assms(3) qs by (auto simp: nodes_def)
  have "queue ?m' p (ps @ [z, e])"
  proof (rule queue_append_end)
    show "queue m p (ps @ [z])" using assms(1) qs by simp
    show "l_next ?m' z = e" by (simp add: l_next_def)
    show "l_next ?m' e = 0" using other [of e] z assms(5) by simp
    show "l_next ?m' q = l_next m q" if "q \<in> set ps" for q
      using other [of q] that qs z by auto
  qed (rule assms)
  then show thesis
    using that [of z] fcfs_last_queue [of m p ps z] assms(1) qs by (simp add: standart_FCFS_scheduler_def)
qed

interpretation fcfs: fifo_policy standart_FCFS_scheduler
proof unfold_locales
  fix m p qs e
  assume q: "queue m p qs" "qs \<noteq> []" "nodes (e # qs)" "e \<noteq> 0" "l_next m e = 0"
  obtain z where z: "z \<in> set qs" "standart_FCFS_scheduler p e m = Some (store64 m (z + 16) e)"
    "queue (store64 m (z + 16) e) p (qs @ [e])"
    by (rule fcfs_appends [OF q])
  show "\<exists>m' qs'. standart_FCFS_scheduler p e m = Some m' \<and> queue m' p qs' \<and> mset qs' = add_mset e (mset qs) \<and>
        (\<forall>x. (\<forall>q \<in> set (e # qs). x \<notin> span (q + 16) 8) \<longrightarrow> m' x = m x)"
    using z by (intro exI [of _ "store64 m (z + 16) e"] exI [of _ "qs @ [e]"]) (auto simp: store64_outside simp del: mem_span)
  show "queue m' p (qs @ [e])" if "standart_FCFS_scheduler p e m = Some m'" for m'
    using that z by simp
qed

section \<open>Running threads in turn\<close>

text \<open>
  \<open>sep m cs\<close>: the nodes \<open>cs\<close> and the thread structs they point to are separate objects.
  \<open>sched_ok s c qs\<close>: node \<open>c\<close> is running, \<open>qs\<close> is the run queue, and the counters agree.
\<close>

definition sep :: "mem \<Rightarrow> u64 list \<Rightarrow> bool" where
  "sep m cs \<longleftrightarrow> nodes cs \<and>
     (\<forall>p \<in> set cs. \<forall>q \<in> set cs. apart (l_thread m p) 40 q 24) \<and>
     (\<forall>p \<in> set cs. \<forall>q \<in> set cs. p \<noteq> q \<longrightarrow> apart (l_thread m p) 40 (l_thread m q) 40)"

definition sched_ok :: "'a sched_state_scheme \<Rightarrow> u64 \<Rightarrow> u64 list \<Rightarrow> bool" where
  "sched_ok s c qs \<longleftrightarrow>
     current_running_thread s = c \<and> c \<noteq> 0 \<and> l_next (bytes s) c = 0 \<and>
     queue (bytes s) (next_running_thread s) qs \<and> sep (bytes s) (c # qs) \<and>
     unat (next_count s) = length qs \<and> (empty_scheduling s \<longleftrightarrow> qs = [])"

lemma thread_span: "span (t + 16) 8 \<subseteq> span t 40" "span (t + 24) 4 \<subseteq> span t 40" "span t 8 \<subseteq> span t 40"
  by (rule span_sub span_mono; simp)+

lemma thread_cong:
  assumes "\<And>x. x \<in> span t 40 \<Longrightarrow> m' x = m x"
  shows "t_rsp m' t = t_rsp m t" "t_state m' t = t_state m t" "t_tid m' t = t_tid m t"
  unfolding t_rsp_def t_state_def t_tid_def using assms thread_span [of t] by (blast intro: load64_cong load32_cong)+

lemma sep_cong:
  assumes "sep m cs" "mset cs' = mset cs" "\<And>p. p \<in> set cs \<Longrightarrow> l_thread m' p = l_thread m p"
  shows "sep m' cs'"
proof -
  have "set cs' = set cs" "distinct cs' \<longleftrightarrow> distinct cs"
    using assms(2) by (metis set_mset_mset, metis distinct_count_atmost_1 set_mset_mset)
  with assms(1,3) show ?thesis by (simp add: sep_def nodes_def)
qed

text \<open>A write to a thread struct is not seen by any node, nor by another thread.\<close>

lemma thread_write:
  assumes "sep m cs" "c \<in> set cs" "\<And>x. x \<notin> span (l_thread m c) 40 \<Longrightarrow> m' x = m x" "p \<in> set cs"
  shows "l_thread m' p = l_thread m p" "l_next m' p = l_next m p" "l_score m' p = l_score m p"
    "p \<noteq> c \<Longrightarrow> x \<in> span (l_thread m p) 40 \<Longrightarrow> m' x = m x"
proof -
  have "span (l_thread m c) 40 \<inter> span p 24 = {}"
    using assms(1,2,4) by (auto simp: sep_def simp del: mem_span intro!: apart_span)
  then have "m' x = m x" if "x \<in> span p 24" for x
    using that assms(3) by blast
  then show "l_thread m' p = l_thread m p" "l_next m' p = l_next m p" "l_score m' p = l_score m p"
    using node_cong [of p m' m] by blast+
  show "m' x = m x" if "p \<noteq> c" "x \<in> span (l_thread m p) 40"
  proof -
    have "span (l_thread m p) 40 \<inter> span (l_thread m c) 40 = {}"
      using assms(1,2,4) that(1) by (auto simp: sep_def simp del: mem_span intro!: apart_span)
    then show ?thesis using that(2) assms(3) by blast
  qed
qed

text \<open>A write to links only is not seen by the threads, nor by the other fields of the nodes.\<close>

lemma link_write:
  assumes "sep m cs" "\<And>x. (\<And>q. q \<in> set cs \<Longrightarrow> x \<notin> span (q + 16) 8) \<Longrightarrow> m' x = m x" "p \<in> set cs"
  shows "l_thread m' p = l_thread m p" "x \<in> span (l_thread m p) 40 \<Longrightarrow> m' x = m x"
proof -
  have "m' x = m x" if x: "x \<in> span p 8" for x
  proof (rule assms(2))
    fix q
    assume q: "q \<in> set cs"
    show "x \<notin> span (q + 16) 8"
    proof (cases "q = p")
      case True
      have "span p 8 \<inter> span (p + 16) 8 = {}"
        using apart_span [of "p" 8 "p + 16" 8] by simp
      then show ?thesis using True x by blast
    next
      case False
      then have "span q 24 \<inter> span p 24 = {}"
        using assms(1,3) q nodes_apart by (auto simp: sep_def simp del: mem_span)
      then show ?thesis using x node_span [of q] node_span [of p] by blast
    qed
  qed
  then show "l_thread m' p = l_thread m p"
    unfolding l_thread_def by (rule load64_cong)
  show "m' x = m x" if "x \<in> span (l_thread m p) 40"
  proof (rule assms(2))
    fix q
    assume "q \<in> set cs"
    then have "span (l_thread m p) 40 \<inter> span q 24 = {}"
      using assms(1,3) by (auto simp: sep_def simp del: mem_span intro!: apart_span)
    then show "x \<notin> span (q + 16) 8" using that node_span(1) [of q] by blast
  qed
qed

text \<open>What a store into one node does to another one.\<close>

lemma node_store:
  assumes "span p 24 \<inter> span q 24 = {}" "unat i + 8 \<le> 24"
  shows "load64 (store64 m (q + 8) v) (p + i) = load64 m (p + i)" "load64 (store64 m (q + 16) v) (p + i) = load64 m (p + i)"
    "load64 (store64 m q v) (p + i) = load64 m (p + i)"
proof -
  have "span (p + i) 8 \<subseteq> span p 24" using assms(2) by (intro span_sub)
  then have "span (p + i) 8 \<inter> span (q + j) 8 = {}" if "unat j + 8 \<le> 24" for j
    using assms(1) span_sub [OF that] by blast
  then have "load64 (store64 m (q + j) v) (p + i) = load64 m (p + i)" if "unat j + 8 \<le> 24" for j
    using that by (intro load64_cong store64_outside) blast
  from this [of 8] this [of 16] this [of 0]
  show "load64 (store64 m (q + 8) v) (p + i) = load64 m (p + i)" "load64 (store64 m (q + 16) v) (p + i) = load64 m (p + i)"
    "load64 (store64 m q v) (p + i) = load64 m (p + i)" by simp_all
qed

lemma node_stores:
  assumes "span p 24 \<inter> span q 24 = {}"
  shows "l_thread (store64 m (q + 8) v) p = l_thread m p" "l_thread (store64 m (q + 16) v) p = l_thread m p"
    "l_thread (store64 m q v) p = l_thread m p" "l_score (store64 m (q + 8) v) p = l_score m p"
    "l_score (store64 m (q + 16) v) p = l_score m p" "l_score (store64 m q v) p = l_score m p"
    "l_next (store64 m (q + 8) v) p = l_next m p" "l_next (store64 m (q + 16) v) p = l_next m p"
    "l_next (store64 m q v) p = l_next m p"
  using node_store [OF assms, of 0] node_store [OF assms, of 8] node_store [OF assms, of 16]
  by (simp_all add: l_thread_def l_score_def l_next_def)

lemma node_self [simp]:
  "l_thread (store64 m (q + 8) v) q = l_thread m q" "l_thread (store64 m (q + 16) v) q = l_thread m q"
  "l_thread (store64 m q v) q = v" "l_score (store64 m (q + 8) v) q = v"
  "l_score (store64 m (q + 16) v) q = l_score m q" "l_score (store64 m q v) q = l_score m q"
  "l_next (store64 m (q + 8) v) q = l_next m q" "l_next (store64 m (q + 16) v) q = v" "l_next (store64 m q v) q = l_next m q"
  by (simp_all add: l_thread_def l_score_def l_next_def)

lemma store_node_other:
  assumes "nodes cs" "p \<in> set cs" "q \<in> set cs" "p \<noteq> q"
  shows "l_next (store64 m (q + 16) v) p = l_next m p" "l_thread (store64 m (q + 16) v) p = l_thread m p"
    "l_next (store64 m q v) p = l_next m p" "l_thread (store64 m q v) p = l_thread m p"
  by (rule node_stores [OF nodes_apart [OF assms]])+

text \<open>A node \<open>e\<close> of the pool gets a thread and no successor, the thread becomes ready.\<close>

lemma fill_node:
  assumes pool: "nodes (e # es @ cs)" and t: "sep (store64 m e t) (e # cs)" "\<forall>p \<in> set es. apart t 40 p 24"
  defines "m' \<equiv> store64 (store64 (set_thread_state t ready m) e t) (e + 16) 0"
  shows "sep m' (e # cs)" "p \<in> set (cs @ es) \<Longrightarrow> l_next m' p = l_next m p" "l_next m' e = 0" "l_thread m' e = t"
    "t_state m' t = state_code ready" "l_next (store64 (set_thread_state t ready m) e t) e = l_next m e"
    "x \<notin> span (t + 24) 4 \<Longrightarrow> x \<notin> span e 24 \<Longrightarrow> m' x = m x"
proof -
  let ?m2 = "store64 (set_thread_state t ready m) e t"
  have te: "apart t 40 e 24" using t(1) by (simp add: sep_def l_thread_def)
  have tp: "span t 40 \<inter> span p 24 = {}" if "p \<in> set (e # cs @ es)" for p
  proof -
    have "apart t 40 p 24" using t that by (auto simp: sep_def l_thread_def)
    then show ?thesis by (rule apart_span)
  qed
  have ready: "set_thread_state t ready m x = m x" if "p \<in> set (e # cs @ es)" "x \<in> span p 24" for p x
    using tp [OF that(1)] that(2) thread_span(2) [of t] unfolding set_thread_state_def by (intro store32_outside) blast
  have rn: "l_thread (set_thread_state t ready m) p = l_thread m p" "l_next (set_thread_state t ready m) p = l_next m p"
    if "p \<in> set (e # cs @ es)" for p using node_cong [of p "set_thread_state t ready m" m] ready [OF that] by blast+
  have other: "l_thread m' p = l_thread m p" "l_next m' p = l_next m p" if p: "p \<in> set (cs @ es)" for p
  proof -
    have pe: "p \<in> set (e # es @ cs)" "e \<in> set (e # es @ cs)" "p \<noteq> e" using p pool by (auto simp: nodes_def)
    show "l_thread m' p = l_thread m p" "l_next m' p = l_next m p"
      unfolding m'_def using store_node_other [OF pool pe] rn [of p] p by simp_all
  qed
  then show "l_next m' p = l_next m p" if "p \<in> set (cs @ es)" using that by blast
  show "l_next m' e = 0" "l_next ?m2 e = l_next m e" using rn(2) [of e] by (simp_all add: m'_def)
  show e: "l_thread m' e = t" by (simp add: m'_def)
  have "l_thread m' p = l_thread (store64 m e t) p" if "p \<in> set (e # cs)" for p
    using that other(1) [of p] e store_node_other(4) [OF pool, of p e] pool by (cases "p = e") (auto simp: nodes_def)
  then show "sep m' (e # cs)" by (intro sep_cong [OF t(1)]) auto
  have "apart (t + 24) 4 (e + 0) 8" "apart (t + 24) 4 (e + 16) 8" by (rule apart_field [OF te]; simp)+
  then show "t_state m' t = state_code ready" by (simp add: m'_def t_state_def set_thread_state_def)
  show "m' x = m x" if x: "x \<notin> span (t + 24) 4" "x \<notin> span e 24"
  proof -
    have "x \<notin> span (e + 16) 8" "x \<notin> span e 8" using x(2) node_span [of e] by blast+
    then show ?thesis
      using x(1) by (simp add: m'_def set_thread_state_def store64_outside store32_outside del: mem_span)
  qed
qed

text \<open>The two stages of a tick in memory: the running thread is stopped, the head of the run queue is started.\<close>

lemma stop_thread:
  fixes rsp :: u64
  assumes sep: "sep m cs" and c: "c \<in> set cs"
  defines "m' \<equiv> set_thread_state (l_thread m c) ready (store64 m (l_thread m c + 16) rsp)"
  shows "p \<in> set cs \<Longrightarrow> l_thread m' p = l_thread m p" "p \<in> set cs \<Longrightarrow> l_next m' p = l_next m p" "sep m' cs"
    "p \<in> set cs \<Longrightarrow> p \<noteq> c \<Longrightarrow> t_rsp m' (l_thread m p) = t_rsp m (l_thread m p)"
    "t_rsp m' (l_thread m c) = rsp" "t_state m' (l_thread m c) = state_code ready"
    "l_thread (store64 m (l_thread m c + 16) rsp) c = l_thread m c"
proof -
  let ?tc = "l_thread m c"
  have m1: "store64 m (?tc + 16) rsp x = m x" and m': "m' x = m x" if "x \<notin> span ?tc 40" for x
  proof -
    have "x \<notin> span (?tc + 16) 8" "x \<notin> span (?tc + 24) 4" using that thread_span [of ?tc] by blast+
    then show "store64 m (?tc + 16) rsp x = m x" "m' x = m x"
      by (simp_all add: m'_def set_thread_state_def store64_outside store32_outside del: mem_span)
  qed
  show l: "l_thread m' p = l_thread m p" and "l_next m' p = l_next m p" if "p \<in> set cs" for p
    using thread_write(1,2) [where m' = m', OF sep c m' that] by blast+
  show "l_thread (store64 m (?tc + 16) rsp) c = ?tc" by (rule thread_write(1) [OF sep c m1 c])
  show "sep m' cs" by (rule sep_cong [OF sep refl l])
  show "t_rsp m' (l_thread m p) = t_rsp m (l_thread m p)" if "p \<in> set cs" "p \<noteq> c"
    by (rule thread_cong(1), rule thread_write(4) [OF sep c m' that])
  show "t_rsp m' ?tc = rsp" "t_state m' ?tc = state_code ready"
    by (simp_all add: m'_def t_rsp_def t_state_def set_thread_state_def)
qed

lemma start_head:
  assumes sep: "sep m cs" and q: "q \<in> set cs" and queue: "queue m q (q # rs)" and rs: "set rs \<subseteq> set cs" "q \<notin> set rs"
  defines "m' \<equiv> set_thread_state (l_thread m q) running (store64 m (q + 16) 0)"
  shows "p \<in> set cs \<Longrightarrow> l_thread m' p = l_thread m p" "sep m' cs" "queue m' (l_next m q) rs" "l_next m' q = 0"
    "p \<in> set cs \<Longrightarrow> t_rsp m' (l_thread m p) = t_rsp m (l_thread m p)"
    "p \<in> set cs \<Longrightarrow> p \<noteq> q \<Longrightarrow> t_state m' (l_thread m p) = t_state m (l_thread m p)"
    "t_state m' (l_thread m q) = state_code running"
proof -
  let ?tq = "l_thread m q"
  define m1 where "m1 = store64 m (q + 16) 0"
  have lw: "l_thread m1 p = l_thread m p" "x \<in> span (l_thread m p) 40 \<Longrightarrow> m1 x = m x" if "p \<in> set cs" for p x
    by (rule link_write [OF sep _ that]; use q in \<open>force simp: m1_def store64_outside simp del: mem_span\<close>)+
  have sep1: "sep m1 cs" by (rule sep_cong [OF sep refl lw(1)])
  have tq: "l_thread m1 q = ?tq" by (rule lw(1) [OF q])
  have m': "m' x = m1 x" if "x \<notin> span (l_thread m1 q) 40" for x
  proof -
    have "x \<notin> span (?tq + 24) 4" using that thread_span(2) [of ?tq] unfolding tq by blast
    then show ?thesis by (simp add: m'_def m1_def set_thread_state_def store32_outside del: mem_span)
  qed
  have tw: "l_thread m' p = l_thread m1 p" "l_next m' p = l_next m1 p"
    "p \<noteq> q \<Longrightarrow> x \<in> span (l_thread m1 p) 40 \<Longrightarrow> m' x = m1 x" if "p \<in> set cs" for p x
    using thread_write [OF sep1 q _ that, of m'] m' by blast+
  show l: "l_thread m' p = l_thread m p" if "p \<in> set cs" for p using tw(1) lw(1) that by simp
  show "sep m' cs" by (rule sep_cong [OF sep refl l])
  have "l_next m' p = l_next m p" if "p \<in> set rs" for p
  proof -
    have p: "p \<in> set cs" "p \<noteq> q" using that rs by auto
    have "span p 24 \<inter> span q 24 = {}" using sep p q by (intro nodes_apart) (auto simp: sep_def)
    then have "m1 x = m x" if "x \<in> span p 24" for x
      using that node_span(1) [of q] unfolding m1_def by (intro store64_outside) blast
    then have "l_next m1 p = l_next m p" by (rule node_cong)
    then show ?thesis using tw(2) p by simp
  qed
  then show "queue m' (l_next m q) rs" using queue queue_cong [of rs m' m] by simp
  show "l_next m' q = 0" using tw(2) [OF q] by (simp add: m1_def l_next_def)
  have same: "m' x = m x" if "p \<in> set cs" "p \<noteq> q" "x \<in> span (l_thread m p) 40" for p x
    using tw(3) [OF that(1,2)] lw [OF that(1)] that(3) by simp
  show "t_state m' (l_thread m p) = t_state m (l_thread m p)" if "p \<in> set cs" "p \<noteq> q"
    by (rule thread_cong(2)) (rule same [OF that])
  show "t_rsp m' (l_thread m p) = t_rsp m (l_thread m p)" if p: "p \<in> set cs"
  proof (cases "p = q")
    case True
    have "t_rsp m' ?tq = t_rsp m1 ?tq" by (simp add: m'_def m1_def t_rsp_def set_thread_state_def)
    also have "\<dots> = t_rsp m ?tq" by (rule thread_cong(1)) (rule lw(2) [OF q])
    finally show ?thesis using True by simp
  next
    case False
    then show ?thesis by (intro thread_cong(1)) (rule same [OF p])
  qed
  show "t_state m' ?tq = state_code running" by (simp add: m'_def t_state_def set_thread_state_def)
qed

context fifo_policy
begin

lemma schedule_appends:
  assumes "queue m p qs" "qs \<noteq> []" "nodes (e # qs)" "e \<noteq> 0" "l_next m e = 0"
  obtains m' where "schedule p e m = Some m'" "queue m' p (qs @ [e])"
    "\<And>x. (\<And>q. q \<in> set (e # qs) \<Longrightarrow> x \<notin> span (q + 16) 8) \<Longrightarrow> m' x = m x"
proof -
  obtain m' where m': "schedule p e m = Some m'" "\<forall>x. (\<forall>q \<in> set (e # qs). x \<notin> span (q + 16) 8) \<longrightarrow> m' x = m x"
    using schedule_law [OF assms] by metis
  then show thesis using that fifo_law [OF assms m'(1)] by blast
qed

text \<open>One timer tick: the running thread goes to the end of the queue, the head runs.\<close>

lemma tick:
  assumes ok: "sched_ok s c (q # qs)" and pol: "scheduler_function s = schedule"
  shows "\<exists>s'. pop_next_and_readd_running rsp s = ret (l_thread (bytes s) q, s') \<and> sched_ok s' q (qs @ [c]) \<and>
    scheduler_function s' = schedule \<and>
    (\<forall>p \<in> set (c # q # qs). l_thread (bytes s') p = l_thread (bytes s) p) \<and>
    t_rsp (bytes s') (l_thread (bytes s) c) = rsp \<and>
    (\<forall>p \<in> set (q # qs). t_rsp (bytes s') (l_thread (bytes s) p) = t_rsp (bytes s) (l_thread (bytes s) p)) \<and>
    t_state (bytes s') (l_thread (bytes s) c) = state_code ready \<and>
    t_state (bytes s') (l_thread (bytes s) q) = state_code running"
proof -
  let ?m = "bytes s" and ?cs = "c # q # qs" and ?tc = "l_thread (bytes s) c" and ?tq = "l_thread (bytes s) q"
  have f: "current_running_thread s = c" "c \<noteq> 0" "l_next ?m c = 0" "queue ?m (next_running_thread s) (q # qs)"
    "sep ?m ?cs" "unat (next_count s) = length (q # qs)" "\<not> empty_scheduling s"
    using ok by (auto simp: sched_ok_def)
  have head: "next_running_thread s = q" and cq: "c \<in> set ?cs" "q \<in> set ?cs" "c \<noteq> q" "q \<notin> set (qs @ [c])"
    using f(4,5) by (auto simp: sep_def nodes_def)
  define m2 where "m2 = set_thread_state ?tc ready (store64 ?m (?tc + 16) rsp)"
  note stop = stop_thread [OF f(5) cq(1), where rsp = rsp, folded m2_def]
  have "queue m2 q (q # qs)" using f(4) stop(2) queue_cong [of "q # qs" m2 ?m] head by auto
  then obtain m3 where m3: "schedule q c m2 = Some m3" "queue m3 q (q # qs @ [c])"
    "\<And>x. (\<And>p. p \<in> set ?cs \<Longrightarrow> x \<notin> span (p + 16) 8) \<Longrightarrow> m3 x = m2 x"
    using schedule_appends [of m2 q "q # qs" c] f(2,3,5) stop(2) [OF cq(1)] by (auto simp: sep_def)
  have lw: "l_thread m3 p = l_thread ?m p" "t_rsp m3 (l_thread ?m p) = t_rsp m2 (l_thread ?m p)"
    "t_state m3 (l_thread ?m p) = t_state m2 (l_thread ?m p)" if p: "p \<in> set ?cs" for p
  proof -
    have same: "m3 x = m2 x" if "x \<in> span (l_thread ?m p) 40" for x
      by (rule link_write(2) [OF stop(3) _ p]) (use m3(3) that stop(1) [OF p] in auto)
    show "t_rsp m3 (l_thread ?m p) = t_rsp m2 (l_thread ?m p)" "t_state m3 (l_thread ?m p) = t_state m2 (l_thread ?m p)"
      using thread_cong(1,2) [of "l_thread ?m p" m3 m2] same by blast+
    have "l_thread m3 p = l_thread m2 p" by (rule link_write(1) [OF stop(3) _ p]) (use m3(3) in auto)
    then show "l_thread m3 p = l_thread ?m p" using stop(1) [OF p] by simp
  qed
  have sep3: "sep m3 ?cs" by (rule sep_cong [OF f(5) refl lw(1)])
  define m5 where "m5 = set_thread_state ?tq running (store64 m3 (q + 16) 0)"
  have rs: "set (qs @ [c]) \<subseteq> set ?cs" by auto
  note start = start_head [OF sep3 cq(2) m3(2) rs cq(4), folded m5_def, unfolded lw(1) [OF cq(2)], folded m5_def]
  let ?s' = "s\<lparr>bytes := m5, next_running_thread := l_next m3 q, next_count := next_count s,
      empty_scheduling := False, current_running_thread := q\<rparr>"
  have "next_count s \<noteq> 0" using f(6) by auto
  then have "pop_next_and_readd_running rsp s = ret (?tq, ?s')"
    using f(1,7) head m3(1) lw(1) [OF cq(2)] stop(7)
    by (simp add: pop_next_and_readd_running_def call_policy_def pol pop_next_thread_def Let_def
        m2_def [symmetric] m5_def [symmetric])
  moreover have "sep m5 (q # qs @ [c])" by (rule sep_cong [OF start(2)]) simp_all
  then have "sched_ok ?s' q (qs @ [c])" using start(3,4) f(4,6) by (simp add: sched_ok_def)
  moreover have thr: "l_thread m5 p = l_thread ?m p" if "p \<in> set ?cs" for p using start(1) lw(1) that by simp
  moreover have "t_rsp m5 (l_thread ?m p) = t_rsp m2 (l_thread ?m p)" if "p \<in> set ?cs" for p
    using start(5) [OF that] lw [OF that] by simp
  moreover have "t_state m5 ?tc = state_code ready" using start(6) [OF cq(1,3)] lw [OF cq(1)] stop(6) by simp
  moreover have "p \<noteq> c" if "p \<in> set (q # qs)" for p using that f(5) by (auto simp: sep_def nodes_def)
  ultimately show ?thesis
    using pol stop(4,5) start(7) cq(1) by (intro exI [of _ ?s']) simp
qed

end

text \<open>A sequence of timer ticks, each with the stack pointer of the interrupted thread.\<close>

primrec timer_ticks :: "u64 list \<Rightarrow> 'a sched_state_scheme \<Rightarrow> (u64 list \<times> 'a sched_state_scheme) run" where
  "timer_ticks [] s = ret ([], s)"
| "timer_ticks (rsp # rsps) s =
     run_bind (pop_next_and_readd_running rsp s) (\<lambda>(t, s1).
       run_bind (timer_ticks rsps s1) (\<lambda>(ts, s2). ret (t # ts, s2)))"

lemma hd_rotate_in: "xs \<noteq> [] \<Longrightarrow> hd (rotate k xs) \<in> set xs"
  by (metis hd_in_set rotate_is_Nil_conv set_rotate)

context fifo_policy
begin

lemma ticks:
  assumes "sched_ok s c qs" "qs \<noteq> []" "scheduler_function s = schedule"
  shows "\<exists>s'. timer_ticks rsps s =
      ret (map (\<lambda>k. l_thread (bytes s) (hd (rotate (Suc k) (c # qs)))) [0..<length rsps], s') \<and>
    sched_ok s' (hd (rotate (length rsps) (c # qs))) (tl (rotate (length rsps) (c # qs))) \<and>
    (\<forall>p \<in> set (c # qs). l_thread (bytes s') p = l_thread (bytes s) p) \<and>
    (length rsps \<le> length (c # qs) \<longrightarrow> (\<forall>k < length (c # qs).
      t_rsp (bytes s') (l_thread (bytes s) ((c # qs) ! k)) =
        (if k < length rsps then rsps ! k else t_rsp (bytes s) (l_thread (bytes s) ((c # qs) ! k)))))"
  using assms
proof (induction rsps arbitrary: s c qs)
  case Nil
  then show ?case by simp
next
  case (Cons rsp rsps)
  obtain q qs' where qs: "qs = q # qs'" using Cons.prems(2) by (cases qs) auto
  let ?cs = "c # qs" and ?cs1 = "q # qs' @ [c]"
  obtain s1 where s1: "pop_next_and_readd_running rsp s = ret (l_thread (bytes s) q, s1)" "sched_ok s1 q (qs' @ [c])"
    "scheduler_function s1 = schedule" "\<And>p. p \<in> set ?cs \<Longrightarrow> l_thread (bytes s1) p = l_thread (bytes s) p"
    "t_rsp (bytes s1) (l_thread (bytes s) c) = rsp"
    "\<And>p. p \<in> set qs \<Longrightarrow> t_rsp (bytes s1) (l_thread (bytes s) p) = t_rsp (bytes s) (l_thread (bytes s) p)"
    using tick [of s c q qs' rsp] Cons.prems unfolding qs by blast
  let ?ts = "map (\<lambda>k. l_thread (bytes s1) (hd (rotate (Suc k) ?cs1))) [0..<length rsps]"
  obtain s2 where s2: "timer_ticks rsps s1 = ret (?ts, s2)"
    "sched_ok s2 (hd (rotate (length rsps) ?cs1)) (tl (rotate (length rsps) ?cs1))"
    "\<And>p. p \<in> set ?cs1 \<Longrightarrow> l_thread (bytes s2) p = l_thread (bytes s1) p"
    "length rsps \<le> length ?cs1 \<Longrightarrow> k < length ?cs1 \<Longrightarrow> t_rsp (bytes s2) (l_thread (bytes s1) (?cs1 ! k)) =
        (if k < length rsps then rsps ! k else t_rsp (bytes s1) (l_thread (bytes s1) (?cs1 ! k)))" for k
    using Cons.IH [OF s1(2) _ s1(3)] by blast
  have rot: "rotate k ?cs1 = rotate (Suc k) ?cs" for k
    by (simp add: rotate1_rotate_swap qs del: rotate_Suc) (simp add: rotate1_rotate_swap)
  have "l_thread (bytes s1) (hd (rotate k ?cs)) = l_thread (bytes s) (hd (rotate k ?cs))" for k
    using s1(4) hd_rotate_in [of ?cs k] by blast
  then have "l_thread (bytes s) q # ?ts = map (\<lambda>k. l_thread (bytes s) (hd (rotate (Suc k) ?cs))) [0..<length (rsp # rsps)]"
    using rot [symmetric, of 0] by (simp add: rot map_upt_Suc qs del: upt_Suc rotate_Suc)
  moreover have "t_rsp (bytes s2) (l_thread (bytes s) (?cs ! k)) =
      (if k < length (rsp # rsps) then (rsp # rsps) ! k else t_rsp (bytes s) (l_thread (bytes s) (?cs ! k)))"
    if k: "length (rsp # rsps) \<le> length ?cs" "k < length ?cs" for k
  proof -
    let ?j = "if k = 0 then length qs else k - 1"
    have j: "?cs1 ! ?j = ?cs ! k" using k(2) nth_append [of "q # qs'" "[c]"] by (cases k) (auto simp: qs)
    then have "t_rsp (bytes s2) (l_thread (bytes s) (?cs ! k)) =
        (if ?j < length rsps then rsps ! ?j else t_rsp (bytes s1) (l_thread (bytes s) (?cs ! k)))"
      using s2(4) [of ?j] k s1(4) [of "?cs ! k"] nth_mem [OF k(2)] by (auto simp: qs)
    then show ?thesis using k s1(5) s1(6) [of "?cs ! k"] by (cases k) auto
  qed
  ultimately show ?case
    using s1(1,4) s2(1,2,3) rot [of "length rsps"] qs by (intro exI [of _ s2]) (auto simp del: rotate_Suc upt_Suc)
qed

text \<open>A thread enters the run queue with a node from the pool \<open>e # es\<close> of empty nodes.\<close>

lemma add_thread:
  assumes ok: "sched_ok s c qs" "length qs + 1 < 18446744073709551616" and pol: "scheduler_function s = schedule"
    and pool: "queue (bytes s) (empty_thread_data s) (e # es)" "empty_count s \<noteq> 0" "nodes (e # es @ c # qs)"
    and t: "sep (store64 (bytes s) e t) (e # c # qs)" "\<And>p. p \<in> set es \<Longrightarrow> apart t 40 p 24"
  shows "\<exists>s'. add_thread_to_schedule t s = ret s' \<and> sched_ok s' c (qs @ [e]) \<and> l_thread (bytes s') e = t \<and>
    t_state (bytes s') t = state_code ready \<and> queue (bytes s') (empty_thread_data s') es \<and>
    empty_count s' = empty_count s - 1 \<and> scheduler_function s' = schedule \<and> free_mem_next s' = free_mem_next s \<and>
    (\<forall>x. x \<notin> span (t + 24) 4 \<and> x \<notin> span e 24 \<and> (\<forall>q \<in> set qs. x \<notin> span (q + 16) 8) \<longrightarrow> bytes s' x = bytes s x)"
proof -
  let ?m = "bytes s" and ?cs = "e # c # qs"
  define m3 where "m3 = store64 (store64 (set_thread_state t ready ?m) e t) (e + 16) 0"
  have "\<forall>p \<in> set es. apart t 40 p 24" using t(2) by blast
  note fill = fill_node [OF pool(3) t(1) this, folded m3_def]
  have f: "current_running_thread s = c" "c \<noteq> 0" "l_next ?m c = 0" "queue ?m (next_running_thread s) qs"
    "unat (next_count s) = length qs"
    using ok by (auto simp: sched_ok_def)
  have e: "empty_thread_data s = e" "e \<noteq> 0" "queue ?m (l_next ?m e) es" using pool(1) by auto
  define s4 where "s4 = s\<lparr>empty_thread_data := l_next ?m e, empty_count := empty_count s - 1, bytes := m3\<rparr>"
  have q3: "queue m3 (next_running_thread s) qs" "queue m3 (l_next ?m e) es" "l_next m3 c = 0"
    using f(3,4) e(3) fill(2) queue_cong [of qs m3 ?m] queue_cong [of es m3 ?m] by auto
  have run: "add_thread_to_schedule t s =
      run_bind (if next_count s4 = 0 then ret (s4\<lparr>next_running_thread := e\<rparr>) else call_policy (next_running_thread s4) e s4)
        (\<lambda>s5. ret (s5\<lparr>next_count := next_count s5 + 1, empty_scheduling := False\<rparr>))"
    using pool(2) e(1) fill(6) by (simp add: add_thread_to_schedule_def Let_def s4_def m3_def [symmetric])
  have cnt: "unat (next_count s + 1) = length (qs @ [e])" "next_count s = 0 \<longleftrightarrow> qs = []"
    using ok(2) f(5) by (auto simp: unat_word_ariths unat_eq_0)
  show ?thesis
  proof (cases "qs = []")
    case True
    let ?s = "s4\<lparr>next_running_thread := e, next_count := next_count s + 1, empty_scheduling := False\<rparr>"
    have "sep m3 (c # qs @ [e])" by (rule sep_cong [OF fill(1)]) auto
    then have "sched_ok ?s c (qs @ [e])"
      using f(1,2) q3 fill(3) e(2) cnt(1) True by (simp add: sched_ok_def s4_def)
    then show ?thesis
      using run cnt True q3 fill(4,5,7) pol by (intro exI [of _ ?s]) (simp add: s4_def del: mem_span)
  next
    case False
    have "nodes (e # qs)" using fill(1) by (auto simp: sep_def nodes_def)
    then obtain m4 where m4: "schedule (next_running_thread s) e m3 = Some m4" "queue m4 (next_running_thread s) (qs @ [e])"
      "\<And>x. (\<And>q. q \<in> set (e # qs) \<Longrightarrow> x \<notin> span (q + 16) 8) \<Longrightarrow> m4 x = m3 x"
      using schedule_appends [OF q3(1) False _ e(2) fill(3)] by blast
    have lw4: "l_thread m4 p = l_thread m3 p" "x \<in> span (l_thread m3 p) 40 \<Longrightarrow> m4 x = m3 x" if "p \<in> set ?cs" for p x
      by (rule link_write [OF fill(1) _ that]; use m4(3) in \<open>auto simp del: mem_span\<close>)+
    have far: "l_next m4 p = l_next m3 p" if p: "p \<in> set (c # es)" for p
    proof -
      have "span p 24 \<inter> span q 24 = {}" if "q \<in> set (e # qs)" for q
        using p that pool(3) by (intro nodes_apart [OF pool(3)]) (auto simp: nodes_def)
      then have "m4 x = m3 x" if "x \<in> span p 24" for x
        using that node_span(1) by (intro m4(3)) blast
      then show ?thesis by (rule node_cong)
    qed
    let ?s = "s4\<lparr>bytes := m4, next_count := next_count s + 1, empty_scheduling := False\<rparr>"
    have "sep m4 (c # qs @ [e])" by (rule sep_cong [OF fill(1)]) (use lw4(1) in auto)
    then have "sched_ok ?s c (qs @ [e])"
      using f(1,2) q3(3) far m4(2) cnt(1) by (simp add: sched_ok_def s4_def)
    moreover have "queue m4 (l_next ?m e) es" using q3(2) far queue_cong [of es m4 m3] by auto
    moreover have "l_thread m4 e = t" "t_state m4 t = state_code ready"
      using lw4 [of e] fill(4,5) thread_cong [of t m4 m3] by auto
    moreover have "m4 x = ?m x" if "x \<notin> span (t + 24) 4" "x \<notin> span e 24" "\<forall>q \<in> set qs. x \<notin> span (q + 16) 8" for x
    proof -
      have "x \<notin> span (e + 16) 8" using that(2) node_span(1) [of e] by blast
      then have "m4 x = m3 x" using that(3) by (intro m4(3)) auto
      then show ?thesis using fill(7) [OF that(1,2)] by simp
    qed
    ultimately show ?thesis
      using run cnt False m4(1) pol by (intro exI [of _ ?s]) (simp add: s4_def call_policy_def del: mem_span)
  qed
qed

end

section \<open>Properties\<close>

text \<open>Three threads at \<open>0x200\<close>, \<open>0x228\<close>, \<open>0x250\<close> with nodes at \<open>0x100\<close>, \<open>0x118\<close>, \<open>0x130\<close>.\<close>

definition three_threads :: sched_state where
  "three_threads =
     \<lparr>bytes = store64 (store64 (store64 (store64 (\<lambda>_. 0) 0x100 0x200) 0x118 0x228) 0x130 0x250) 0x128 0x130,
      cr3 = 0, console = [], msr = (\<lambda>_. 0), free_mem_next = 0, free_mem_size = 0, empty_scheduling = False, next_running_thread = 0x118, next_count = 2,
      next_waiting_thread = 0, waiting_count = 0, next_sleeping_thread = 0, sleeping_count = 0,
      empty_thread_data = 0x148, empty_count = 1, current_running_thread = 0x100, thread_id_inc = 3,
      scheduler_function = standart_FCFS_scheduler\<rparr>"

lemma load64_blank [simp]: "load64 (\<lambda>_. 0) a = 0"
  by (simp add: load64_def eval_nat_numeral)

lemma three_threads_ok: "sched_ok three_threads 0x100 [0x118, 0x130]"
  by (simp add: sched_ok_def three_threads_def sep_def nodes_def l_next_def l_thread_def)

text \<open>
  The scheduler is round robin. With \<open>standart_FCFS_scheduler\<close>, node \<open>c\<close> running
  and \<open>qs\<close> queued, the \<open>k\<close>-th timer tick resumes the thread of the head of the list
  \<open>c # qs\<close> rotated \<open>k\<close> times; after the ticks the running node and the run queue are that rotation
  and the counters agree with it.
\<close>

lemma round_robin:
  assumes "sched_ok s c qs" "qs \<noteq> []" "scheduler_function s = standart_FCFS_scheduler"
  shows "\<exists>s'. timer_ticks rsps s =
      ret (map (\<lambda>k. l_thread (bytes s) (hd (rotate (Suc k) (c # qs)))) [0..<length rsps], s') \<and>
    sched_ok s' (hd (rotate (length rsps) (c # qs))) (tl (rotate (length rsps) (c # qs)))"
  using fcfs.ticks [OF assms] by blast

lemma round_robin_example:
  "\<exists>s'. timer_ticks [1, 2, 3] three_threads = ret ([0x228, 0x250, 0x200], s') \<and> sched_ok s' 0x100 [0x118, 0x130]"
  using round_robin [OF three_threads_ok, of "[1, 2, 3]"]
  by (simp add: three_threads_def l_thread_def upt_rec)

text \<open>
  A context switch loses no context. After \<open>n\<close> ticks, no more than there are threads,
  each of the first \<open>n\<close> threads has in its \<open>rsp\<close> field the stack pointer it was interrupted
  with, and every other thread still has its own.
\<close>

lemma context_saved:
  assumes "sched_ok s c qs" "qs \<noteq> []" "scheduler_function s = standart_FCFS_scheduler"
    "length rsps \<le> length (c # qs)" "k < length (c # qs)"
  shows "\<exists>ths s'. timer_ticks rsps s = ret (ths, s') \<and>
    t_rsp (bytes s') (l_thread (bytes s) ((c # qs) ! k)) =
      (if k < length rsps then rsps ! k else t_rsp (bytes s) (l_thread (bytes s) ((c # qs) ! k)))"
  using fcfs.ticks [OF assms(1-3), of rsps] assms(4,5) by metis

lemma context_saved_example:
  "\<exists>ths s'. timer_ticks [10, 20, 30] three_threads = ret (ths, s') \<and> t_rsp (bytes s') 0x250 = 30"
  using context_saved [OF three_threads_ok, of "[10, 20, 30]" 2]
  by (simp add: three_threads_def l_thread_def)

text \<open>
  Add_thread_to_schedule queues the thread. It takes the first node of the pool of empty
  nodes, links it behind the last node of the run queue, makes the thread ready, and leaves the rest
  of the pool and a scheduler whose counters agree with its queue.
\<close>

lemma add_thread_queues:
  assumes "sched_ok s c qs" "length qs + 1 < 18446744073709551616" "scheduler_function s = standart_FCFS_scheduler"
    "queue (bytes s) (empty_thread_data s) (e # es)" "empty_count s \<noteq> 0" "nodes (e # es @ c # qs)"
    "sep (store64 (bytes s) e t) (e # c # qs)" "\<forall>p \<in> set es. apart t 40 p 24"
  shows "\<exists>s'. add_thread_to_schedule t s = ret s' \<and> sched_ok s' c (qs @ [e]) \<and> l_thread (bytes s') e = t \<and>
    t_state (bytes s') t = state_code ready \<and> queue (bytes s') (empty_thread_data s') es \<and>
    empty_count s' = empty_count s - 1"
  using fcfs.add_thread [OF assms(1-7)] assms(8) by blast

lemma add_thread_queues_example:
  "\<exists>s'. add_thread_to_schedule 0x300 three_threads = ret s' \<and> sched_ok s' 0x100 [0x118, 0x130, 0x148]"
proof -
  have "sep (store64 (bytes three_threads) 0x148 0x300) [0x148, 0x100, 0x118, 0x130]"
    by (simp add: three_threads_def sep_def nodes_def l_thread_def)
  moreover have "nodes [0x148, 0x100, 0x118, 0x130]" by (simp add: nodes_def)
  moreover have "queue (bytes three_threads) (empty_thread_data three_threads) [0x148]"
    by (simp add: three_threads_def l_next_def)
  ultimately show ?thesis
    using add_thread_queues [OF three_threads_ok, of "0x148" "[]" "0x300"] by (auto simp: three_threads_def)
qed

text \<open>Waiting as long as no other thread waits changes nothing of the run queue.\<close>

lemma this_wait_ok:
  assumes ok: "sched_ok s c qs" and w: "next_waiting_thread s = 0"
  shows "sched_ok (this_wait s) c qs" "p \<in> set (c # qs) \<Longrightarrow> l_thread (bytes (this_wait s)) p = l_thread (bytes s) p"
proof -
  let ?m = "bytes s" and ?cs = "c # qs"
  define m1 where "m1 = set_thread_state (l_thread ?m c) waiting ?m"
  define m2 where "m2 = store64 m1 (c + 16) 0"
  have f: "current_running_thread s = c" "queue ?m (next_running_thread s) qs" "sep ?m ?cs" and c: "c \<in> set ?cs"
    using ok by (auto simp: sched_ok_def)
  have b: "bytes (this_wait s) = m2" by (simp add: this_wait_def Let_def f(1) w m1_def m2_def)
  have m1: "m1 x = ?m x" if "x \<notin> span (l_thread ?m c) 40" for x
    unfolding m1_def set_thread_state_def using that thread_span(2) by (intro store32_outside) blast
  have m2: "m2 x = m1 x" if "\<And>q. q \<in> set ?cs \<Longrightarrow> x \<notin> span (q + 16) 8" for x
    unfolding m2_def by (rule store64_outside, rule that) simp
  have tw: "l_thread m1 p = l_thread ?m p" "l_next m1 p = l_next ?m p" if p: "p \<in> set ?cs" for p
  proof -
    show "l_thread m1 p = l_thread ?m p" by (rule thread_write(1) [OF f(3) c _ p]) (rule m1)
    show "l_next m1 p = l_next ?m p" by (rule thread_write(2) [OF f(3) c _ p]) (rule m1)
  qed
  have sep1: "sep m1 ?cs" by (rule sep_cong [OF f(3)]) (use tw in auto)
  have lw: "l_thread m2 p = l_thread m1 p" if "p \<in> set ?cs" for p
    by (rule link_write(1) [OF sep1 _ that]; use m2 in blast)
  have nx: "l_next m2 p = l_next ?m p" if p: "p \<in> set qs" for p
  proof -
    have "span p 24 \<inter> span c 24 = {}"
      using p f(3) by (intro nodes_apart [of ?cs]) (auto simp: sep_def nodes_def)
    then have "m2 x = m1 x" if "x \<in> span p 24" for x
      using that node_span(1) [of c] unfolding m2_def by (intro store64_outside) blast
    then have "l_next m2 p = l_next m1 p" by (rule node_cong)
    then show ?thesis using tw(2) p by simp
  qed
  have "sep m2 ?cs" by (rule sep_cong [OF sep1]) (use lw in auto)
  moreover have "queue m2 (next_running_thread s) qs" using f(2) nx queue_cong [of qs m2 ?m] by blast
  moreover have "l_next m2 c = 0" by (simp add: m2_def l_next_def)
  ultimately show "sched_ok (this_wait s) c qs"
    using ok b by (simp add: sched_ok_def this_wait_def Let_def)
  show "p \<in> set ?cs \<Longrightarrow> l_thread (bytes (this_wait s)) p = l_thread ?m p"
    using lw tw(1) b by simp
qed

text \<open>
  Waiting does not stop a thread. The only way to give up the processor is the tick
  path, which puts the running node back into the run queue whatever its state: a thread that has
  called \<open>this_wait\<close> is queued again and made ready by the next tick.
\<close>

lemma waiting_thread_is_requeued:
  assumes "sched_ok s c (q # qs)" "scheduler_function s = standart_FCFS_scheduler" "next_waiting_thread s = 0"
  shows "\<exists>s'. pop_next_and_readd_running rsp (this_wait s) = ret (l_thread (bytes s) q, s') \<and>
    sched_ok s' q (qs @ [c]) \<and> t_state (bytes s') (l_thread (bytes s) c) = state_code ready"
proof -
  have "scheduler_function (this_wait s) = standart_FCFS_scheduler"
    using assms(2) by (simp add: this_wait_def Let_def)
  from fcfs.tick [OF this_wait_ok(1) [OF assms(1,3)] this, of rsp] this_wait_ok(2) [OF assms(1,3)]
  show ?thesis by auto
qed

lemma waiting_thread_is_requeued_example:
  "\<exists>s'. pop_next_and_readd_running 7 (this_wait three_threads) = ret (0x228, s') \<and>
    sched_ok s' 0x118 [0x130, 0x100] \<and> t_state (bytes s') 0x200 = state_code ready"
  using waiting_thread_is_requeued [OF three_threads_ok, of 7] by (simp add: three_threads_def l_thread_def)

lemma queue_splice:
  assumes "queue m p (qs @ [z])" "queue m' e es" "l_next m' z = e" "\<And>q. q \<in> set qs \<Longrightarrow> l_next m' q = l_next m q"
  shows "queue m' p (qs @ z # es)"
  using assms by (induction qs arbitrary: p) auto

text \<open>Linking the first node of a list behind the last one of the run queue puts the whole list there.\<close>

lemma fcfs_splices:
  assumes q: "queue m a (r # rs)" "queue m p (p # ps)" and n: "nodes (r # rs @ p # ps)"
  shows "\<exists>m'. standart_FCFS_scheduler a p m = Some m' \<and> queue m' a (r # rs @ p # ps) \<and> queue m' p (p # ps)"
proof -
  obtain zs z where z: "r # rs = zs @ [z]" by (metis rev_exhaust list.discI)
  have all: "r # rs @ p # ps = zs @ z # p # ps" by (metis append_Cons append_assoc append_Nil z)
  define m' where "m' = store64 m (z + 16) p"
  have other: "l_next m' x = l_next m x" if "x \<in> set (zs @ p # ps)" for x
  proof -
    have "x \<noteq> z" using n that unfolding all by (auto simp: nodes_def)
    then show ?thesis
      using store_node_other(1) [OF n, of x z] that unfolding all m'_def by simp
  qed
  have run: "queue m a (zs @ [z])" using q(1) by (simp only: z)
  have list: "queue m' p (p # ps)"
    by (rule iffD2 [OF queue_cong q(2)]) (rule other, auto)
  have "queue m' a (zs @ z # p # ps)"
    by (rule queue_splice [OF run list]) (simp_all add: m'_def l_next_def other [unfolded m'_def l_next_def])
  moreover have "standart_FCFS_scheduler a p m = Some m'"
    using fcfs_last_queue [OF run] by (simp add: standart_FCFS_scheduler_def m'_def)
  ultimately show ?thesis using list unfolding all by blast
qed

lemma thread_state_keeps_node:
  "apart t 40 x 24 \<Longrightarrow> l_next (set_thread_state t st m) x = l_next m x"
  using apart_span [of t 40 x 24] thread_span(2) [of t] unfolding set_thread_state_def
  by (intro node_cong store32_outside) blast

text \<open>
  C22: waking one sleeper queues all of them. When the first sleeping thread is woken, its
  node is linked into the run queue with its \<open>next\<close> field as it is, so that the run queue goes on
  with every node of the sleeping list, while the counter grows by one and the list of the sleeping
  threads still has them all.
\<close>

theorem awake_queues_all_sleepers:
  assumes q: "queue (bytes s) (next_running_thread s) (r # rs)" "queue (bytes s) (next_sleeping_thread s) (p # ps)"
    and n: "nodes (r # rs @ p # ps)" "\<forall>x \<in> set (r # rs @ p # ps). apart (l_thread (bytes s) p) 40 x 24"
    and fs: "scheduler_function s = standart_FCFS_scheduler" "t_tid (bytes s) (l_thread (bytes s) p) = tID"
  shows "\<exists>s'. awake_thread tID s = ret s' \<and> queue (bytes s') (next_running_thread s') (r # rs @ p # ps) \<and>
    next_count s' = next_count s + 1 \<and> queue (bytes s') (next_sleeping_thread s') (p # ps)"
proof -
  define m1 where "m1 = set_thread_state (l_thread (bytes s) p) ready (bytes s)"
  have next1: "l_next m1 x = l_next (bytes s) x" if "x \<in> set (r # rs @ p # ps)" for x
    unfolding m1_def using n(2) that by (intro thread_state_keeps_node) blast
  have "queue m1 (next_running_thread s) (r # rs)"
    by (rule iffD2 [OF queue_cong q(1)]) (rule next1, auto)
  moreover have p: "next_sleeping_thread s = p" using q(2) by simp
  moreover have "queue m1 (next_sleeping_thread s) (p # ps)"
    by (rule iffD2 [OF queue_cong q(2)]) (rule next1, auto)
  ultimately obtain m2 where m2: "standart_FCFS_scheduler (next_running_thread s) p m1 = Some m2"
    "queue m2 (next_running_thread s) (r # rs @ p # ps)" "queue m2 p (p # ps)"
    using fcfs_splices [OF _ _ n(1)] by metis
  then have "awake_thread tID s = ret (s\<lparr>bytes := m2, next_count := next_count s + 1\<rparr>)"
    using fs p by (simp add: awake_thread_def call_policy_def Let_def m1_def [symmetric])
  then show ?thesis
    using m2(2,3) p by (intro exI [of _ "s\<lparr>bytes := m2, next_count := next_count s + 1\<rparr>"]) simp
qed

theorem awake_queues_all_sleepers_witness:
  "\<exists>s'. awake_thread 5 (three_threads\<lparr>bytes := store64 (store64 (store64 (bytes three_threads) 0x128 0) 0x140 0x148) 0x250 5,
      next_sleeping_thread := 0x130, next_count := 1\<rparr>) = ret s' \<and>
    queue (bytes s') (next_running_thread s') [0x118, 0x130, 0x148] \<and> next_count s' = 2"
proof -
  let ?s = "three_threads\<lparr>bytes := store64 (store64 (store64 (bytes three_threads) 0x128 0) 0x140 0x148) 0x250 5,
      next_sleeping_thread := 0x130, next_count := 1\<rparr>"
  have "queue (bytes ?s) (next_running_thread ?s) [0x118]" "queue (bytes ?s) (next_sleeping_thread ?s) [0x130, 0x148]"
    "nodes ([0x118] @ [0x130, 0x148])" "l_thread (bytes ?s) 0x130 = 0x250" "t_tid (bytes ?s) 0x250 = 5"
    "scheduler_function ?s = standart_FCFS_scheduler" "next_count ?s + 1 = 2"
    by (simp_all add: three_threads_def l_next_def l_thread_def t_tid_def nodes_def)
  then show ?thesis
    using awake_queues_all_sleepers [of ?s "0x118" "[]" "0x130" "[0x148]" 5] by auto
qed

text \<open>
  The pool of empty nodes grows by ten separate nodes. With a heap that has room,
  \<open>malloc_empty_bucket\<close> returns, the pool is the ten nodes of a fresh block followed by the old
  pool, and no byte in use changes.
\<close>

lemma bucket_fills_pool:
  assumes "heap_inv lo hi s U" "264 \<le> heap_budget s" "queue (bytes s) (empty_thread_data s) es"
    "\<forall>q \<in> set es. span q 24 \<subseteq> U"
  shows "\<exists>b m. malloc_empty_bucket s =
      ret (s\<lparr>bytes := m, empty_thread_data := b, empty_count := empty_count s + 10\<rparr>) \<and>
    queue m b (bucket_nodes b @ es) \<and> span b 240 \<inter> U = {} \<and> (\<forall>x \<in> U. m x = bytes s x) \<and>
    heap_inv lo hi (s\<lparr>bytes := m\<rparr>) (U \<union> span b 240) \<and> heap_budget (s\<lparr>bytes := m\<rparr>) = heap_budget s - 248"
proof -
  obtain b m' where b: "malloc 240 s = ret (b, s\<lparr>bytes := m'\<rparr>)" "b \<noteq> 0" "unat b + 240 < 18446744073709551616"
    "span b 240 \<inter> U = {}" "\<And>x. x \<in> U \<Longrightarrow> m' x = bytes s x"
    "heap_inv lo hi (s\<lparr>bytes := m'\<rparr>) (U \<union> span b 240)" "heap_budget (s\<lparr>bytes := m'\<rparr>) = heap_budget s - 248"
  proof (rule kheap.allocE [OF assms(1), of 240])
    show "unat (240 :: u64) + 24 \<le> heap_budget s" using assms(2) by simp
  qed (use that in simp)
  let ?m = "store64 (bucket_links b 9 m') (b + 24 * 9 + 16) (empty_thread_data s)"
  have es: "span q 24 \<inter> span b 240 = {}" if "q \<in> set es" for q
    using assms(4) b(4) that by blast
  have "m' x = bytes s x" if "q \<in> set es" "x \<in> span q 24" for q x
    using assms(4) b(5) that by blast
  then have "queue m' (empty_thread_data s) es"
    using assms(3) queue_cong [of es m' "bytes s"] node_cong(3) by metis
  then have q: "queue ?m b (bucket_nodes b @ es)"
    by (rule bucket_queue [OF b(2,3)]) (rule es)
  have in_bucket: "?m x = m' x" if x: "x \<notin> span b 240" for x
  proof -
    have "span (b + (24 * 9 + 16)) 8 \<subseteq> span b 240" by (rule span_sub) simp
    then have "x \<notin> span (b + 24 * 9 + 16) 8" using x by (auto simp: add.assoc simp del: mem_span)
    then have "?m x = bucket_links b 9 m' x" by (rule store64_outside)
    also have "\<dots> = m' x" using x by (rule bucket_outside) simp
    finally show ?thesis .
  qed
  have "?m x = bytes s x" if "x \<in> U" for x
  proof -
    have "x \<notin> span b 240" using that b(4) by blast
    then show ?thesis using in_bucket b(5) [OF that] by metis
  qed
  moreover have "heap_inv lo hi (s\<lparr>bytes := ?m\<rparr>) (U \<union> span b 240) \<and> heap_budget (s\<lparr>bytes := ?m\<rparr>) = heap_budget s - 248"
    using kheap.inv_write [OF b(6), of ?m] in_bucket b(7) by (simp del: mem_span)
  ultimately show ?thesis
    using q b(1,4) by (intro exI [of _ b] exI [of _ ?m]) (simp add: malloc_empty_bucket_def Let_def del: mem_span)
qed

lemma bucket_apart_nodes: "nodes (bucket_nodes b)"
  by (simp add: nodes_def)

lemma bucket_fills_pool_example:
  "\<exists>b s'. malloc_empty_bucket (init_heap 4096 4096 (three_threads\<lparr>empty_thread_data := 0, empty_count := 0\<rparr>)) = ret s' \<and>
    queue (bytes s') (empty_thread_data s') (bucket_nodes b) \<and> empty_count s' = 10"
proof -
  let ?s = "init_heap 4096 4096 (three_threads\<lparr>empty_thread_data := 0, empty_count := 0\<rparr>)"
  have wf: "heap_wf 4096 8192 [(4096, 4096)] ?s"
    using init_heap_wf [of 4096 4096 "three_threads\<lparr>empty_thread_data := 0, empty_count := 0\<rparr>"] by simp
  then have "heap_inv 4096 8192 ?s {}" by (auto simp: heap_inv_def)
  moreover have "264 \<le> heap_budget ?s" by (simp add: heap_budget_def init_heap_def)
  ultimately show ?thesis
    using bucket_fills_pool [of 4096 8192 ?s "{}" "[]"] by (force simp: init_heap_def)
qed

end
