(* ===== verification/Interrupt_Controller.thy ===== *)
theory Interrupt_Controller
  imports Descriptors Scheduler
begin

text \<open>
  The interrupt controllers (\<open>kernel/arch/x86_64/APIC.c\<close>): the redirection table of the I/O APIC, the
  registers of the local APIC, and the list of timed waits behind the APIC timer. The I/O APIC is
  reached by volatile writes, which the model records in the order the code makes them; what the
  device keeps of them (an index register and a data window) is \<open>ioapic_register\<close>.
\<close>

section \<open>State\<close>

record apic_state = sched_state +
  mmio :: "(u64 \<times> u32) list"
  ticks_per_ms :: u64
  waiting_list :: u64
  timer_waiting_count :: u64
  empty_list :: u64
  timer_empty_count :: u64

section \<open>The I/O APIC\<close>

definition mmio_write :: "u64 \<Rightarrow> u32 \<Rightarrow> 'a apic_state_scheme \<Rightarrow> 'a apic_state_scheme" where
  "mmio_write a v s = s\<lparr>mmio := mmio s @ [(a, v)]\<rparr>"

text \<open>Reading a device register may give anything; \<open>device\<close> stands for the hardware's answer.\<close>

definition cpuReadIoApic ::
  "(u64 \<Rightarrow> 'a apic_state_scheme \<Rightarrow> u32) \<Rightarrow> u64 \<Rightarrow> u32 \<Rightarrow> 'a apic_state_scheme \<Rightarrow> u32 \<times> 'a apic_state_scheme" where
  "cpuReadIoApic device ioapicaddr reg s =
     (let s1 = mmio_write ioapicaddr (reg AND 0xff) s in (device (ioapicaddr + 4 * 4) s1, s1))"

definition cpuWriteIoApic :: "u64 \<Rightarrow> u32 \<Rightarrow> u32 \<Rightarrow> 'a apic_state_scheme \<Rightarrow> 'a apic_state_scheme" where
  "cpuWriteIoApic ioapicaddr reg value s =
     mmio_write (ioapicaddr + 4 * 4) value (mmio_write ioapicaddr (reg AND 0xff) s)"

text \<open>The loop of \<open>IOAPIC_setup\<close> after the interrupt lines \<open>0, \<dots>, n - 1\<close>.\<close>

primrec ioapic_loop :: "u64 \<Rightarrow> u8 \<Rightarrow> nat \<Rightarrow> 'a apic_state_scheme \<Rightarrow> 'a apic_state_scheme" where
  "ioapic_loop address APIC_ID 0 s = s"
| "ioapic_loop address APIC_ID (Suc n) s =
     (let i = of_nat n;
          val = (0x30 + i) AND 0x00FF;
          val = val OR push_bit 16 1 * (if i = 2 then 1 else 0);
          s = cpuWriteIoApic address (0x10 + 2 * i) val (ioapic_loop address APIC_ID n s)
      in cpuWriteIoApic address (0x14 + 2 * i) (push_bit 24 (ucast APIC_ID)) s)"

definition IOAPIC_setup :: "u64 \<Rightarrow> u8 \<Rightarrow> 'a apic_state_scheme \<Rightarrow> 'a apic_state_scheme" where
  "IOAPIC_setup address APIC_ID s = ioapic_loop address APIC_ID 16 s"

text \<open>
  What the device keeps: a write to its first register selects, a write to the register at offset
  16 goes to the register selected last (\<open>None\<close>: not written).
\<close>

fun ioapic_register :: "u64 \<Rightarrow> u32 \<Rightarrow> (u64 \<times> u32) list \<Rightarrow> u32 \<Rightarrow> u32 option" where
  "ioapic_register address sel [] r = None"
| "ioapic_register address sel ((a, v) # ws) r =
     (if a = address then ioapic_register address v ws r
      else if a = address + 16 \<and> sel = r
      then (case ioapic_register address sel ws r of None \<Rightarrow> Some v | Some v' \<Rightarrow> Some v')
      else ioapic_register address sel ws r)"

section \<open>The local APIC\<close>

datatype LAPIC_Registers =
  ID | VERSION | TASK_PRIORITY | ARBITRATION_PRIORITY | PROCESS_PRIORITY | EOI | REMOTE_READ
| LOGICAL_DESTINATION | SPURIOUS_INTERRUPT_VR | ERROR_STATUS_REGISTER | INTERRUPT_COMMAND_REGISTER
| LVT_TIMER | LVT_THERMAL | LVT_PERFORMANCE_COUNTER | LINT0_R | LINT1_R | LVT_E_R | INIT_COUNT_REGISTER
| CURRENT_COUNT_TIMER | DIVIDE_CONFIGURATION_REGISTER | SELF_IPI

fun lapic_code :: "LAPIC_Registers \<Rightarrow> u64" where
  "lapic_code ID = 0x2" | "lapic_code VERSION = 0x3" | "lapic_code TASK_PRIORITY = 0x8"
| "lapic_code ARBITRATION_PRIORITY = 0x9" | "lapic_code PROCESS_PRIORITY = 0xA" | "lapic_code EOI = 0xB"
| "lapic_code REMOTE_READ = 0xC" | "lapic_code LOGICAL_DESTINATION = 0xD" | "lapic_code SPURIOUS_INTERRUPT_VR = 0xF"
| "lapic_code ERROR_STATUS_REGISTER = 0x28" | "lapic_code INTERRUPT_COMMAND_REGISTER = 0x30"
| "lapic_code LVT_TIMER = 0x32" | "lapic_code LVT_THERMAL = 0x33" | "lapic_code LVT_PERFORMANCE_COUNTER = 0x34"
| "lapic_code LINT0_R = 0x35" | "lapic_code LINT1_R = 0x36" | "lapic_code LVT_E_R = 0x37"
| "lapic_code INIT_COUNT_REGISTER = 0x38" | "lapic_code CURRENT_COUNT_TIMER = 0x39"
| "lapic_code DIVIDE_CONFIGURATION_REGISTER = 0x3E" | "lapic_code SELF_IPI = 0x3F"

datatype Timer_Mode = One_Shot | Periodic | TSC_deadline

fun timer_mode_code :: "Timer_Mode \<Rightarrow> u32" where
  "timer_mode_code One_Shot = 0" | "timer_mode_code Periodic = 1" | "timer_mode_code TSC_deadline = 2"

definition write_to_LAPIC :: "LAPIC_Registers \<Rightarrow> u64 \<Rightarrow> 'a machine_scheme \<Rightarrow> 'a machine_scheme" where
  "write_to_LAPIC offset value = write_msr (0x800 + lapic_code offset) value"

definition read_from_LAPIC :: "LAPIC_Registers \<Rightarrow> 'a machine_scheme \<Rightarrow> u64" where
  "read_from_LAPIC offset s = read_msr (0x800 + lapic_code offset) s"

definition set_APIC_Timer_Interrupt :: "Timer_Mode \<Rightarrow> u8 \<Rightarrow> 'a machine_scheme \<Rightarrow> 'a machine_scheme" where
  "set_APIC_Timer_Interrupt mode interrupt_id s =
     (let msr_val = ucast (read_from_LAPIC LVT_TIMER s) :: u32;
          msr_val = msr_val AND 0xFFFCFF00;
          msr_val = msr_val OR ucast interrupt_id;
          msr_val = msr_val OR push_bit 16 (timer_mode_code mode AND 0x3)
      in write_to_LAPIC LVT_TIMER (ucast msr_val) s)"

text \<open>
  \<open>LVT_R_MASK_INTERRUPTS\<close> is the text \<open>1 << 16\<close>: its complement \<open>~1 << 16\<close> is the shifted complement.
\<close>

definition lvt_r_mask_interrupts :: u32 where "lvt_r_mask_interrupts = push_bit 16 1"
definition not_lvt_r_mask_interrupts :: u32 where "not_lvt_r_mask_interrupts = push_bit 16 (NOT 1)"

definition init_APIC_timer :: "'a machine_scheme \<Rightarrow> 'a machine_scheme" where
  "init_APIC_timer s =
     (let s = set_APIC_Timer_Interrupt One_Shot 49 s;
          s = write_to_LAPIC INIT_COUNT_REGISTER 0 s;
          msr_val = ucast (read_from_LAPIC LVT_TIMER s) :: u32;
          msr_val = msr_val AND not_lvt_r_mask_interrupts
      in write_to_LAPIC LVT_TIMER (ucast msr_val) s)"

text \<open>\<open>init_PIT\<close> waits on the interval timer while the local timer counts down; it is an argument.\<close>

definition messurre_LAPIC_timer ::
  "('a apic_state_scheme \<Rightarrow> 'a apic_state_scheme) \<Rightarrow> 'a apic_state_scheme \<Rightarrow> u64 \<times> 'a apic_state_scheme" where
  "messurre_LAPIC_timer init_PIT s =
     (let s = write_to_LAPIC DIVIDE_CONFIGURATION_REGISTER 0xB s;
          s = write_to_LAPIC INIT_COUNT_REGISTER 0xFFFFFFFF s;
          s = init_PIT s;
          s = write_to_LAPIC LVT_TIMER (ucast lvt_r_mask_interrupts) s;
          s = s\<lparr>ticks_per_ms := 0xFFFFFFFF - read_from_LAPIC CURRENT_COUNT_TIMER s\<rparr>
      in (ticks_per_ms s, s))"

definition convert_to_timer_ticks :: "u64 \<Rightarrow> 'a apic_state_scheme \<Rightarrow> u64" where
  "convert_to_timer_ticks time s = time * ticks_per_ms s"

definition set_LAPIC_time :: "u64 \<Rightarrow> 'a machine_scheme \<Rightarrow> 'a machine_scheme" where
  "set_LAPIC_time LAPIC_ticks s = write_to_LAPIC INIT_COUNT_REGISTER LAPIC_ticks s"

section \<open>Timed waits\<close>

text \<open>\<open>struct Timer_waits\<close>: 24 bytes.\<close>

definition w_tID :: "mem \<Rightarrow> u64 \<Rightarrow> u64" where "w_tID m e = load64 m e"
definition w_relative_time :: "mem \<Rightarrow> u64 \<Rightarrow> u64" where "w_relative_time m e = load64 m (e + 8)"
definition w_next :: "mem \<Rightarrow> u64 \<Rightarrow> u64" where "w_next m e = load64 m (e + 16)"

text \<open>The loop that links nine of ten fresh nodes, after \<open>n\<close> of them.\<close>

primrec wait_links :: "u64 \<Rightarrow> nat \<Rightarrow> mem \<Rightarrow> mem" where
  "wait_links a 0 m = m"
| "wait_links a (Suc i) m = store64 (wait_links a i m) (a + 24 * of_nat i + 16) (a + 24 * of_nat (Suc i))"

definition wait_nodes :: "'a apic_state_scheme \<Rightarrow> 'a apic_state_scheme run" where
  "wait_nodes s =
     run_bind (malloc 240 s) (\<lambda>(new_waiting, s1).
       let m = wait_links new_waiting 9 (memset new_waiting 0 240 (bytes s1))
       in ret (s1\<lparr>bytes := m, empty_list := new_waiting, timer_waiting_count := timer_waiting_count s1 + 10\<rparr>))"

text \<open>The walk to the place of a wait: the node before it and the time up to it.\<close>

partial_function (option) wait_walk :: "mem \<Rightarrow> u64 \<Rightarrow> u64 \<Rightarrow> u64 \<Rightarrow> u64 \<Rightarrow> (u64 \<times> u64) option" where
  "wait_walk m delta prev current current_waiting =
     (if current = 0 \<or> current_waiting + w_relative_time m current > delta then Some (prev, current_waiting)
      else wait_walk m delta current (w_next m current) (current_waiting + w_relative_time m current))"

definition add_to_sleep :: "u64 \<Rightarrow> u64 \<Rightarrow> 'a apic_state_scheme \<Rightarrow> 'a apic_state_scheme run" where
  "add_to_sleep delta tID s =
     (let delta = convert_to_timer_ticks delta s in
      run_bind (if timer_empty_count s = 0 then wait_nodes s else ret s) (\<lambda>s.
        let new_waiting = empty_list s;
            s = s\<lparr>empty_list := w_next (bytes s) new_waiting, timer_empty_count := timer_empty_count s - 1\<rparr>;
            s = s\<lparr>bytes := store64 (bytes s) new_waiting tID\<rparr>;
            current = waiting_list s
        in if current = 0
           then ret (s\<lparr>bytes := store64 (bytes s) (new_waiting + 8) delta, waiting_list := new_waiting,
                       timer_waiting_count := timer_waiting_count s + 1\<rparr>)
           else if w_relative_time (bytes s) current > delta
           then (let m = store64 (bytes s) (new_waiting + 16) current;
                     second = w_next m new_waiting;
                     m = store64 m (second + 8) (w_relative_time m second - delta);
                     m = store64 m (new_waiting + 8) delta
                 in ret (set_LAPIC_time delta (s\<lparr>bytes := m, waiting_list := new_waiting,
                      timer_waiting_count := timer_waiting_count s + 1\<rparr>)))
           else (case wait_walk (bytes s) delta 0 current 0 of
                   None \<Rightarrow> None
                 | Some (prev, current_waiting) \<Rightarrow>
                     (let m = store64 (bytes s) (new_waiting + 16) (w_next (bytes s) prev);
                          m = store64 m (prev + 16) new_waiting;
                          m = store64 m (new_waiting + 8) (delta - current_waiting)
                      in ret (s\<lparr>bytes := m, timer_waiting_count := timer_waiting_count s + 1\<rparr>)))))"

text \<open>Waking the thread of the first wait and clearing its node, then going on to its successor.\<close>

definition wake_first :: "'a apic_state_scheme \<Rightarrow> 'a apic_state_scheme run" where
  "wake_first s =
     run_bind (awake_thread (w_tID (bytes s) (waiting_list s)) s) (\<lambda>s.
       let current = waiting_list s;
           m = store64 (bytes s) (current + 16) 0;
           m = store64 m (current + 8) 0;
           m = store64 m current 0
       in ret (s\<lparr>bytes := m, waiting_list := w_next m (waiting_list s), timer_waiting_count := timer_waiting_count s - 1\<rparr>))"

text \<open>The loop over the waits that end at the same time; it gives the last node cleared.\<close>

partial_function (option) wake_loop :: "u64 \<Rightarrow> 'a apic_state_scheme \<Rightarrow> (halt + u64 \<times> 'a apic_state_scheme) option" where
  "wake_loop current s =
     (if w_relative_time (bytes s) (waiting_list s) = 0
      then (case wake_first s of
              None \<Rightarrow> None
            | Some (Inl h) \<Rightarrow> Some (Inl h)
            | Some (Inr s') \<Rightarrow> wake_loop (waiting_list s) s')
      else Some (Inr (current, s)))"

definition APIC_timer_handler :: "u64 \<Rightarrow> 'a apic_state_scheme \<Rightarrow> (u64 \<times> 'a apic_state_scheme) run" where
  "APIC_timer_handler rsp s =
     run_bind (wake_first s) (\<lambda>s1.
     run_bind (wake_loop (waiting_list s) s1) (\<lambda>(current, s2).
       let s3 = (if timer_waiting_count s2 > 0 then set_LAPIC_time (w_relative_time (bytes s2) (waiting_list s2)) s2 else s2);
           s4 = s3\<lparr>bytes := memset current 0 24 (bytes s3)\<rparr>
       in run_bind (pop_next_and_readd_running rsp s4) (\<lambda>(thread, s5). ret (t_rsp (bytes s5) thread, s5))))"

section \<open>Interrupt routing\<close>

lemma lvt_timer_rw [simp]: "read_from_LAPIC r (write_to_LAPIC r v s) = v"
  by (simp add: read_from_LAPIC_def write_to_LAPIC_def read_msr_def write_msr_def)

lemma lapic_code_inject [simp]: "lapic_code r = lapic_code q \<longleftrightarrow> r = q"
  by (cases r; cases q) simp_all

lemma lapic_other [simp]: "r \<noteq> q \<Longrightarrow> read_from_LAPIC r (write_to_LAPIC q v s) = read_from_LAPIC r s"
  by (simp add: read_from_LAPIC_def write_to_LAPIC_def read_msr_def write_msr_def)

lemma ioapic_register_append:
  "ioapic_register a sel (ws @ [(a, r), (a + 16, v)]) q = (if q = r then Some v else ioapic_register a sel ws q)"
  by (induction ws arbitrary: sel) (auto split: option.splits)

lemma ioapic_write:
  "ioapic_register a sel (mmio (cpuWriteIoApic a r v s)) q =
     (if q = r AND 0xff then Some v else ioapic_register a sel (mmio s) q)"
  by (simp add: cpuWriteIoApic_def mmio_write_def ioapic_register_append)

text \<open>What the redirection table holds after line \<open>i\<close> of sixteen has been set up.\<close>

lemma ioapic_table:
  "ioapic_register a 0 (mmio (IOAPIC_setup a APIC_ID s)) r =
     (if r \<in> set [0x10, 0x12, 0x14, 0x16, 0x18, 0x1A, 0x1C, 0x1E, 0x20, 0x22, 0x24, 0x26, 0x28, 0x2A, 0x2C, 0x2E]
      then Some (if r = 0x14 then 0x10032 else 0x30 + drop_bit 1 (r - 0x10))
      else if r = 0x30 \<or> r = 0x32 then Some (push_bit 24 (ucast APIC_ID))
      else ioapic_register a 0 (mmio s) r)"
proof -
  have n: "(16 :: nat) = Suc (Suc (Suc (Suc (Suc (Suc (Suc (Suc (Suc (Suc (Suc (Suc (Suc (Suc (Suc (Suc 0)))))))))))))))" by simp
  show ?thesis
    unfolding IOAPIC_setup_def n
    by (simp add: Let_def ioapic_write)
qed

text \<open>
  C26: the interrupt lines do not reach their handlers. \<open>IOAPIC_setup\<close> gives line \<open>i\<close> the
  vector \<open>0x30 + i\<close> (line 2 masked) and never writes a destination register, while the interrupt
  table has the handlers of the lines from vector \<open>0x20\<close> on: the vector of the keyboard line is the entry
  of the APIC timer, the vector of line 0 is the system call, and the other lines have no gate. The
  two writes meant for the destinations of lines 14 and 15 end in the entries behind the table.
\<close>

theorem irq_vectors:
  assumes "i < 16"
  shows "let w = mmio (IOAPIC_setup a APIC_ID (s\<lparr>mmio := []\<rparr>)) in
    ioapic_register a 0 w (0x10 + 2 * of_nat i) = Some (0x30 + of_nat i + (if i = 2 then 0x10000 else 0)) \<and>
    ioapic_register a 0 w (0x11 + 2 * of_nat i) = None \<and>
    ioapic_register a 0 w 0x30 = Some (push_bit 24 (ucast APIC_ID)) \<and>
    ioapic_register a 0 w 0x32 = Some (push_bit 24 (ucast APIC_ID)) \<and>
    interrupt_pointers ! (0x30 + 0) = asm_syscall \<and> interrupt_pointers ! (0x30 + 1) = asm_APIC_timer_handler \<and>
    interrupt_pointers ! (0x20 + 1) = asm_keyboard_handler \<and> (1 < i \<longrightarrow> length interrupt_pointers \<le> 0x30 + i)"
proof -
  have "i \<in> {0, 1, 2, 3, 4, 5, 6, 7, 8, 9, 10, 11, 12, 13, 14, 15}" using assms by (simp, presburger)
  then show ?thesis
    by (elim insertE emptyE) (simp_all add: Let_def ioapic_table interrupt_pointers_def)
qed

text \<open>
  The timer loses its vector. \<open>set_APIC_Timer_Interrupt\<close> enters the vector it is given, but
  \<open>init_APIC_timer\<close>, which means to clear the mask bit only, clears the low 17 bits of the
  register: whatever was set before, the vector of the timer is 0 afterwards.
\<close>

lemma timer_vector_lost:
  "ucast (read_from_LAPIC LVT_TIMER (set_APIC_Timer_Interrupt mode v s)) = v \<and>
   read_from_LAPIC LVT_TIMER (init_APIC_timer s) AND 0x1FFFF = 0"
proof
  have low: "ucast (w AND 0xFFFCFF00 OR ucast v OR push_bit 16 u :: u32) = v" for w u :: u32
  proof -
    have "ucast (push_bit 16 u) = (0 :: u8)" "ucast (ucast v :: u32) = v"
      by (rule bit_word_eqI, simp add: bit_simps)+
    moreover have z: "(0xFFFCFF00 :: u8) = 0" by simp
    ultimately show ?thesis by (simp add: unsigned_and_eq unsigned_or_eq z)
  qed
  have "ucast (ucast x :: u64) = (ucast x :: u8)" for x :: u32
    by (rule bit_word_eqI) (auto simp: bit_simps)
  then show "ucast (read_from_LAPIC LVT_TIMER (set_APIC_Timer_Interrupt mode v s)) = v"
    using low [of "ucast (read_from_LAPIC LVT_TIMER s)" "timer_mode_code mode AND 0x3"]
    by (simp add: set_APIC_Timer_Interrupt_def Let_def or.assoc)
  have "ucast (w AND 0xFFFE0000 :: u32) AND 0x1FFFF = (0 :: u64)" for w
    by (simp add: unsigned_and_eq and.assoc)
  moreover have "not_lvt_r_mask_interrupts = 0xFFFE0000" by (simp add: not_lvt_r_mask_interrupts_def)
  ultimately show "read_from_LAPIC LVT_TIMER (init_APIC_timer s) AND 0x1FFFF = 0"
    by (simp add: init_APIC_timer_def Let_def)
qed

section \<open>Deadlines\<close>

text \<open>The thread and the time of every wait of a list, counted from \<open>b\<close>; the time the list covers.\<close>

primrec deadlines :: "mem \<Rightarrow> nat \<Rightarrow> u64 list \<Rightarrow> (u64 \<times> nat) list" where
  "deadlines m b [] = []"
| "deadlines m b (q # qs) =
     (w_tID m q, b + unat (w_relative_time m q)) # deadlines m (b + unat (w_relative_time m q)) qs"

definition total :: "mem \<Rightarrow> u64 list \<Rightarrow> nat" where
  "total m qs = sum_list (map (\<lambda>q. unat (w_relative_time m q)) qs)"

lemma total_simps [simp]: "total m [] = 0" "total m (q # qs) = unat (w_relative_time m q) + total m qs"
  "total m (ps @ qs) = total m ps + total m qs"
  by (simp_all add: total_def)

lemma deadlines_append: "deadlines m b (ps @ qs) = deadlines m b ps @ deadlines m (b + total m ps) qs"
  by (induction ps arbitrary: b) (simp_all add: add.assoc)

lemma deadlines_shift: "deadlines m (b + k) qs = map (\<lambda>(u, x). (u, x + k)) (deadlines m b qs)"
proof (induction qs arbitrary: b)
  case (Cons q qs)
  show ?case using Cons [of "b + unat (w_relative_time m q)"] by (simp add: ac_simps)
qed simp

lemma deadlines_cong:
  "(\<And>q. q \<in> set qs \<Longrightarrow> w_tID m' q = w_tID m q) \<Longrightarrow> (\<And>q. q \<in> set qs \<Longrightarrow> w_relative_time m' q = w_relative_time m q) \<Longrightarrow>
    deadlines m' b qs = deadlines m b qs"
  by (induction qs arbitrary: b) simp_all

lemma total_cong: "(\<And>q. q \<in> set qs \<Longrightarrow> w_relative_time m' q = w_relative_time m q) \<Longrightarrow> total m' qs = total m qs"
  by (induction qs) simp_all

lemma w_node: "w_tID = l_thread" "w_relative_time = l_score" "w_next = l_next"
  by (intro ext; simp add: w_tID_def w_relative_time_def w_next_def l_thread_def l_score_def l_next_def)+

lemma queue_insert_behind:
  assumes "queue m p (qs @ z # rs)" "l_next m' z = n" "n \<noteq> 0" "l_next m' n = l_next m z"
    "\<And>q. q \<in> set (qs @ rs) \<Longrightarrow> l_next m' q = l_next m q"
  shows "queue m' p (qs @ z # n # rs)"
  using assms
proof (induction qs arbitrary: p)
  case Nil
  then show ?case using queue_cong [of rs m' m] by auto
qed auto

lemma wait_walk_splits:
  assumes "queue m cur qs" "unat cw + total m qs < 18446744073709551616" "unat cw \<le> unat D"
  shows "\<exists>ps rs cw'. qs = ps @ rs \<and> wait_walk m D prev cur cw = Some (last (prev # ps), cw') \<and>
    unat cw' = unat cw + total m ps \<and> unat cw' \<le> unat D \<and>
    (rs \<noteq> [] \<longrightarrow> unat D < unat cw' + unat (w_relative_time m (hd rs)))"
  using assms
proof (induction qs arbitrary: cur cw prev)
  case Nil
  then show ?case by (subst wait_walk.simps) simp
next
  case (Cons q qs)
  let ?cw = "cw + w_relative_time m q"
  have q: "cur = q" "q \<noteq> 0" "queue m (w_next m q) qs" using Cons.prems(1) by (auto simp: w_node)
  have u: "unat ?cw = unat cw + unat (w_relative_time m q)"
    using Cons.prems(2) by (intro unat_u64_add) simp
  show ?case
  proof (cases "?cw > D")
    case True
    then show ?thesis
      using q Cons.prems(3) u by (subst wait_walk.simps) (intro exI [of _ "[]"] exI [of _ "q # qs"], simp add: word_less_nat_alt)
  next
    case False
    then have "unat ?cw \<le> unat D" by (simp add: word_le_nat_alt [symmetric] not_less)
    moreover have "unat ?cw + total m qs < 18446744073709551616" using Cons.prems(2) u by simp
    ultimately obtain ps rs cw' where "qs = ps @ rs" "wait_walk m D q (w_next m q) ?cw = Some (last (q # ps), cw')"
      "unat cw' = unat ?cw + total m ps" "unat cw' \<le> unat D"
      "rs \<noteq> [] \<longrightarrow> unat D < unat cw' + unat (w_relative_time m (hd rs))"
      using Cons.IH [OF q(3), of ?cw q] by blast
    then show ?thesis
      using q False u by (subst wait_walk.simps) (intro exI [of _ "q # ps"] exI [of _ rs] exI [of _ cw'], simp)
  qed
qed

lemma wait_inserted:
  assumes q: "queue m p (ps @ z # rs)" and n: "nodes (n # ps @ z # rs)" "n \<noteq> 0"
    and m': "m' = store64 (store64 (store64 (store64 m n t) (n + 16) (l_next m z)) (z + 16) n) (n + 8) v"
  shows "queue m' p (ps @ z # n # rs)"
    "l_thread m' n = t" "l_score m' n = v"
    "x \<in> set (ps @ z # rs) \<Longrightarrow> l_thread m' x = l_thread m x" "x \<in> set (ps @ z # rs) \<Longrightarrow> l_score m' x = l_score m x"
proof -
  have ap: "span x 24 \<inter> span y 24 = {}" if "x \<in> set (n # ps @ z # rs)" "y \<in> set (n # ps @ z # rs)" "x \<noteq> y" for x y
    using that by (rule nodes_apart [OF n(1)])
  have dist: "n \<noteq> z" "x \<in> set (ps @ rs) \<Longrightarrow> x \<noteq> z" "x \<in> set (ps @ z # rs) \<Longrightarrow> x \<noteq> n" for x
    using n(1) by (auto simp: nodes_def)
  have nz: "span n 24 \<inter> span z 24 = {}" "span z 24 \<inter> span n 24 = {}"
    using ap [of n z] ap [of z n] dist(1) by auto
  show "l_thread m' n = t" "l_score m' n = v" by (simp_all add: m' node_stores [OF nz(1)])
  have other: "l_thread m' x = l_thread m x" "l_score m' x = l_score m x" "l_next m' x = l_next m x" if x: "x \<in> set (ps @ rs)" for x
  proof -
    have "span x 24 \<inter> span n 24 = {}" "span x 24 \<inter> span z 24 = {}"
      using ap [of x n] ap [of x z] dist(2,3) [of x] x by auto
    then show "l_thread m' x = l_thread m x" "l_score m' x = l_score m x" "l_next m' x = l_next m x"
      by (simp_all add: m' node_stores)
  qed
  have z: "l_thread m' z = l_thread m z" "l_score m' z = l_score m z" "l_next m' z = n"
    by (simp_all add: m' node_stores [OF nz(2)])
  show "l_thread m' x = l_thread m x" "l_score m' x = l_score m x" if "x \<in> set (ps @ z # rs)"
    using that other [of x] z by auto
  show "queue m' p (ps @ z # n # rs)"
    by (rule queue_insert_behind [OF q z(3) n(2)]) (use other(3) in \<open>simp_all add: m' node_stores [OF nz(1)]\<close>)
qed

lemma wait_in_front:
  assumes q: "queue m p (q # qs)" and n: "nodes (n # q # qs)" "n \<noteq> 0"
    and m': "m' = store64 (store64 (store64 (store64 m n t) (n + 16) q) (q + 8) r) (n + 8) v"
  shows "queue m' n (n # q # qs)"
    "l_thread m' n = t" "l_score m' n = v" "l_thread m' q = l_thread m q" "l_score m' q = r"
    "x \<in> set qs \<Longrightarrow> l_thread m' x = l_thread m x" "x \<in> set qs \<Longrightarrow> l_score m' x = l_score m x"
proof -
  have ap: "span x 24 \<inter> span y 24 = {}" if "x \<in> set (n # q # qs)" "y \<in> set (n # q # qs)" "x \<noteq> y" for x y
    using that by (rule nodes_apart [OF n(1)])
  have dist: "n \<noteq> q" "x \<in> set qs \<Longrightarrow> x \<noteq> q \<and> x \<noteq> n" for x
    using n(1) by (auto simp: nodes_def)
  have nq: "span n 24 \<inter> span q 24 = {}" "span q 24 \<inter> span n 24 = {}"
    using ap [of n q] ap [of q n] dist(1) by auto
  show "l_thread m' n = t" "l_score m' n = v" by (simp_all add: m' node_stores [OF nq(1)])
  show tq: "l_thread m' q = l_thread m q" "l_score m' q = r" by (simp_all add: m' node_stores [OF nq(2)])
  have other: "l_thread m' x = l_thread m x" "l_score m' x = l_score m x" "l_next m' x = l_next m x" if x: "x \<in> set qs" for x
  proof -
    have "span x 24 \<inter> span n 24 = {}" "span x 24 \<inter> span q 24 = {}"
      using ap [of x n] ap [of x q] dist(2) [OF x] x by auto
    then show "l_thread m' x = l_thread m x" "l_score m' x = l_score m x" "l_next m' x = l_next m x"
      by (simp_all add: m' node_stores)
  qed
  show "x \<in> set qs \<Longrightarrow> l_thread m' x = l_thread m x" "x \<in> set qs \<Longrightarrow> l_score m' x = l_score m x"
    using other by auto
  have "l_next m' q = l_next m q" "l_next m' n = q"
    by (simp_all add: m' node_stores [OF nq(1)] node_stores [OF nq(2)])
  then show "queue m' n (n # q # qs)"
    using q n(2) other(3) queue_cong [of qs m' m] by simp
qed

text \<open>A wait that ends before the first one, and one that does not.\<close>

lemma sleep_front:
  assumes q: "queue (bytes s) (waiting_list s) (q # qs)" and n: "nodes (n # q # qs)" "n \<noteq> 0"
    and e: "empty_list s = n" "timer_empty_count s \<noteq> 0"
    and True: "l_score (bytes s) q > d * ticks_per_ms s"
  shows "\<exists>s'. add_to_sleep d t s = ret s' \<and> queue (bytes s') (waiting_list s') (n # q # qs) \<and>
    deadlines (bytes s') 0 (n # q # qs) = (t, unat (d * ticks_per_ms s)) # deadlines (bytes s) 0 (q # qs)"
proof -
  let ?m = "bytes s" and ?D = "d * ticks_per_ms s"
  have q1: "waiting_list s = q" "q \<noteq> 0" using q by auto
  have nq: "span x 24 \<inter> span n 24 = {}" if "x \<in> set (q # qs)" for x
    using that n(1) by (intro nodes_apart [OF n(1)]) (auto simp: nodes_def)
  have keep: "l_next (store64 ?m n t) x = l_next ?m x" "l_score (store64 ?m n t) x = l_score ?m x" if "x \<in> set (q # qs)" for x
    by (rule node_stores [OF nq [OF that]])+
  define m' where "m' = store64 (store64 (store64 (store64 ?m n t) (n + 16) q) (q + 8) (l_score ?m q - ?D)) (n + 8) ?D"
  note front = wait_in_front [OF q n m'_def]
  have "l_score (store64 (store64 ?m n t) (n + 16) q) q = l_score ?m q"
    using keep(2) node_stores(5) [OF nq [of q]] by simp
  then obtain s' where run: "add_to_sleep d t s = ret s'" "bytes s' = m'" "waiting_list s' = n"
    using True e q1 keep [of q]
    by (simp add: add_to_sleep_def convert_to_timer_ticks_def Let_def w_node m'_def set_LAPIC_time_def write_to_LAPIC_def
        write_msr_def)
  have "unat (l_score ?m q - ?D) = unat (l_score ?m q) - unat ?D" "unat ?D < unat (l_score ?m q)"
    using True by (simp_all add: unat_sub word_less_nat_alt word_le_nat_alt)
  then have dl: "deadlines m' 0 (n # q # qs) = (t, unat ?D) # deadlines ?m 0 (q # qs)"
    using front deadlines_cong [of qs m' ?m] by (simp add: w_node)
  show ?thesis using run front(1) dl by (intro exI [of _ s']) (simp del: deadlines.simps(2))
qed

lemma sleep_behind:
  assumes q: "queue (bytes s) (waiting_list s) (q # qs)" and n: "nodes (n # q # qs)" "n \<noteq> 0"
    and e: "empty_list s = n" "timer_empty_count s \<noteq> 0" and tot: "total (bytes s) (q # qs) < 18446744073709551616"
    and False: "\<not> l_score (bytes s) q > d * ticks_per_ms s"
  shows "\<exists>s' ps rs. add_to_sleep d t s = ret s' \<and> q # qs = ps @ rs \<and>
    queue (bytes s') (waiting_list s') (ps @ n # rs) \<and>
    total (bytes s) ps \<le> unat (d * ticks_per_ms s) \<and>
    (rs \<noteq> [] \<longrightarrow> unat (d * ticks_per_ms s) < total (bytes s) ps + unat (w_relative_time (bytes s) (hd rs))) \<and>
    deadlines (bytes s') 0 (ps @ n # rs) =
      deadlines (bytes s) 0 ps @ (t, unat (d * ticks_per_ms s)) #
      map (\<lambda>(u, x). (u, x + (if ps = [] then 0 else unat (d * ticks_per_ms s) - total (bytes s) ps)))
        (deadlines (bytes s) (total (bytes s) ps) rs)"
proof -
  let ?m = "bytes s" and ?D = "d * ticks_per_ms s"
  have q1: "waiting_list s = q" "q \<noteq> 0" using q by auto
  have nq: "span x 24 \<inter> span n 24 = {}" if "x \<in> set (q # qs)" for x
    using that n(1) by (intro nodes_apart [OF n(1)]) (auto simp: nodes_def)
  have keep: "l_next (store64 ?m n t) x = l_next ?m x" "l_score (store64 ?m n t) x = l_score ?m x" if "x \<in> set (q # qs)" for x
    by (rule node_stores [OF nq [OF that]])+
  let ?mt = "store64 ?m n t"
  have m0: "w_relative_time ?mt x = w_relative_time ?m x" "w_next ?mt x = w_next ?m x" if "x \<in> set (q # qs)" for x
    using keep [OF that] by (simp_all add: w_node)
  have tot0: "total ?mt xs = total ?m xs" if "set xs \<subseteq> set (q # qs)" for xs
    using that m0(1) by (intro total_cong) auto
  have "queue ?mt (waiting_list s) (q # qs)"
    by (rule iffD2 [OF queue_cong q]) (rule keep(1))
  then have q0: "queue ?mt q (q # qs)" by (simp only: q1(1))
  have tt: "total ?mt (q # qs) = total ?m (q # qs)" by (rule tot0) (rule subset_refl)
  have lim: "unat (0 :: u64) + total ?mt (q # qs) < 18446744073709551616"
    using ord_eq_less_trans [OF tt tot] by (simp only: unat_0 add_0)
  have le: "unat (0 :: u64) \<le> unat ?D" by simp
  obtain ps rs cw where w: "q # qs = ps @ rs" "wait_walk ?mt ?D 0 q 0 = Some (last (0 # ps), cw)"
    "unat cw = unat (0 :: u64) + total ?mt ps" "unat cw \<le> unat ?D"
    "rs \<noteq> [] \<longrightarrow> unat ?D < unat cw + unat (w_relative_time ?mt (hd rs))"
    using wait_walk_splits [OF q0 lim le, of 0] by (elim exE conjE) (rule that)
  have "ps \<noteq> []"
    using w(1,3,5) False m0(1) [of q] by (auto simp: w_node word_less_nat_alt)
  then obtain ps' z where ps: "ps = ps' @ [z]" by (metis rev_exhaust)
  have sub: "set ps \<subseteq> set (q # qs)" "set rs \<subseteq> set (q # qs)" unfolding w(1) by auto
  have cw: "unat cw = total ?m ps" using w(3) tot0 [OF sub(1)] by simp
  have z: "z \<in> set (q # qs)" using ps sub by auto
  define m' where "m' = store64 (store64 (store64 (store64 ?m n t) (n + 16) (l_next ?m z)) (z + 16) n) (n + 8) (?D - cw)"
  have qz: "queue ?m q (ps' @ z # rs)" "nodes (n # ps' @ z # rs)" using q q1 n(1) w(1) ps by simp_all
  note mid = wait_inserted [OF qz n(2) m'_def]
  obtain s' where run: "add_to_sleep d t s = ret s'" "bytes s' = m'" "waiting_list s' = q"
    using False e q1 keep [of q] keep(1) [OF z] w(2) ps
    by (simp add: add_to_sleep_def convert_to_timer_ticks_def Let_def w_node m'_def)
  have "unat (?D - cw) = unat ?D - total ?m ps" using w(4) cw by (simp add: unat_sub word_le_nat_alt)
  moreover have same: "w_tID m' x = w_tID ?m x" "w_relative_time m' x = w_relative_time ?m x" if "x \<in> set (ps @ rs)" for x
    using mid(4,5) [of x] that ps by (simp_all add: w_node)
  have "deadlines m' b ps = deadlines ?m b ps" "deadlines m' b rs = deadlines ?m b rs" "total m' ps = total ?m ps" for b
    by (intro deadlines_cong total_cong; simp add: same)+
  moreover have "w_tID m' n = t" "w_relative_time m' n = ?D - cw" using mid(2,3) by (simp_all add: w_node)
  ultimately have "deadlines m' 0 (ps @ n # rs) = deadlines ?m 0 ps @ (t, unat ?D) #
      deadlines ?m (total ?m ps + (unat ?D - total ?m ps)) rs"
    using w(4) cw by (simp add: deadlines_append)
  then have dl: "deadlines m' 0 (ps @ n # rs) = deadlines ?m 0 ps @ (t, unat ?D) #
      map (\<lambda>(u, x). (u, x + (unat ?D - total ?m ps))) (deadlines ?m (total ?m ps) rs)"
    by (subst (asm) deadlines_shift)
  have "rs \<noteq> [] \<longrightarrow> unat ?D < total ?m ps + unat (w_relative_time ?m (hd rs))"
  proof
    assume "rs \<noteq> []"
    then have "hd rs \<in> set (q # qs)" using sub(2) hd_in_set by blast
    then show "unat ?D < total ?m ps + unat (w_relative_time ?m (hd rs))" using w(5) cw m0(1) \<open>rs \<noteq> []\<close> by simp
  qed
  then show ?thesis
    using run mid(1) w(1,4) \<open>ps \<noteq> []\<close> cw dl ps by (intro exI [of _ s'] exI [of _ ps] exI [of _ rs]) simp
qed

text \<open>
  C25: a timed wait goes to its place. With a free node \<open>n\<close> and a list of waits that is not
  empty, \<open>add_to_sleep\<close> returns; the waits before the new one end no later, those behind it later;
  the new wait ends exactly at its time, and the waits before it keep their ends. In front of the
  list nothing else moves; further back every later wait is delayed by the time between the new
  wait and the one before it, which the code does not subtract from the successor.
\<close>

theorem sleep_deadlines:
  assumes q: "queue (bytes s) (waiting_list s) (q # qs)" and n: "nodes (n # q # qs)" "n \<noteq> 0"
    and e: "empty_list s = n" "timer_empty_count s \<noteq> 0" and tot: "total (bytes s) (q # qs) < 18446744073709551616"
  shows "\<exists>s' ps rs. add_to_sleep d t s = ret s' \<and> q # qs = ps @ rs \<and>
    queue (bytes s') (waiting_list s') (ps @ n # rs) \<and>
    total (bytes s) ps \<le> unat (d * ticks_per_ms s) \<and>
    (rs \<noteq> [] \<longrightarrow> unat (d * ticks_per_ms s) < total (bytes s) ps + unat (w_relative_time (bytes s) (hd rs))) \<and>
    deadlines (bytes s') 0 (ps @ n # rs) =
      deadlines (bytes s) 0 ps @ (t, unat (d * ticks_per_ms s)) #
      map (\<lambda>(u, x). (u, x + (if ps = [] then 0 else unat (d * ticks_per_ms s) - total (bytes s) ps)))
        (deadlines (bytes s) (total (bytes s) ps) rs)"
proof (cases "l_score (bytes s) q > d * ticks_per_ms s")
  case True
  obtain s' where "add_to_sleep d t s = ret s'" "queue (bytes s') (waiting_list s') (n # q # qs)"
    "deadlines (bytes s') 0 (n # q # qs) = (t, unat (d * ticks_per_ms s)) # deadlines (bytes s) 0 (q # qs)"
    using sleep_front [OF q n e True] by blast
  then show ?thesis
    using True by (intro exI [of _ s'] exI [of _ "[]"] exI [of _ "q # qs"])
      (simp add: w_node word_less_nat_alt del: deadlines.simps(2))
next
  case False
  show ?thesis by (rule sleep_behind [OF q n e tot False])
qed

text \<open>Two waits of 10 and 20 ticks at \<open>0x100\<close> and \<open>0x118\<close>, for threads 7 and 8; a free node at \<open>0x130\<close>.\<close>

definition two_waits :: apic_state where
  "two_waits =
     \<lparr>bytes = store64 (store64 (store64 (store64 (store64 (\<lambda>_. 0) 0x100 7) 0x108 10) 0x110 0x118) 0x118 8) 0x120 20,
      cr3 = 0, console = [], msr = (\<lambda>_. 0), free_mem_next = 0, free_mem_size = 0, empty_scheduling = False,
      next_running_thread = 0, next_count = 0, next_waiting_thread = 0, waiting_count = 0, next_sleeping_thread = 0,
      sleeping_count = 0, empty_thread_data = 0, empty_count = 0, current_running_thread = 0, thread_id_inc = 0,
      scheduler_function = standart_FCFS_scheduler, mmio = [], ticks_per_ms = 1, waiting_list = 0x100,
      timer_waiting_count = 2, empty_list = 0x130, timer_empty_count = 1\<rparr>"

theorem sleep_deadlines_witness:
  "\<exists>s'. add_to_sleep 15 9 two_waits = ret s' \<and>
    deadlines (bytes s') 0 [0x100, 0x130, 0x118] = [(7, 10), (9, 15), (8, 35)]"
proof -
  have f: "queue (bytes two_waits) (waiting_list two_waits) [0x100, 0x118]" "nodes [0x130, 0x100, 0x118]"
    "empty_list two_waits = 0x130" "timer_empty_count two_waits \<noteq> 0" "ticks_per_ms two_waits = 1"
    "w_relative_time (bytes two_waits) 0x100 = 10" "w_relative_time (bytes two_waits) 0x118 = 20"
    "w_tID (bytes two_waits) 0x100 = 7" "w_tID (bytes two_waits) 0x118 = 8"
    by (simp_all add: two_waits_def nodes_def l_next_def w_relative_time_def w_tID_def)
  have D: "unat (15 * ticks_per_ms two_waits) = 15" and n: "(0x130 :: u64) \<noteq> 0"
    and tot: "total (bytes two_waits) [0x100, 0x118] < 18446744073709551616"
    by (simp_all add: f)
  obtain s' ps rs where
    s': "add_to_sleep 15 9 two_waits = ret s'" "[0x100, 0x118] = ps @ rs" "total (bytes two_waits) ps \<le> 15"
    "rs \<noteq> [] \<longrightarrow> 15 < total (bytes two_waits) ps + unat (w_relative_time (bytes two_waits) (hd rs))"
    "deadlines (bytes s') 0 (ps @ 0x130 # rs) = deadlines (bytes two_waits) 0 ps @ (9, 15) #
      map (\<lambda>(u, x). (u, x + (if ps = [] then 0 else 15 - total (bytes two_waits) ps)))
        (deadlines (bytes two_waits) (total (bytes two_waits) ps) rs)"
    using sleep_deadlines [OF f(1,2) n f(3,4) tot, of 15 9, unfolded D] by (elim exE conjE) (rule that)
  have "ps = [] \<and> rs = [0x100, 0x118] \<or> ps = [0x100] \<and> rs = [0x118] \<or> ps = [0x100, 0x118] \<and> rs = []"
    using s'(2) by (auto simp: Cons_eq_append_conv)
  then have "ps = [0x100]" "rs = [0x118]" using s'(3,4) f by auto
  then show ?thesis using s'(1,5) f by auto
qed

theorem irq_vectors_witness:
  "ioapic_register 0xFEC00000 0 (mmio (IOAPIC_setup 0xFEC00000 0 two_waits)) 0x12 = Some 0x31"
  using irq_vectors [of 1 "0xFEC00000" 0 two_waits] by (simp add: Let_def two_waits_def)

section \<open>The timer interrupt\<close>

text \<open>The scheduler's operations leave the list of waits alone.\<close>

lemma awake_thread_waits:
  assumes "awake_thread t s = ret s'"
  shows "waiting_list s' = waiting_list s \<and> timer_waiting_count s' = timer_waiting_count s"
  using assms
  by (auto simp: awake_thread_def call_policy_def Let_def run_bind_eq_ret split: if_splits option.splits)

lemma pop_next_thread_waits:
  "waiting_list (snd (pop_next_thread s)) = waiting_list s \<and>
    timer_waiting_count (snd (pop_next_thread s)) = timer_waiting_count s"
  by (simp add: pop_next_thread_def Let_def)

lemma readd_waits:
  assumes "pop_next_and_readd_running rsp s = ret (t, s')"
  shows "waiting_list s' = waiting_list s \<and> timer_waiting_count s' = timer_waiting_count s"
  using assms
  by (auto simp: pop_next_and_readd_running_def call_policy_def Let_def run_bind_eq_ret pop_next_thread_waits
      split: if_splits option.splits dest!: arg_cong [of "pop_next_thread _" "(t, s')" snd])

text \<open>Waking the first wait: the node is cleared before its link is followed, so the list ends there.\<close>

lemma wake_first_waits:
  assumes "wake_first s = ret s'"
  shows "waiting_list s' = 0" "timer_waiting_count s' = timer_waiting_count s - 1"
    "waiting_list s = 0 \<Longrightarrow> w_relative_time (bytes s') 0 = 0"
proof -
  obtain s1 where s1: "awake_thread (w_tID (bytes s) (waiting_list s)) s = ret s1"
    "s' = (let current = waiting_list s1;
           m = store64 (bytes s1) (current + 16) 0;
           m = store64 m (current + 8) 0;
           m = store64 m current 0
       in s1\<lparr>bytes := m, waiting_list := w_next m (waiting_list s1), timer_waiting_count := timer_waiting_count s1 - 1\<rparr>)"
    using assms by (auto simp: wake_first_def run_bind_eq_ret Let_def)
  show "waiting_list s' = 0" using s1(2) by (simp add: w_next_def Let_def)
  show "timer_waiting_count s' = timer_waiting_count s - 1"
    using s1(2) awake_thread_waits [OF s1(1)] by (simp add: Let_def)
  show "w_relative_time (bytes s') 0 = 0" if "waiting_list s = 0"
    using s1(2) awake_thread_waits [OF s1(1)] that by (simp add: w_relative_time_def Let_def)
qed

text \<open>On a null list with no time at address 8 the loop has no end.\<close>

lemma wake_loop_null:
  assumes "wake_loop c s = Some r"
  shows "waiting_list s = 0 \<longrightarrow> w_relative_time (bytes s) 0 = 0 \<longrightarrow> isl r"
proof (rule wake_loop.raw_induct [OF _ assms])
  fix f :: "u64 \<Rightarrow> 'a apic_state_scheme \<Rightarrow> (halt + u64 \<times> 'a apic_state_scheme) option" and c s r
  assume IH: "\<And>c s r. f c s = Some r \<Longrightarrow> waiting_list s = 0 \<longrightarrow> w_relative_time (bytes s) 0 = 0 \<longrightarrow> isl r"
    and step: "(if w_relative_time (bytes s) (waiting_list s) = 0
      then (case wake_first s of None \<Rightarrow> None | Some (Inl h) \<Rightarrow> Some (Inl h) | Some (Inr s') \<Rightarrow> f (waiting_list s) s')
      else Some (Inr (c, s))) = Some r"
  show "waiting_list s = 0 \<longrightarrow> w_relative_time (bytes s) 0 = 0 \<longrightarrow> isl r"
  proof (intro impI)
    assume z: "waiting_list s = 0" "w_relative_time (bytes s) 0 = 0"
    show "isl r"
    proof (cases "wake_first s" rule: run_cases)
      case (returns s')
      then show ?thesis
        using step IH [of 0 s' r] z wake_first_waits [OF returns] by (simp add: ret_def)
    qed (use step z in \<open>auto simp: stop_def\<close>)
  qed
qed

lemma wake_loop_after_first:
  assumes "wake_loop c s = ret (c', s')" "waiting_list s = 0"
  shows "s' = s \<and> c' = c \<and> w_relative_time (bytes s) 0 \<noteq> 0"
proof -
  have ne: "w_relative_time (bytes s) 0 \<noteq> 0"
    using wake_loop_null [of c s "Inr (c', s')"] assms by (auto simp: ret_def)
  then show ?thesis
    using assms by (subst (asm) wake_loop.simps) (simp add: ret_def)
qed

text \<open>
  C38: the timer interrupt loses every wait but the first. The handler comes back only when the word at
  address 8, where it looks for the time of a successor it has just cut off, is not zero; then it
  has woken the first wait alone, the list is empty whatever it held, and the count still counts
  the waits that are gone.
\<close>

theorem timer_forgets_waits:
  assumes "APIC_timer_handler rsp s = ret (r, s')"
  shows "waiting_list s' = 0 \<and> timer_waiting_count s' = timer_waiting_count s - 1 \<and>
    (\<exists>s1. wake_first s = ret s1 \<and> w_relative_time (bytes s1) 0 \<noteq> 0)"
proof -
  obtain s1 c s2 where s1: "wake_first s = ret s1" and s2: "wake_loop (waiting_list s) s1 = ret (c, s2)"
    and s': "\<exists>thread s5. pop_next_and_readd_running rsp
        ((if timer_waiting_count s2 > 0 then set_LAPIC_time (w_relative_time (bytes s2) (waiting_list s2)) s2 else s2)
         \<lparr>bytes := memset c 0 24 (bytes (if timer_waiting_count s2 > 0
            then set_LAPIC_time (w_relative_time (bytes s2) (waiting_list s2)) s2 else s2))\<rparr>) = ret (thread, s5) \<and> s' = s5"
    using assms by (auto simp: APIC_timer_handler_def run_bind_eq_ret Let_def simp del: if_split)
  have "s2 = s1 \<and> w_relative_time (bytes s1) 0 \<noteq> 0"
    using wake_loop_after_first [OF s2] wake_first_waits(1) [OF s1] by simp
  with s1 s' show ?thesis
    using wake_first_waits [OF s1] readd_waits
    by (fastforce simp: set_LAPIC_time_def write_to_LAPIC_def write_msr_def)
qed

text \<open>
  The two waits, with 5 in the word at address 8 and no other thread to run: the wait of thread 8 is lost,
  and counted.
\<close>

definition timer_due :: apic_state where
  "timer_due = two_waits\<lparr>bytes := store64 (bytes two_waits) 8 5, empty_scheduling := True\<rparr>"

theorem timer_forgets_waits_witness:
  "\<exists>r s'. APIC_timer_handler 0 timer_due = ret (r, s') \<and> waiting_list s' = 0 \<and> timer_waiting_count s' = 1"
proof -
  have "find_sleeper (bytes timer_due) 7 0 = Some 0" by (simp add: find_sleeper.simps)
  then have a: "awake_thread 7 timer_due = ret timer_due"
    by (simp add: awake_thread_def timer_due_def two_waits_def t_tid_def l_thread_def)
  let ?m = "store64 (store64 (store64 (bytes timer_due) 0x110 0) 0x108 0) 0x100 0"
  have w: "wake_first timer_due = ret (timer_due\<lparr>bytes := ?m, waiting_list := 0, timer_waiting_count := 1\<rparr>)"
    using a by (simp add: wake_first_def timer_due_def two_waits_def w_tID_def w_next_def)
  have "w_relative_time ?m 0 = 5"
    by (simp add: timer_due_def w_relative_time_def)
  then have l: "wake_loop 0x100 (timer_due\<lparr>bytes := ?m, waiting_list := 0, timer_waiting_count := 1\<rparr>) =
      ret (0x100, timer_due\<lparr>bytes := ?m, waiting_list := 0, timer_waiting_count := 1\<rparr>)"
    by (subst wake_loop.simps) (simp add: ret_def)
  have "waiting_list timer_due = 0x100" "empty_scheduling timer_due" by (simp_all add: timer_due_def two_waits_def)
  then obtain r s' where "APIC_timer_handler 0 timer_due = ret (r, s')"
    using w l by (auto simp: APIC_timer_handler_def pop_next_and_readd_running_def Let_def
        set_LAPIC_time_def write_to_LAPIC_def write_msr_def)
  moreover from timer_forgets_waits [OF this] have "waiting_list s' = 0" "timer_waiting_count s' = 1"
    by (simp_all add: timer_due_def two_waits_def)
  ultimately show ?thesis by blast
qed

end
