(* ===== verification/Terminal.thy ===== *)
theory Terminal
  imports C_String Kernel_Heap
begin

text \<open>
  The text console of \<open>kernel/arch/x86_64/tty.c\<close> with its font (\<open>bitmap.c\<close>): a cursor in
  pixels, 8 by 13 glyphs drawn into the frame buffer, line ends and scrolling. The theory shows
  that the console never writes outside the frame buffer when the height is a multiple of 16, that
  it does otherwise, and that removing a character undoes writing it.
\<close>

section \<open>State\<close>

text \<open>
  The statics of \<open>tty.c\<close>, and of the boot loader's \<open>limine_framebuffer\<close> the three fields that are
  used. \<open>terminal_row\<close> counts pixels from the left and \<open>terminal_column\<close> pixels from the top.
  \<open>font\<close> is the address of the table \<open>bitmap_letters\<close>.
\<close>

record tty_state = machine +
  fb_address :: u64
  fb_width :: u64
  fb_height :: u64
  terminal_row :: u64
  terminal_column :: u64
  tty_bpp :: u8
  terminal_buffer :: u64
  color :: u32
  font :: u64

section \<open>The font\<close>

definition bitmap_letters :: "u8 list list" where
  "bitmap_letters =
    [[0x00, 0x00, 0x00, 0x00, 0x00, 0x00, 0x00, 0x00, 0x00, 0x00, 0x00, 0x00, 0x00],
     [0x00, 0x00, 0x18, 0x18, 0x00, 0x00, 0x18, 0x18, 0x18, 0x18, 0x18, 0x18, 0x18],
     [0x00, 0x00, 0x00, 0x00, 0x00, 0x00, 0x00, 0x00, 0x00, 0x36, 0x36, 0x36, 0x36],
     [0x00, 0x00, 0x00, 0x66, 0x66, 0xff, 0x66, 0x66, 0xff, 0x66, 0x66, 0x00, 0x00],
     [0x00, 0x00, 0x18, 0x7e, 0xff, 0x1b, 0x1f, 0x7e, 0xf8, 0xd8, 0xff, 0x7e, 0x18],
     [0x00, 0x00, 0x0e, 0x1b, 0xdb, 0x6e, 0x30, 0x18, 0x0c, 0x76, 0xdb, 0xd8, 0x70],
     [0x00, 0x00, 0x7f, 0xc6, 0xcf, 0xd8, 0x70, 0x70, 0xd8, 0xcc, 0xcc, 0x6c, 0x38],
     [0x00, 0x00, 0x00, 0x00, 0x00, 0x00, 0x00, 0x00, 0x00, 0x18, 0x1c, 0x0c, 0x0e],
     [0x00, 0x00, 0x0c, 0x18, 0x30, 0x30, 0x30, 0x30, 0x30, 0x30, 0x30, 0x18, 0x0c],
     [0x00, 0x00, 0x30, 0x18, 0x0c, 0x0c, 0x0c, 0x0c, 0x0c, 0x0c, 0x0c, 0x18, 0x30],
     [0x00, 0x00, 0x00, 0x00, 0x99, 0x5a, 0x3c, 0xff, 0x3c, 0x5a, 0x99, 0x00, 0x00],
     [0x00, 0x00, 0x00, 0x18, 0x18, 0x18, 0xff, 0xff, 0x18, 0x18, 0x18, 0x00, 0x00],
     [0x00, 0x00, 0x30, 0x18, 0x1c, 0x1c, 0x00, 0x00, 0x00, 0x00, 0x00, 0x00, 0x00],
     [0x00, 0x00, 0x00, 0x00, 0x00, 0x00, 0xff, 0xff, 0x00, 0x00, 0x00, 0x00, 0x00],
     [0x00, 0x00, 0x00, 0x38, 0x38, 0x00, 0x00, 0x00, 0x00, 0x00, 0x00, 0x00, 0x00],
     [0x00, 0x60, 0x60, 0x30, 0x30, 0x18, 0x18, 0x0c, 0x0c, 0x06, 0x06, 0x03, 0x03],
     [0x00, 0x00, 0x3c, 0x66, 0xc3, 0xe3, 0xf3, 0xdb, 0xcf, 0xc7, 0xc3, 0x66, 0x3c],
     [0x00, 0x00, 0x7e, 0x18, 0x18, 0x18, 0x18, 0x18, 0x18, 0x18, 0x78, 0x38, 0x18],
     [0x00, 0x00, 0xff, 0xc0, 0xc0, 0x60, 0x30, 0x18, 0x0c, 0x06, 0x03, 0xe7, 0x7e],
     [0x00, 0x00, 0x7e, 0xe7, 0x03, 0x03, 0x07, 0x7e, 0x07, 0x03, 0x03, 0xe7, 0x7e],
     [0x00, 0x00, 0x0c, 0x0c, 0x0c, 0x0c, 0x0c, 0xff, 0xcc, 0x6c, 0x3c, 0x1c, 0x0c],
     [0x00, 0x00, 0x7e, 0xe7, 0x03, 0x03, 0x07, 0xfe, 0xc0, 0xc0, 0xc0, 0xc0, 0xff],
     [0x00, 0x00, 0x7e, 0xe7, 0xc3, 0xc3, 0xc7, 0xfe, 0xc0, 0xc0, 0xc0, 0xe7, 0x7e],
     [0x00, 0x00, 0x30, 0x30, 0x30, 0x30, 0x18, 0x0c, 0x06, 0x03, 0x03, 0x03, 0xff],
     [0x00, 0x00, 0x7e, 0xe7, 0xc3, 0xc3, 0xe7, 0x7e, 0xe7, 0xc3, 0xc3, 0xe7, 0x7e],
     [0x00, 0x00, 0x7e, 0xe7, 0x03, 0x03, 0x03, 0x7f, 0xe7, 0xc3, 0xc3, 0xe7, 0x7e],
     [0x00, 0x00, 0x00, 0x38, 0x38, 0x00, 0x00, 0x38, 0x38, 0x00, 0x00, 0x00, 0x00],
     [0x00, 0x00, 0x30, 0x18, 0x1c, 0x1c, 0x00, 0x00, 0x1c, 0x1c, 0x00, 0x00, 0x00],
     [0x00, 0x00, 0x06, 0x0c, 0x18, 0x30, 0x60, 0xc0, 0x60, 0x30, 0x18, 0x0c, 0x06],
     [0x00, 0x00, 0x00, 0x00, 0xff, 0xff, 0x00, 0xff, 0xff, 0x00, 0x00, 0x00, 0x00],
     [0x00, 0x00, 0x60, 0x30, 0x18, 0x0c, 0x06, 0x03, 0x06, 0x0c, 0x18, 0x30, 0x60],
     [0x00, 0x00, 0x18, 0x00, 0x00, 0x18, 0x18, 0x0c, 0x06, 0x03, 0xc3, 0xc3, 0x7e],
     [0x00, 0x00, 0x3f, 0x60, 0xcf, 0xdb, 0xd3, 0xdd, 0xc3, 0x7e, 0x00, 0x00, 0x00],
     [0x00, 0x00, 0xc3, 0xc3, 0xc3, 0xc3, 0xff, 0xc3, 0xc3, 0xc3, 0x66, 0x3c, 0x18],
     [0x00, 0x00, 0xfe, 0xc7, 0xc3, 0xc3, 0xc7, 0xfe, 0xc7, 0xc3, 0xc3, 0xc7, 0xfe],
     [0x00, 0x00, 0x7e, 0xe7, 0xc0, 0xc0, 0xc0, 0xc0, 0xc0, 0xc0, 0xc0, 0xe7, 0x7e],
     [0x00, 0x00, 0xfc, 0xce, 0xc7, 0xc3, 0xc3, 0xc3, 0xc3, 0xc3, 0xc7, 0xce, 0xfc],
     [0x00, 0x00, 0xff, 0xc0, 0xc0, 0xc0, 0xc0, 0xfc, 0xc0, 0xc0, 0xc0, 0xc0, 0xff],
     [0x00, 0x00, 0xc0, 0xc0, 0xc0, 0xc0, 0xc0, 0xc0, 0xfc, 0xc0, 0xc0, 0xc0, 0xff],
     [0x00, 0x00, 0x7e, 0xe7, 0xc3, 0xc3, 0xcf, 0xc0, 0xc0, 0xc0, 0xc0, 0xe7, 0x7e],
     [0x00, 0x00, 0xc3, 0xc3, 0xc3, 0xc3, 0xc3, 0xff, 0xc3, 0xc3, 0xc3, 0xc3, 0xc3],
     [0x00, 0x00, 0x7e, 0x18, 0x18, 0x18, 0x18, 0x18, 0x18, 0x18, 0x18, 0x18, 0x7e],
     [0x00, 0x00, 0x7c, 0xee, 0xc6, 0x06, 0x06, 0x06, 0x06, 0x06, 0x06, 0x06, 0x06],
     [0x00, 0x00, 0xc3, 0xc6, 0xcc, 0xd8, 0xf0, 0xe0, 0xf0, 0xd8, 0xcc, 0xc6, 0xc3],
     [0x00, 0x00, 0xff, 0xc0, 0xc0, 0xc0, 0xc0, 0xc0, 0xc0, 0xc0, 0xc0, 0xc0, 0xc0],
     [0x00, 0x00, 0xc3, 0xc3, 0xc3, 0xc3, 0xc3, 0xc3, 0xdb, 0xff, 0xff, 0xe7, 0xc3],
     [0x00, 0x00, 0xc7, 0xc7, 0xcf, 0xcf, 0xdf, 0xdb, 0xfb, 0xf3, 0xf3, 0xe3, 0xe3],
     [0x00, 0x00, 0x7e, 0xe7, 0xc3, 0xc3, 0xc3, 0xc3, 0xc3, 0xc3, 0xc3, 0xe7, 0x7e],
     [0x00, 0x00, 0xc0, 0xc0, 0xc0, 0xc0, 0xc0, 0xfe, 0xc7, 0xc3, 0xc3, 0xc7, 0xfe],
     [0x00, 0x00, 0x3f, 0x6e, 0xdf, 0xdb, 0xc3, 0xc3, 0xc3, 0xc3, 0xc3, 0x66, 0x3c],
     [0x00, 0x00, 0xc3, 0xc6, 0xcc, 0xd8, 0xf0, 0xfe, 0xc7, 0xc3, 0xc3, 0xc7, 0xfe],
     [0x00, 0x00, 0x7e, 0xe7, 0x03, 0x03, 0x07, 0x7e, 0xe0, 0xc0, 0xc0, 0xe7, 0x7e],
     [0x00, 0x00, 0x18, 0x18, 0x18, 0x18, 0x18, 0x18, 0x18, 0x18, 0x18, 0x18, 0xff],
     [0x00, 0x00, 0x7e, 0xe7, 0xc3, 0xc3, 0xc3, 0xc3, 0xc3, 0xc3, 0xc3, 0xc3, 0xc3],
     [0x00, 0x00, 0x18, 0x3c, 0x3c, 0x66, 0x66, 0xc3, 0xc3, 0xc3, 0xc3, 0xc3, 0xc3],
     [0x00, 0x00, 0xc3, 0xe7, 0xff, 0xff, 0xdb, 0xdb, 0xc3, 0xc3, 0xc3, 0xc3, 0xc3],
     [0x00, 0x00, 0xc3, 0x66, 0x66, 0x3c, 0x3c, 0x18, 0x3c, 0x3c, 0x66, 0x66, 0xc3],
     [0x00, 0x00, 0x18, 0x18, 0x18, 0x18, 0x18, 0x18, 0x3c, 0x3c, 0x66, 0x66, 0xc3],
     [0x00, 0x00, 0xff, 0xc0, 0xc0, 0x60, 0x30, 0x7e, 0x0c, 0x06, 0x03, 0x03, 0xff],
     [0x00, 0x00, 0x3c, 0x30, 0x30, 0x30, 0x30, 0x30, 0x30, 0x30, 0x30, 0x30, 0x3c],
     [0x00, 0x03, 0x03, 0x06, 0x06, 0x0c, 0x0c, 0x18, 0x18, 0x30, 0x30, 0x60, 0x60],
     [0x00, 0x00, 0x3c, 0x0c, 0x0c, 0x0c, 0x0c, 0x0c, 0x0c, 0x0c, 0x0c, 0x0c, 0x3c],
     [0x00, 0x00, 0x00, 0x00, 0x00, 0x00, 0x00, 0x00, 0x00, 0xc3, 0x66, 0x3c, 0x18],
     [0xff, 0xff, 0x00, 0x00, 0x00, 0x00, 0x00, 0x00, 0x00, 0x00, 0x00, 0x00, 0x00],
     [0x00, 0x00, 0x00, 0x00, 0x00, 0x00, 0x00, 0x00, 0x00, 0x18, 0x38, 0x30, 0x70],
     [0x00, 0x00, 0x7f, 0xc3, 0xc3, 0x7f, 0x03, 0xc3, 0x7e, 0x00, 0x00, 0x00, 0x00],
     [0x00, 0x00, 0xfe, 0xc3, 0xc3, 0xc3, 0xc3, 0xfe, 0xc0, 0xc0, 0xc0, 0xc0, 0xc0],
     [0x00, 0x00, 0x7e, 0xc3, 0xc0, 0xc0, 0xc0, 0xc3, 0x7e, 0x00, 0x00, 0x00, 0x00],
     [0x00, 0x00, 0x7f, 0xc3, 0xc3, 0xc3, 0xc3, 0x7f, 0x03, 0x03, 0x03, 0x03, 0x03],
     [0x00, 0x00, 0x7f, 0xc0, 0xc0, 0xfe, 0xc3, 0xc3, 0x7e, 0x00, 0x00, 0x00, 0x00],
     [0x00, 0x00, 0x30, 0x30, 0x30, 0x30, 0x30, 0xfc, 0x30, 0x30, 0x30, 0x33, 0x1e],
     [0x7e, 0xc3, 0x03, 0x03, 0x7f, 0xc3, 0xc3, 0xc3, 0x7e, 0x00, 0x00, 0x00, 0x00],
     [0x00, 0x00, 0xc3, 0xc3, 0xc3, 0xc3, 0xc3, 0xc3, 0xfe, 0xc0, 0xc0, 0xc0, 0xc0],
     [0x00, 0x00, 0x18, 0x18, 0x18, 0x18, 0x18, 0x18, 0x18, 0x00, 0x00, 0x18, 0x00],
     [0x38, 0x6c, 0x0c, 0x0c, 0x0c, 0x0c, 0x0c, 0x0c, 0x0c, 0x00, 0x00, 0x0c, 0x00],
     [0x00, 0x00, 0xc6, 0xcc, 0xf8, 0xf0, 0xd8, 0xcc, 0xc6, 0xc0, 0xc0, 0xc0, 0xc0],
     [0x00, 0x00, 0x7e, 0x18, 0x18, 0x18, 0x18, 0x18, 0x18, 0x18, 0x18, 0x18, 0x78],
     [0x00, 0x00, 0xdb, 0xdb, 0xdb, 0xdb, 0xdb, 0xdb, 0xfe, 0x00, 0x00, 0x00, 0x00],
     [0x00, 0x00, 0xc6, 0xc6, 0xc6, 0xc6, 0xc6, 0xc6, 0xfc, 0x00, 0x00, 0x00, 0x00],
     [0x00, 0x00, 0x7c, 0xc6, 0xc6, 0xc6, 0xc6, 0xc6, 0x7c, 0x00, 0x00, 0x00, 0x00],
     [0xc0, 0xc0, 0xc0, 0xfe, 0xc3, 0xc3, 0xc3, 0xc3, 0xfe, 0x00, 0x00, 0x00, 0x00],
     [0x03, 0x03, 0x03, 0x7f, 0xc3, 0xc3, 0xc3, 0xc3, 0x7f, 0x00, 0x00, 0x00, 0x00],
     [0x00, 0x00, 0xc0, 0xc0, 0xc0, 0xc0, 0xc0, 0xe0, 0xfe, 0x00, 0x00, 0x00, 0x00],
     [0x00, 0x00, 0xfe, 0x03, 0x03, 0x7e, 0xc0, 0xc0, 0x7f, 0x00, 0x00, 0x00, 0x00],
     [0x00, 0x00, 0x1c, 0x36, 0x30, 0x30, 0x30, 0x30, 0xfc, 0x30, 0x30, 0x30, 0x00],
     [0x00, 0x00, 0x7e, 0xc6, 0xc6, 0xc6, 0xc6, 0xc6, 0xc6, 0x00, 0x00, 0x00, 0x00],
     [0x00, 0x00, 0x18, 0x3c, 0x3c, 0x66, 0x66, 0xc3, 0xc3, 0x00, 0x00, 0x00, 0x00],
     [0x00, 0x00, 0xc3, 0xe7, 0xff, 0xdb, 0xc3, 0xc3, 0xc3, 0x00, 0x00, 0x00, 0x00],
     [0x00, 0x00, 0xc3, 0x66, 0x3c, 0x18, 0x3c, 0x66, 0xc3, 0x00, 0x00, 0x00, 0x00],
     [0xc0, 0x60, 0x60, 0x30, 0x18, 0x3c, 0x66, 0x66, 0xc3, 0x00, 0x00, 0x00, 0x00],
     [0x00, 0x00, 0xff, 0x60, 0x30, 0x18, 0x0c, 0x06, 0xff, 0x00, 0x00, 0x00, 0x00],
     [0x00, 0x00, 0x0f, 0x18, 0x18, 0x18, 0x38, 0xf0, 0x38, 0x18, 0x18, 0x18, 0x0f],
     [0x18, 0x18, 0x18, 0x18, 0x18, 0x18, 0x18, 0x18, 0x18, 0x18, 0x18, 0x18, 0x18],
     [0x00, 0x00, 0xf0, 0x18, 0x18, 0x18, 0x1c, 0x0f, 0x1c, 0x18, 0x18, 0x18, 0xf0],
     [0x00, 0x00, 0x00, 0x00, 0x00, 0x00, 0x06, 0x8f, 0xf1, 0x60, 0x00, 0x00, 0x00]]"

definition get_char_bitmap :: "u8 \<Rightarrow> 'a tty_state_scheme \<Rightarrow> u64" where
  "get_char_bitmap c s = font s + 13 * (scast c - 32)"

text \<open>The table as it lies in memory.\<close>

definition font_loaded :: "'a tty_state_scheme \<Rightarrow> bool" where
  "font_loaded s \<longleftrightarrow> (\<forall>k < 95. \<forall>i < 13. load8 (bytes s) (font s + of_nat (13 * k + i)) = bitmap_letters ! k ! i)"

section \<open>Operations\<close>

definition terminal_clear :: "'a tty_state_scheme \<Rightarrow> 'a tty_state_scheme" where
  "terminal_clear s =
     s\<lparr>bytes := memset (terminal_buffer s) 0 (fb_height s * fb_width s * ucast (tty_bpp s div 8)) (bytes s)\<rparr>"

definition terminal_initialize :: "u64 \<Rightarrow> u64 \<Rightarrow> u64 \<Rightarrow> 'a tty_state_scheme \<Rightarrow> 'a tty_state_scheme" where
  "terminal_initialize address width height s =
     (let s1 = s\<lparr>fb_address := address, fb_width := width, fb_height := height, terminal_row := 0, terminal_column := 0,
                 terminal_buffer := address, tty_bpp := 32\<rparr>
      in (terminal_clear s1)\<lparr>color := 0x00FFFFFF\<rparr>)"

text \<open>
  The inner loop of \<open>terminal_putentryat\<close> draws a row of eight pixels, the outer one moves on by
  the rest of the line; both carry the pointer \<open>buffer\<close>.
\<close>

definition glyph_pixel :: "u64 \<Rightarrow> u32 \<Rightarrow> nat \<Rightarrow> nat \<Rightarrow> u64 \<times> mem \<Rightarrow> u64 \<times> mem" where
  "glyph_pixel bits col i j b =
     (let set = load8 (snd b) (bits + of_nat (12 - i)) AND drop_bit j 0x80 \<noteq> 0
      in (fst b + 4, store32 (snd b) (fst b) ((if set then 1 else 0) * col)))"

definition glyph_row :: "u64 \<Rightarrow> u64 \<Rightarrow> u32 \<Rightarrow> nat \<Rightarrow> u64 \<times> mem \<Rightarrow> u64 \<times> mem" where
  "glyph_row width bits col i b =
     (case fold (glyph_pixel bits col i) [0..<8] b of (buffer, m) \<Rightarrow> (buffer + 4 * (width - 8), m))"

definition terminal_putentryat :: "u8 \<Rightarrow> u32 \<Rightarrow> u64 \<Rightarrow> u64 \<Rightarrow> 'a tty_state_scheme \<Rightarrow> 'a tty_state_scheme" where
  "terminal_putentryat c col x y s =
     (let buffer = terminal_buffer s + (x * fb_width s + y) * 4
      in s\<lparr>bytes := snd (fold (glyph_row (fb_width s) (get_char_bitmap c s) col) [0..<13] (buffer, bytes s))\<rparr>)"

definition blank_row :: "u64 \<Rightarrow> nat \<Rightarrow> u64 \<times> mem \<Rightarrow> u64 \<times> mem" where
  "blank_row width i b =
     (case fold (\<lambda>j b. (fst b + 4, store32 (snd b) (fst b) 0)) [0..<8] b of (buffer, m) \<Rightarrow> (buffer + 4 * (width - 8), m))"

text \<open>The pointer goes on from one removed character to the next.\<close>

primrec remove_loop :: "nat \<Rightarrow> u64 \<Rightarrow> 'a tty_state_scheme \<Rightarrow> 'a tty_state_scheme" where
  "remove_loop 0 buffer s = s"
| "remove_loop (Suc n) buffer s =
     (if terminal_row s = 0 then s
      else case fold (blank_row (fb_width s)) [0..<13] (buffer, bytes s) of
        (buffer', m) \<Rightarrow> remove_loop n buffer' (s\<lparr>terminal_row := terminal_row s - 12, bytes := m\<rparr>))"

definition terminal_remove :: "u64 \<Rightarrow> u64 \<Rightarrow> u64 \<Rightarrow> 'a tty_state_scheme \<Rightarrow> 'a tty_state_scheme" where
  "terminal_remove x y n s = remove_loop (unat n) (terminal_buffer s + (x * fb_width s + y) * 4) s"

definition terminal_removeLast :: "u64 \<Rightarrow> 'a tty_state_scheme \<Rightarrow> 'a tty_state_scheme" where
  "terminal_removeLast n s = terminal_remove (terminal_column s) (terminal_row s - 12 * n) n s"

definition scroll :: "'a tty_state_scheme \<Rightarrow> 'a tty_state_scheme" where
  "scroll s =
     s\<lparr>terminal_column := terminal_column s - 16,
       bytes := memmove (terminal_buffer s) (terminal_buffer s + fb_width s * 4 * 16)
                  (fb_width s * (fb_height s - 16) * 4) (bytes s)\<rparr>"

definition scrollOverflow :: "'a tty_state_scheme \<Rightarrow> 'a tty_state_scheme" where
  "scrollOverflow s = (if terminal_column s \<ge> fb_height s then scroll s else s)"

definition new_line :: "'a tty_state_scheme \<Rightarrow> 'a tty_state_scheme" where
  "new_line s = scrollOverflow (s\<lparr>terminal_row := 0, terminal_column := terminal_column s + 16\<rparr>)"

definition row_at_height :: "'a tty_state_scheme \<Rightarrow> 'a tty_state_scheme" where
  "row_at_height s = (if terminal_row s = fb_height s then s\<lparr>terminal_row := 0\<rparr> else s)"

definition terminal_putchar :: "u8 \<Rightarrow> 'a tty_state_scheme \<Rightarrow> 'a tty_state_scheme" where
  "terminal_putchar c s =
     (let s1 = terminal_putentryat c (color s) (terminal_column s) (terminal_row s) s;
          s2 = s1\<lparr>terminal_row := terminal_row s1 + 12\<rparr>
      in if terminal_row s2 \<ge> fb_width s2 then row_at_height (new_line s2) else s2)"

text \<open>The body of the loop of \<open>terminal_write\<close>.\<close>

definition terminal_emit :: "u8 \<Rightarrow> 'a tty_state_scheme \<Rightarrow> 'a tty_state_scheme" where
  "terminal_emit c s = (if c = 10 then new_line s else terminal_putchar c s)"

definition terminal_write :: "u64 \<Rightarrow> u64 \<Rightarrow> 'a tty_state_scheme \<Rightarrow> 'a tty_state_scheme" where
  "terminal_write data n s =
     fold (\<lambda>i s. terminal_emit (load8 (bytes s) (data + of_nat i)) s) [0..<unat n] s"

definition terminal_writestring :: "u64 \<Rightarrow> 'a tty_state_scheme \<Rightarrow> 'a tty_state_scheme run" where
  "terminal_writestring data s =
     (case strlen (bytes s) data of None \<Rightarrow> None | Some n \<Rightarrow> ret (terminal_write data n s))"

definition set_text_color :: "u32 \<Rightarrow> 'a tty_state_scheme \<Rightarrow> 'a tty_state_scheme" where
  "set_text_color new_color s = s\<lparr>color := new_color\<rparr>"

definition terminal_nextLine :: "'a tty_state_scheme \<Rightarrow> 'a tty_state_scheme" where
  "terminal_nextLine s = row_at_height (new_line s)"


section \<open>What the drawing loops write\<close>

lemma unat_four_times: "n \<le> 8 \<Longrightarrow> unat (of_nat (4 * n) :: u64) = 4 * n"
  by (rule unat_of_nat_small) simp

lemma pixels_fold:
  assumes "\<And>j b. \<exists>v. f j b = (fst b + 4, store32 (snd b) (fst b) v)" "n \<le> 8"
  shows "fst (fold f [0..<n] b) = fst b + of_nat (4 * n)"
    and "x \<notin> span (fst b) (4 * n) \<Longrightarrow> snd (fold f [0..<n] b) x = snd b x"
proof -
  have "fst (fold f [0..<n] b) = fst b + of_nat (4 * n) \<and>
    (\<forall>x. x \<notin> span (fst b) (4 * n) \<longrightarrow> snd (fold f [0..<n] b) x = snd b x)"
    using assms(2)
  proof (induction n)
    case 0
    then show ?case by simp
  next
    case (Suc n)
    let ?r = "fold f [0..<n] b"
    obtain v where v: "f n ?r = (fst ?r + 4, store32 (snd ?r) (fst ?r) v)"
      using assms(1) by blast
    have IH: "fst ?r = fst b + of_nat (4 * n)" "x \<notin> span (fst b) (4 * n) \<Longrightarrow> snd ?r x = snd b x" for x
      using Suc by auto
    have sub: "span (fst b + of_nat (4 * n)) 4 \<subseteq> span (fst b) (4 * Suc n)"
      by (rule span_sub) (use Suc.prems in \<open>simp add: unat_four_times del: of_nat_mult\<close>)
    have "snd (f n ?r) x = snd b x" if "x \<notin> span (fst b) (4 * Suc n)" for x
    proof -
      have "x \<notin> span (fst b + of_nat (4 * n)) 4" using sub that by blast
      moreover have "x \<notin> span (fst b) (4 * n)" using that by simp
      ultimately show ?thesis by (simp add: v IH(1) store32_outside IH(2) del: mem_span of_nat_mult)
    qed
    then show ?case by (simp add: v IH(1) algebra_simps)
  qed
  then show "fst (fold f [0..<n] b) = fst b + of_nat (4 * n)"
    "x \<notin> span (fst b) (4 * n) \<Longrightarrow> snd (fold f [0..<n] b) x = snd b x" by blast+
qed

text \<open>A loop over rows, each of which moves the pointer by a line and writes only into its 32 bytes.\<close>

definition row_step :: "u64 \<Rightarrow> (nat \<Rightarrow> u64 \<times> mem \<Rightarrow> u64 \<times> mem) \<Rightarrow> bool" where
  "row_step w f \<longleftrightarrow> (\<forall>i b. fst (f i b) = fst b + 4 * w \<and> (\<forall>x. x \<notin> span (fst b) 32 \<longrightarrow> snd (f i b) x = snd b x))"

lemma row_stepD:
  assumes "row_step w f"
  shows "fst (f i b) = fst b + 4 * w" "x \<notin> span (fst b) 32 \<Longrightarrow> snd (f i b) x = snd b x"
  using assms unfolding row_step_def by blast+

lemma row_step_pixels:
  assumes "\<And>i j b. \<exists>v. g i j b = (fst b + 4, store32 (snd b) (fst b) v)"
  shows "row_step w (\<lambda>i b. case fold (g i) [0..<8] b of (buffer, m) \<Rightarrow> (buffer + 4 * (w - 8), m))"
proof -
  have "fst (fold (g i) [0..<8] b) = fst b + 32"
    "x \<notin> span (fst b) 32 \<Longrightarrow> snd (fold (g i) [0..<8] b) x = snd b x" for i b x
    using pixels_fold [of "g i" 8, OF assms] by (simp_all only: mult.commute) simp_all
  then show ?thesis
    unfolding row_step_def by (simp add: case_prod_beta algebra_simps del: mem_span)
qed

lemma row_step_glyph [simp]: "row_step w (glyph_row w bits col)"
  unfolding glyph_row_def [abs_def] by (rule row_step_pixels) (auto simp: glyph_pixel_def Let_def)

lemma row_step_blank [simp]: "row_step w (blank_row w)"
  unfolding blank_row_def [abs_def] by (rule row_step_pixels [where g = "\<lambda>i j b. (fst b + 4, store32 (snd b) (fst b) 0)"]) auto

lemma rows_fold_fst:
  assumes "row_step w f"
  shows "fst (fold f [0..<n] b) = fst b + 4 * w * of_nat n"
  by (induction n) (simp_all add: row_stepD [OF assms] algebra_simps)

lemma rows_fold_outside:
  assumes "row_step w f" "\<And>i. i < n \<Longrightarrow> x \<notin> span (fst b + 4 * w * of_nat i) 32"
  shows "snd (fold f [0..<n] b) x = snd b x"
  using assms(2)
proof (induction n)
  case (Suc n)
  have "x \<notin> span (fst (fold f [0..<n] b)) 32"
    using Suc.prems [of n] rows_fold_fst [OF assms(1)] by simp
  then have "snd (f n (fold f [0..<n] b)) x = snd (fold f [0..<n] b) x"
    by (rule row_stepD [OF assms(1)])
  also have "\<dots> = snd b x" using Suc by (simp del: mem_span)
  finally show ?case by simp
qed simp

subsection \<open>Blank rows\<close>

lemma blank_pixels:
  "snd (fold (\<lambda>j b. (fst b + 4, store32 (snd b) (fst b) 0)) [0..<n] b) =
     (\<lambda>x. if x \<in> span (fst b) (4 * n) then 0 else snd b x)" if "n \<le> 8"
  using that
proof (induction n)
  case (Suc n)
  let ?f = "\<lambda>(j :: nat) b. (fst b + 4, store32 (snd b) (fst b) 0)"
  have p: "fst (fold ?f [0..<n] b) = fst b + of_nat (4 * n)"
    using Suc.prems by (intro pixels_fold) auto
  have "store32 (\<lambda>x. if x \<in> span (fst b) (4 * n) then 0 else snd b x) (fst b + of_nat (4 * n)) 0 =
    (\<lambda>x. if x \<in> span (fst b) (4 * Suc n) then 0 else snd b x)"
  proof (rule ext)
    fix x
    let ?k = "unat (x - fst b)"
    have "unat (x - (fst b + of_nat (4 * n))) = ?k - 4 * n" if "4 * n \<le> ?k"
    proof -
      have "x - (fst b + of_nat (4 * n)) = (x - fst b) - of_nat (4 * n)" by (simp add: algebra_simps)
      also have "unat \<dots> = ?k - 4 * n"
        using that Suc.prems by (subst unat_sub_no_wrap) (simp_all add: unat_four_times del: of_nat_mult)
      finally show ?thesis .
    qed
    moreover have "x \<notin> span (fst b + of_nat (4 * n)) 4" if "4 * Suc n \<le> ?k"
    proof -
      have "span (fst b + of_nat (4 * n)) 4 \<subseteq> span (fst b) (4 * Suc n)"
        by (rule span_sub) (use Suc.prems in \<open>simp add: unat_four_times del: of_nat_mult\<close>)
      moreover have "x \<notin> span (fst b) (4 * Suc n)" using that by simp
      ultimately show ?thesis by blast
    qed
    ultimately show "store32 (\<lambda>x. if x \<in> span (fst b) (4 * n) then 0 else snd b x) (fst b + of_nat (4 * n)) 0 x =
      (if x \<in> span (fst b) (4 * Suc n) then 0 else snd b x)"
      by (cases "?k < 4 * n"; cases "?k < 4 * Suc n") (auto simp: store32_def store_le_def)
  qed
  with Suc p show ?case by simp
qed simp

lemma blank_row_eq:
  "blank_row w i b = (fst b + 4 * w, \<lambda>x. if x \<in> span (fst b) 32 then 0 else snd b x)"
proof -
  have "fst (fold (\<lambda>j b. (fst b + 4, store32 (snd b) (fst b) 0)) [0..<8] b) = fst b + of_nat (4 * 8)"
    by (rule pixels_fold) auto
  then show ?thesis
    using blank_pixels [of 8 b] by (simp add: blank_row_def case_prod_beta algebra_simps prod_eq_iff del: upt_rec_numeral)
qed

lemma blank_rows:
  "snd (fold (blank_row w) [0..<n] b) = (\<lambda>x. if \<exists>i<n. x \<in> span (fst b + 4 * w * of_nat i) 32 then 0 else snd b x)"
proof (induction n)
  case (Suc n)
  have "snd (fold (blank_row w) [0..<Suc n] b) =
    (\<lambda>x. if x \<in> span (fst b + 4 * w * of_nat n) 32 then 0 else snd (fold (blank_row w) [0..<n] b) x)"
    by (simp add: blank_row_eq rows_fold_fst [OF row_step_blank] del: mem_span)
  also have "\<dots> = (\<lambda>x. if \<exists>i<Suc n. x \<in> span (fst b + 4 * w * of_nat i) 32 then 0 else snd b x)"
    unfolding Suc less_Suc_eq by (rule ext, simp del: mem_span, blast)
  finally show ?case .
qed simp

section \<open>The cell of a character\<close>

definition cell :: "u64 \<Rightarrow> u64 \<Rightarrow> 'a tty_state_scheme \<Rightarrow> u64 set" where
  "cell x y s = (\<Union>i<13. span (terminal_buffer s + (x * fb_width s + y) * 4 + 4 * fb_width s * of_nat i) 32)"

lemma putentryat_outside:
  assumes "a \<notin> cell x y s"
  shows "bytes (terminal_putentryat c col x y s) a = bytes s a"
proof -
  let ?b = "(terminal_buffer s + (x * fb_width s + y) * 4, bytes s)"
  have "a \<notin> span (fst ?b + 4 * fb_width s * of_nat i) 32" if "i < 13" for i
    using assms that by (simp add: cell_def del: mem_span)
  then have "snd (fold (glyph_row (fb_width s) (get_char_bitmap c s) col) [0..<13] ?b) a = snd ?b a"
    by (rule rows_fold_outside [OF row_step_glyph])
  then show ?thesis by (simp add: terminal_putentryat_def del: upt_rec_numeral)
qed

lemma putentryat_fields [simp]:
  "fb_width (terminal_putentryat c col x y s) = fb_width s" "fb_height (terminal_putentryat c col x y s) = fb_height s"
  "terminal_row (terminal_putentryat c col x y s) = terminal_row s"
  "terminal_column (terminal_putentryat c col x y s) = terminal_column s"
  "terminal_buffer (terminal_putentryat c col x y s) = terminal_buffer s"
  "font (terminal_putentryat c col x y s) = font s" "color (terminal_putentryat c col x y s) = color s"
  by (simp_all add: terminal_putentryat_def Let_def)

text \<open>Removing the character before the cursor blanks its cell.\<close>

lemma removeLast_one:
  assumes "terminal_row s \<noteq> 0"
  shows "terminal_removeLast 1 s =
    s\<lparr>terminal_row := terminal_row s - 12,
      bytes := \<lambda>a. if a \<in> cell (terminal_column s) (terminal_row s - 12) s then 0 else bytes s a\<rparr>"
proof -
  let ?b = "(terminal_buffer s + (terminal_column s * fb_width s + (terminal_row s - 12)) * 4, bytes s)"
  have "snd (fold (blank_row (fb_width s)) [0..<13] ?b) =
      (\<lambda>a. if a \<in> cell (terminal_column s) (terminal_row s - 12) s then 0 else bytes s a)"
    unfolding blank_rows cell_def by (rule ext) (simp del: mem_span, blast)
  with assms show ?thesis
    by (simp add: terminal_removeLast_def terminal_remove_def case_prod_beta del: upt_rec_numeral)
qed

section \<open>The console stays inside the frame buffer\<close>

text \<open>
  \<open>tty_wf\<close>: the frame buffer does not wrap around, its height is a multiple of the line height, and the cursor
  is on a line of the screen.
\<close>

definition frame :: "'a tty_state_scheme \<Rightarrow> u64 set" where
  "frame s = span (terminal_buffer s) (4 * (unat (fb_width s) * unat (fb_height s)))"

definition tty_wf :: "'a tty_state_scheme \<Rightarrow> bool" where
  "tty_wf s \<longleftrightarrow>
     unat (terminal_buffer s) + 4 * (unat (fb_width s) * unat (fb_height s)) < 18446744073709551616 \<and>
     8 \<le> unat (fb_width s) \<and> 16 dvd unat (fb_height s) \<and> 16 dvd unat (terminal_column s) \<and>
     unat (terminal_column s) + 16 \<le> unat (fb_height s) \<and> unat (terminal_row s) < unat (fb_width s)"

lemma of_nat_unat_mult: "of_nat (unat a * unat b) = a * b" for a b :: u64
  by simp

lemma line_in_frame:
  fixes C R W H i :: nat
  assumes "8 \<le> W" "C + 16 \<le> H" "R < W" "i < 13"
  shows "4 * ((C + i) * W + R) + 32 \<le> 4 * (W * H)"
proof -
  have "(C + i) * W + R + 8 \<le> (C + i) * W + 2 * W" using assms by linarith
  also have "\<dots> = (C + i + 2) * W" by (simp add: algebra_simps)
  also have "\<dots> \<le> H * W" using assms by (intro mult_le_mono1) linarith
  finally show ?thesis by (simp add: algebra_simps)
qed

lemma pixel_address:
  fixes x y w :: u64
  shows "(x * w + y) * 4 + 4 * w * of_nat i = of_nat (4 * ((unat x + i) * unat w + unat y))"
  by (simp add: algebra_simps)

lemma cell_in_frame:
  assumes "tty_wf s"
  shows "cell (terminal_column s) (terminal_row s) s \<subseteq> frame s"
proof -
  have "span (terminal_buffer s + of_nat (4 * ((unat (terminal_column s) + i) * unat (fb_width s) + unat (terminal_row s)))) 32
      \<subseteq> frame s" (is "span (_ + of_nat ?k) 32 \<subseteq> _") if "i < 13" for i
  proof -
    have k: "?k + 32 \<le> 4 * (unat (fb_width s) * unat (fb_height s))"
      using assms that unfolding tty_wf_def by (intro line_in_frame) auto
    moreover have "unat (of_nat ?k :: u64) = ?k"
      by (rule unat_of_nat_small) (use k assms in \<open>simp add: tty_wf_def\<close>)
    ultimately show ?thesis
      unfolding frame_def by (intro span_sub) linarith
  qed
  then show ?thesis
    unfolding cell_def add.assoc pixel_address by blast
qed

text \<open>What every operation keeps: the invariant, the geometry, and all memory outside the frame buffer.\<close>

definition keeps_frame :: "'a tty_state_scheme \<Rightarrow> 'a tty_state_scheme \<Rightarrow> bool" where
  "keeps_frame s s' \<longleftrightarrow> tty_wf s' \<and> terminal_buffer s' = terminal_buffer s \<and> fb_width s' = fb_width s \<and>
     fb_height s' = fb_height s \<and> font s' = font s \<and> color s' = color s \<and> (\<forall>a. a \<notin> frame s \<longrightarrow> bytes s' a = bytes s a)"

lemma keeps_frame_trans: "keeps_frame s s' \<Longrightarrow> keeps_frame s' s'' \<Longrightarrow> keeps_frame s s''"
  by (auto simp: keeps_frame_def frame_def simp del: mem_span)

lemma keeps_frame_refl: "tty_wf s \<Longrightarrow> keeps_frame s s"
  by (simp add: keeps_frame_def)

lemma multiple_between:
  fixes c h :: nat
  assumes "16 dvd c" "16 dvd h" "c < h" shows "c + 16 \<le> h"
  using assms by presburger

lemma new_line_keeps:
  assumes wf: "tty_wf s"
  shows "keeps_frame s (new_line s)"
proof -
  let ?W = "unat (fb_width s)" and ?H = "unat (fb_height s)" and ?C = "unat (terminal_column s)"
  have le: "?H \<le> ?W * ?H" using wf by (simp add: tty_wf_def)
  have H: "4 * ?H < 18446744073709551616"
    using wf le unfolding tty_wf_def by linarith
  have C: "?C + 16 \<le> ?H" "16 dvd ?C" "16 dvd ?H" using wf by (auto simp: tty_wf_def)
  then have C16: "unat (terminal_column s + 16) = ?C + 16"
    using H by (subst unat_u64_add) simp_all
  show ?thesis
  proof (cases "?C + 16 < ?H")
    case True
    then have "?C + 16 + 16 \<le> ?H"
      using C by (intro multiple_between) auto
    with True wf C16 show ?thesis
      by (auto simp: new_line_def scrollOverflow_def keeps_frame_def tty_wf_def word_le_nat_alt)
  next
    case False
    have off: "unat (fb_width s * 4 * 16) = 64 * ?W" "unat (fb_width s * (fb_height s - 16) * 4) = 4 * (?W * (?H - 16))"
    proof -
      have "?W * 16 \<le> ?W * ?H" using C by (intro mult_le_mono) auto
      then have W64: "64 * ?W < 18446744073709551616" using wf unfolding tty_wf_def by linarith
      have "of_nat (64 * ?W) = fb_width s * 4 * 16" by (simp add: algebra_simps)
      moreover have "unat (of_nat (64 * ?W) :: u64) = 64 * ?W"
        by (rule unat_of_nat_small) (use W64 in simp)
      ultimately show "unat (fb_width s * 4 * 16) = 64 * ?W" by metis
      have h16: "fb_height s - 16 = of_nat (?H - 16)" using C by (simp add: of_nat_diff)
      have "4 * (?W * (?H - 16)) < 4 * (?W * ?H)" using C wf by (simp add: tty_wf_def)
      then have lt: "4 * (?W * (?H - 16)) < 18446744073709551616" using wf unfolding tty_wf_def by linarith
      have "of_nat (4 * (?W * (?H - 16))) = fb_width s * (fb_height s - 16) * 4"
        unfolding h16 by (simp only: of_nat_mult of_nat_unat) (simp add: mult.commute mult.left_commute)
      then show "unat (fb_width s * (fb_height s - 16) * 4) = 4 * (?W * (?H - 16))"
        using unat_of_nat_small [of "4 * (?W * (?H - 16))", where 'a = 64] lt by simp
    qed
    have sum: "64 * ?W + 4 * (?W * (?H - 16)) = 4 * (?W * ?H)"
      using C by (simp add: diff_mult_distrib2)
    let ?n = "fb_width s * (fb_height s - 16) * 4" and ?b = "terminal_buffer s"
    have total: "unat ?b + 4 * (?W * ?H) < 18446744073709551616" using wf by (simp add: tty_wf_def)
    have src: "unat (?b + fb_width s * 4 * 16) + unat ?n \<le> 18446744073709551616"
      using unat_add_le [of ?b "fb_width s * 4 * 16"] total sum off by linarith
    have dst: "unat ?b + unat ?n \<le> 18446744073709551616"
      using total sum off by linarith
    have "memmove ?b (?b + fb_width s * 4 * 16) ?n m a = m a" if "a \<notin> frame s" for m a
    proof -
      have "a \<notin> span ?b (unat ?n)"
        using that sum off span_mono [of "unat ?n" "4 * (?W * ?H)" ?b] unfolding frame_def by (auto simp del: mem_span)
      then show ?thesis unfolding memmove_snapshot [OF dst src] by (simp del: mem_span)
    qed
    with False wf C16 show ?thesis
      by (simp add: new_line_def scrollOverflow_def scroll_def keeps_frame_def tty_wf_def word_le_nat_alt frame_def del: mem_span)
  qed
qed

lemma row_at_height_keeps: "tty_wf s \<Longrightarrow> keeps_frame s (row_at_height s)"
  by (auto simp: row_at_height_def keeps_frame_def tty_wf_def)

lemma putentryat_keeps:
  assumes "tty_wf s"
  shows "keeps_frame s (terminal_putentryat c col (terminal_column s) (terminal_row s) s)"
proof -
  let ?s = "terminal_putentryat c col (terminal_column s) (terminal_row s) s"
  have "bytes ?s a = bytes s a" if "a \<notin> frame s" for a
    using that cell_in_frame [OF assms] by (intro putentryat_outside) blast
  with assms show ?thesis by (simp add: keeps_frame_def tty_wf_def)
qed

lemma terminal_putchar_keeps:
  assumes wf: "tty_wf s"
  shows "keeps_frame s (terminal_putchar c s)"
proof -
  let ?s = "terminal_putentryat c (color s) (terminal_column s) (terminal_row s) s"
  have p: "keeps_frame s ?s" by (rule putentryat_keeps [OF wf])
  show ?thesis
  proof (cases "terminal_row s + 12 \<ge> fb_width s")
    case True
    have new: "new_line (?s\<lparr>terminal_row := terminal_row s + 12\<rparr>) = new_line ?s"
      by (simp add: new_line_def)
    have "keeps_frame ?s (new_line ?s)"
      using p by (intro new_line_keeps) (simp add: keeps_frame_def)
    moreover have "keeps_frame (new_line ?s) (row_at_height (new_line ?s))"
      using calculation by (intro row_at_height_keeps) (simp add: keeps_frame_def)
    ultimately have "keeps_frame s (row_at_height (new_line ?s))"
      using p keeps_frame_trans by blast
    with True new show ?thesis by (simp add: terminal_putchar_def)
  next
    case False
    with p show ?thesis
      by (simp add: terminal_putchar_def keeps_frame_def tty_wf_def frame_def word_le_nat_alt del: mem_span)
  qed
qed

lemma terminal_emit_keeps: "tty_wf s \<Longrightarrow> keeps_frame s (terminal_emit c s)"
  by (simp add: terminal_emit_def new_line_keeps terminal_putchar_keeps)

lemma emit_all_keeps: "tty_wf s \<Longrightarrow> keeps_frame s (fold terminal_emit cs s)"
proof (induction cs arbitrary: s)
  case (Cons c cs)
  have k: "keeps_frame s (terminal_emit c s)" using Cons.prems by (rule terminal_emit_keeps)
  then have "tty_wf (terminal_emit c s)" by (simp add: keeps_frame_def)
  then show ?case using keeps_frame_trans [OF k] Cons.IH by simp
qed (simp add: keeps_frame_refl)

section \<open>The picture of a character\<close>

definition pixel :: "mem \<Rightarrow> u64 \<Rightarrow> u32 \<Rightarrow> nat \<Rightarrow> nat \<Rightarrow> u32" where
  "pixel m bits col i j = (if bit (load8 m (bits + of_nat (12 - i))) (7 - j) then col else 0)"

lemma pixel_mask:
  fixes b :: u8
  assumes "j < 8"
  shows "b AND drop_bit j 0x80 \<noteq> 0 \<longleftrightarrow> bit b (7 - j)"
proof -
  have j: "j \<in> {0, 1, 2, 3, 4, 5, 6, 7}" using assms by auto
  have "b AND push_bit k 1 \<noteq> 0 \<longleftrightarrow> bit b k" for k
    by (simp add: bit_iff_and_push_bit_not_eq_0)
  from this [of 7] this [of 6] this [of 5] this [of 4] this [of 3] this [of 2] this [of 1] this [of 0]
  show ?thesis using j by (elim insertE emptyE) simp_all
qed

lemma glyph_pixel_eq:
  "j < 8 \<Longrightarrow> glyph_pixel bits col i j b = (fst b + 4, store32 (snd b) (fst b) (pixel (snd b) bits col i j))"
  by (simp add: glyph_pixel_def pixel_def pixel_mask)

lemma pixel_cong:
  assumes "\<And>a. a \<in> span bits 13 \<Longrightarrow> m' a = m a"
  shows "pixel m' bits col i j = pixel m bits col i j"
proof -
  have "bits + of_nat (12 - i) \<in> span bits 13" by (rule span_offset_mem) auto
  then have "load8 m' (bits + of_nat (12 - i)) = load8 m (bits + of_nat (12 - i))"
    using assms by (simp add: load8_def del: mem_span)
  then show ?thesis by (simp add: pixel_def)
qed

lemma row_pixels:
  assumes apart: "span bits 13 \<inter> span p 32 = {}" and "n \<le> 8" "j < n"
  shows "load32 (snd (fold (glyph_pixel bits col i) [0..<n] (p, m))) (p + of_nat (4 * j)) = pixel m bits col i j"
  using assms(2,3)
proof (induction n)
  case (Suc n)
  let ?r = "fold (glyph_pixel bits col i) [0..<n] (p, m)"
  have step: "\<And>j b. \<exists>v. glyph_pixel bits col i j b = (fst b + 4, store32 (snd b) (fst b) v)"
    unfolding glyph_pixel_def Let_def by blast
  have fst: "fst ?r = p + of_nat (4 * n)"
    using pixels_fold(1) [OF step, where n = n and b = "(p, m)"] Suc.prems by (simp del: of_nat_mult)
  have "snd ?r a = m a" if "a \<in> span bits 13" for a
  proof -
    have "a \<notin> span p (4 * n)"
      using that apart span_mono [of "4 * n" 32 p] Suc.prems by (auto simp del: mem_span)
    then show ?thesis using pixels_fold(2) [OF step, where n = n and b = "(p, m)" and x = a] Suc.prems by simp
  qed
  then have pix: "pixel (snd ?r) bits col i n = pixel m bits col i n" by (rule pixel_cong)
  show ?case
  proof (cases "j = n")
    case True
    with pix fst Suc.prems show ?thesis by (simp add: glyph_pixel_eq del: of_nat_mult)
  next
    case False
    then have "j < n" using Suc.prems by simp
    then have "apart (of_nat (4 * j)) 4 (of_nat (4 * n)) 4"
      using Suc.prems by (intro apart_no_wrap) (simp_all add: unat_four_times del: of_nat_mult)
    with Suc \<open>j < n\<close> fst show ?thesis by (simp add: glyph_pixel_eq del: of_nat_mult)
  qed
qed simp

lemma line_address:
  fixes b w :: u64
  assumes "unat b + 4 * (13 * unat w) \<le> 18446744073709551616" "i < 13" "8 \<le> unat w"
  shows "unat (b + 4 * w * of_nat i) = unat b + 4 * unat w * i"
proof -
  have le: "unat w * i \<le> unat w * 12" using assms by (intro mult_le_mono) auto
  have eq: "4 * w * of_nat i = of_nat (4 * unat w * i)" by simp
  have "unat w \<ge> 1 \<longrightarrow> 4 * unat w * i < 18446744073709551616" using le assms by linarith
  then have "unat (4 * w * of_nat i) = 4 * unat w * i"
    unfolding eq by (intro unat_of_nat_small) (use assms in simp)
  then show ?thesis using le assms by (subst unat_u64_add) linarith+
qed

lemma glyph_lines_apart:
  fixes b w :: u64
  assumes fits: "unat b + 4 * (13 * unat w) \<le> 18446744073709551616" "8 \<le> unat w" and i: "i < n" "n < 13"
  shows "span (b + 4 * w * of_nat i) 32 \<inter> span (b + 4 * w * of_nat n) 32 = {}"
proof -
  have "4 * unat w * Suc i \<le> 4 * unat w * n" "4 * unat w * n \<le> 4 * unat w * 12" using i by (intro mult_le_mono; simp)+
  then have "4 * unat w * i + 32 \<le> 4 * unat w * n" "4 * unat w * n + 32 \<le> 4 * (13 * unat w)" using fits(2) by (simp, linarith)
  then show ?thesis
    using fits line_address [OF fits(1) _ fits(2), of i] line_address [OF fits(1) _ fits(2), of n] i
    by (intro span_disjoint_no_wrap) linarith+
qed

lemma glyph_rows_pixels:
  assumes fits: "unat b + 4 * (13 * unat w) \<le> 18446744073709551616" "8 \<le> unat w"
    and apart: "\<And>i. i < 13 \<Longrightarrow> span bits 13 \<inter> span (b + 4 * w * of_nat i) 32 = {}"
    and "n \<le> 13" "i < n" "j < 8"
  shows "load32 (snd (fold (glyph_row w bits col) [0..<n] (b, m))) (b + 4 * w * of_nat i + of_nat (4 * j)) = pixel m bits col i j"
  using assms(4,5)
proof (induction n)
  case (Suc n)
  let ?r = "fold (glyph_row w bits col) [0..<n] (b, m)" and ?p = "b + 4 * w * of_nat n"
  have fst: "fst ?r = ?p" by (simp add: rows_fold_fst [OF row_step_glyph])
  have "snd ?r a = m a" if "a \<in> span bits 13" for a
  proof -
    have "a \<notin> span (fst (b, m) + 4 * w * of_nat i) 32" if "i < n" for i
      using apart [of i] that Suc.prems \<open>a \<in> span bits 13\<close> by (simp del: mem_span) blast
    then have "snd ?r a = snd (b, m) a" by (rule rows_fold_outside [OF row_step_glyph])
    then show ?thesis by simp
  qed
  then have pix: "pixel (snd ?r) bits col i j = pixel m bits col i j" by (rule pixel_cong)
  have snd: "snd (glyph_row w bits col n ?r) = snd (fold (glyph_pixel bits col n) [0..<8] (?p, snd ?r))"
  proof -
    have "snd (glyph_row w bits col n (p', m')) = snd (fold (glyph_pixel bits col n) [0..<8] (p', m'))" for p' m'
      by (simp add: glyph_row_def case_prod_beta del: upt_rec_numeral)
    with fst show ?thesis by (metis prod.collapse)
  qed
  show ?case
  proof (cases "i = n")
    case True
    have "load32 (snd (glyph_row w bits col n ?r)) (?p + of_nat (4 * j)) = pixel (snd ?r) bits col n j"
      unfolding snd by (rule row_pixels) (use apart [of n] Suc.prems assms(6) in auto)
    moreover have "fold (glyph_row w bits col) [0..<Suc n] (b, m) = glyph_row w bits col n ?r" by simp
    ultimately show ?thesis using pix True by (simp only:)
  next
    case False
    then have i: "i < n" "i < 13" "n < 13" using Suc.prems by auto
    have dis: "span (b + 4 * w * of_nat i) 32 \<inter> span ?p 32 = {}" by (rule glyph_lines_apart [OF fits i(1,3)])
    have sub: "span (b + 4 * w * of_nat i + of_nat (4 * j)) 4 \<subseteq> span (b + 4 * w * of_nat i) 32"
      by (rule span_sub) (use assms(6) in \<open>simp add: unat_four_times del: of_nat_mult\<close>)
    have "snd (glyph_row w bits col n ?r) x = snd ?r x" if "x \<in> span (b + 4 * w * of_nat i + of_nat (4 * j)) 4" for x
    proof -
      have "x \<notin> span (fst ?r) 32" unfolding fst using that sub dis by (meson disjoint_iff subsetD)
      then show ?thesis by (rule row_stepD(2) [OF row_step_glyph])
    qed
    then have "load32 (snd (glyph_row w bits col n ?r)) (b + 4 * w * of_nat i + of_nat (4 * j)) =
        load32 (snd ?r) (b + 4 * w * of_nat i + of_nat (4 * j))"
      by (rule load32_cong)
    moreover have "fold (glyph_row w bits col) [0..<Suc n] (b, m) = glyph_row w bits col n ?r" by simp
    moreover have "load32 (snd ?r) (b + 4 * w * of_nat i + of_nat (4 * j)) = pixel m bits col i j"
      by (rule Suc.IH) (use i in auto)
    ultimately show ?thesis by (simp only:)
  qed
qed simp

lemma unat_scast_char:
  fixes c :: u8
  assumes "unat c = 32 + k" "k < 95"
  shows "13 * (scast c - 32 :: u64) = of_nat (13 * k)"
proof -
  have c: "c = of_nat (32 + k)" using assms(1) by (metis of_nat_unat ucast_id)
  have "sint (of_nat (32 + k) :: u8) = int (32 + k)"
    using assms(2) by (subst signed_of_nat) (simp add: signed_take_bit_int_eq_self)
  then have "(scast c :: u64) = of_int (int (32 + k))"
    unfolding c scast_eq by simp
  then show ?thesis by simp
qed

text \<open>The bottom right of a cell whose top left is at column \<open>C\<close> and row \<open>R\<close>.\<close>

definition cell_fits :: "u64 \<Rightarrow> u64 \<Rightarrow> 'a tty_state_scheme \<Rightarrow> bool" where
  "cell_fits x y s \<longleftrightarrow> 8 \<le> unat (fb_width s) \<and>
     unat (terminal_buffer s) + 4 * ((unat x + 13) * unat (fb_width s) + unat y) < 18446744073709551616"

lemma putentryat_pixels:
  assumes fits: "cell_fits x y s" and f: "font_loaded s" "span (font s) 1235 \<inter> cell x y s = {}"
    and c: "unat c = 32 + k" "k < 95" and "i < 13" "j < 8"
  shows "load32 (bytes (terminal_putentryat c col x y s))
      (terminal_buffer s + of_nat (4 * ((unat x + i) * unat (fb_width s) + unat y + j))) =
    (if bit (bitmap_letters ! k ! (12 - i)) (7 - j) then col else 0)"
proof -
  let ?w = "fb_width s" and ?bits = "font s + of_nat (13 * k)"
  let ?b = "terminal_buffer s + (x * ?w + y) * 4"
  have "span ?bits 13 \<subseteq> span (font s) 1235"
    by (rule span_sub) (subst unat_of_nat_small, use c in simp_all)
  then have apart: "span ?bits 13 \<inter> span (?b + 4 * ?w * of_nat i) 32 = {}" if "i < 13" for i
    using that f(2) unfolding cell_def by blast
  have off: "(x * ?w + y) * 4 = of_nat (4 * (unat x * unat ?w + unat y))"
    by (simp add: algebra_simps)
  have total: "unat (terminal_buffer s) + (4 * (unat x * unat ?w + unat y) + 4 * (13 * unat ?w)) < 18446744073709551616"
    using fits by (simp add: cell_fits_def algebra_simps)
  have "unat ((x * ?w + y) * 4) = 4 * (unat x * unat ?w + unat y)"
    unfolding off by (rule unat_of_nat_small) (use total in simp)
  then have b: "unat ?b + 4 * (13 * unat ?w) \<le> 18446744073709551616"
    using unat_add_le [of "terminal_buffer s" "(x * ?w + y) * 4"] total by linarith
  have "get_char_bitmap c s = ?bits" using unat_scast_char [OF c] by (simp add: get_char_bitmap_def)
  then have "load32 (bytes (terminal_putentryat c col x y s)) (?b + 4 * ?w * of_nat i + of_nat (4 * j)) =
      pixel (bytes s) ?bits col i j"
    using glyph_rows_pixels [OF b _ apart, of 13 i j col "bytes s"] fits assms(6,7)
    by (simp add: terminal_putentryat_def cell_fits_def del: upt_rec_numeral)
  moreover have addr: "?b + 4 * ?w * of_nat i + of_nat (4 * j) =
      terminal_buffer s + of_nat (4 * ((unat x + i) * unat ?w + unat y + j))"
    by (simp add: algebra_simps)
  moreover have "load8 (bytes s) (?bits + of_nat (12 - i)) = bitmap_letters ! k ! (12 - i)"
  proof -
    have "load8 (bytes s) (font s + of_nat (13 * k + (12 - i))) = bitmap_letters ! k ! (12 - i)"
      using f(1) c(2) unfolding font_loaded_def by simp
    then show ?thesis by (simp add: add.assoc)
  qed
  ultimately show ?thesis unfolding addr pixel_def by simp
qed

lemma cell_fits_wf:
  assumes "tty_wf s"
  shows "cell_fits (terminal_column s) (terminal_row s) s"
proof -
  let ?W = "unat (fb_width s)" and ?C = "unat (terminal_column s)"
  have "(?C + 13) * ?W + unat (terminal_row s) \<le> (?C + 14) * ?W"
    using assms by (simp add: tty_wf_def algebra_simps)
  also have "\<dots> \<le> unat (fb_height s) * ?W" using assms by (intro mult_le_mono1) (simp add: tty_wf_def)
  finally have "(?C + 13) * ?W + unat (terminal_row s) \<le> ?W * unat (fb_height s)" by (simp add: mult.commute)
  then have "4 * ((?C + 13) * ?W + unat (terminal_row s)) \<le> 4 * (?W * unat (fb_height s))" by simp
  moreover have "unat (terminal_buffer s) + 4 * (?W * unat (fb_height s)) < 18446744073709551616" "8 \<le> ?W"
    using assms by (simp_all add: tty_wf_def)
  ultimately show ?thesis unfolding cell_fits_def by linarith
qed

text \<open>Line ends above the last line of the screen only move the cursor.\<close>

lemma new_lines_move:
  assumes "terminal_row s = 0" "terminal_column s = 0" "16 * n < unat (fb_height s)"
  shows "(new_line ^^ n) s = s\<lparr>terminal_column := of_nat (16 * n)\<rparr>"
  using assms(3)
proof (induction n)
  case 0
  with assms show ?case by simp
next
  case (Suc n)
  have "unat (of_nat (16 * n) + 16 :: u64) = 16 * Suc n"
    using Suc.prems unat_u64_lt [of "fb_height s"] by (subst unat_u64_add) (simp_all add: unat_of_nat_small del: of_nat_mult)
  then have "\<not> fb_height s \<le> of_nat (16 * n) + 16"
    using Suc.prems by (simp only: word_le_nat_alt)
  with Suc assms show ?case by (simp add: new_line_def scrollOverflow_def)
qed

text \<open>A character that does not end the line.\<close>

lemma putchar_within_line:
  assumes fits: "unat (terminal_row s) + 12 < unat (fb_width s)"
  shows "terminal_putchar c s =
    (terminal_putentryat c (color s) (terminal_column s) (terminal_row s) s)\<lparr>terminal_row := terminal_row s + 12\<rparr>"
    and "unat (terminal_row s + 12) = unat (terminal_row s) + 12"
proof -
  show row: "unat (terminal_row s + 12) = unat (terminal_row s) + 12"
    using fits unat_u64_lt [of "fb_width s"] by (subst unat_u64_add) simp_all
  then have "\<not> fb_width s \<le> terminal_row s + 12"
    using fits by (simp add: word_le_nat_alt)
  then show "terminal_putchar c s =
    (terminal_putentryat c (color s) (terminal_column s) (terminal_row s) s)\<lparr>terminal_row := terminal_row s + 12\<rparr>"
    by (simp add: terminal_putchar_def)
qed

text \<open>A screen of two lines of text with the font in memory, for the examples.\<close>

definition demo_tty :: "u64 \<Rightarrow> tty_state" where
  "demo_tty h =
     \<lparr>bytes = \<lambda>a. if unat (a - 0x10000) < 1235 then bitmap_letters ! (unat (a - 0x10000) div 13) ! (unat (a - 0x10000) mod 13) else 0,
      cr3 = 0, console = [], msr = \<lambda>_. 0, fb_address = 0x1000, fb_width = 32, fb_height = h, terminal_row = 0,
      terminal_column = 0, tty_bpp = 32, terminal_buffer = 0x1000, color = 0xFFFFFF, font = 0x10000\<rparr>"

lemma demo_font: "font_loaded (demo_tty h)"
  by (auto simp: font_loaded_def demo_tty_def load8_def unat_of_nat_small simp del: of_nat_add of_nat_mult)

lemma demo_wf: "tty_wf (demo_tty 32)"
  by (simp add: tty_wf_def demo_tty_def)

lemma demo_frame: "frame (demo_tty 32) = span 0x1000 4096"
  by (simp add: frame_def demo_tty_def)

lemma putchar_ends_line:
  assumes wf: "tty_wf s" and ends: "\<not> unat (terminal_row s) + 12 < unat (fb_width s)"
  shows "terminal_row (terminal_putchar c s) = 0"
proof -
  have "16 \<le> unat (fb_height s)" using wf by (simp add: tty_wf_def)
  then have "unat (fb_width s) * 16 \<le> unat (fb_width s) * unat (fb_height s)" by simp
  then have "unat (fb_width s) < 4611686018427387904" using wf unfolding tty_wf_def by linarith
  then have "unat (terminal_row s + 12) = unat (terminal_row s) + 12"
    using wf by (subst unat_u64_add) (simp_all add: tty_wf_def)
  with ends have "fb_width s \<le> terminal_row s + 12" by (simp add: word_le_nat_alt)
  then show ?thesis
    by (simp add: terminal_putchar_def Let_def terminal_putentryat_def row_at_height_def new_line_def scrollOverflow_def scroll_def)
qed

section \<open>Properties\<close>

text \<open>
  C13: On a screen whose height is a multiple of 16 the console never leaves the frame buffer. For a text of \<open>n\<close> bytes
  that lies outside the frame buffer, \<open>terminal_write\<close> draws its characters one after the other, changes no byte
  outside the frame buffer, wherever lines end and however often the screen scrolls, and leaves the cursor on a line
  of the screen.
\<close>

theorem terminal_write_stays_in_frame:
  assumes wf: "tty_wf s" and data: "span data (unat n) \<inter> frame s = {}"
  shows "terminal_write data n s = fold terminal_emit (map (\<lambda>i. load8 (bytes s) (data + of_nat i)) [0..<unat n]) s \<and>
    tty_wf (terminal_write data n s) \<and> (\<forall>a. a \<notin> frame s \<longrightarrow> bytes (terminal_write data n s) a = bytes s a)"
proof -
  let ?text = "\<lambda>k. map (\<lambda>i. load8 (bytes s) (data + of_nat i)) [0..<k]"
  have "fold (\<lambda>i s. terminal_emit (load8 (bytes s) (data + of_nat i)) s) [0..<k] s = fold terminal_emit (?text k) s"
    if "k \<le> unat n" for k
    using that
  proof (induction k)
    case (Suc k)
    have "data + of_nat k \<in> span data (unat n)"
      using Suc.prems unat_u64_lt [of n] by (intro span_offset_mem) auto
    then have "data + of_nat k \<notin> frame s" using data by blast
    then have "load8 (bytes (fold terminal_emit (?text k) s)) (data + of_nat k) = load8 (bytes s) (data + of_nat k)"
      using emit_all_keeps [OF wf] by (simp add: keeps_frame_def load8_def)
    with Suc show ?case by simp
  qed simp
  then have eq: "terminal_write data n s = fold terminal_emit (?text (unat n)) s"
    by (simp add: terminal_write_def)
  with emit_all_keeps [OF wf, of "?text (unat n)"] show ?thesis by (simp add: keeps_frame_def)
qed

theorem terminal_write_stays_in_frame_witness:
  "tty_wf (terminal_write 0x20000 100 (demo_tty 32))"
proof -
  have "span 0x1000 4096 \<inter> span 0x20000 100 = ({} :: u64 set)"
    by (rule span_disjoint_no_wrap) simp_all
  then have "span 0x20000 (unat (100 :: u64)) \<inter> frame (demo_tty 32) = {}"
    unfolding demo_frame by (simp del: mem_span add: Int_commute)
  from terminal_write_stays_in_frame [OF demo_wf this] show ?thesis by blast
qed

text \<open>
  C28: Backspace undoes a character, except at the end of a line. On a screen in order, with a blank cell at the cursor, writing a
  character and removing it again gives back the console and the memory as they were when the character leaves the cursor on its line.
  When it ends the line, the cursor is at the left edge, where \<open>terminal_remove\<close> returns at once, so the character stays and
  removing it changes nothing.
\<close>

theorem backspace_undoes_putchar:
  assumes wf: "tty_wf s" and blank: "\<forall>a \<in> cell (terminal_column s) (terminal_row s) s. bytes s a = 0"
  shows "terminal_removeLast 1 (terminal_putchar c s) =
    (if unat (terminal_row s) + 12 < unat (fb_width s) then s else terminal_putchar c s)"
proof (cases "unat (terminal_row s) + 12 < unat (fb_width s)")
  case fits: True
  let ?s = "terminal_putentryat c (color s) (terminal_column s) (terminal_row s) s"
  note put = putchar_within_line(1) [OF fits] and row = putchar_within_line(2) [OF fits]
  have "terminal_row (terminal_putchar c s) \<noteq> 0"
    using row put by (auto simp: word_eq_iff_unat)
  then have "terminal_removeLast 1 (terminal_putchar c s) =
    ?s\<lparr>terminal_row := terminal_row s, bytes := \<lambda>a. if a \<in> cell (terminal_column s) (terminal_row s) s then 0 else bytes ?s a\<rparr>"
    by (simp add: removeLast_one put cell_def del: mem_span cong: if_cong)
  moreover have "(\<lambda>a. if a \<in> cell (terminal_column s) (terminal_row s) s then 0 else bytes ?s a) = bytes s"
    using blank putentryat_outside [of _ "terminal_column s" "terminal_row s" s] by (auto simp: fun_eq_iff simp del: mem_span)
  ultimately show ?thesis
    using fits by (simp add: terminal_putentryat_def)
next
  case False
  have "terminal_row (terminal_putchar c s) = 0" by (rule putchar_ends_line [OF wf False])
  moreover have "terminal_removeLast 1 t = t" if "terminal_row t = 0" for t :: "'a tty_state_scheme"
    using that by (simp add: terminal_removeLast_def terminal_remove_def)
  ultimately show ?thesis using False by simp
qed

theorem backspace_undoes_putchar_witness:
  "terminal_removeLast 1 (terminal_putchar 65 (demo_tty 32)) = demo_tty 32 \<and>
   terminal_removeLast 1 (terminal_putchar 65 ((demo_tty 32)\<lparr>terminal_row := 20\<rparr>)) =
     terminal_putchar 65 ((demo_tty 32)\<lparr>terminal_row := 20\<rparr>)"
proof -
  have "span 0x1000 4096 \<inter> span 0x10000 1235 = ({} :: u64 set)"
    by (rule span_disjoint_no_wrap) simp_all
  then have zero: "bytes (demo_tty 32) a = 0" if "a \<in> span 0x1000 4096" for a
    using that by (auto simp: demo_tty_def)
  have blank: "\<forall>a \<in> cell (terminal_column t) (terminal_row t) t. bytes t a = 0"
    if "tty_wf t" "frame t = span 0x1000 4096" "bytes t = bytes (demo_tty 32)" for t :: tty_state
    using cell_in_frame [OF that(1)] zero that(2,3) by (metis subsetD)
  let ?t = "(demo_tty 32)\<lparr>terminal_row := 20\<rparr>"
  have t: "tty_wf ?t" "frame ?t = span 0x1000 4096"
    using demo_wf demo_frame by (simp_all add: tty_wf_def frame_def demo_tty_def)
  have rows: "unat (terminal_row (demo_tty 32)) + 12 < unat (fb_width (demo_tty 32))" "\<not> unat (terminal_row ?t) + 12 < unat (fb_width ?t)"
    by (simp_all add: demo_tty_def)
  have "terminal_removeLast 1 (terminal_putchar 65 (demo_tty 32)) = demo_tty 32"
    using backspace_undoes_putchar [OF demo_wf blank [OF demo_wf demo_frame refl], of 65] rows(1) by (simp only: if_True)
  moreover have "terminal_removeLast 1 (terminal_putchar 65 ?t) = terminal_putchar 65 ?t"
    using backspace_undoes_putchar [OF t(1) blank [OF t], of 65] rows(2) by simp
  ultimately show ?thesis ..
qed

text \<open>
  C27: A printable character is drawn as the font has it: pixel \<open>j\<close> of row \<open>i\<close> of the cell at the cursor gets the text
  colour when bit \<open>7 - j\<close> of byte \<open>12 - i\<close> of its glyph is set and black otherwise, and the cursor moves on by 12 pixels.
\<close>

theorem putchar_draws_glyph:
  assumes wf: "tty_wf s" and f: "font_loaded s" "span (font s) 1235 \<inter> frame s = {}"
    and c: "unat c = 32 + k" "k < 95" and fits: "unat (terminal_row s) + 12 < unat (fb_width s)"
  shows "(\<forall>i < 13. \<forall>j < 8. load32 (bytes (terminal_putchar c s))
        (terminal_buffer s + of_nat (4 * ((unat (terminal_column s) + i) * unat (fb_width s) + unat (terminal_row s) + j))) =
        (if bit (bitmap_letters ! k ! (12 - i)) (7 - j) then color s else 0)) \<and>
    terminal_row (terminal_putchar c s) = terminal_row s + 12 \<and> terminal_column (terminal_putchar c s) = terminal_column s"
proof -
  have "span (font s) 1235 \<inter> cell (terminal_column s) (terminal_row s) s = {}"
    using f(2) cell_in_frame [OF wf] by blast
  from putentryat_pixels [OF cell_fits_wf [OF wf] f(1) this c]
  show ?thesis unfolding putchar_within_line(1) [OF fits] by simp
qed

theorem putchar_draws_glyph_witness:
  "load32 (bytes (terminal_putchar 65 (demo_tty 32))) (0x1000 + of_nat (4 * (10 * 32 + 0))) = 0xFFFFFF"
proof -
  have "span 0x10000 1235 \<inter> span 0x1000 4096 = ({} :: u64 set)"
    unfolding Int_commute [of "span 0x10000 1235"] by (rule span_disjoint_no_wrap) simp_all
  then have "span (font (demo_tty 32)) 1235 \<inter> frame (demo_tty 32) = {}"
    unfolding demo_frame by (simp add: demo_tty_def del: mem_span)
  from putchar_draws_glyph [OF demo_wf demo_font this, where c = 65 and k = 33]
  have "\<forall>i < 13. \<forall>j < 8. load32 (bytes (terminal_putchar 65 (demo_tty 32))) (0x1000 + of_nat (4 * (i * 32 + j))) =
      (if bit (bitmap_letters ! 33 ! (12 - i)) (7 - j) then 0xFFFFFF else 0)"
    by (simp add: demo_tty_def)
  from this [rule_format, of 10 0] show ?thesis by (simp add: bitmap_letters_def)
qed

text \<open>A cell of the first column lies in the 13 pixel lines that begin with its own.\<close>

lemma first_column_cell:
  assumes row: "terminal_row s = 0" and col: "unat (terminal_column s) \<le> h" and w: "8 \<le> unat (fb_width s)"
    and mem: "unat (terminal_buffer s) + 4 * ((h + 13) * unat (fb_width s)) < 18446744073709551616"
  shows "cell (terminal_column s) (terminal_row s) s \<subseteq> span (terminal_buffer s) (4 * ((h + 13) * unat (fb_width s)))"
proof -
  let ?C = "unat (terminal_column s)" and ?W = "unat (fb_width s)"
  have "span (terminal_buffer s + of_nat (4 * ((?C + i) * ?W + 0))) 32 \<subseteq> span (terminal_buffer s) (4 * ((h + 13) * ?W))" if "i < 13" for i
  proof (rule span_sub)
    have "(?C + i) * ?W + 8 \<le> (?C + i + 1) * ?W" using w by simp
    also have "\<dots> \<le> (h + 13) * ?W" using col that by (intro mult_le_mono1) simp
    finally have "4 * ((?C + i) * ?W + 0) + 32 \<le> 4 * ((h + 13) * ?W)" by simp
    moreover from this mem have "unat (of_nat (4 * ((?C + i) * ?W + 0)) :: u64) = 4 * ((?C + i) * ?W + 0)"
      by (intro unat_of_nat_u64) linarith
    ultimately show "unat (of_nat (4 * ((?C + i) * ?W + 0)) :: u64) + 32 \<le> 4 * ((h + 13) * ?W)" by linarith
  qed
  then show ?thesis
    unfolding cell_def add.assoc pixel_address by (simp add: row del: of_nat_mult of_nat_add mem_span) blast
qed

text \<open>
  C29: On a screen whose height is not a multiple of 16 the text runs over the end of the frame buffer: with \<open>r\<close> pixel
  lines, \<open>0 < r < 13\<close>, below the last full text line, the line reached after \<open>height div 16\<close> line ends is taken as one
  of the screen, and row \<open>r\<close> of a character there is drawn into the first bytes behind the frame buffer.
\<close>

theorem last_line_overruns:
  assumes top: "terminal_row s = 0" "terminal_column s = 0" and w: "12 < unat (fb_width s)"
    and r: "unat (fb_height s) mod 16 = r" "0 < r" "r < 13"
    and mem: "unat (terminal_buffer s) + 4 * ((unat (fb_height s) + 13) * unat (fb_width s)) < 18446744073709551616"
    and f: "font_loaded s" "span (font s) 1235 \<inter> span (terminal_buffer s) (4 * ((unat (fb_height s) + 13) * unat (fb_width s))) = {}"
    and c: "unat c = 32 + k" "k < 95" and j: "j < 8"
    and s': "s' = (new_line ^^ (unat (fb_height s) div 16)) s"
  shows "terminal_column s' < fb_height s \<and>
    load32 (bytes (terminal_putchar c s')) (terminal_buffer s + of_nat (4 * (unat (fb_width s) * unat (fb_height s) + j))) =
      (if bit (bitmap_letters ! k ! (12 - r)) (7 - j) then color s else 0)"
proof -
  let ?H = "unat (fb_height s)" and ?W = "unat (fb_width s)"
  let ?C = "16 * (?H div 16)"
  have C: "?C + r = ?H" using r(1) mult_div_mod_eq [of 16 ?H] by simp
  have s'_eq: "s' = s\<lparr>terminal_column := of_nat ?C\<rparr>"
    unfolding s' using top C r(2) by (intro new_lines_move) simp_all
  have uC: "unat (of_nat ?C :: u64) = ?C"
    using C unat_u64_lt [of "fb_height s"] by (intro unat_of_nat_small) simp
  have le: "(?C + 13) * ?W \<le> (?H + 13) * ?W" using C by (intro mult_le_mono1) simp
  have fits: "cell_fits (terminal_column s') (terminal_row s') s'"
  proof -
    have "unat (terminal_buffer s) + 4 * ((?C + 13) * ?W) < 18446744073709551616" using mem le by linarith
    with w top show ?thesis unfolding cell_fits_def s'_eq by (simp add: uC del: of_nat_mult)
  qed
  have "cell (terminal_column s') (terminal_row s') s' \<subseteq> span (terminal_buffer s) (4 * ((?H + 13) * ?W))"
    using first_column_cell [of s' ?H] w top mem C by (simp add: s'_eq uC del: of_nat_mult mem_span)
  then have apart: "span (font s') 1235 \<inter> cell (terminal_column s') (terminal_row s') s' = {}"
    using f(2) by (simp add: s'_eq del: mem_span) blast
  have "font_loaded s'" using f(1) by (simp add: font_loaded_def s'_eq)
  from putentryat_pixels [OF fits this apart c r(3) j, of "color s'"]
  have "load32 (bytes (terminal_putentryat c (color s') (terminal_column s') (terminal_row s') s'))
      (terminal_buffer s + of_nat (4 * ((?C + r) * ?W + j))) = (if bit (bitmap_letters ! k ! (12 - r)) (7 - j) then color s else 0)"
    by (simp add: s'_eq uC top del: of_nat_mult of_nat_add)
  moreover have "unat (terminal_row s') + 12 < unat (fb_width s')" using w by (simp add: s'_eq top)
  moreover have "terminal_column s' < fb_height s"
    using C r(2) uC by (simp add: s'_eq word_less_nat_alt del: of_nat_mult)
  ultimately show ?thesis
    unfolding C by (simp add: putchar_within_line(1) mult.commute del: of_nat_mult of_nat_add)
qed

theorem last_line_overruns_witness:
  "load32 (bytes (terminal_putchar 65 ((new_line ^^ 1) (demo_tty 20)))) (0x1000 + of_nat (4 * (32 * 20 + 0))) = 0xFFFFFF"
proof -
  let ?s = "demo_tty 20"
  have "span 0x10000 1235 \<inter> span 0x1000 4224 = ({} :: u64 set)"
    unfolding Int_commute [of "span 0x10000 1235"] by (rule span_disjoint_no_wrap) simp_all
  then have f: "span (font ?s) 1235 \<inter> span (terminal_buffer ?s) (4 * ((unat (fb_height ?s) + 13) * unat (fb_width ?s))) = {}"
    by (simp add: demo_tty_def del: mem_span)
  have "terminal_column ((new_line ^^ 1) ?s) < fb_height ?s \<and>
    load32 (bytes (terminal_putchar 65 ((new_line ^^ 1) ?s)))
      (terminal_buffer ?s + of_nat (4 * (unat (fb_width ?s) * unat (fb_height ?s) + 0))) =
      (if bit (bitmap_letters ! 33 ! (12 - 4)) (7 - 0) then color ?s else 0)"
    by (rule last_line_overruns [OF _ _ _ _ _ _ _ demo_font f]) (simp_all add: demo_tty_def)
  then have "load32 (bytes (terminal_putchar 65 ((new_line ^^ 1) ?s)))
      (terminal_buffer ?s + of_nat (4 * (unat (fb_width ?s) * unat (fb_height ?s) + 0))) =
      (if bit (bitmap_letters ! 33 ! (12 - 4)) (7 - 0) then color ?s else 0)" by (rule conjunct2)
  moreover have "terminal_buffer ?s = 0x1000" "unat (fb_width ?s) = 32" "unat (fb_height ?s) = 20" "color ?s = 0xFFFFFF"
    by (simp_all add: demo_tty_def)
  ultimately show ?thesis by (simp only:) (simp add: bitmap_letters_def)
qed

end
