(* ===== verification/Printf.thy ===== *)
theory Printf
  imports Terminal "HOL-Library.Signed_Division"
begin

text \<open>
  \<open>libc/src/stdio\<close> as it is built for the kernel: \<open>putchar\<close> writes to the console, \<open>printf\<close> walks its
  format and converts numbers through the static buffer \<open>buf\<close>, \<open>puts\<close> and \<open>abort\<close> use it. The theory
  shows that a call of \<open>printf\<close> is the console's reaction to a text that a plain function computes from
  the format and the arguments, and what that text is for numbers.
\<close>

section \<open>Operations\<close>

record stdio_state = tty_state +
  buf :: "u8 list"

text \<open>The result of \<open>putchar\<close> is its argument.\<close>

definition putchar :: "u32 \<Rightarrow> 'a tty_state_scheme \<Rightarrow> u32 \<times> 'a tty_state_scheme" where
  "putchar ic s = (ic, terminal_emit (ucast ic) s)"

primrec print_loop :: "nat \<Rightarrow> u64 \<Rightarrow> 'a tty_state_scheme \<Rightarrow> bool \<times> 'a tty_state_scheme" where
  "print_loop 0 p s = (True, s)"
| "print_loop (Suc n) p s =
     (case putchar (ucast (load8 (bytes s) p)) s of
        (r, s') \<Rightarrow> if r = - 1 then (False, s') else print_loop n (p + 1) s')"

definition print :: "u64 \<Rightarrow> u64 \<Rightarrow> 'a tty_state_scheme \<Rightarrow> bool \<times> 'a tty_state_scheme" where
  "print data n s = print_loop (unat n) data s"

text \<open>The loops that fill \<open>buf\<close>, least significant digit first; division truncates, as in C.\<close>

function digit_loop :: "int \<Rightarrow> nat \<Rightarrow> u8 list \<Rightarrow> nat \<times> u8 list" where
  "digit_loop i j b = (if i \<noteq> 0 then digit_loop (i sdiv 10) (Suc j) (b[j := of_int (i smod 10 + 48)]) else (j, b))"
  by auto

lemma abs_sdiv_10: "i \<noteq> 0 \<Longrightarrow> nat \<bar>i sdiv 10\<bar> < nat \<bar>i\<bar>"
  using int_div_less_self [of i 10] int_div_less_self [of "- i" 10] by (auto simp: signed_divide_int_def sgn_if)

termination digit_loop
  by (relation "measure (\<lambda>(i, j, b). nat \<bar>i\<bar>)") (use abs_sdiv_10 in auto)

definition hex_char :: "u64 \<Rightarrow> u8" where
  "hex_char i = (let val = ucast (i mod 16) in if sint val < 10 then val + 48 else val + (65 - 10))"

function hex_loop :: "u64 \<Rightarrow> nat \<Rightarrow> u8 list \<Rightarrow> nat \<times> u8 list" where
  "hex_loop i j b = (if i \<noteq> 0 then hex_loop (i div 16) (Suc j) (b[j := hex_char i]) else (j, b))"
  by auto

lemma unat_div_16: "i \<noteq> 0 \<Longrightarrow> unat (i div 16) < unat i" for i :: u64
  by (simp add: unat_div word_eq_iff_unat)

termination hex_loop
  by (relation "measure (\<lambda>(i, j, b). unat i)") (use unat_div_16 in auto)

primrec emit_buf :: "nat \<Rightarrow> 'a stdio_state_scheme \<Rightarrow> 'a stdio_state_scheme" where
  "emit_buf 0 s = s"
| "emit_buf (Suc j) s = emit_buf j (snd (putchar (scast (buf s ! j)) s))"

text \<open>
  The conversions. Each gives the number it adds to \<open>written\<close>, or \<open>None\<close> for the early return of -1,
  and the state. \<open>maxrem\<close> is the room the return value has left.
\<close>

type_synonym 's conversion = "u32 option \<times> 's"

definition conv_c :: "u8 \<Rightarrow> u64 \<Rightarrow> 'a stdio_state_scheme \<Rightarrow> 'a stdio_state_scheme conversion" where
  "conv_c c maxrem s =
     (if maxrem = 0 then (None, s)
      else case putchar (ucast c) s of (r, s') \<Rightarrow> (if r = - 1 then None else Some 1, s'))"

definition conv_text :: "u64 \<Rightarrow> u64 \<Rightarrow> 'a stdio_state_scheme \<Rightarrow> 'a stdio_state_scheme conversion run" where
  "conv_text str maxrem s =
     (case strlen (bytes s) str of
        None \<Rightarrow> None
      | Some len \<Rightarrow>
          if maxrem < len then ret (None, s)
          else case print str len s of (ok, s') \<Rightarrow> ret (if ok then Some (ucast len) else None, s'))"

definition conv_int :: "int \<Rightarrow> u64 \<Rightarrow> 'a stdio_state_scheme \<Rightarrow> 'a stdio_state_scheme conversion" where
  "conv_int i maxrem s =
     (case (if i < 0 then (1, snd (putchar 45 s)) else (0, s)) of
        (w, s1) \<Rightarrow>
          if maxrem = 0 then (None, s1)
          else case digit_loop i 0 (buf s1) of
            (j, b) \<Rightarrow> (Some (w + of_nat j), (emit_buf j (s1\<lparr>buf := b\<rparr>))\<lparr>buf := replicate 32 0\<rparr>))"

definition conv_m :: "u64 \<Rightarrow> u64 \<Rightarrow> 'a stdio_state_scheme \<Rightarrow> 'a stdio_state_scheme conversion" where
  "conv_m i maxrem s =
     (if maxrem = 0 then (None, s)
      else case hex_loop i 0 (buf s) of
        (j, b) \<Rightarrow>
          let s1 = snd (putchar 48 (s\<lparr>buf := b\<rparr>));
              s2 = snd (putchar 120 s1)
          in (Some (of_nat j), (emit_buf j s2)\<lparr>buf := replicate 32 0\<rparr>))"

text \<open>The dispatch on the character after the percent sign; \<open>None\<close> is a character it does not know.\<close>

definition convert :: "u8 \<Rightarrow> u64 \<Rightarrow> u64 \<Rightarrow> 'a stdio_state_scheme \<Rightarrow> 'a stdio_state_scheme conversion run option" where
  "convert d arg maxrem s =
     (if d = 99 then Some (ret (conv_c (ucast arg) maxrem s))
      else if d = 115 then Some (conv_text arg maxrem s)
      else if d = 100 then Some (ret (conv_int (sint (ucast arg :: u32)) maxrem s))
      else if d = 108 then Some (ret (conv_int (sint arg) maxrem s))
      else if d = 109 then Some (ret (conv_m arg maxrem s))
      else None)"

partial_function (option) plain_len :: "mem \<Rightarrow> u64 \<Rightarrow> u64 \<Rightarrow> u64 option" where
  "plain_len m format amount =
     (if load8 m (format + amount) \<noteq> 0 \<and> load8 m (format + amount) \<noteq> 37
      then plain_len m format (amount + 1) else Some amount)"

text \<open>
  The loop of \<open>printf\<close>. \<open>args n\<close> is the \<open>n\<close>-th variadic argument, as a machine word; what lies behind the
  arguments that were passed is arbitrary, as on the machine.
\<close>

partial_function (option) printf_loop ::
  "(nat \<Rightarrow> u64) \<Rightarrow> u64 \<Rightarrow> u32 \<Rightarrow> nat \<Rightarrow> 'a stdio_state_scheme \<Rightarrow> (halt + (u32 \<times> 'a stdio_state_scheme)) option" where
  "printf_loop args format written a s =
     (if load8 (bytes s) format = 0 then ret (written, s)
      else
        let maxrem = scast (0x7FFFFFFF - written)
        in if load8 (bytes s) format \<noteq> 37 \<or> load8 (bytes s) (format + 1) = 37 then
             let format' = (if load8 (bytes s) format = 37 then format + 1 else format)
             in (case plain_len (bytes s) format' 1 of
                  None \<Rightarrow> None
                | Some amount \<Rightarrow>
                    if maxrem < amount then ret (- 1, s)
                    else (case print format' amount s of (ok, s') \<Rightarrow>
                      if \<not> ok then ret (- 1, s') else printf_loop args (format' + amount) (written + ucast amount) a s'))
           else
             (case convert (load8 (bytes s) (format + 1)) (args a) maxrem s of
                Some r \<Rightarrow>
                  run_bind r (\<lambda>(n, s').
                    case n of None \<Rightarrow> ret (- 1, s') | Some k \<Rightarrow> printf_loop args (format + 2) (written + k) (Suc a) s')
              | None \<Rightarrow>
                  (case strlen (bytes s) format of
                     None \<Rightarrow> None
                   | Some len \<Rightarrow>
                       if maxrem < len then ret (- 1, s)
                       else (case print format len s of (ok, s') \<Rightarrow>
                         if \<not> ok then ret (- 1, s') else printf_loop args (format + len) (written + ucast len) a s'))))"

definition printf :: "u64 \<Rightarrow> (nat \<Rightarrow> u64) \<Rightarrow> 'a stdio_state_scheme \<Rightarrow> (u32 \<times> 'a stdio_state_scheme) run" where
  "printf format args s = printf_loop args format 0 0 s"

text \<open>\<open>puts\<close> and \<open>abort\<close>; their format literals lie at addresses of the image.\<close>

definition puts :: "u64 \<Rightarrow> u64 \<Rightarrow> 'a stdio_state_scheme \<Rightarrow> (u32 \<times> 'a stdio_state_scheme) run" where
  "puts literal str s = printf literal (\<lambda>_. str) s"

definition abort_kernel :: "u64 \<Rightarrow> (nat \<Rightarrow> u64) \<Rightarrow> 'a stdio_state_scheme \<Rightarrow> 'a stdio_state_scheme run" where
  "abort_kernel literal stack s = run_bind (printf literal stack s) (\<lambda>_. stop Hcf)"

section \<open>The digit loops\<close>

text \<open>The digits a loop produces, least significant first.\<close>

function digits :: "int \<Rightarrow> u8 list" where
  "digits i = (if i \<noteq> 0 then of_int (i smod 10 + 48) # digits (i sdiv 10) else [])"
  by auto

termination digits
  by (relation "measure (\<lambda>i. nat \<bar>i\<bar>)") (use abs_sdiv_10 in auto)

function hex_digits :: "u64 \<Rightarrow> u8 list" where
  "hex_digits i = (if i \<noteq> 0 then hex_char i # hex_digits (i div 16) else [])"
  by auto

termination hex_digits
  by (relation "measure unat") (use unat_div_16 in auto)

declare digit_loop.simps [simp del] digits.simps [simp del] hex_loop.simps [simp del] hex_digits.simps [simp del]

lemma digits_0 [simp]: "digits 0 = []"
  by (simp add: digits.simps)

lemma hex_digits_0 [simp]: "hex_digits 0 = []"
  by (simp add: hex_digits.simps)

lemma splice_step:
  assumes "j < length b"
  shows "take (Suc j) (b[j := x]) @ ds @ drop (Suc j + n) (b[j := x]) = take j b @ (x # ds) @ drop (j + Suc n) b"
  using assms by (simp add: take_Suc_conv_app_nth drop_update_cancel)

lemma digit_loop_eq:
  "j + length (digits i) \<le> length b \<Longrightarrow>
     digit_loop i j b = (j + length (digits i), take j b @ digits i @ drop (j + length (digits i)) b)"
proof (induction i j b rule: digit_loop.induct)
  case (1 i j b)
  show ?case
  proof (cases "i = 0")
    case True
    then show ?thesis by (simp add: digit_loop.simps)
  next
    case False
    then have d: "digits i = of_int (i smod 10 + 48) # digits (i sdiv 10)" by (simp add: digits.simps [of i])
    with 1 False have "digit_loop (i sdiv 10) (Suc j) (b[j := of_int (i smod 10 + 48)]) =
        (Suc j + length (digits (i sdiv 10)), take (Suc j) (b[j := of_int (i smod 10 + 48)]) @ digits (i sdiv 10) @
           drop (Suc j + length (digits (i sdiv 10))) (b[j := of_int (i smod 10 + 48)]))"
      by simp
    moreover have "j < length b" using "1.prems" d by simp
    ultimately show ?thesis
      using False by (subst digit_loop.simps) (simp only: d splice_step, simp)
  qed
qed

lemma hex_loop_eq:
  "j + length (hex_digits i) \<le> length b \<Longrightarrow>
     hex_loop i j b = (j + length (hex_digits i), take j b @ hex_digits i @ drop (j + length (hex_digits i)) b)"
proof (induction i j b rule: hex_loop.induct)
  case (1 i j b)
  show ?case
  proof (cases "i = 0")
    case True
    then show ?thesis by (simp add: hex_loop.simps)
  next
    case False
    then have d: "hex_digits i = hex_char i # hex_digits (i div 16)" by (simp add: hex_digits.simps [of i])
    with 1 False have "hex_loop (i div 16) (Suc j) (b[j := hex_char i]) =
        (Suc j + length (hex_digits (i div 16)), take (Suc j) (b[j := hex_char i]) @ hex_digits (i div 16) @
           drop (Suc j + length (hex_digits (i div 16))) (b[j := hex_char i]))"
      by simp
    moreover have "j < length b" using "1.prems" d by simp
    ultimately show ?thesis
      using False by (subst hex_loop.simps) (simp only: d splice_step, simp)
  qed
qed

text \<open>How long the texts are: at most 20 decimal and 16 hexadecimal digits.\<close>

lemma digits_bound: "\<bar>i\<bar> < 10 ^ n \<Longrightarrow> length (digits i) \<le> n"
proof (induction n arbitrary: i)
  case (Suc n)
  show ?case
  proof (cases "i = 0")
    case False
    have "\<bar>i sdiv 10\<bar> = \<bar>i\<bar> div 10" by (simp add: signed_divide_int_def sgn_if abs_mult)
    then have "\<bar>i sdiv 10\<bar> < 10 ^ n" using Suc.prems by (simp add: div_less_iff_less_mult mult.commute)
    with Suc.IH False show ?thesis by (simp add: digits.simps [of i])
  qed simp
qed simp

lemma hex_digits_bound: "unat i < 16 ^ n \<Longrightarrow> length (hex_digits i) \<le> n"
proof (induction n arbitrary: i)
  case (Suc n)
  have "unat (i div 16) < 16 ^ n" using Suc.prems by (simp add: unat_div div_less_iff_less_mult mult.commute)
  with Suc.IH show ?case by (cases "i = 0") (simp_all add: hex_digits.simps [of i])
next
  case 0
  then show ?case by (simp add: unat_eq_0)
qed

section \<open>What printf writes\<close>

definition decimal :: "int \<Rightarrow> u8 list" where
  "decimal i = (if i < 0 then [45] else []) @ rev (digits i)"

definition hexadecimal :: "u64 \<Rightarrow> u8 list" where
  "hexadecimal i = [48, 120] @ rev (hex_digits i)"

text \<open>The text of a conversion; \<open>str\<close> is the string at the argument, for \<open>%s\<close>.\<close>

definition conv_out :: "u8 \<Rightarrow> u64 \<Rightarrow> u8 list \<Rightarrow> u8 list option" where
  "conv_out d arg str =
     (if d = 99 then Some [ucast arg]
      else if d = 115 then Some str
      else if d = 100 then Some (decimal (sint (ucast arg :: u32)))
      else if d = 108 then Some (decimal (sint arg))
      else if d = 109 then Some (hexadecimal arg)
      else None)"

text \<open>
  The text of a format, and the value \<open>printf\<close> returns for it: the length of the text, without the
  prefix \<open>0x\<close> of \<open>%m\<close>. \<open>strs n\<close> is the string at argument \<open>n\<close>.
\<close>

fun render :: "(nat \<Rightarrow> u64) \<Rightarrow> (nat \<Rightarrow> u8 list) \<Rightarrow> nat \<Rightarrow> u8 list \<Rightarrow> u8 list" where
  "render args strs a [] = []"
| "render args strs a [c] = [c]"
| "render args strs a (c # d # ds) =
     (if c \<noteq> 37 then c # render args strs a (d # ds)
      else if d = 37 then 37 # render args strs a ds
      else case conv_out d (args a) (strs a) of
             None \<Rightarrow> c # d # ds
           | Some t \<Rightarrow> t @ render args strs (Suc a) ds)"

fun render_count :: "(nat \<Rightarrow> u64) \<Rightarrow> (nat \<Rightarrow> u8 list) \<Rightarrow> nat \<Rightarrow> u8 list \<Rightarrow> nat" where
  "render_count args strs a [] = 0"
| "render_count args strs a [c] = 1"
| "render_count args strs a (c # d # ds) =
     (if c \<noteq> 37 then Suc (render_count args strs a (d # ds))
      else if d = 37 then Suc (render_count args strs a ds)
      else case conv_out d (args a) (strs a) of
             None \<Rightarrow> Suc (Suc (length ds))
           | Some t \<Rightarrow> (if d = 109 then length t - 2 else length t) + render_count args strs (Suc a) ds)"

text \<open>A string in memory that no drawing changes.\<close>

definition string_at :: "'a tty_state_scheme \<Rightarrow> u64 \<Rightarrow> u8 list \<Rightarrow> bool" where
  "string_at s p cs \<longleftrightarrow> cstr (bytes s) p cs \<and> (\<forall>i \<le> length cs. p + of_nat i \<notin> frame s)"

text \<open>Every argument that the format uses as a string is one.\<close>

fun strings_ok :: "'a tty_state_scheme \<Rightarrow> (nat \<Rightarrow> u64) \<Rightarrow> (nat \<Rightarrow> u8 list) \<Rightarrow> nat \<Rightarrow> u8 list \<Rightarrow> bool" where
  "strings_ok s args strs a [] \<longleftrightarrow> True"
| "strings_ok s args strs a [c] \<longleftrightarrow> True"
| "strings_ok s args strs a (c # d # ds) \<longleftrightarrow>
     (if c \<noteq> 37 then strings_ok s args strs a (d # ds)
      else if d = 37 then strings_ok s args strs a ds
      else if d = 115 then string_at s (args a) (strs a) \<and> strings_ok s args strs (Suc a) ds
      else strings_ok s args strs (Suc a) ds)"

subsection \<open>Printing text\<close>

lemma cstr_tail: "cstr m p (c # cs) \<Longrightarrow> cstr m (p + 1) cs"
  by simp

lemma string_at_tail:
  assumes "string_at s p (c # cs)" shows "string_at s (p + 1) cs"
proof -
  have "p + 1 + of_nat i \<notin> frame s" if "i \<le> length cs" for i
    using assms that unfolding string_at_def by (auto dest!: spec [of _ "Suc i"] simp: add.assoc simp del: mem_span)
  with assms show ?thesis unfolding string_at_def by (simp del: mem_span)
qed

lemma cstr_outside:
  assumes "\<And>a. a \<notin> frame s \<Longrightarrow> m a = bytes s a" "string_at s p cs"
  shows "cstr m p cs"
  using assms(2)
proof (induction cs arbitrary: p)
  case Nil
  then have "p \<notin> frame s" by (simp add: string_at_def del: mem_span)
  with Nil assms(1) show ?case by (simp add: string_at_def load8_def)
next
  case (Cons c cs)
  then have "p + of_nat 0 \<notin> frame s" unfolding string_at_def by blast
  with Cons assms(1) string_at_tail [OF Cons.prems] show ?case by (simp add: string_at_def load8_def)
qed

lemma string_at_keeps:
  assumes "keeps_frame s s'" "string_at s p cs"
  shows "string_at s' p cs"
proof -
  have "frame s' = frame s" using assms(1) by (simp add: keeps_frame_def frame_def)
  with assms cstr_outside [of s "bytes s'" p cs] show ?thesis
    by (simp add: string_at_def keeps_frame_def del: mem_span)
qed

lemma strings_ok_keeps: "keeps_frame s s' \<Longrightarrow> strings_ok s args strs a f \<Longrightarrow> strings_ok s' args strs a f"
  by (induction s args strs a f rule: strings_ok.induct) (auto simp: string_at_keeps split: if_splits)

lemma putchar_byte: "putchar (ucast (c :: u8)) s = (ucast c, terminal_emit c s)"
proof -
  have "ucast (ucast c :: u32) = c" by (rule bit_word_eqI) (auto simp: bit_simps)
  then show ?thesis by (simp add: putchar_def)
qed

lemma putchar_signed: "snd (putchar (scast (c :: u8)) s) = terminal_emit c s"
proof -
  have "ucast (scast c :: u32) = c" by (rule bit_word_eqI) (auto simp: bit_simps)
  then show ?thesis by (simp add: putchar_def)
qed

lemma byte_not_EOF: "ucast (c :: u8) \<noteq> (- 1 :: u32)"
proof
  assume "ucast c = (- 1 :: u32)"
  then have "bit (ucast c :: u32) 31" by simp
  then show False using bit_masked_high [of c 31] by (simp add: bit_ucast_iff)
qed

text \<open>Printing a prefix of a string.\<close>

lemma print_loop_text:
  "\<lbrakk>tty_wf s; string_at s p (cs @ ds)\<rbrakk> \<Longrightarrow> print_loop (length cs) p s = (True, fold terminal_emit cs s)"
proof (induction cs arbitrary: p s)
  case (Cons c cs)
  have b: "load8 (bytes s) p = c" using Cons.prems by (simp add: string_at_def)
  have k: "keeps_frame s (terminal_emit c s)" by (rule terminal_emit_keeps [OF Cons.prems(1)])
  have "string_at (terminal_emit c s) (p + 1) (cs @ ds)"
    using Cons.prems(2) by (intro string_at_keeps [OF k] string_at_tail [where c = c]) simp
  moreover have "tty_wf (terminal_emit c s)" using k by (simp add: keeps_frame_def)
  ultimately have "print_loop (length cs) (p + 1) (terminal_emit c s) = (True, fold terminal_emit cs (terminal_emit c s))"
    by (rule Cons.IH [rotated])
  then show ?case by (simp add: b putchar_byte byte_not_EOF)
qed simp

lemma print_text:
  assumes "tty_wf s" "string_at s p (cs @ ds)" "length cs < 18446744073709551616"
  shows "print p (of_nat (length cs)) s = (True, fold terminal_emit cs s)"
  using print_loop_text [OF assms(1,2)] assms(3) by (simp add: print_def unat_of_nat_u64)

lemma plain_len_run:
  "cstr m format (pre @ f) \<Longrightarrow> plain_len m format (of_nat (length pre)) = Some (of_nat (length pre + length (takeWhile (\<lambda>c. c \<noteq> 37) f)))"
proof (induction f arbitrary: pre)
  case Nil
  have "cstr m p (pre @ []) \<Longrightarrow> load8 m (p + of_nat (length pre)) = 0" for p
    by (induction pre arbitrary: p) (auto simp: add.assoc [symmetric])
  with Nil show ?case by (subst plain_len.simps) simp
next
  case (Cons c cs)
  have at: "cstr m p (pre @ c # cs) \<Longrightarrow> load8 m (p + of_nat (length pre)) = c \<and> c \<noteq> 0" for p
    by (induction pre arbitrary: p) (auto simp: add.assoc [symmetric])
  have "plain_len m format (of_nat (length (pre @ [c]))) =
      Some (of_nat (length (pre @ [c]) + length (takeWhile (\<lambda>c. c \<noteq> 37) cs)))" if "c \<noteq> 37"
    by (rule Cons.IH) (use Cons.prems in simp)
  with at [OF Cons.prems] show ?case
    by (subst plain_len.simps) (auto simp: algebra_simps)
qed

subsection \<open>Conversions\<close>

lemma new_line_buf: "new_line (s\<lparr>buf := b\<rparr>) = (new_line s)\<lparr>buf := b\<rparr>"
  by (simp add: new_line_def scrollOverflow_def scroll_def)

lemma putchar_buf: "terminal_putchar c (s\<lparr>buf := b\<rparr>) = (terminal_putchar c s)\<lparr>buf := b\<rparr>"
proof -
  have put: "terminal_putentryat c col x y (s\<lparr>buf := b\<rparr>) = (terminal_putentryat c col x y s)\<lparr>buf := b\<rparr>" for col x y
    by (simp add: terminal_putentryat_def get_char_bitmap_def Let_def del: upt_rec_numeral)
  have "new_line (t\<lparr>buf := b, terminal_row := r\<rparr>) = (new_line (t\<lparr>terminal_row := r\<rparr>))\<lparr>buf := b\<rparr>" for t :: "'a stdio_state_scheme" and r
  proof -
    have "t\<lparr>buf := b, terminal_row := r\<rparr> = t\<lparr>terminal_row := r\<rparr>\<lparr>buf := b\<rparr>" by (cases t) simp
    then show ?thesis by (simp only: new_line_buf)
  qed
  then show ?thesis
    by (simp add: terminal_putchar_def put Let_def row_at_height_def)
qed

lemma emit_buf_update [simp]: "terminal_emit c (s\<lparr>buf := b\<rparr>) = (terminal_emit c s)\<lparr>buf := b\<rparr>"
  by (simp add: terminal_emit_def new_line_buf putchar_buf)

lemma emit_all_buf_update: "fold terminal_emit cs (s\<lparr>buf := b\<rparr>) = (fold terminal_emit cs s)\<lparr>buf := b\<rparr>"
  by (induction cs arbitrary: s) simp_all

lemma emit_buf_kept [simp]: "buf (terminal_emit c s) = buf s"
  by (simp add: terminal_emit_def new_line_def scrollOverflow_def scroll_def terminal_putchar_def row_at_height_def
      terminal_putentryat_def Let_def del: upt_rec_numeral)

lemma emit_all_buf [simp]: "buf (fold terminal_emit cs s) = buf s"
  by (induction cs arbitrary: s) simp_all

lemma emit_buf_text:
  "take (length ds) (buf s) = ds \<Longrightarrow> length ds \<le> length (buf s) \<Longrightarrow> emit_buf (length ds) s = fold terminal_emit (rev ds) s"
proof (induction ds arbitrary: s rule: rev_induct)
  case (snoc d ds)
  have "buf s ! length ds = d" "take (length ds) (buf s) = ds"
    using snoc.prems by (simp_all add: take_Suc_conv_app_nth)
  with snoc show ?case by (simp add: putchar_signed)
qed simp

lemma buf_same: "buf t = b \<Longrightarrow> t\<lparr>buf := b\<rparr> = t"
  by (cases t) simp

lemma conv_int_text:
  assumes "\<bar>i\<bar> < 10 ^ 20" "maxrem \<noteq> 0" "buf s = replicate 32 0"
  shows "conv_int i maxrem s = (Some (of_nat (length (decimal i))), fold terminal_emit (decimal i) s)"
proof -
  let ?s = "if i < 0 then terminal_emit 45 s else s" and ?ds = "digits i"
  have len: "length ?ds \<le> 20" by (rule digits_bound [OF assms(1)])
  let ?b = "?ds @ drop (length ?ds) (buf s)"
  have loop: "digit_loop i 0 (buf s) = (length ?ds, ?b)"
    using digit_loop_eq [of 0 i "buf s"] len assms(3) by simp
  have emit: "emit_buf (length ?ds) (?s\<lparr>buf := ?b\<rparr>) = (fold terminal_emit (rev ?ds) ?s)\<lparr>buf := ?b\<rparr>"
    by (subst emit_buf_text) (simp_all add: emit_all_buf_update)
  have reset: "(fold terminal_emit cs ?s)\<lparr>buf := replicate 32 0\<rparr> = fold terminal_emit cs ?s" for cs
    by (rule buf_same) (simp add: assms(3))
  show ?thesis
    using emit reset loop assms(2) putchar_byte [of 45 s]
    by (cases "i < 0") (simp_all add: conv_int_def decimal_def)
qed

lemma conv_m_text:
  assumes "maxrem \<noteq> 0" "buf s = replicate 32 0"
  shows "conv_m i maxrem s = (Some (of_nat (length (hexadecimal i) - 2)), fold terminal_emit (hexadecimal i) s)"
proof -
  let ?s = "terminal_emit 120 (terminal_emit 48 s)" and ?ds = "hex_digits i"
  have len: "length ?ds \<le> 16" using unat_u64_lt [of i] by (intro hex_digits_bound) simp
  let ?b = "?ds @ drop (length ?ds) (buf s)"
  have loop: "hex_loop i 0 (buf s) = (length ?ds, ?b)"
    using hex_loop_eq [of 0 i "buf s"] len assms(2) by simp
  have emit: "emit_buf (length ?ds) (?s\<lparr>buf := ?b\<rparr>) = (fold terminal_emit (rev ?ds) ?s)\<lparr>buf := ?b\<rparr>"
    by (subst emit_buf_text) (simp_all add: emit_all_buf_update)
  have reset: "(fold terminal_emit cs ?s)\<lparr>buf := replicate 32 0\<rparr> = fold terminal_emit cs ?s" for cs
    by (rule buf_same) (simp add: assms(2))
  show ?thesis
    using emit reset loop assms(1)
    by (simp add: conv_m_def hexadecimal_def putchar_byte [of 48, simplified] putchar_byte [of 120, simplified])
qed

lemma sint_lt_pow:
  "\<bar>sint (w :: u64)\<bar> < 10 ^ 20" "\<bar>sint (v :: u32)\<bar> < 10 ^ 20"
  using sint_ge [of w] sint_lt [of w] sint_ge [of v] sint_lt [of v] by (simp_all add: abs_less_iff)

lemma convert_out:
  assumes out: "conv_out d arg str = Some t" and wf: "tty_wf s" and str: "d = 115 \<Longrightarrow> string_at s arg str"
    and room: "length t < unat maxrem" "unat maxrem < 2147483648" and buf: "buf s = replicate 32 0"
  shows "convert d arg maxrem s = Some (ret (Some (of_nat (if d = 109 then length t - 2 else length t)), fold terminal_emit t s))"
proof -
  have m: "maxrem \<noteq> 0" using room by (auto simp: unat_eq_0)
  consider "d = 99" | "d = 115" | "d = 100" | "d = 108" | "d = 109"
    using out by (auto simp: conv_out_def split: if_splits)
  then show ?thesis
  proof cases
    case 1
    with out m show ?thesis
      by (auto simp: convert_def conv_out_def conv_c_def putchar_byte byte_not_EOF)
  next
    case 2
    then have t: "t = str" using out by (simp add: conv_out_def)
    have len: "length str < 18446744073709551616" using room t by simp
    have "strlen (bytes s) arg = Some (of_nat (length str))"
      using str 2 by (intro strlen_cstr) (simp add: string_at_def)
    moreover have "\<not> maxrem < of_nat (length str)"
      using room t len by (simp add: word_less_nat_alt unat_of_nat_u64)
    moreover have "print arg (of_nat (length str)) s = (True, fold terminal_emit str s)"
      using print_text [OF wf, of arg str "[]"] str 2 len by simp
    moreover have "(ucast (of_nat (length str) :: u64) :: u32) = of_nat (length str)"
      by (rule bit_word_eqI) (auto simp: bit_simps)
    ultimately show ?thesis using 2 t by (simp add: convert_def conv_text_def)
  next
    case 3
    then have "t = decimal (sint (ucast arg :: u32))" using out by (simp add: conv_out_def)
    with 3 conv_int_text [OF sint_lt_pow(2) m buf] show ?thesis by (simp add: convert_def)
  next
    case 4
    then have "t = decimal (sint arg)" using out by (simp add: conv_out_def)
    with 4 conv_int_text [OF sint_lt_pow(1) m buf] show ?thesis by (simp add: convert_def)
  next
    case 5
    then have "t = hexadecimal arg" using out by (simp add: conv_out_def)
    with 5 conv_m_text [OF m buf] show ?thesis by (simp add: convert_def)
  qed
qed

lemma convert_unknown: "conv_out d arg str = None \<Longrightarrow> convert d arg maxrem s = None"
  by (auto simp: conv_out_def convert_def split: if_splits)

subsection \<open>The format\<close>

lemma render_literal:
  "c \<noteq> 37 \<Longrightarrow> render args strs a (c # cs) = c # render args strs a cs"
  "c \<noteq> 37 \<Longrightarrow> render_count args strs a (c # cs) = Suc (render_count args strs a cs)"
  "c \<noteq> 37 \<Longrightarrow> strings_ok s args strs a (c # cs) = strings_ok s args strs a cs"
  by (cases cs; simp)+

lemma render_run:
  "takeWhile (\<lambda>c. c \<noteq> 37) f @ render args strs a (dropWhile (\<lambda>c. c \<noteq> 37) f) = render args strs a f"
  "length (takeWhile (\<lambda>c. c \<noteq> 37) f) + render_count args strs a (dropWhile (\<lambda>c. c \<noteq> 37) f) = render_count args strs a f"
  "strings_ok s args strs a (dropWhile (\<lambda>c. c \<noteq> 37) f) = strings_ok s args strs a f"
  by (induction f) (auto simp: render_literal)

lemma render_count_le: "render_count args strs a f \<le> length (render args strs a f)"
  by (induction args strs a f rule: render.induct) (auto split: option.splits)

lemma string_at_drop: "string_at s p (cs @ ds) \<Longrightarrow> string_at s (p + of_nat (length cs)) ds"
proof (induction cs arbitrary: p)
  case (Cons c cs)
  then have "string_at s (p + 1) (cs @ ds)" by (intro string_at_tail [where c = c]) simp
  from Cons.IH [OF this] show ?case by (simp add: algebra_simps)
qed simp

lemma string_at_nil: "string_at s p [] \<Longrightarrow> load8 (bytes s) p = 0"
  by (simp add: string_at_def)

lemma string_at_cons: "string_at s p (c # cs) \<Longrightarrow> load8 (bytes s) p = c \<and> c \<noteq> 0"
  by (simp add: string_at_def)

lemma maxrem_eq:
  fixes written :: u32
  assumes "unat written \<le> 2147483647"
  shows "unat (scast (0x7FFFFFFF - written) :: u64) = 2147483647 - unat written"
proof -
  let ?r = "0x7FFFFFFF - written"
  have r: "unat ?r = 2147483647 - unat written"
    using assms by (subst unat_sub_no_wrap) simp_all
  have "?r = of_nat (2147483647 - unat written)"
    using r by (metis of_nat_unat ucast_id)
  then have "sint ?r = int (2147483647 - unat written)"
    by (simp only: signed_of_nat) (simp add: signed_take_bit_int_eq_self)
  then have "(scast ?r :: u64) = of_nat (2147483647 - unat written)"
    by (simp add: scast_eq)
  then show ?thesis by (simp add: unat_of_nat_u64 del: of_nat_diff)
qed

lemma ucast_of_nat_u32: "(ucast (of_nat n :: u64) :: u32) = of_nat n"
  by (rule bit_word_eqI) (auto simp: bit_simps)

lemma printf_end: "string_at s p [] \<Longrightarrow> printf_loop args p written a s = ret (written, s)"
  by (subst printf_loop.simps) (simp add: string_at_nil)

text \<open>The two ways the loop prints characters of the format itself.\<close>

lemma printf_plain:
  assumes wf: "tty_wf s" and str: "string_at s p (x # rest)"
    and first: "load8 (bytes s) q \<noteq> 0" "load8 (bytes s) q \<noteq> 37 \<and> p = q \<or> load8 (bytes s) q = 37 \<and> load8 (bytes s) (q + 1) = 37 \<and> p = q + 1"
    and run: "txt = x # takeWhile (\<lambda>c. c \<noteq> 37) rest"
    and room: "unat written + length txt \<le> 2147483647"
  shows "printf_loop args q written a s =
    printf_loop args (p + of_nat (length txt)) (written + of_nat (length txt)) a (fold terminal_emit txt s)"
proof -
  have split: "x # rest = txt @ dropWhile (\<lambda>c. c \<noteq> 37) rest" using run by simp
  have "plain_len (bytes s) p (of_nat (length [x])) = Some (of_nat (length [x] + length (takeWhile (\<lambda>c. c \<noteq> 37) rest)))"
    by (rule plain_len_run) (use str in \<open>simp add: string_at_def\<close>)
  then have len: "plain_len (bytes s) p 1 = Some (of_nat (length txt))" using run by simp
  have small: "length txt < 18446744073709551616" using room by simp
  have pr: "print p (of_nat (length txt)) s = (True, fold terminal_emit txt s)"
    using str split small by (intro print_text [OF wf]) simp_all
  have rem: "\<not> scast (0x7FFFFFFF - written) < (of_nat (length txt) :: u64)"
    using room small by (simp add: word_less_nat_alt maxrem_eq unat_of_nat_u64)
  have cast: "(ucast (of_nat (length txt) :: u64) :: u32) = of_nat (length txt)"
    by (rule ucast_of_nat_u32)
  show ?thesis
    using first len rem pr cast by (subst printf_loop.simps) (auto simp: Let_def)
qed

lemma printf_unknown:
  assumes wf: "tty_wf s" and str: "string_at s p (37 # cs)" and next_char: "load8 (bytes s) (p + 1) \<noteq> 37"
    and none: "convert (load8 (bytes s) (p + 1)) (args a) (scast (0x7FFFFFFF - written)) s = None"
    and room: "unat written + length (37 # cs) \<le> 2147483647"
  shows "printf_loop args p written a s = ret (written + of_nat (length (37 # cs)), fold terminal_emit (37 # cs) s)"
proof -
  let ?f = "(37 :: u8) # cs"
  have small: "length ?f < 18446744073709551616" using room by simp
  have len: "strlen (bytes s) p = Some (of_nat (length ?f))"
    using str by (intro strlen_cstr) (simp add: string_at_def)
  have pr: "print p (of_nat (length ?f)) s = (True, fold terminal_emit ?f s)"
    using print_text [OF wf, of p ?f "[]"] str small by simp
  have rem: "\<not> scast (0x7FFFFFFF - written) < (of_nat (length ?f) :: u64)"
    unfolding word_less_nat_alt unat_of_nat_u64 [OF small] using room by (subst maxrem_eq) simp_all
  have cast: "(ucast (of_nat (length ?f) :: u64) :: u32) = of_nat (length ?f)"
    by (rule ucast_of_nat_u32)
  have "string_at s (p + of_nat (length ?f)) []" using string_at_drop [of s p ?f "[]"] str by simp
  then have fin: "string_at (fold terminal_emit ?f s) (p + of_nat (length ?f)) []"
    by (rule string_at_keeps [OF emit_all_keeps [OF wf]])
  have "load8 (bytes s) p = 37" using string_at_cons [OF str] by simp
  then show ?thesis
    by (subst printf_loop.simps)
      (simp only: next_char none len rem pr cast printf_end [OF fin] Let_def option.case prod.case if_False if_True simp_thms, simp)
qed

lemma printf_conversion:
  assumes wf: "tty_wf s" and str: "string_at s p (37 # d # ds)" and d: "d \<noteq> 37"
    and out: "conv_out d (args a) (strs a) = Some t" and sok: "d = 115 \<Longrightarrow> string_at s (args a) (strs a)"
    and room: "unat written + length t < 2147483647" and buf: "buf s = replicate 32 0"
  shows "printf_loop args p written a s =
    printf_loop args (p + 2) (written + of_nat (if d = 109 then length t - 2 else length t)) (Suc a) (fold terminal_emit t s)"
proof -
  have "load8 (bytes s) p = 37" "load8 (bytes s) (p + 1) = d"
    using string_at_cons [OF str] string_at_cons [OF string_at_tail [OF str]] by simp_all
  moreover have "convert d (args a) (scast (0x7FFFFFFF - written)) s =
      Some (ret (Some (of_nat (if d = 109 then length t - 2 else length t)), fold terminal_emit t s))"
    by (rule convert_out [OF out wf sok _ _ buf]) (use room in \<open>simp_all add: maxrem_eq\<close>)
  ultimately show ?thesis
    using d by (subst printf_loop.simps) (simp add: Let_def)
qed

text \<open>
  The whole loop, by induction over the length of the format: what holds for every shorter format carries over a piece of text
  that was printed, whether it was taken from the format or came out of a conversion.
\<close>

definition loop_renders :: "(nat \<Rightarrow> u64) \<Rightarrow> (nat \<Rightarrow> u8 list) \<Rightarrow> u8 list \<Rightarrow> 'a stdio_state_scheme \<Rightarrow> bool" where
  "loop_renders args strs f s \<longleftrightarrow> (\<forall>p written a. tty_wf s \<longrightarrow> buf s = replicate 32 0 \<longrightarrow> string_at s p f \<longrightarrow>
     strings_ok s args strs a f \<longrightarrow> unat written + length (render args strs a f) < 2147483647 \<longrightarrow>
     printf_loop args p written a s = ret (written + of_nat (render_count args strs a f), fold terminal_emit (render args strs a f) s))"

lemma loop_after_text:
  fixes s :: "'a stdio_state_scheme"
  assumes ih: "\<And>s' :: 'a stdio_state_scheme. loop_renders args strs g s'" and wf: "tty_wf s" and buf: "buf s = replicate 32 0"
    and g: "string_at s q g" "strings_ok s args strs a g"
    and k: "k \<le> length t" and room: "unat written + length (t @ render args strs a g) < 2147483647"
  shows "printf_loop args q (written + of_nat k) a (fold terminal_emit t s) =
    ret (written + of_nat (k + render_count args strs a g), fold terminal_emit (t @ render args strs a g) s)"
proof -
  note keep = emit_all_keeps [OF wf, of t]
  have "unat (of_nat k :: u32) = k" using k room by (intro unat_of_nat_small) simp
  then have w: "unat (written + of_nat k) = unat written + k"
    using k room by (subst unat_add_no_wrap) simp_all
  have "printf_loop args q (written + of_nat k) a (fold terminal_emit t s) =
    ret (written + of_nat k + of_nat (render_count args strs a g), fold terminal_emit (render args strs a g) (fold terminal_emit t s))"
    by (intro ih [unfolded loop_renders_def, rule_format] string_at_keeps [OF keep] strings_ok_keeps [OF keep])
      (use keep g k room w buf in \<open>simp_all add: keeps_frame_def\<close>)
  then show ?thesis by (simp add: algebra_simps)
qed

lemma loop_plain_text:
  fixes s :: "'a stdio_state_scheme"
  assumes ih: "\<And>g (s' :: 'a stdio_state_scheme). length g < length f \<Longrightarrow> loop_renders args strs g s'" and wf: "tty_wf s" and buf: "buf s = replicate 32 0"
    and str: "string_at s q (x # rest)"
    and first: "load8 (bytes s) p \<noteq> 0" "load8 (bytes s) p \<noteq> 37 \<and> q = p \<or> load8 (bytes s) p = 37 \<and> load8 (bytes s) (p + 1) = 37 \<and> q = p + 1"
    and f: "length (x # rest) \<le> length f" "render args strs a f = x # render args strs a rest"
      "render_count args strs a f = Suc (render_count args strs a rest)" "strings_ok s args strs a rest"
    and room: "unat written + length (render args strs a f) < 2147483647"
  shows "printf_loop args p written a s = ret (written + of_nat (render_count args strs a f), fold terminal_emit (render args strs a f) s)"
proof -
  let ?P = "\<lambda>c :: u8. c \<noteq> 37"
  let ?t = "x # takeWhile ?P rest" and ?g = "dropWhile ?P rest"
  have R: "render args strs a f = ?t @ render args strs a ?g" "render_count args strs a f = length ?t + render_count args strs a ?g"
    using f(2,3) render_run(1,2) [of rest args strs a] by simp_all
  have "length ?g < length f" using f(1) length_dropWhile_le [of ?P rest] by simp
  moreover have "string_at s (q + of_nat (length ?t)) ?g"
    using string_at_drop [of s q ?t ?g] str by simp
  moreover have "strings_ok s args strs a ?g" using f(4) by (simp add: render_run)
  ultimately have "printf_loop args (q + of_nat (length ?t)) (written + of_nat (length ?t)) a (fold terminal_emit ?t s) =
      ret (written + of_nat (render_count args strs a f), fold terminal_emit (render args strs a f) s)"
    unfolding R using room R by (intro loop_after_text [OF ih wf buf]) simp_all
  moreover have "unat written + length ?t \<le> 2147483647" using room R by simp
  ultimately show ?thesis
    using printf_plain [OF wf str first refl, of written args a] by simp
qed

lemma loop_conversion:
  fixes s :: "'a stdio_state_scheme"
  assumes ih: "\<And>g (s' :: 'a stdio_state_scheme). length g < length f \<Longrightarrow> loop_renders args strs g s'" and wf: "tty_wf s" and buf: "buf s = replicate 32 0"
    and f: "f = 37 # d # ds" "d \<noteq> 37" and out: "conv_out d (args a) (strs a) = Some t"
    and str: "string_at s p f" and sok: "strings_ok s args strs a f"
    and room: "unat written + length (render args strs a f) < 2147483647"
  shows "printf_loop args p written a s = ret (written + of_nat (render_count args strs a f), fold terminal_emit (render args strs a f) s)"
proof -
  let ?k = "if d = 109 then length t - 2 else length t"
  have R: "render args strs a f = t @ render args strs (Suc a) ds" "render_count args strs a f = ?k + render_count args strs (Suc a) ds"
    using f out by simp_all
  have s115: "string_at s (args a) (strs a)" if "d = 115" using sok f that by simp
  have sok': "strings_ok s args strs (Suc a) ds" using sok f by (simp split: if_splits)
  have "string_at s (p + 2) ds" using string_at_drop [of s p "[37, d]" ds] str f by simp
  with sok' have "printf_loop args (p + 2) (written + of_nat ?k) (Suc a) (fold terminal_emit t s) =
      ret (written + of_nat (render_count args strs a f), fold terminal_emit (render args strs a f) s)"
    unfolding R using room R f by (intro loop_after_text [OF ih wf buf]) simp_all
  moreover have "printf_loop args p written a s =
      printf_loop args (p + 2) (written + of_nat ?k) (Suc a) (fold terminal_emit t s)"
    by (rule printf_conversion [where strs = strs and args = args and a = a, OF wf _ f(2) out s115 _ buf]) (use str f room R in simp_all)
  ultimately show ?thesis by simp
qed

lemma loop_percent:
  fixes s :: "'a stdio_state_scheme"
  assumes ih: "\<And>g (s' :: 'a stdio_state_scheme). length g < length f \<Longrightarrow> loop_renders args strs g s'" and wf: "tty_wf s" and buf: "buf s = replicate 32 0"
    and f: "f = 37 # cs" and str: "string_at s p f" and sok: "strings_ok s args strs a f"
    and room: "unat written + length (render args strs a f) < 2147483647"
  shows "printf_loop args p written a s = ret (written + of_nat (render_count args strs a f), fold terminal_emit (render args strs a f) s)"
proof (cases cs)
  case Nil
  have "load8 (bytes s) (p + 1) = 0"
    using string_at_nil string_at_tail str f Nil by blast
  then have "printf_loop args p written a s = ret (written + of_nat (length [37 :: u8]), fold terminal_emit [37] s)"
    using str room f Nil by (intro printf_unknown [OF wf]) (simp_all add: convert_def)
  with f Nil show ?thesis by simp
next
  case (Cons d ds)
  note f = f [unfolded Cons]
  have str2: "string_at s (p + 1) (d # ds)" using str f string_at_tail by blast
  then have d: "load8 (bytes s) (p + 1) = d" using string_at_cons by blast
  have p: "load8 (bytes s) p = 37" using string_at_cons str f by blast
  show ?thesis
  proof (cases "d = 37")
    case True
    with f str2 sok room p d show ?thesis
      by (intro loop_plain_text [OF ih wf buf, of f "p + 1" d ds]) simp_all
  next
    case False
    show ?thesis
    proof (cases "conv_out d (args a) (strs a)")
      case None
      then have "printf_loop args p written a s = ret (written + of_nat (length (37 # d # ds)), fold terminal_emit (37 # d # ds) s)"
        using str room f False d by (intro printf_unknown [OF wf]) (simp_all add: convert_unknown)
      with f False None show ?thesis by simp
    next
      case (Some t)
      then show ?thesis by (intro loop_conversion [OF ih wf buf f False _ str sok room])
    qed
  qed
qed

lemma loop_renders_all:
  fixes s :: "'a stdio_state_scheme"
  shows "loop_renders args strs f s"
proof (induction f arbitrary: s rule: length_induct)
  case (1 f)
  then have ih: "loop_renders args strs g s'" if "length g < length f" for g and s' :: "'a stdio_state_scheme" using that by blast
  show ?case
    unfolding loop_renders_def
  proof (intro allI impI)
    fix p a and written :: u32
    assume wf: "tty_wf s" and buf: "buf s = replicate 32 0" and str: "string_at s p f"
      and sok: "strings_ok s args strs a f" and room: "unat written + length (render args strs a f) < 2147483647"
    show "printf_loop args p written a s = ret (written + of_nat (render_count args strs a f), fold terminal_emit (render args strs a f) s)"
    proof (cases f)
      case Nil
      with str show ?thesis by (simp add: printf_end)
    next
      case (Cons c cs)
      have c: "load8 (bytes s) p = c" "c \<noteq> 0" using string_at_cons str Cons by blast+
      show ?thesis
      proof (cases "c = 37")
        case True
        then show ?thesis using Cons by (intro loop_percent [OF ih wf buf _ str sok room]) simp_all
      next
        case False
        with Cons str sok room c show ?thesis
          by (intro loop_plain_text [OF ih wf buf, of f p c cs]) (simp_all add: render_literal)
      qed
    qed
  qed
qed

lemmas printf_loop_renders = loop_renders_all [unfolded loop_renders_def, rule_format]

section \<open>Numbers\<close>

definition num_value :: "u8 list \<Rightarrow> nat" where
  "num_value cs = foldl (\<lambda>v c. 10 * v + (unat c - 48)) 0 cs"

lemma num_value_snoc: "num_value (cs @ [c]) = 10 * num_value cs + (unat c - 48)"
  by (simp add: num_value_def)

lemma digit_char:
  assumes "0 \<le> k" "k < (10 :: int)"
  shows "unat (of_int (k + 48) :: u8) = nat k + 48"
proof -
  have "(of_int (k + 48) :: u8) = of_nat (nat k + 48)" using assms(1) by simp
  also have "unat \<dots> = nat k + 48" using assms by (intro unat_of_nat_small) auto
  finally show ?thesis .
qed

text \<open>For a number that is not negative, truncating division is the mathematical one.\<close>

lemma digits_nonneg: "0 < i \<Longrightarrow> digits i = of_int (i mod 10 + 48) # digits (i div 10)"
  by (simp add: digits.simps [of i] signed_divide_int_def signed_modulo_int_def minus_div_mult_eq_mod)

lemma digits_read:
  "0 < i \<Longrightarrow> num_value (rev (digits i)) = nat i \<and> (\<forall>c \<in> set (digits i). 48 \<le> unat c \<and> unat c \<le> 57) \<and>
     digits i \<noteq> [] \<and> last (digits i) \<noteq> 48"
proof (induction "nat i" arbitrary: i rule: less_induct)
  case less
  have d: "digits i = of_int (i mod 10 + 48) # digits (i div 10)" using less.prems by (rule digits_nonneg)
  have c: "unat (of_int (i mod 10 + 48) :: u8) = nat (i mod 10) + 48" by (rule digit_char) simp_all
  have small: "nat (i mod 10) < 10" by simp
  show ?case
  proof (cases "i div 10 = 0")
    case True
    then have "i mod 10 = i" using less.prems by (metis add.left_neutral mult_div_mod_eq mult_zero_right)
    with True d c small less.prems show ?thesis
      by (auto simp: num_value_def)
  next
    case False
    then have pos: "0 < i div 10" using less.prems by (simp add: pos_imp_zdiv_pos_iff)
    have "nat (i div 10) < nat i" using less.prems by simp
    note IH = less.hyps [OF this pos]
    have "10 * nat (i div 10) + nat (i mod 10) = nat i"
      using less.prems by (simp add: nat_mult_distrib [symmetric] nat_add_distrib [symmetric] flip: nat_numeral)
    with IH d c small show ?thesis
      by (simp add: num_value_snoc)
  qed
qed

section \<open>Properties\<close>

text \<open>
  C11: \<open>printf\<close> returns for every format in memory and writes exactly the text that \<open>render\<close> computes for it:
  the characters of the format with each known conversion replaced by the text of its argument, and from
  an unknown one on the rest of the format as it is. On a screen in order, with the format and the strings it
  refers to outside the frame buffer and \<open>buf\<close> cleared, the state afterwards is the one the console reaches
  by taking these characters one by one; \<open>buf\<close> is cleared again, and the result is their number without
  the prefixes of \<open>%m\<close>.
\<close>

theorem printf_renders:
  assumes "tty_wf s" "buf s = replicate 32 0" "string_at s format f" "strings_ok s args strs 0 f"
    and "length (render args strs 0 f) < 2147483647"
  shows "printf format args s = ret (of_nat (render_count args strs 0 f), fold terminal_emit (render args strs 0 f) s)"
  using printf_loop_renders [OF assms(1-4), of 0] assms(5) by (simp add: printf_def)

text \<open>
  C30: Positive numbers are printed in decimal notation. For \<open>%d\<close> with a positive 32-bit value, and for \<open>%l\<close> with a positive 64-bit
  value, the conversion that \<open>printf\<close> runs draws characters that are digits without a leading zero, at least one and at most 20, and that
  read back are the value; it reports their number, leaves the static buffer blank and changes the console in no other way.
\<close>

theorem decimal_reads_back:
  assumes d: "d = 100 \<and> i = sint (ucast arg :: u32) \<or> d = 108 \<and> i = sint arg" and i: "0 < i"
    and room: "maxrem \<noteq> 0" and buf: "buf s = replicate 32 0"
  shows "\<exists>cs. convert d arg maxrem s = Some (ret (Some (of_nat (length cs)), fold terminal_emit cs s)) \<and>
    num_value cs = nat i \<and> (\<forall>c \<in> set cs. 48 \<le> unat c \<and> unat c \<le> 57) \<and> cs \<noteq> [] \<and> hd cs \<noteq> 48 \<and> length cs \<le> 20"
proof -
  have lt: "\<bar>i\<bar> < 10 ^ 20" using d sint_lt_pow by auto
  have "convert d arg maxrem s = Some (ret (conv_int i maxrem s))" using d by (auto simp: convert_def)
  moreover have "length (digits i) \<le> 20" by (rule digits_bound [OF lt])
  ultimately show ?thesis
    using digits_read [OF i] i conv_int_text [OF lt room buf] by (intro exI [of _ "decimal i"]) (simp add: decimal_def hd_rev)
qed

lemma decimal_zero: "decimal 0 = []"
  by (simp add: decimal_def)

lemma decimal_negative: "decimal (- 15) = [45, 47, 43]"
  by (simp add: decimal_def digits.simps signed_divide_int_def signed_modulo_int_def)

text \<open>A screen with the format \<open>"%d!"\<close> in memory.\<close>

definition demo_stdio :: stdio_state where
  "demo_stdio =
     \<lparr>bytes = (\<lambda>a. 0)(0x20000 := 37, 0x20001 := 100, 0x20002 := 33), cr3 = 0, console = [], msr = \<lambda>_. 0,
      fb_address = 0x1000, fb_width = 32, fb_height = 32, terminal_row = 0, terminal_column = 0, tty_bpp = 32,
      terminal_buffer = 0x1000, color = 0xFFFFFF, font = 0x10000, buf = replicate 32 0\<rparr>"

lemma demo_stdio_wf: "tty_wf demo_stdio"
  by (simp add: tty_wf_def demo_stdio_def)

lemma demo_stdio_format: "string_at demo_stdio 0x20000 [37, 100, 33]"
proof -
  have "\<forall>i \<le> 3. (0x20000 :: u64) + of_nat i \<notin> frame demo_stdio"
  proof (intro allI impI)
    fix i :: nat
    assume "i \<le> 3"
    then have "i \<in> {0, 1, 2, 3}" by auto
    then show "(0x20000 :: u64) + of_nat i \<notin> frame demo_stdio"
      by (auto simp: frame_def demo_stdio_def)
  qed
  then show ?thesis
    by (simp add: string_at_def load8_def del: mem_span) (simp add: demo_stdio_def)
qed

theorem decimal_reads_back_witness:
  "\<exists>cs. convert 108 1080 4 demo_stdio = Some (ret (Some (of_nat (length cs)), fold terminal_emit cs demo_stdio)) \<and>
     num_value cs = 1080 \<and> hd cs \<noteq> 48"
  using decimal_reads_back [of 108 1080 1080 4 demo_stdio] by (auto simp: demo_stdio_def)

theorem printf_renders_witness:
  "printf 0x20000 (\<lambda>_. 42) demo_stdio = ret (3, fold terminal_emit [52, 50, 33] demo_stdio)"
proof -
  have r: "render (\<lambda>_. 42) (\<lambda>_. []) 0 [37, 100, 33] = [52, 50, 33]" "render_count (\<lambda>_. 42) (\<lambda>_. []) 0 [37, 100, 33] = 3"
    by (simp_all add: conv_out_def decimal_def digits.simps signed_divide_int_def signed_modulo_int_def)
  have "printf 0x20000 (\<lambda>_. 42) demo_stdio =
      ret (of_nat (render_count (\<lambda>_. 42) (\<lambda>_. []) 0 [37, 100, 33]), fold terminal_emit (render (\<lambda>_. 42) (\<lambda>_. []) 0 [37, 100, 33]) demo_stdio)"
    by (rule printf_renders [OF demo_stdio_wf _ demo_stdio_format]) (simp_all only: r, simp_all add: demo_stdio_def)
  then show ?thesis by (simp only: r) simp
qed

end
