(* ===== verification/Keyboard.thy ===== *)
theory Keyboard
  imports Printf Descriptors
begin

text \<open>
  The PS/2 keyboard driver \<open>drivers/keyboard.c\<close>, the port accesses of \<open>util.h\<close>, and the part of
  \<open>kernel.c\<close> that keeps the line being typed. A device is a function of everything that was read from
  and written to the ports before, so the driver is shown to behave for every device. The theory shows
  that a command is tried three times at most, that the line in memory is the text that was typed, and
  what the key after the hundredth does.
\<close>

section \<open>Ports\<close>

datatype io_event = Inb u16 u8 | Outb u16 u8

type_synonym device = "io_event list \<Rightarrow> u16 \<Rightarrow> u8"

text \<open>
  \<open>events\<close>: the port accesses so far, the latest first. \<open>both_supported\<close> and \<open>handler\<close> (a pointer) are
  statics of \<open>keyboard.c\<close>, \<open>lowercase_at\<close> is the address of the table \<open>lowercase\<close>. Of \<open>kernel.c\<close>:
  the address of the static \<open>keys\<close>, a \<open>struct key_line\<close>, and of the format literals of \<open>handle_keyboard\<close>
  and \<open>print_dir\<close>.
\<close>

record keyboard_state = stdio_state +
  events :: "io_event list"
  both_supported :: bool
  handler :: u64
  lowercase_at :: u64
  keys_at :: u64
  char_format :: u64
  prompt_format :: u64

definition inb :: "device \<Rightarrow> u16 \<Rightarrow> 'a keyboard_state_scheme \<Rightarrow> u8 \<times> 'a keyboard_state_scheme" where
  "inb dev port s = (let v = dev (events s) port in (v, s\<lparr>events := Inb port v # events s\<rparr>))"

definition outb :: "u16 \<Rightarrow> u8 \<Rightarrow> 'a keyboard_state_scheme \<Rightarrow> 'a keyboard_state_scheme" where
  "outb port v s = s\<lparr>events := Outb port v # events s\<rparr>"

definition DATA_PORT :: u16 where "DATA_PORT = 0x60"
definition CMD_PORT :: u16 where "CMD_PORT = 0x64"

section \<open>Key codes\<close>

datatype key_name =
  UNKNOWN | ESC | CTRL | LSHFT | RSHFT | ALT | F1 | F2 | F3 | F4 | F5 | F6 | F7 | F8 | F9 | F10 | F11 |
    F12 | SCRLCK | HOME | UP | LEFT | RIGHT | DOWN | PGUP | PGDOWN | END | INS | DEL | CAPS | NONE |
    ALTGR | NUMLCK

fun key :: "key_name \<Rightarrow> u32" where
  "key UNKNOWN = 0xFFFFFFFF"
| "key ESC = 0xFFFFFFFF - 1"
| "key CTRL = 0xFFFFFFFF - 2"
| "key LSHFT = 0xFFFFFFFF - 3"
| "key RSHFT = 0xFFFFFFFF - 4"
| "key ALT = 0xFFFFFFFF - 5"
| "key F1 = 0xFFFFFFFF - 6"
| "key F2 = 0xFFFFFFFF - 7"
| "key F3 = 0xFFFFFFFF - 8"
| "key F4 = 0xFFFFFFFF - 9"
| "key F5 = 0xFFFFFFFF - 10"
| "key F6 = 0xFFFFFFFF - 11"
| "key F7 = 0xFFFFFFFF - 12"
| "key F8 = 0xFFFFFFFF - 13"
| "key F9 = 0xFFFFFFFF - 14"
| "key F10 = 0xFFFFFFFF - 15"
| "key F11 = 0xFFFFFFFF - 16"
| "key F12 = 0xFFFFFFFF - 17"
| "key SCRLCK = 0xFFFFFFFF - 18"
| "key HOME = 0xFFFFFFFF - 19"
| "key UP = 0xFFFFFFFF - 20"
| "key LEFT = 0xFFFFFFFF - 21"
| "key RIGHT = 0xFFFFFFFF - 22"
| "key DOWN = 0xFFFFFFFF - 23"
| "key PGUP = 0xFFFFFFFF - 24"
| "key PGDOWN = 0xFFFFFFFF - 25"
| "key END = 0xFFFFFFFF - 26"
| "key INS = 0xFFFFFFFF - 27"
| "key DEL = 0xFFFFFFFF - 28"
| "key CAPS = 0xFFFFFFFF - 29"
| "key NONE = 0xFFFFFFFF - 30"
| "key ALTGR = 0xFFFFFFFF - 31"
| "key NUMLCK = 0xFFFFFFFF - 32"

definition lowercase :: "u32 list" where
  "lowercase =
    [key UNKNOWN, key ESC, 49, 50, 51, 52, 53, 54, 55, 56, 57, 48, 45, 61, 8, 9, 113, 119, 101, 114, 116,
     121, 117, 105, 111, 112, 91, 93, 10, key CTRL, 97, 115, 100, 102, 103, 104, 106, 107, 108, 59, 39, 96,
     key LSHFT, 92, 122, 120, 99, 118, 98, 110, 109, 44, 46, 47, key RSHFT, 42, key ALT, 32, key CAPS,
     key F1, key F2, key F3, key F4, key F5, key F6, key F7, key F8, key F9, key F10, key NUMLCK,
     key SCRLCK, key HOME, key UP, key PGUP, 45, key LEFT, key UNKNOWN, key RIGHT, 43, key END, key DOWN,
     key PGDOWN, key INS, key DEL, key UNKNOWN, key UNKNOWN, key UNKNOWN, key F11, key F12, key UNKNOWN,
     key UNKNOWN, key UNKNOWN, key UNKNOWN, key UNKNOWN, key UNKNOWN, key UNKNOWN, key UNKNOWN,
     key UNKNOWN, key UNKNOWN, key UNKNOWN, key UNKNOWN, key UNKNOWN, key UNKNOWN, key UNKNOWN,
     key UNKNOWN, key UNKNOWN, key UNKNOWN, key UNKNOWN, key UNKNOWN, key UNKNOWN, key UNKNOWN,
     key UNKNOWN, key UNKNOWN, key UNKNOWN, key UNKNOWN, key UNKNOWN, key UNKNOWN, key UNKNOWN,
     key UNKNOWN, key UNKNOWN, key UNKNOWN, key UNKNOWN, key UNKNOWN, key UNKNOWN, key UNKNOWN,
     key UNKNOWN, key UNKNOWN, key UNKNOWN]"

text \<open>The table as it lies in memory.\<close>

definition lowercase_loaded :: "'a keyboard_state_scheme \<Rightarrow> bool" where
  "lowercase_loaded s \<longleftrightarrow> (\<forall>k < 128. load32 (bytes s) (lowercase_at s + of_nat (4 * k)) = lowercase ! k)"

definition char_ofCode :: "u32 \<Rightarrow> 'a keyboard_state_scheme \<Rightarrow> u8" where
  "char_ofCode code s = ucast (load32 (bytes s) (lowercase_at s + 4 * scast code))"

section \<open>The controller\<close>

definition init_keyboard :: "u64 \<Rightarrow> 'a keyboard_state_scheme \<Rightarrow> 'a keyboard_state_scheme" where
  "init_keyboard new_handler s = s\<lparr>handler := new_handler, both_supported := True\<rparr>"

definition set_keyboard_handler :: "u64 \<Rightarrow> 'a keyboard_state_scheme \<Rightarrow> 'a keyboard_state_scheme" where
  "set_keyboard_handler new_handler s = s\<lparr>handler := new_handler\<rparr>"

partial_function (option) wait_ready :: "device \<Rightarrow> 'a keyboard_state_scheme \<Rightarrow> (halt + 'a keyboard_state_scheme) option" where
  "wait_ready dev s =
     (case inb dev CMD_PORT s of (v, s1) \<Rightarrow> if v AND 0x02 \<noteq> 0 then wait_ready dev s1 else ret s1)"

text \<open>The loop that sends the bytes after a command.\<close>

definition send_data :: "device \<Rightarrow> u64 \<Rightarrow> u8 \<Rightarrow> 'a keyboard_state_scheme \<Rightarrow> 'a keyboard_state_scheme run" where
  "send_data dev data n s =
     for_each (\<lambda>i s. run_bind (wait_ready dev s) (\<lambda>s1. ret (outb DATA_PORT (load8 (bytes s1) (data + of_nat i)) s1)))
       [0..<unat n] s"

text \<open>One iteration of the retry loop of each routine, up to the response.\<close>

definition send_once :: "device \<Rightarrow> u8 \<Rightarrow> u64 \<Rightarrow> u8 \<Rightarrow> 'a keyboard_state_scheme \<Rightarrow> (u8 \<times> 'a keyboard_state_scheme) run" where
  "send_once dev cmd data n s =
     run_bind (wait_ready dev s) (\<lambda>s1.
     run_bind (send_data dev data n (outb CMD_PORT cmd (outb DATA_PORT 0 s1))) (\<lambda>s2.
       ret (inb dev DATA_PORT s2)))"

definition send_first_once :: "device \<Rightarrow> u8 \<Rightarrow> u64 \<Rightarrow> u8 \<Rightarrow> 'a keyboard_state_scheme \<Rightarrow> (u8 \<times> 'a keyboard_state_scheme) run" where
  "send_first_once dev cmd data n s =
     run_bind (wait_ready dev s) (\<lambda>s1.
     run_bind (send_data dev data n (outb DATA_PORT cmd s1)) (\<lambda>s2.
       case inb dev DATA_PORT s2 of (r, s3) \<Rightarrow> ret (r, outb DATA_PORT 0 s3)))"

definition send_second_once :: "device \<Rightarrow> u8 \<Rightarrow> u64 \<Rightarrow> u8 \<Rightarrow> 'a keyboard_state_scheme \<Rightarrow> (u8 \<times> 'a keyboard_state_scheme) run" where
  "send_second_once dev cmd data n s =
     run_bind (wait_ready dev s) (\<lambda>s1.
     run_bind (send_data dev data n (outb DATA_PORT cmd (outb CMD_PORT 0xD4 s1))) (\<lambda>s2.
       case inb dev DATA_PORT s2 of (r, s3) \<Rightarrow> ret (r, outb DATA_PORT 0 s3)))"

text \<open>The retry loop around an iteration; \<open>tries\<close> is a signed \<open>char\<close>.\<close>

partial_function (option) retry ::
  "('s \<Rightarrow> (u8 \<times> 's) run) \<Rightarrow> string \<Rightarrow> u8 \<Rightarrow> 's \<Rightarrow> (halt + (u8 \<times> 's)) option" where
  "retry once msg tries s =
     run_bind (once s) (\<lambda>(response, s1).
       if response = 0xFA then ret (0xFA, s1)
       else if response = 0xAA then ret (0xAA, s1)
       else
         let tries' = (if response = 0xFE then tries + 1 else tries)
         in if 3 \<le> sint tries' then stop (Abort msg)
            else if response = 0xFE then retry once msg tries' s1
            else ret (response, s1))"

definition send :: "device \<Rightarrow> u8 \<Rightarrow> u64 \<Rightarrow> u8 \<Rightarrow> 'a keyboard_state_scheme \<Rightarrow> (u8 \<times> 'a keyboard_state_scheme) run" where
  "send dev cmd data n s = retry (send_once dev cmd data n) ''Error in PS/2 device'' 0 s"

definition send_first :: "device \<Rightarrow> u8 \<Rightarrow> u64 \<Rightarrow> u8 \<Rightarrow> 'a keyboard_state_scheme \<Rightarrow> (u8 \<times> 'a keyboard_state_scheme) run" where
  "send_first dev cmd data n s =
     (if \<not> both_supported s then stop (Abort ''Second PS/2 device is unsupported but interacted with'')
      else retry (send_first_once dev cmd data n) ''Error in second PS/2 device'' 0 s)"

definition send_second :: "device \<Rightarrow> u8 \<Rightarrow> u64 \<Rightarrow> u8 \<Rightarrow> 'a keyboard_state_scheme \<Rightarrow> (u8 \<times> 'a keyboard_state_scheme) run" where
  "send_second dev cmd data n s =
     (if \<not> both_supported s then stop (Abort ''Second PS/2 device is unsupported but interacted with'')
      else retry (send_second_once dev cmd data n) ''Error in second PS/2 device'' 0 s)"

definition read_byte :: "device \<Rightarrow> 'a keyboard_state_scheme \<Rightarrow> (u8 \<times> 'a keyboard_state_scheme) run" where
  "read_byte dev s =
     run_bind (wait_ready dev s) (\<lambda>s1.
       case inb dev DATA_PORT s1 of (v, s2) \<Rightarrow> run_bind (wait_ready dev s2) (\<lambda>s3. ret (v, outb DATA_PORT 0 s3)))"

text \<open>The interrupt handler; \<open>call\<close> calls the routine at a pointer.\<close>

definition keyboard_handler ::
  "device \<Rightarrow> (u64 \<Rightarrow> bool \<Rightarrow> u32 \<Rightarrow> 'a keyboard_state_scheme \<Rightarrow> 'a keyboard_state_scheme run) \<Rightarrow>
    'a keyboard_state_scheme \<Rightarrow> 'a keyboard_state_scheme run" where
  "keyboard_handler dev call s =
     (case inb dev DATA_PORT s of (c, s1) \<Rightarrow> case inb dev DATA_PORT s1 of (p, s2) \<Rightarrow>
        run_bind (call (handler s2) (p AND 0x80 = 0) (scast (c AND 0x7F)) s2) (\<lambda>s3. ret (end_of_interrupt s3)))"

section \<open>The line being typed\<close>

definition BCKSPC_Key :: u32 where "BCKSPC_Key = 0xE"
definition ENTR_Key :: u32 where "ENTR_Key = 0x1C"

text \<open>\<open>struct key_line\<close>: 100 characters and a 16-bit length.\<close>

definition key_length :: "'a keyboard_state_scheme \<Rightarrow> u16" where
  "key_length s = load16 (bytes s) (keys_at s + 100)"

definition set_key_length :: "u16 \<Rightarrow> 'a keyboard_state_scheme \<Rightarrow> 'a keyboard_state_scheme" where
  "set_key_length n s = s\<lparr>bytes := store16 (bytes s) (keys_at s + 100) n\<rparr>"

text \<open>\<open>handle_CMD\<close> has an empty body.\<close>

definition handle_CMD :: "u64 \<Rightarrow> 'a keyboard_state_scheme \<Rightarrow> 'a keyboard_state_scheme" where
  "handle_CMD cmd s = s"

definition handle_keyboard :: "bool \<Rightarrow> u32 \<Rightarrow> 'a keyboard_state_scheme \<Rightarrow> 'a keyboard_state_scheme run" where
  "handle_keyboard pressed code s =
     (if \<not> pressed then ret s
      else if code = BCKSPC_Key then
        (if key_length s = 0 then ret s
         else let s1 = terminal_removeLast 1 s in ret (set_key_length (key_length s1 - 1) s1))
      else if code = ENTR_Key then
        (let s1 = handle_CMD (keys_at s) s;
             s2 = s1\<lparr>bytes := memset (keys_at s) 0 100 (bytes s1)\<rparr>;
             s3 = set_key_length 0 s2
         in ret (terminal_nextLine s3))
      else
        (let s1 = s\<lparr>bytes := store8 (bytes s) (keys_at s + ucast (key_length s)) (char_ofCode code s)\<rparr>;
             s2 = set_key_length (key_length s1 + 1) s1
         in run_bind (printf (char_format s2) (\<lambda>_. scast (char_ofCode code s2)) s2) (\<lambda>(_, s3). ret s3)))"

definition print_dir :: "(nat \<Rightarrow> u64) \<Rightarrow> 'a keyboard_state_scheme \<Rightarrow> 'a keyboard_state_scheme run" where
  "print_dir stack s =
     run_bind (printf (prompt_format s) stack (set_text_color 0x0000FF00 s)) (\<lambda>(_, s1). ret (set_text_color 0x00FFFFFF s1))"

section \<open>Sending commands\<close>

text \<open>What the retry loop amounts to.\<close>

definition three_tries :: "('s \<Rightarrow> (u8 \<times> 's) run) \<Rightarrow> string \<Rightarrow> 's \<Rightarrow> (u8 \<times> 's) run" where
  "three_tries once msg s =
     run_bind (once s) (\<lambda>(r1, s1). if r1 \<noteq> 0xFE then ret (r1, s1) else
     run_bind (once s1) (\<lambda>(r2, s2). if r2 \<noteq> 0xFE then ret (r2, s2) else
     run_bind (once s2) (\<lambda>(r3, s3). if r3 \<noteq> 0xFE then ret (r3, s3) else stop (Abort msg))))"

lemma retry_step:
  "sint tries < 3 \<Longrightarrow> retry once msg tries s =
     run_bind (once s) (\<lambda>(r, s1).
       if r \<noteq> 0xFE then ret (r, s1) else if 3 \<le> sint (tries + 1) then stop (Abort msg) else retry once msg (tries + 1) s1)"
  by (subst retry.simps) (auto simp: Let_def intro!: arg_cong [where f = "run_bind (once s)"])

lemma three_u8: "(2 :: u8) + 1 = 3"
  by simp

lemma retry_three: "retry once msg 0 s = three_tries once msg s"
proof -
  have "retry once msg 2 s = run_bind (once s) (\<lambda>(r, s1). if r \<noteq> 0xFE then ret (r, s1) else stop (Abort msg))" for s
    using retry_step [of 2 once msg s] by (simp add: three_u8 cong: if_cong)
  moreover have "retry once msg 1 s = run_bind (once s) (\<lambda>(r, s1). if r \<noteq> 0xFE then ret (r, s1) else retry once msg 2 s1)" for s
    by (subst retry_step) (simp_all cong: if_cong)
  moreover have "retry once msg 0 s = run_bind (once s) (\<lambda>(r, s1). if r \<noteq> 0xFE then ret (r, s1) else retry once msg 1 s1)" for s
    by (subst retry_step) (simp_all cong: if_cong)
  ultimately show ?thesis by (simp only: three_tries_def)
qed

lemma three_tries_returns:
  assumes "\<And>s. returns (once s)"
  shows "returns (three_tries once msg s)"
  unfolding three_tries_def by (intro returning assms)

lemma send_data_returns:
  fixes s :: "'a keyboard_state_scheme"
  assumes "\<And>s :: 'a keyboard_state_scheme. returns (wait_ready dev s)"
  shows "returns (send_data dev data n s)"
  unfolding send_data_def by (intro returning assms)

lemma send_once_returns:
  fixes s :: "'a keyboard_state_scheme"
  assumes "\<And>s :: 'a keyboard_state_scheme. returns (wait_ready dev s)"
  shows "returns (send_once dev cmd data n s)" "returns (send_first_once dev cmd data n s)" "returns (send_second_once dev cmd data n s)"
  unfolding send_once_def send_first_once_def send_second_once_def
  by (intro returning assms send_data_returns)+

section \<open>The line and the screen\<close>

text \<open>
  \<open>line_is s cs\<close>: the line in memory holds the characters \<open>cs\<close>. \<open>keys_wf\<close>: the screen is in order, and
  the line, the table of key codes and the format \<open>"%c"\<close> lie apart from each other and from the frame buffer.
\<close>

definition line_is :: "'a keyboard_state_scheme \<Rightarrow> u8 list \<Rightarrow> bool" where
  "line_is s cs \<longleftrightarrow> key_length s = of_nat (length cs) \<and> length cs \<le> 100 \<and>
     (\<forall>i < length cs. load8 (bytes s) (keys_at s + of_nat i) = cs ! i)"

definition key_line :: "'a keyboard_state_scheme \<Rightarrow> u64 set" where
  "key_line s = span (keys_at s) 102"

definition keys_wf :: "'a keyboard_state_scheme \<Rightarrow> bool" where
  "keys_wf s \<longleftrightarrow> tty_wf s \<and> 12 dvd unat (terminal_row s) \<and> buf s = replicate 32 0 \<and>
     string_at s (char_format s) [37, 99] \<and> lowercase_loaded s \<and>
     key_line s \<inter> frame s = {} \<and> span (lowercase_at s) 512 \<inter> (frame s \<union> key_line s) = {} \<and>
     (\<forall>i \<le> 2. char_format s + of_nat i \<notin> key_line s)"

lemma cstr_agree:
  assumes "\<And>i. i \<le> length cs \<Longrightarrow> m (p + of_nat i) = m' (p + of_nat i)"
  shows "cstr m p cs = cstr m' p cs"
  using assms
proof (induction cs arbitrary: p)
  case Nil
  then show ?case using Nil [of 0] by (simp add: load8_def)
next
  case (Cons c cs)
  have "m (p + 1 + of_nat i) = m' (p + 1 + of_nat i)" if "i \<le> length cs" for i
    using Cons.prems [of "Suc i"] that by (simp add: add.assoc)
  then have "cstr m (p + 1) cs = cstr m' (p + 1) cs" by (rule Cons.IH)
  moreover have "load8 m p = load8 m' p" using Cons.prems [of 0] by (simp add: load8_def)
  ultimately show ?case by simp
qed

lemma lowercase_agree:
  assumes "\<And>a. a \<in> span (lowercase_at s) 512 \<Longrightarrow> m a = bytes s a" "lowercase_loaded s" "k < 128"
  shows "load32 m (lowercase_at s + of_nat (4 * k)) = lowercase ! k"
proof -
  have "span (lowercase_at s + of_nat (4 * k)) 4 \<subseteq> span (lowercase_at s) 512"
    by (rule span_sub) (subst unat_of_nat_u64, use assms(3) in simp_all)
  then have "load32 m (lowercase_at s + of_nat (4 * k)) = load32 (bytes s) (lowercase_at s + of_nat (4 * k))"
    using assms(1) by (intro load32_cong) blast
  with assms show ?thesis by (simp add: lowercase_loaded_def)
qed

text \<open>Writing into the line keeps everything else in place.\<close>

lemma keys_wf_line:
  assumes wf: "keys_wf s" and m: "\<And>a. a \<notin> key_line s \<Longrightarrow> m a = bytes s a"
  shows "keys_wf (s\<lparr>bytes := m\<rparr>)"
proof -
  have "cstr m (char_format s) [37, 99] = cstr (bytes s) (char_format s) [37, 99]"
    using wf by (intro cstr_agree m) (auto simp: keys_wf_def simp del: mem_span)
  moreover have "load32 m (lowercase_at s + of_nat (4 * k)) = lowercase ! k" if "k < 128" for k
    using wf that by (intro lowercase_agree m) (auto simp: keys_wf_def simp del: mem_span)
  ultimately show ?thesis
    using wf unfolding keys_wf_def string_at_def lowercase_loaded_def
    by (simp add: tty_wf_def frame_def key_line_def del: mem_span cstr.simps)
qed

text \<open>Drawing leaves the line and the tables alone; \<open>screen_step\<close> is what the console routines guarantee.\<close>

definition screen_step :: "'a keyboard_state_scheme \<Rightarrow> 'a keyboard_state_scheme \<Rightarrow> bool" where
  "screen_step s s' \<longleftrightarrow> keeps_frame s s' \<and> 12 dvd unat (terminal_row s') \<and> buf s' = buf s \<and> keys_at s' = keys_at s \<and>
     lowercase_at s' = lowercase_at s \<and> char_format s' = char_format s"

lemma screen_step_wf:
  assumes wf: "keys_wf s" and step: "screen_step s s'"
  shows "keys_wf s'"
proof -
  have k: "keeps_frame s s'" using step by (simp add: screen_step_def)
  have sets: "frame s' = frame s" "key_line s' = key_line s"
    using step by (simp_all add: screen_step_def keeps_frame_def frame_def key_line_def)
  have "load32 (bytes s') (lowercase_at s + of_nat (4 * i)) = lowercase ! i" if "i < 128" for i
    using wf k that by (intro lowercase_agree) (auto simp: keys_wf_def keeps_frame_def simp del: mem_span)
  moreover have "string_at s' (char_format s) [37, 99]"
    using wf by (intro string_at_keeps [OF k]) (simp add: keys_wf_def)
  ultimately show ?thesis
    using wf step sets unfolding keys_wf_def screen_step_def keeps_frame_def lowercase_loaded_def by simp
qed

lemma screen_step_length:
  assumes wf: "keys_wf s" and step: "screen_step s s'"
  shows "key_length s' = key_length s" "a \<in> key_line s \<Longrightarrow> bytes s' a = bytes s a"
proof -
  show out: "bytes s' a = bytes s a" if "a \<in> key_line s" for a
    using that wf step by (auto simp: keys_wf_def screen_step_def keeps_frame_def simp del: mem_span)
  have "span (keys_at s + 100) 2 \<subseteq> key_line s"
    unfolding key_line_def by (rule span_sub) simp
  then have "load_le 2 (bytes s') (keys_at s + 100) = load_le 2 (bytes s) (keys_at s + 100)"
    using out by (intro load_le_cong) auto
  then show "key_length s' = key_length s"
    using step by (simp add: key_length_def load16_def screen_step_def)
qed

lemma screen_step_line:
  assumes wf: "keys_wf s" and step: "screen_step s s'" and line: "line_is s cs"
  shows "line_is s' cs"
proof -
  have "bytes s' (keys_at s + of_nat i) = bytes s (keys_at s + of_nat i)" if "i < length cs" for i
    using line that by (intro screen_step_length(2) [OF wf step]) (simp add: key_line_def line_is_def unat_of_nat_u64)
  with line screen_step_length(1) [OF wf step] step show ?thesis
    by (simp add: line_is_def load8_def screen_step_def)
qed

lemma emit_keys_kept:
  "keys_at (terminal_emit c s) = keys_at s" "lowercase_at (terminal_emit c s) = lowercase_at s"
  "char_format (terminal_emit c s) = char_format s"
  by (simp_all add: terminal_emit_def new_line_def scrollOverflow_def scroll_def terminal_putchar_def row_at_height_def
      terminal_putentryat_def Let_def del: upt_rec_numeral)

lemma new_line_row [simp]: "terminal_row (new_line s) = 0"
  by (simp add: new_line_def scrollOverflow_def scroll_def)

lemma row_at_height_row: "terminal_row s = 0 \<Longrightarrow> terminal_row (row_at_height s) = 0"
  by (simp add: row_at_height_def)

lemma emit_row:
  assumes "tty_wf s" "12 dvd unat (terminal_row s)"
  shows "12 dvd unat (terminal_row (terminal_emit c s))"
proof -
  let ?W = "unat (fb_width s)"
  have "?W * 1 \<le> ?W * unat (fb_height s)"
    using assms(1) by (intro mult_le_mono) (auto simp: tty_wf_def)
  then have "unat (terminal_row s) + 12 < 18446744073709551616"
    using assms(1) unfolding tty_wf_def by linarith
  then have "unat (terminal_row s + 12) = unat (terminal_row s) + 12"
    by (subst unat_u64_add) simp_all
  with assms(2) show ?thesis
    by (simp add: terminal_emit_def terminal_putchar_def row_at_height_row Let_def)
qed

lemma emit_screen: "keys_wf s \<Longrightarrow> screen_step s (terminal_emit c s)"
  by (simp add: screen_step_def keys_wf_def terminal_emit_keeps emit_row emit_keys_kept)

lemma nextLine_screen:
  assumes "keys_wf s"
  shows "screen_step s (terminal_nextLine s)"
proof -
  have new: "keeps_frame s (new_line s)" using assms by (intro new_line_keeps) (simp add: keys_wf_def)
  then have "keeps_frame (new_line s) (row_at_height (new_line s))"
    by (intro row_at_height_keeps) (simp add: keeps_frame_def)
  with new have "keeps_frame s (terminal_nextLine s)"
    unfolding terminal_nextLine_def by (rule keeps_frame_trans)
  then show ?thesis
    by (simp add: screen_step_def terminal_nextLine_def row_at_height_row)
      (simp add: row_at_height_def new_line_def scrollOverflow_def scroll_def)
qed

lemma removeLast_at_edge: "terminal_row s = 0 \<Longrightarrow> terminal_removeLast 1 s = s"
  by (simp add: terminal_removeLast_def terminal_remove_def)

lemma removeLast_screen:
  assumes wf: "keys_wf s"
  shows "screen_step s (terminal_removeLast 1 s)"
proof (cases "terminal_row s = 0")
  case True
  with wf show ?thesis by (simp add: removeLast_at_edge screen_step_def keys_wf_def keeps_frame_refl)
next
  case False
  let ?t = "s\<lparr>terminal_row := terminal_row s - 12\<rparr>"
  have "12 dvd unat (terminal_row s)" "0 < unat (terminal_row s)"
    using wf False by (simp_all add: keys_wf_def unat_gt_0)
  then have ge: "12 \<le> unat (terminal_row s)" by (rule dvd_imp_le)
  then have row: "unat (terminal_row s - 12) = unat (terminal_row s) - 12"
    by (subst unat_sub_no_wrap) simp_all
  have t: "tty_wf ?t" using wf row by (auto simp: keys_wf_def tty_wf_def)
  have "cell (terminal_column s) (terminal_row s - 12) s \<subseteq> frame s"
    using cell_in_frame [OF t] by (simp add: cell_def frame_def del: mem_span)
  with t row ge wf show ?thesis
    unfolding removeLast_one [OF False] screen_step_def keeps_frame_def keys_wf_def
    by (auto simp: tty_wf_def simp del: mem_span)
qed

text \<open>The one call of \<open>printf\<close>.\<close>

lemma printf_char:
  assumes wf: "keys_wf s"
  shows "printf (char_format s) args s = ret (1, terminal_emit (ucast (args 0)) s)"
proof -
  let ?strs = "\<lambda>_. [] :: u8 list"
  have r: "render args ?strs 0 [37, 99] = [ucast (args 0)]" "render_count args ?strs 0 [37, 99] = 1"
    by (simp_all add: conv_out_def)
  have "printf_loop args (char_format s) 0 0 s =
      ret (0 + of_nat (render_count args ?strs 0 [37, 99]), fold terminal_emit (render args ?strs 0 [37, 99]) s)"
    by (rule printf_loop_renders) (use wf in \<open>simp_all add: keys_wf_def r del: render.simps\<close>)
  then show ?thesis unfolding r by (simp add: printf_def)
qed

section \<open>Typing\<close>

text \<open>The line after a key: what the text on the screen says.\<close>

definition key_step :: "bool \<times> u32 \<Rightarrow> u8 list \<Rightarrow> u8 list" where
  "key_step ev cs =
     (case ev of (pressed, code) \<Rightarrow>
        if \<not> pressed then cs
        else if code = BCKSPC_Key then butlast cs
        else if code = ENTR_Key then []
        else cs @ [ucast (lowercase ! unat code)])"

lemma char_ofCode_table:
  assumes "lowercase_loaded s" "unat code < 128"
  shows "char_ofCode code s = ucast (lowercase ! unat code)"
proof -
  obtain n where c: "code = of_nat n" "n < 128" "n = unat code"
    using that [of "unat code"] assms(2) by simp
  have "sint (of_nat n :: u32) = int n"
    using c(2) by (simp only: signed_of_nat) (simp add: signed_take_bit_int_eq_self)
  then have "(scast code :: u64) = of_nat n"
    unfolding c(1) scast_eq by simp
  moreover have "load32 (bytes s) (lowercase_at s + of_nat (4 * n)) = lowercase ! n"
    using assms(1) c(2) by (simp add: lowercase_loaded_def)
  ultimately show ?thesis
    by (simp add: char_ofCode_def c(3) [symmetric])
qed

lemma set_key_length_line:
  "a \<notin> key_line s \<Longrightarrow> bytes (set_key_length n s) a = bytes s a"
proof -
  have "span (keys_at s + 100) 2 \<subseteq> key_line s" unfolding key_line_def by (rule span_sub) simp
  moreover assume "a \<notin> key_line s"
  ultimately have "a \<notin> span (keys_at s + 100) 2" by blast
  then show "bytes (set_key_length n s) a = bytes s a"
    by (simp add: set_key_length_def store16_outside del: mem_span)
qed

lemma key_slot_apart:
  assumes "i < 100"
  shows "load8 (store16 m (p + 100) n) (p + of_nat i) = load8 m (p + of_nat i)"
  using assms by (intro load8_store_apart(1)) (simp add: apart_no_wrap unat_of_nat_u64)

lemma keys_wf_set_length:
  assumes "keys_wf s"
  shows "keys_wf (set_key_length n s)" "key_length (set_key_length n s) = n"
proof -
  have "keys_wf (s\<lparr>bytes := bytes (set_key_length n s)\<rparr>)"
    by (rule keys_wf_line [OF assms set_key_length_line])
  then show "keys_wf (set_key_length n s)" by (simp add: set_key_length_def)
  show "key_length (set_key_length n s) = n" by (simp add: set_key_length_def key_length_def)
qed

text \<open>Storing a character at the end of the line.\<close>

lemma store_key:
  assumes wf: "keys_wf s" and line: "line_is s cs" and room: "length cs < 100"
    and s': "s' = s\<lparr>bytes := store8 (bytes s) (keys_at s + ucast (key_length s)) c\<rparr>"
  shows "keys_wf s'" "line_is (set_key_length (key_length s' + 1) s') (cs @ [c])" "keys_wf (set_key_length (key_length s' + 1) s')"
proof -
  have at: "keys_at s + ucast (key_length s) = keys_at s + of_nat (length cs)"
  proof -
    have "(ucast (of_nat (length cs) :: u16) :: u64) = of_nat (length cs)"
      using room by (simp add: word_eq_iff_unat unat_of_nat_small unsigned_ucast_eq take_bit_nat_eq_self)
    then show ?thesis using line by (simp add: line_is_def)
  qed
  have b': "bytes s' = store8 (bytes s) (keys_at s + of_nat (length cs)) c" by (simp add: s' at)
  have k': "keys_at s' = keys_at s" by (simp add: s')
  have inside: "keys_at s + of_nat (length cs) \<in> key_line s"
    unfolding key_line_def using room by (intro span_offset_mem) auto
  show wf': "keys_wf s'"
    unfolding s' by (rule keys_wf_line [OF wf]) (use inside at in \<open>auto simp: store8_def simp del: mem_span\<close>)
  then show "keys_wf (set_key_length (key_length s' + 1) s')" by (rule keys_wf_set_length)
  have len: "key_length s' = of_nat (length cs)"
  proof -
    have "apart (keys_at s + 100) 2 (keys_at s + of_nat (length cs)) 1"
      using room by (subst apart_sym) (simp add: apart_no_wrap unat_of_nat_u64)
    then show ?thesis using line at by (simp add: s' key_length_def line_is_def)
  qed
  have "load8 (bytes s') (keys_at s + of_nat i) = (cs @ [c]) ! i" if "i < Suc (length cs)" for i
  proof (cases "i = length cs")
    case True
    then show ?thesis by (simp add: b' k')
  next
    case False
    then have "unat (of_nat i :: u64) \<noteq> unat (of_nat (length cs) :: u64)"
      using that room by (simp add: unat_of_nat_u64)
    then have "keys_at s + of_nat i \<noteq> keys_at s + of_nat (length cs)" by auto
    with False that line show ?thesis by (simp add: b' k' line_is_def nth_append)
  qed
  with len room show "line_is (set_key_length (key_length s' + 1) s') (cs @ [c])"
    by (simp add: line_is_def keys_wf_set_length(2) [OF wf'])
      (simp add: set_key_length_def key_slot_apart s')
qed

lemma clear_keys:
  assumes wf: "keys_wf s"
  shows "keys_wf (set_key_length 0 (s\<lparr>bytes := memset (keys_at s) 0 100 (bytes s)\<rparr>))"
proof -
  have sub: "span (keys_at s) (unat (100 :: u64)) \<subseteq> key_line s" unfolding key_line_def by (rule span_mono) simp
  have "keys_wf (s\<lparr>bytes := memset (keys_at s) 0 100 (bytes s)\<rparr>)"
    by (rule keys_wf_line [OF wf], rule memset_outside) (use sub in blast)
  then show ?thesis by (rule keys_wf_set_length(1))
qed

lemma line_is_length: "line_is s cs \<Longrightarrow> key_length s = 0 \<longleftrightarrow> cs = []"
proof -
  assume line: "line_is s cs"
  then have "unat (key_length s) = length cs"
    by (simp add: line_is_def unat_of_nat_small)
  then show ?thesis by (metis length_0_conv unat_eq_0)
qed

lemma butlast_line:
  assumes wf: "keys_wf s" and line: "line_is s cs" and ne: "cs \<noteq> []"
  shows "line_is (set_key_length (key_length s - 1) s) (butlast cs)"
proof -
  have len: "key_length s - 1 = of_nat (length (butlast cs))"
    using line ne by (simp add: line_is_def of_nat_diff Suc_leI)
  have "load8 (bytes s) (keys_at s + of_nat i) = butlast cs ! i" "i < 100" if "i < length (butlast cs)" for i
    using line that by (auto simp: line_is_def nth_butlast)
  then have "load8 (bytes (set_key_length n s)) (keys_at (set_key_length n s) + of_nat i) = butlast cs ! i"
    if "i < length (butlast cs)" for i n
    using that by (simp add: set_key_length_def key_slot_apart del: length_butlast)
  moreover have "length (butlast cs) \<le> 100" using line by (auto simp: line_is_def)
  ultimately show ?thesis
    unfolding line_is_def keys_wf_set_length(2) [OF wf] using len by blast
qed

text \<open>One key.\<close>

lemma handle_key:
  assumes wf: "keys_wf s" and line: "line_is s cs" and code: "unat code < 128"
    and fits: "length (key_step (pressed, code) cs) \<le> 100"
  shows "\<exists>s'. handle_keyboard pressed code s = ret s' \<and> keys_wf s' \<and> line_is s' (key_step (pressed, code) cs)"
proof -
  consider "\<not> pressed" | "pressed" "code = BCKSPC_Key" "cs = []" | "pressed" "code = BCKSPC_Key" "cs \<noteq> []"
    | "pressed" "code = ENTR_Key" | "pressed" "code \<noteq> BCKSPC_Key" "code \<noteq> ENTR_Key"
    by blast
  then show ?thesis
  proof cases
    case 1
    with wf line show ?thesis by (simp add: handle_keyboard_def key_step_def)
  next
    case 2
    with wf line line_is_length [OF line] show ?thesis by (simp add: handle_keyboard_def key_step_def)
  next
    case 3
    let ?t = "terminal_removeLast 1 s"
    have step: "screen_step s ?t" by (rule removeLast_screen [OF wf])
    have t: "keys_wf ?t" "line_is ?t cs"
      using screen_step_wf [OF wf step] screen_step_line [OF wf step line] by blast+
    have "line_is (set_key_length (key_length ?t - 1) ?t) (butlast cs)" "keys_wf (set_key_length (key_length ?t - 1) ?t)"
      using butlast_line [OF t 3(3)] keys_wf_set_length(1) [OF t(1)] by blast+
    with 3 line_is_length [OF line] show ?thesis by (simp add: handle_keyboard_def key_step_def Let_def)
  next
    case 4
    let ?c = "set_key_length 0 (s\<lparr>bytes := memset (keys_at s) 0 100 (bytes s)\<rparr>)"
    have c: "keys_wf ?c" by (rule clear_keys [OF wf])
    have step: "screen_step ?c (terminal_nextLine ?c)" by (rule nextLine_screen [OF c])
    have "line_is ?c []" by (simp add: line_is_def key_length_def set_key_length_def)
    then have "keys_wf (terminal_nextLine ?c)" "line_is (terminal_nextLine ?c) []"
      using screen_step_wf [OF c step] screen_step_line [OF c step] by blast+
    with 4 show ?thesis
      by (simp add: handle_keyboard_def key_step_def handle_CMD_def Let_def BCKSPC_Key_def ENTR_Key_def)
  next
    case 5
    let ?ch = "ucast (lowercase ! unat code) :: u8"
    let ?s1 = "s\<lparr>bytes := store8 (bytes s) (keys_at s + ucast (key_length s)) ?ch\<rparr>"
    let ?s2 = "set_key_length (key_length ?s1 + 1) ?s1"
    have room: "length cs < 100" using fits 5 by (simp add: key_step_def)
    note st = store_key [OF wf line room refl, of ?ch]
    have ch: "char_ofCode code s = ?ch" "char_ofCode code ?s2 = ?ch"
      using wf st(3) code by (auto intro!: char_ofCode_table simp: keys_wf_def)
    have "(ucast (scast ?ch :: u64) :: u8) = ?ch" by (rule bit_word_eqI) (auto simp: bit_simps)
    then have pr: "printf (char_format ?s2) (\<lambda>_. scast (char_ofCode code ?s2)) ?s2 = ret (1, terminal_emit ?ch ?s2)"
      using printf_char [OF st(3)] by (simp add: ch)
    have step: "screen_step ?s2 (terminal_emit ?ch ?s2)" by (rule emit_screen [OF st(3)])
    have "keys_wf (terminal_emit ?ch ?s2)" "line_is (terminal_emit ?ch ?s2) (cs @ [?ch])"
      using screen_step_wf [OF st(3) step] screen_step_line [OF st(3) step st(2)] by blast+
    with 5 pr ch show ?thesis by (simp add: handle_keyboard_def key_step_def Let_def)
  qed
qed

lemma handle_keys:
  "\<lbrakk>keys_wf s; line_is s cs; \<forall>(p, code) \<in> set evs. unat code < 128;
    \<forall>k \<le> length evs. length (fold key_step (take k evs) cs) \<le> 100\<rbrakk> \<Longrightarrow>
   \<exists>s'. for_each (\<lambda>(p, code). handle_keyboard p code) evs s = ret s' \<and> keys_wf s' \<and> line_is s' (fold key_step evs cs)"
proof (induction evs arbitrary: s cs)
  case (Cons ev evs)
  obtain p code where ev: "ev = (p, code)" by fastforce
  have "length (key_step (p, code) cs) \<le> 100"
    using Cons.prems(4) [rule_format, of 1] ev by simp
  then obtain s1 where s1: "handle_keyboard p code s = ret s1" "keys_wf s1" "line_is s1 (key_step ev cs)"
    using handle_key [OF Cons.prems(1,2)] Cons.prems(3) ev by fastforce
  have "\<forall>k \<le> length evs. length (fold key_step (take k evs) (key_step ev cs)) \<le> 100"
  proof (intro allI impI)
    fix k
    assume "k \<le> length evs"
    then show "length (fold key_step (take k evs) (key_step ev cs)) \<le> 100"
      using Cons.prems(4) [rule_format, of "Suc k"] by simp
  qed
  with Cons.IH [OF s1(2,3)] Cons.prems(3) s1(1) ev show ?case by simp
qed simp

section \<open>Properties\<close>

text \<open>
  C12: The line in memory is the text that was typed. Starting from an empty line, after any sequence of key events that
  never makes the line longer than its 100 characters, every event was handled to the end and the line holds
  what a list of characters would: a pressed key appends its character, backspace removes the last one, enter
  empties the line, and released keys do nothing; the console keeps its order and the tables stay intact.
\<close>

theorem typing_keeps_line:
  assumes "keys_wf s" "line_is s []" "\<forall>(p, code) \<in> set evs. unat code < 128"
    and "\<forall>k \<le> length evs. length (fold key_step (take k evs) []) \<le> 100"
  shows "\<exists>s'. for_each (\<lambda>(p, code). handle_keyboard p code) evs s = ret s' \<and> keys_wf s' \<and> line_is s' (fold key_step evs [])"
  using assms by (rule handle_keys)

text \<open>
  C32: The line has no bound. With 100 characters in it, a further key is stored into the length that follows the
  characters: the length becomes the code of the character plus one.
\<close>

theorem full_line_overwrites_length:
  assumes wf: "keys_wf s" and full: "key_length s = 100" and code: "unat code < 128" "code \<noteq> BCKSPC_Key" "code \<noteq> ENTR_Key"
  shows "\<exists>s'. handle_keyboard True code s = ret s' \<and> key_length s' = ucast (ucast (lowercase ! unat code) :: u8) + 1"
proof -
  let ?ch = "ucast (lowercase ! unat code) :: u8"
  let ?s1 = "s\<lparr>bytes := store8 (bytes s) (keys_at s + 100) ?ch\<rparr>"
  let ?s2 = "set_key_length (key_length ?s1 + 1) ?s1"
  have inside: "keys_at s + 100 \<in> key_line s" by (simp add: key_line_def)
  have s1: "keys_wf ?s1"
    by (rule keys_wf_line [OF wf]) (use inside in \<open>auto simp: store8_def simp del: mem_span\<close>)
  then have s2: "keys_wf ?s2" "key_length ?s2 = key_length ?s1 + 1" by (rule keys_wf_set_length)+
  have "load8 (bytes s) (keys_at s + 100 + 1) = 0"
    using full unfolding load16_high key_length_def by simp
  then have "key_length ?s1 = ucast ?ch"
    by (simp add: key_length_def load16_bytes add.assoc)
  with s2 have len: "key_length ?s2 = ucast ?ch + 1" by simp
  have ch: "char_ofCode code s = ?ch" "char_ofCode code ?s2 = ?ch"
    using wf s2(1) code by (auto intro!: char_ofCode_table simp: keys_wf_def)
  have "(ucast (scast ?ch :: u64) :: u8) = ?ch" by (rule bit_word_eqI) (auto simp: bit_simps)
  then have pr: "printf (char_format ?s2) (\<lambda>_. scast (char_ofCode code ?s2)) ?s2 = ret (1, terminal_emit ?ch ?s2)"
    using printf_char [OF s2(1)] by (simp add: ch)
  have step: "screen_step ?s2 (terminal_emit ?ch ?s2)" by (rule emit_screen [OF s2(1)])
  have "key_length (terminal_emit ?ch ?s2) = ucast ?ch + 1"
    using screen_step_length [OF s2(1) step] len by simp
  moreover have "(ucast (100 :: u16) :: u64) = 100" by simp
  ultimately show ?thesis
    using code pr ch full by (simp add: handle_keyboard_def Let_def)
qed

text \<open>
  C31: A command to the keyboard is sent three times at most. When the controller becomes ready for input again and
  again, \<open>send\<close> always comes back or stops the machine: it returns the first response that is not 0xFE, the
  request to send again, and after the third such request it stops with its message.
\<close>

theorem send_three_tries:
  fixes s :: "'a keyboard_state_scheme"
  assumes "\<And>s :: 'a keyboard_state_scheme. returns (wait_ready dev s)"
  shows "returns (send dev cmd data n s) \<and>
    send dev cmd data n s = three_tries (send_once dev cmd data n) ''Error in PS/2 device'' s"
  by (simp add: send_def retry_three three_tries_returns [OF send_once_returns(1) [OF assms]])

text \<open>A keyboard that is always ready and always asks to send again, and one with everything in place.\<close>

definition demo_keyboard :: "u16 \<Rightarrow> keyboard_state" where
  "demo_keyboard len =
     \<lparr>bytes = (\<lambda>a. if unat (a - 0x30000) < 512 then ucast (drop_bit (8 * (unat (a - 0x30000) mod 4)) (lowercase ! (unat (a - 0x30000) div 4))) else 0)
        (0x20000 := 37, 0x20001 := 99, 0x40064 := ucast len, 0x40065 := ucast (drop_bit 8 len)),
      cr3 = 0, console = [], msr = \<lambda>_. 0,
      fb_address = 0x1000, fb_width = 32, fb_height = 32, terminal_row = 0, terminal_column = 0, tty_bpp = 32,
      terminal_buffer = 0x1000, color = 0xFFFFFF, font = 0x10000, buf = replicate 32 0, events = [], both_supported = True,
      handler = 0, lowercase_at = 0x30000, keys_at = 0x40000, char_format = 0x20000, prompt_format = 0x20010\<rparr>"

theorem send_three_tries_witness:
  "send (\<lambda>h p. if p = 0x64 then 0 else 0xFE) 0xED 0 0 (demo_keyboard 0) = stop (Abort ''Error in PS/2 device'')"
proof -
  let ?dev = "\<lambda>h p. if p = 0x64 then 0 else 0xFE"
  have ready: "wait_ready ?dev s = ret (s\<lparr>events := Inb 0x64 0 # events s\<rparr>)" for s :: keyboard_state
    by (subst wait_ready.simps) (simp add: inb_def CMD_PORT_def)
  then have returns: "returns (wait_ready ?dev s)" for s :: keyboard_state
    by (simp add: returns_ret)
  have "\<exists>s'. send_once ?dev 0xED 0 0 s = ret (0xFE, s')" for s :: keyboard_state
    by (simp add: send_once_def ready send_data_def inb_def DATA_PORT_def)
  then obtain f where "send_once ?dev 0xED 0 0 s = ret (0xFE, f s)" for s :: keyboard_state
    by metis
  with send_three_tries [OF returns, of "0xED" 0 0 "demo_keyboard 0"] show ?thesis
    by (simp add: three_tries_def)
qed

lemma demo_keys_wf: "keys_wf (demo_keyboard len)"
proof -
  let ?s = "demo_keyboard len"
  have dis: "span 0x40000 102 \<inter> span 0x1000 4096 = ({} :: u64 set)" "span 0x30000 512 \<inter> span 0x1000 4096 = ({} :: u64 set)"
    "span 0x30000 512 \<inter> span 0x40000 102 = ({} :: u64 set)"
    using span_disjoint_no_wrap [of "0x1000 :: u64" 4096 "0x40000" 102] span_disjoint_no_wrap [of "0x1000 :: u64" 4096 "0x30000" 512]
      span_disjoint_no_wrap [of "0x30000 :: u64" 512 "0x40000" 102] by (simp_all add: Int_commute del: mem_span)
  have fr: "frame ?s = span 0x1000 4096" "key_line ?s = span 0x40000 102"
    by (simp_all add: frame_def key_line_def demo_keyboard_def)
  have fmt: "string_at ?s 0x20000 [37, 99] \<and> (\<forall>i \<le> 2. 0x20000 + of_nat i \<notin> key_line ?s)"
  proof -
    have "(0x20000 :: u64) + of_nat i \<notin> frame ?s \<and> (0x20000 :: u64) + of_nat i \<notin> key_line ?s" if "i \<le> 2" for i
    proof -
      have "i \<in> {0, 1, 2}" using that by auto
      then show ?thesis unfolding fr by auto
    qed
    then show ?thesis by (simp add: string_at_def load8_def del: mem_span) (simp add: demo_keyboard_def)
  qed
  have "load32 (bytes ?s) (0x30000 + of_nat (4 * k)) = lowercase ! k" if "k < 128" for k
  proof (rule load32_bytes)
    fix i :: nat
    assume i: "i < 4"
    have sum: "0x30000 + of_nat (4 * k) + of_nat i = (0x30000 :: u64) + of_nat (4 * k + i)" by simp
    have d: "unat (of_nat (4 * k + i) :: u64) = 4 * k + i" using that i by (intro unat_of_nat_u64) simp
    have "unat ((0x30000 :: u64) + of_nat (4 * k + i)) = 0x30000 + (4 * k + i)"
      using that i d by (subst unat_u64_add) (simp_all del: of_nat_add of_nat_mult)
    then have "(0x30000 :: u64) + of_nat (4 * k + i) \<notin> {0x20000, 0x20001, 0x40064, 0x40065}"
      using that i by (auto simp: word_eq_iff_unat simp del: of_nat_add of_nat_mult)
    then show "bytes ?s (0x30000 + of_nat (4 * k) + of_nat i) = ucast (drop_bit (8 * i) (lowercase ! k))"
      using that i d unfolding sum by (simp add: demo_keyboard_def del: of_nat_add of_nat_mult)
  qed
  then have "lowercase_loaded ?s" by (simp add: lowercase_loaded_def demo_keyboard_def)
  moreover have "tty_wf ?s \<and> 12 dvd unat (terminal_row ?s) \<and> buf ?s = replicate 32 0"
    by (simp add: tty_wf_def demo_keyboard_def)
  moreover have "span (lowercase_at ?s) 512 \<inter> (frame ?s \<union> key_line ?s) = {}" "key_line ?s \<inter> frame ?s = {}"
    unfolding fr using dis by (simp_all add: demo_keyboard_def Int_Un_distrib del: mem_span)
  moreover have "char_format ?s = 0x20000" by (simp add: demo_keyboard_def)
  ultimately show ?thesis using fmt unfolding keys_wf_def by simp
qed

lemma demo_key_length: "key_length (demo_keyboard len) = len"
proof -
  have "ucast (ucast len :: u8) OR push_bit 8 (ucast (ucast (drop_bit 8 len) :: u8)) = len"
    by (rule bit_word_eqI) (auto simp: bit_simps)
  then show ?thesis by (simp add: key_length_def load16_bytes load8_def demo_keyboard_def)
qed

theorem typing_keeps_line_witness:
  "\<exists>s'. for_each (\<lambda>(p, code). handle_keyboard p code) [(True, 0x23), (False, 0x23), (True, 0x17)] (demo_keyboard 0) = ret s' \<and>
     keys_wf s' \<and> line_is s' [104, 105]"
proof -
  let ?evs = "[(True, 0x23), (False, 0x23), (True, 0x17)] :: (bool \<times> u32) list"
  have r: "fold key_step ?evs [] = [104, 105]"
    by (simp add: key_step_def BCKSPC_Key_def ENTR_Key_def lowercase_def)
  have "line_is (demo_keyboard 0) []" by (simp add: line_is_def demo_key_length)
  moreover have "\<forall>k \<le> length ?evs. length (fold key_step (take k ?evs) []) \<le> 100"
    by (auto simp: key_step_def BCKSPC_Key_def ENTR_Key_def take_Cons' split: if_splits)
  ultimately show ?thesis
    using typing_keeps_line [OF demo_keys_wf, of 0 ?evs] unfolding r by simp
qed

theorem full_line_overwrites_length_witness:
  "\<exists>s'. handle_keyboard True 0x1E (demo_keyboard 100) = ret s' \<and> key_length s' = 98"
  using full_line_overwrites_length [OF demo_keys_wf demo_key_length, of "0x1E"]
  by (simp add: BCKSPC_Key_def ENTR_Key_def lowercase_def)

end
