(* ===== verification/Kernel_Main.thy ===== *)
theory Kernel_Main
  imports Page_Manager Interrupt_Controller Keyboard Pci
begin

text \<open>
  \<open>kernel/src/kernel/kernel.c\<close>: the start of the kernel, which puts the components together, and the entry
  points beside it (\<open>syscall.c\<close>, \<open>process.c\<close>). The components run on one memory, one processor and one
  heap; each theory gives its own static variables on top of those, and the state of the kernel holds them all.
\<close>

section \<open>The state of the kernel\<close>

text \<open>
  The state of scheduler and interrupt controller, extended by the statics of the page manager, of ACPI, of console
  and keyboard and by the descriptor registers. Memory, CR3, console text, model specific registers and the heap in
  the added components are copies: an operation of a component starts with the kernel's and hands them back.
\<close>

record kernel_state = apic_state +
  k_pages :: page_state
  k_acpi :: acpi_state
  k_screen :: keyboard_state
  k_cpu :: cpu_state
  highestPID :: u64

definition share :: "'a machine_scheme \<Rightarrow> 'b machine_scheme \<Rightarrow> 'b machine_scheme" where
  "share s t = t\<lparr>bytes := bytes s, cr3 := cr3 s, console := console s, msr := msr s\<rparr>"

definition share_heap :: "'a heap_state_scheme \<Rightarrow> 'b heap_state_scheme \<Rightarrow> 'b heap_state_scheme" where
  "share_heap s t = (share s t)\<lparr>free_mem_next := free_mem_next s, free_mem_size := free_mem_size s\<rparr>"

text \<open>Operations without a result, and without an error.\<close>

definition step_run :: "('s \<Rightarrow> 's run) \<Rightarrow> 's \<Rightarrow> (unit \<times> 's) run" where
  "step_run f s = run_bind (f s) (\<lambda>s'. ret ((), s'))"

definition step :: "('s \<Rightarrow> 's) \<Rightarrow> 's \<Rightarrow> (unit \<times> 's) run" where
  "step f s = ret ((), f s)"

definition on_pages :: "(page_state \<Rightarrow> ('x \<times> page_state) run) \<Rightarrow> kernel_state \<Rightarrow> ('x \<times> kernel_state) run" where
  "on_pages f k = run_bind (f (share_heap k (k_pages k))) (\<lambda>(x, p). ret (x, (share_heap p k)\<lparr>k_pages := p\<rparr>))"

definition on_acpi :: "(acpi_state \<Rightarrow> ('x \<times> acpi_state) run) \<Rightarrow> kernel_state \<Rightarrow> ('x \<times> kernel_state) run" where
  "on_acpi f k = run_bind (f (share_heap k (k_acpi k))) (\<lambda>(x, a). ret (x, (share_heap a k)\<lparr>k_acpi := a\<rparr>))"

definition with_screen :: "keyboard_state \<Rightarrow> kernel_state \<Rightarrow> kernel_state" where
  "with_screen t k = (share t k)\<lparr>k_screen := t\<rparr>"

definition on_screen :: "(keyboard_state \<Rightarrow> ('x \<times> keyboard_state) run) \<Rightarrow> kernel_state \<Rightarrow> ('x \<times> kernel_state) run" where
  "on_screen f k = run_bind (f (share k (k_screen k))) (\<lambda>(x, t). ret (x, with_screen t k))"

text \<open>The descriptors call the page manager, so they run with the kernel's state as the rest of their own.\<close>

definition on_cpu ::
  "(kernel_state cpu_state_scheme \<Rightarrow> ('x \<times> kernel_state cpu_state_scheme) run) \<Rightarrow> kernel_state \<Rightarrow> ('x \<times> kernel_state) run" where
  "on_cpu f k =
     run_bind (f (cpu_state.extend (share k (k_cpu k)) k)) (\<lambda>(x, c).
       ret (x, (share c (cpu_state.more c))\<lparr>k_cpu := cpu_state.truncate c\<rparr>))"

definition from_cpu ::
  "(kernel_state \<Rightarrow> ('x \<times> kernel_state) run) \<Rightarrow> kernel_state cpu_state_scheme \<Rightarrow> ('x \<times> kernel_state cpu_state_scheme) run" where
  "from_cpu f c = run_bind (f (share c (cpu_state.more c))) (\<lambda>(x, k). ret (x, cpu_state.extend (share k (cpu_state.truncate c)) k))"

section \<open>What the boot loader and the image give\<close>

text \<open>The responses of the boot loader; \<open>None\<close> is a response that is missing. An entry of \<open>framebuffers\<close>: address, width, height.\<close>

record boot_loader =
  base_revision_supported :: bool
  memmap :: "memmap_entry list option"
  framebuffers :: "(u64 \<times> u64 \<times> u64) list"
  smp_flags :: "u32 option"
  bsp_lapic_id :: u32
  rsdp :: "u64 option"
  virtual_base :: u64
  physical_base :: u64

text \<open>The addresses of static objects, literals and entry points in the image, and the contents of uninitialised memory.\<close>

record kernel_image =
  kernel_process :: u64
  heap_at :: u64
  gdt_at :: u64
  tss_at :: u64
  idt_at :: u64
  vectors_at :: u64
  entry_points :: "isr \<Rightarrow> u64"
  facp_literal :: u64
  apic_literal :: u64
  resolution_format :: u64
  name_format :: u64
  timer_format :: u64
  thread_format :: u64
  thread2_format :: u64
  back_format :: u64
  syscall_format :: u64
  keyboard_callback :: u64
  testMultithreading :: u64
  stack_junk :: "nat \<Rightarrow> u64"
  uninitialised :: u64

definition HEAP_SIZE :: u64 where "HEAP_SIZE = 1024 * 150"

definition get_kernel_virt_offset_of :: "boot_loader \<Rightarrow> u64" where
  "get_kernel_virt_offset_of b = virtual_base b - physical_base b"

section \<open>The steps\<close>

text \<open>The tests at the start of \<open>kmain\<close>; \<open>LIMINE_SMP_X2APIC\<close> is bit 0.\<close>

definition boot_accepted :: "boot_loader \<Rightarrow> bool" where
  "boot_accepted b \<longleftrightarrow>
     base_revision_supported b \<and> memmap b \<noteq> None \<and> framebuffers b \<noteq> [] \<and>
     (case smp_flags b of None \<Rightarrow> False | Some f \<Rightarrow> f AND 1 = 1) \<and> rsdp b \<noteq> None"

text \<open>The search for the frame buffer: the index \<open>fId\<close> and the width \<open>xMax\<close> after the buffers before \<open>i\<close>.\<close>

fun pick_framebuffer :: "(u64 \<times> u64 \<times> u64) list \<Rightarrow> nat \<Rightarrow> nat \<Rightarrow> u64 \<Rightarrow> nat" where
  "pick_framebuffer [] i fId xMax = fId"
| "pick_framebuffer ((_, w, _) # fbs) i fId xMax =
     (if w > xMax then pick_framebuffer fbs (i + 1) i w else pick_framebuffer fbs (i + 1) fId xMax)"

definition init_kernel_process :: "u64 \<Rightarrow> page_state \<Rightarrow> page_state" where
  "init_kernel_process p s =
     (let m = store64 (bytes s) p 1;
          m = store8 m (p + 64) 1;
          m = store64 m (p + 8) (cr3 s + PAGE_VIRT_OFFSET);
          m = store16 m (p + 20) 256
      in set_current_process p (s\<lparr>bytes := m\<rparr>))"

definition pic_disable :: "'a keyboard_state_scheme \<Rightarrow> 'a keyboard_state_scheme" where
  "pic_disable s = outb 0xA1 0xFF (outb 0x21 0xFF s)"

definition pic_writes :: "(u16 \<times> u8) list" where
  "pic_writes =
     [(0x20, 0x20), (0xA0, 0x20), (0x21, 0xFF), (0xA1, 0xFF), (0x20, 0x11), (0xA0, 0x11), (0x21, 0x20), (0xA1, 0x28),
      (0x21, 0x04), (0xA1, 0x02), (0x21, 0x01), (0xA1, 0x01)]"

definition pic_setup :: "'a keyboard_state_scheme \<Rightarrow> 'a keyboard_state_scheme" where
  "pic_setup s = fold (\<lambda>(port, v). outb port v) pic_writes s"

text \<open>The index that \<open>map_page_APIC\<close> looks for in the map of existing pages is not used.\<close>

definition map_page_APIC :: "Parsed_MADT \<Rightarrow> page_state \<Rightarrow> (u64 \<times> page_state) run" where
  "map_page_APIC madt s =
     run_bind (get_existens_map 1 (cr3 s + PAGE_VIRT_OFFSET) s) (\<lambda>(pep, s1).
       if ucast (IOAPIC_addr madt) AND 0xFFFFFFFFFFFF000 \<noteq> (ucast (IOAPIC_addr madt) :: u64)
       then stop (Panic ''IOAPIC address unaligned'')
       else map_next_to (ucast (IOAPIC_addr madt))
              (ucast (push_bit 4 1 OR push_bit 3 1 OR push_bit 1 1 OR 1 :: u8)) s1)"

definition alloc_page :: "u8 \<Rightarrow> kernel_state \<Rightarrow> (u64 \<times> kernel_state) run" where
  "alloc_page fl = on_pages (alloc_next_page fl)"

text \<open>\<open>kmain\<close> up to the memory of the kernel: the console, the first process, the heap and the pages.\<close>

definition start_console :: "boot_loader \<Rightarrow> kernel_image \<Rightarrow> kernel_state \<Rightarrow> kernel_state run" where
  "start_console b im k =
     (case framebuffers b ! pick_framebuffer (framebuffers b) 0 0 0 of
        (address, width, height) \<Rightarrow>
          run_bind (on_screen (step pic_disable) k) (\<lambda>(_, k).
          run_bind (on_screen (step (terminal_initialize address width height)) k) (\<lambda>(_, k).
          run_bind (on_screen (printf (resolution_format im)
                      (\<lambda>i. if i = 0 then of_nat (length (framebuffers b)) else if i = 1 then width
                           else if i = 2 then height else stack_junk im i)) k) (\<lambda>(_, k). ret k))))"

definition start_memory :: "boot_loader \<Rightarrow> kernel_image \<Rightarrow> kernel_state \<Rightarrow> kernel_state run" where
  "start_memory b im k =
     run_bind (on_pages (step (init_kernel_process (kernel_process im))) k) (\<lambda>(_, k).
     run_bind (on_pages (step_run (init_page (uninitialised im) (the (memmap b)) (virtual_base b) (physical_base b)))
                 (init_heap (heap_at im) HEAP_SIZE k)) (\<lambda>(_, k). ret k))"

text \<open>The descriptor tables, ACPI and the interrupt controllers; the result of \<open>find_FADT\<close> is not used.\<close>

definition start_interrupts :: "boot_loader \<Rightarrow> kernel_image \<Rightarrow> kernel_state \<Rightarrow> kernel_state run" where
  "start_interrupts b im k =
     run_bind (on_cpu (step_run (setupGDT (gdt_at im) (tss_at im) (\<lambda>fl. from_cpu (alloc_page fl)))) k) (\<lambda>(_, k).
     run_bind (on_cpu (step (idt_init (entry_points im) (idt_at im) (vectors_at im))) k) (\<lambda>(_, k).
     run_bind (on_acpi (step_run (setXSDP (the (rsdp b)))) k) (\<lambda>(_, k).
     run_bind (on_screen (step pic_setup) k) (\<lambda>(_, k).
     run_bind (on_acpi (\<lambda>s. run_bind (parsed_madt (apic_literal im) s) (\<lambda>madt. ret (madt, s))) k) (\<lambda>(madt, k).
     run_bind (on_pages (map_page_APIC madt) k) (\<lambda>(apic_table, k).
       ret (IOAPIC_setup apic_table (ucast (bsp_lapic_id b)) (write_msr 0x80F (read_msr 0x80F k OR 0x1FF) k))))))))"

definition start_keyboard :: "kernel_image \<Rightarrow> kernel_state \<Rightarrow> kernel_state run" where
  "start_keyboard im k =
     run_bind (on_screen (step (init_keyboard (keyboard_callback im))) k) (\<lambda>(_, k).
     run_bind (on_screen (step (set_text_color 0x00FF0000)) k) (\<lambda>(_, k).
     run_bind (on_screen (printf (name_format im) (stack_junk im)) k) (\<lambda>(_, k).
     run_bind (on_screen (step_run (print_dir (stack_junk im))) k) (\<lambda>(_, k). ret k))))"

text \<open>The timer is measured, the scheduler gets the running thread and a second one.\<close>

definition start_threads :: "kernel_image \<Rightarrow> (kernel_state \<Rightarrow> kernel_state) \<Rightarrow> kernel_state \<Rightarrow> kernel_state run" where
  "start_threads im init_PIT k =
     (case messurre_LAPIC_timer init_PIT k of
        (time, k) \<Rightarrow>
          run_bind (on_screen (printf (timer_format im) (\<lambda>i. if i = 0 then ucast (ucast time :: u32) else stack_junk im i))
                      (init_APIC_timer k)) (\<lambda>(_, k).
          run_bind (scheduler_init k) (\<lambda>k.
          run_bind (on_screen (printf (thread_format im) (stack_junk im)) k) (\<lambda>(_, k).
          run_bind (spawn_child_thread (on_pages alloc_next_free_page_directory) (testMultithreading im) k) (\<lambda>(thread2, k).
            add_thread_to_schedule thread2 k)))))"

text \<open>\<open>kmain\<close> until it gives up the processor with \<open>int $0x30\<close>.\<close>

definition kmain :: "boot_loader \<Rightarrow> kernel_image \<Rightarrow> (kernel_state \<Rightarrow> kernel_state) \<Rightarrow> kernel_state \<Rightarrow> kernel_state run" where
  "kmain b im init_PIT k =
     (if \<not> boot_accepted b then stop Hcf
      else
        run_bind (start_console b im (k\<lparr>k_pages := (k_pages k)\<lparr>kernel_virt_offset := get_kernel_virt_offset_of b\<rparr>\<rparr>)) (\<lambda>k.
        run_bind (start_memory b im k) (\<lambda>k.
        run_bind (start_interrupts b im k) (\<lambda>k.
        run_bind (start_keyboard im k) (start_threads im init_PIT)))))"

text \<open>
  The rest of \<open>kmain\<close>. What \<open>int $0x30\<close> does until this thread runs again, the other threads included, is an argument. Back here the
  code prints and loops for ever, which is \<open>None\<close>; so a \<open>kmain\<close> that gets this far never returns.
\<close>

definition kmain_waits :: "kernel_image \<Rightarrow> (kernel_state \<Rightarrow> kernel_state run) \<Rightarrow> kernel_state \<Rightarrow> kernel_state run" where
  "kmain_waits im int30 k =
     run_bind (int30 k) (\<lambda>k. run_bind (on_screen (printf (back_format im) (stack_junk im)) k) (\<lambda>_. None))"

definition kmain_all ::
  "boot_loader \<Rightarrow> kernel_image \<Rightarrow> (kernel_state \<Rightarrow> kernel_state) \<Rightarrow> (kernel_state \<Rightarrow> kernel_state run) \<Rightarrow>
   kernel_state \<Rightarrow> kernel_state run" where
  "kmain_all b im init_PIT int30 k = run_bind (kmain b im init_PIT k) (kmain_waits im int30)"

section \<open>Entry points\<close>

text \<open>The second thread. After the interrupt it returns to whatever lies above its stack: nothing is pushed there.\<close>

definition run_testMultithreading :: "kernel_image \<Rightarrow> (kernel_state \<Rightarrow> kernel_state run) \<Rightarrow> kernel_state \<Rightarrow> kernel_state run" where
  "run_testMultithreading im int30 k =
     run_bind (on_screen (printf (thread2_format im) (stack_junk im)) k) (\<lambda>(_, k). int30 k)"

text \<open>The interrupt 0x30: the stack pointer of the thread to go on with.\<close>

definition syscall_handler :: "kernel_image \<Rightarrow> u64 \<Rightarrow> kernel_state \<Rightarrow> (u64 \<times> kernel_state) run" where
  "syscall_handler im rsp k =
     run_bind (on_screen (printf (syscall_format im) (stack_junk im)) k) (\<lambda>(_, k).
     run_bind (pop_next_and_readd_running rsp k) (\<lambda>(thread, k). ret (t_rsp (bytes k) thread, k)))"

text \<open>\<open>spawn_process\<close> fills a local structure and does not return it; what remains is the new process number.\<close>

definition spawn_process :: "u64 \<Rightarrow> kernel_state \<Rightarrow> kernel_state" where
  "spawn_process process_flags k = k\<lparr>highestPID := highestPID k + 1\<rparr>"

section \<open>Printing in the kernel's state\<close>

lemma share_machine [simp]:
  "bytes (share s t) = bytes s" "cr3 (share s t) = cr3 s" "console (share s t) = console s" "msr (share s t) = msr s"
  by (simp_all add: share_def)

lemma with_screen [simp]:
  "k_screen (with_screen t k) = t" "bytes (with_screen t k) = bytes t" "share (with_screen t k) t = t"
  "with_screen u (with_screen t k) = with_screen u k"
  by (cases k; simp add: with_screen_def share_def)+

lemma share_tty [simp]:
  fixes t :: "'b tty_state_scheme"
  shows "tty_wf (share s t) = tty_wf t" "frame (share s t) = frame t" "terminal_buffer (share s t) = terminal_buffer t"
  "fb_width (share s t) = fb_width t" "fb_height (share s t) = fb_height t" "buf (share s u) = buf u" "events (share s v) = events v"
  by (simp_all add: share_def tty_wf_def frame_def)

definition show_text :: "u8 list \<Rightarrow> kernel_state \<Rightarrow> kernel_state" where
  "show_text cs k = with_screen (fold terminal_emit cs (share k (k_screen k))) k"

lemma on_screen_printf:
  assumes "tty_wf (k_screen k)" "buf (k_screen k) = replicate 32 0"
    and "cstr (bytes k) format f" "\<And>i. i \<le> length f \<Longrightarrow> format + of_nat i \<notin> frame (k_screen k)"
    and "strings_ok (share k (k_screen k)) args strs 0 f" "length (render args strs 0 f) < 2147483647"
  shows "on_screen (printf format args) k = ret (of_nat (render_count args strs 0 f), show_text (render args strs 0 f) k)"
proof -
  have "string_at (share k (k_screen k)) format f" using assms(3,4) by (simp add: string_at_def)
  with assms have "printf_loop args format 0 0 (share k (k_screen k)) =
      ret (0 + of_nat (render_count args strs 0 f), fold terminal_emit (render args strs 0 f) (share k (k_screen k)))"
    by (intro printf_loop_renders) simp_all
  then show ?thesis by (simp add: on_screen_def printf_def show_text_def)
qed

lemma emit_all_events [simp]: "events (fold terminal_emit cs s) = events s"
proof (induction cs arbitrary: s)
  case (Cons c cs)
  have "events (terminal_emit c t) = events t" for t :: "'a keyboard_state_scheme"
    by (simp add: terminal_emit_def new_line_def scrollOverflow_def scroll_def terminal_putchar_def row_at_height_def
        terminal_putentryat_def Let_def del: upt_rec_numeral)
  with Cons show ?case by simp
qed simp

lemma show_text_screen:
  assumes "tty_wf (k_screen k)"
  shows "tty_wf (k_screen (show_text cs k))" "frame (k_screen (show_text cs k)) = frame (k_screen k)"
    and "\<And>a. a \<notin> frame (k_screen k) \<Longrightarrow> bytes (show_text cs k) a = bytes k a"
    and "events (k_screen (show_text cs k)) = events (k_screen k)"
proof -
  let ?t = "fold terminal_emit cs (share k (k_screen k))"
  have k: "keeps_frame (share k (k_screen k)) ?t" using assms by (intro emit_all_keeps) simp
  have s: "k_screen (show_text cs k) = ?t" "bytes (show_text cs k) = bytes ?t" by (simp_all add: show_text_def)
  show "tty_wf (k_screen (show_text cs k))" using k by (simp add: s keeps_frame_def)
  show "frame (k_screen (show_text cs k)) = frame (k_screen k)" using k by (simp add: s keeps_frame_def frame_def)
  show "bytes (show_text cs k) a = bytes k a" if "a \<notin> frame (k_screen k)" for a
    using k that by (simp add: s keeps_frame_def)
  show "events (k_screen (show_text cs k)) = events (k_screen k)"
    by (simp add: show_text_def)
qed

lemma show_text_sched [simp]:
  "current_running_thread (show_text cs k) = current_running_thread k" "next_running_thread (show_text cs k) = next_running_thread k"
  "next_count (show_text cs k) = next_count k" "empty_scheduling (show_text cs k) = empty_scheduling k"
  "scheduler_function (show_text cs k) = scheduler_function k"
  by (simp_all add: show_text_def with_screen_def share_def)

section \<open>The choice of the frame buffer\<close>

lemma pick_framebuffer_bound: "fId < n + length fbs \<Longrightarrow> pick_framebuffer fbs n fId x < n + length fbs \<or> pick_framebuffer fbs n fId x = fId"
  by (induction fbs n fId x rule: pick_framebuffer.induct) auto

text \<open>With the buffers before \<open>i\<close> seen, the choice is the first of the widest ones.\<close>

lemma pick_framebuffer_widest:
  assumes "fId < length pre \<or> pre = [] \<and> fId = 0" "pre \<noteq> [] \<longrightarrow> x = fst (snd (pre ! fId))" "\<forall>fb \<in> set pre. fst (snd fb) \<le> x"
    and "pre @ fbs \<noteq> []" "pre = [] \<longrightarrow> x = 0"
  shows "pick_framebuffer fbs (length pre) fId x < length (pre @ fbs) \<and>
    (\<forall>fb \<in> set (pre @ fbs). fst (snd fb) \<le> fst (snd ((pre @ fbs) ! pick_framebuffer fbs (length pre) fId x)))"
  using assms
proof (induction fbs arbitrary: pre fId x)
  case Nil
  then show ?case by auto
next
  case (Cons fb fbs)
  obtain ad w h where fb: "fb = (ad, w, h)" by (cases fb)
  show ?case
  proof (cases "w > x")
    case True
    have "pick_framebuffer fbs (length (pre @ [fb])) (length pre) w < length ((pre @ [fb]) @ fbs) \<and>
      (\<forall>f \<in> set ((pre @ [fb]) @ fbs). fst (snd f) \<le> fst (snd (((pre @ [fb]) @ fbs) ! pick_framebuffer fbs (length (pre @ [fb])) (length pre) w)))"
      using Cons.prems True by (intro Cons.IH) (auto simp: fb)
    then show ?thesis using True by (simp add: fb)
  next
    case False
    then have "pick_framebuffer fbs (length (pre @ [fb])) fId x < length ((pre @ [fb]) @ fbs) \<and>
      (\<forall>f \<in> set ((pre @ [fb]) @ fbs). fst (snd f) \<le> fst (snd (((pre @ [fb]) @ fbs) ! pick_framebuffer fbs (length (pre @ [fb])) fId x)))"
      using Cons.prems by (intro Cons.IH) (auto simp: fb nth_append word_gt_0)
    then show ?thesis using False by (simp add: fb)
  qed
qed

lemma kmain_never_returns: "kmain_all b im init_PIT int30 k \<noteq> ret k'"
proof
  have "(None :: kernel_state run) \<noteq> ret k'" by (simp add: ret_def)
  then show "kmain_all b im init_PIT int30 k = ret k' \<Longrightarrow> False"
    by (auto simp: kmain_all_def kmain_waits_def run_bind_eq_ret)
qed

section \<open>Properties\<close>

text \<open>What the console is after its initialisation, and how long the line is that is printed then.\<close>

lemma console_initialised:
  fixes k :: kernel_state
  assumes "unat address + 4 * (unat width * unat height) < 18446744073709551616" "8 \<le> unat width" "16 dvd unat height" "height \<noteq> 0"
    and "buf (k_screen k) = replicate 32 0"
  defines "s \<equiv> terminal_initialize address width height (pic_disable (share k (k_screen k)))"
  shows "tty_wf s" "frame s = span address (4 * (unat width * unat height))" "buf s = replicate 32 0"
    "events s = [Outb 0xA1 0xFF, Outb 0x21 0xFF] @ events (k_screen k)"
    "a \<notin> span address (4 * (unat width * unat height)) \<Longrightarrow> bytes s a = bytes k a"
proof -
  have dim: "height = 0 \<or> 16 \<le> unat height"
    using assms(3) by (auto simp: word_eq_iff_unat dest: dvd_imp_le)
  show "tty_wf s" "frame s = span address (4 * (unat width * unat height))" "buf s = replicate 32 0"
    "events s = [Outb 0xA1 0xFF, Outb 0x21 0xFF] @ events (k_screen k)"
    using assms(1-5) dim
    by (simp_all add: s_def tty_wf_def frame_def terminal_initialize_def terminal_clear_def pic_disable_def outb_def Let_def)
  have "height * width * 4 = of_nat (4 * (unat width * unat height))" by (simp add: ac_simps)
  then have "unat (height * width * 4) = 4 * (unat width * unat height)"
    using assms(1) by (simp only: unat_of_nat_u64)
  then show "bytes s a = bytes k a" if "a \<notin> span address (4 * (unat width * unat height))"
    using that by (simp add: s_def terminal_initialize_def terminal_clear_def pic_disable_def outb_def Let_def memset_eq del: mem_span)
qed

lemma decimal_length: "length (decimal (sint (x :: u32))) \<le> 11"
proof -
  have "\<bar>sint x\<bar> < 10 ^ 10" using sint_ge [of x] sint_lt [of x] by (simp add: abs_less_iff)
  from digits_bound [OF this] show ?thesis by (simp add: decimal_def)
qed

lemma resolution_kept:
  assumes "cstr m p [37, 100, 58, 37, 100, 58, 37, 100, 10]" "\<And>i. i \<le> 9 \<Longrightarrow> m' (p + of_nat i) = m (p + of_nat i)"
  shows "cstr m' p [37, 100, 58, 37, 100, 58, 37, 100, 10]"
  using assms(1) assms(2) [of 0] assms(2) [of 1] assms(2) [of 2] assms(2) [of 3] assms(2) [of 4] assms(2) [of 5] assms(2) [of 6]
    assms(2) [of 7] assms(2) [of 8] assms(2) [of 9]
  by (simp add: add.assoc load8_def)

text \<open>
  C23: The descriptor table of the kernel. \<open>kmain\<close> calls \<open>setupGDT\<close>, which encodes the null descriptor, kernel code at selector 8, kernel
  data at 16, user code and data, and then asks the page manager for a stack. Whatever that call does decides what follows. When it does not
  return or stops the machine, so does \<open>setupGDT\<close>. When it returns, \<open>setupGDT\<close> does too: the task state segment has the stack in its
  four stack fields, its descriptor at selector 40 gives the address of the static segment and its last byte, the five
  descriptors are still there unless the page manager overwrote them, the registers are loaded, and nothing else of what the page manager
  left has changed. The only assumption is that the two static objects are apart.
\<close>

theorem kernel_gdt_table:
  fixes k :: kernel_state and im :: kernel_image
  assumes sep: "apart (gdt_at im) 56 (tss_at im) 104"
  defines "load \<equiv> on_cpu (step_run (setupGDT (gdt_at im) (tss_at im) (\<lambda>fl. from_cpu (alloc_page fl)))) k"
  shows "\<exists>m. five_descriptors m (gdt_at im) \<and> (\<forall>x. x \<notin> span (gdt_at im) 44 \<longrightarrow> m x = bytes k x) \<and>
    (case alloc_page 3 (k\<lparr>bytes := m\<rparr>) of
       None \<Rightarrow> load = None
     | Some (Inl h) \<Rightarrow> load = stop h
     | Some (Inr (stack, k1)) \<Rightarrow> \<exists>k'. load = ret ((), k') \<and> k' = k1\<lparr>bytes := bytes k', k_cpu := k_cpu k'\<rparr> \<and>
         tss_in_place (bytes k') (gdt_at im) (tss_at im) stack \<and>
         (five_descriptors (bytes k1) (gdt_at im) \<longrightarrow> five_descriptors (bytes k') (gdt_at im)) \<and>
         (\<forall>x. x \<notin> span (gdt_at im + 40) 12 \<longrightarrow> x \<notin> span (tss_at im) 104 \<longrightarrow> bytes k' x = bytes k1 x) \<and>
         gdtr_base (k_cpu k') = gdt_at im \<and> gdtr_limit (k_cpu k') = 56 \<and> code_selector (k_cpu k') = 8 \<and>
         data_selector (k_cpu k') = 16 \<and> task_register (k_cpu k') = 40)"
proof -
  let ?g = "gdt_at im" and ?t = "tss_at im" and ?alloc = "\<lambda>fl. from_cpu (alloc_page fl)"
  let ?c = "cpu_state.extend (share k (k_cpu k)) k"
  obtain m where m: "five_descriptors m ?g" "\<And>x. x \<notin> span ?g 44 \<Longrightarrow> m x = bytes ?c x"
    "setupGDT ?g ?t ?alloc ?c = run_bind (?alloc 3 (?c\<lparr>bytes := m\<rparr>)) (\<lambda>(stack, s1).
       ret (reloadSegments (setTSS (setGdt gdt_bytes ?g (s1\<lparr>bytes := tss_written ?g ?t stack (bytes s1)\<rparr>)))))"
    by (rule setupGDT_halves [of ?g ?c ?t ?alloc]) (rule that)
  have at: "bytes ?c = bytes k" "share (?c\<lparr>bytes := m\<rparr>) (cpu_state.more (?c\<lparr>bytes := m\<rparr>)) = k\<lparr>bytes := m\<rparr>"
    by (simp_all add: share_def cpu_state.defs)
  show ?thesis
  proof (cases "alloc_page 3 (k\<lparr>bytes := m\<rparr>)")
    case None
    then show ?thesis
      using m at by (intro exI [of _ m]) (simp add: load_def on_cpu_def step_run_def from_cpu_def)
  next
    case (Some r)
    show ?thesis
    proof (cases r)
      case (Inl h)
      then have "alloc_page 3 (k\<lparr>bytes := m\<rparr>) = stop h" using Some by (simp add: stop_def)
      then have "load = stop h"
        using m(3) at by (simp add: load_def on_cpu_def step_run_def from_cpu_def)
      then show ?thesis
        using m(1,2) at(1) Some Inl by (intro exI [of _ m]) simp
    next
      case (Inr q)
      obtain stack k1 where q: "q = (stack, k1)" by (cases q)
      let ?m' = "tss_written ?g ?t stack (bytes k1)"
      define k' where "k' = k1\<lparr>bytes := ?m', k_cpu := cpu_state.truncate (reloadSegments (setTSS (setGdt gdt_bytes ?g
        ((cpu_state.extend (share k1 (cpu_state.truncate (?c\<lparr>bytes := m\<rparr>))) k1)\<lparr>bytes := ?m'\<rparr>))))\<rparr>"
      have "alloc_page 3 (k\<lparr>bytes := m\<rparr>) = ret (stack, k1)" using Some Inr q by (simp add: ret_def)
      then have run: "load = ret ((), k')"
        using m(3) at by (simp add: load_def k'_def on_cpu_def step_run_def from_cpu_def share_def cpu_state.defs reloadSegments_def
            setTSS_def setGdt_def)
      have b: "bytes k' = ?m'" "k' = k1\<lparr>bytes := bytes k', k_cpu := k_cpu k'\<rparr>"
        and regs: "gdtr_base (k_cpu k') = ?g" "gdtr_limit (k_cpu k') = 56" "code_selector (k_cpu k') = 8"
          "data_selector (k_cpu k') = 16" "task_register (k_cpu k') = 40"
        by (cases k1; simp add: k'_def cpu_state.defs reloadSegments_def setTSS_def setGdt_def gdt_bytes_def)+
      note facts = tss_written_facts [OF sep, where stack = stack and m = "bytes k1", folded b(1)]
      have "\<exists>k'. load = ret ((), k') \<and> k' = k1\<lparr>bytes := bytes k', k_cpu := k_cpu k'\<rparr> \<and>
         tss_in_place (bytes k') ?g ?t stack \<and> (five_descriptors (bytes k1) ?g \<longrightarrow> five_descriptors (bytes k') ?g) \<and>
         (\<forall>x. x \<notin> span (?g + 40) 12 \<longrightarrow> x \<notin> span ?t 104 \<longrightarrow> bytes k' x = bytes k1 x) \<and>
         gdtr_base (k_cpu k') = ?g \<and> gdtr_limit (k_cpu k') = 56 \<and> code_selector (k_cpu k') = 8 \<and>
         data_selector (k_cpu k') = 16 \<and> task_register (k_cpu k') = 40"
        using run b(2) facts regs by (intro exI [of _ k'] conjI allI impI) blast+
      with Some Inr q m(1,2) at(1) show ?thesis by (intro exI [of _ m]) simp
    qed
  qed
qed

text \<open>
  C34: The console comes up. When the widest of the boot loader's frame buffers has a height that is a multiple of 16, is at least 8
  pixels wide and does not wrap, and the format \<open>"%d:%d:%d\n"\<close> lies outside it, the first part of \<open>kmain\<close> returns: the chosen buffer is
  one of the boot loader's and no other is wider, the two mask registers of the PIC have been written, the screen is the blank one
  with the number of buffers, the width and the height printed on it, and nothing outside the frame buffer has changed.
\<close>

theorem console_comes_up:
  assumes "framebuffers b \<noteq> []" "framebuffers b ! pick_framebuffer (framebuffers b) 0 0 0 = (address, width, height)"
    and "unat address + 4 * (unat width * unat height) < 18446744073709551616" "8 \<le> unat width" "16 dvd unat height" "height \<noteq> 0"
    and "buf (k_screen k) = replicate 32 0" "cstr (bytes k) (resolution_format im) [37, 100, 58, 37, 100, 58, 37, 100, 10]"
    and "\<And>i. i \<le> 9 \<Longrightarrow> resolution_format im + of_nat i \<notin> span address (4 * (unat width * unat height))"
  shows "\<exists>k'. start_console b im k = ret k' \<and> (address, width, height) \<in> set (framebuffers b) \<and>
    (\<forall>fb \<in> set (framebuffers b). fst (snd fb) \<le> width) \<and>
    k_screen k' = fold terminal_emit
      (decimal (sint (of_nat (length (framebuffers b)) :: u32)) @ [58] @ decimal (sint (ucast width :: u32)) @ [58] @
       decimal (sint (ucast height :: u32)) @ [10])
      (terminal_initialize address width height (pic_disable (share k (k_screen k)))) \<and>
    tty_wf (k_screen k') \<and> events (k_screen k') = [Outb 0xA1 0xFF, Outb 0x21 0xFF] @ events (k_screen k) \<and>
    (\<forall>a. a \<notin> span address (4 * (unat width * unat height)) \<longrightarrow> bytes k' a = bytes k a)"
proof -
  let ?fb = "span address (4 * (unat width * unat height))" and ?f = "[37, 100, 58, 37, 100, 58, 37, 100, 10] :: u8 list"
  define s where "s = terminal_initialize address width height (pic_disable (share k (k_screen k)))"
  define k2 where "k2 = with_screen s k"
  define args where "args = (\<lambda>i. if i = 0 then of_nat (length (framebuffers b)) else if i = 1 then width
    else if i = 2 then height else stack_junk im i)"
  let ?shown = "decimal (sint (of_nat (length (framebuffers b)) :: u32)) @ [58] @ decimal (sint (ucast width :: u32)) @ [58] @
       decimal (sint (ucast height :: u32)) @ [10]"
  have k2: "k_screen k2 = s" "bytes k2 = bytes s" by (simp_all add: k2_def)
  note init = console_initialised [OF assms(3-7), folded s_def]
  have start: "start_console b im k = run_bind (on_screen (printf (resolution_format im) args) k2) (\<lambda>(_, k). ret k)"
    by (simp add: start_console_def assms(2) on_screen_def step_def args_def k2_def s_def)
  have shown: "render args (\<lambda>_. []) 0 ?f = ?shown"
    by (simp add: conv_out_def args_def ucast_of_nat_u32)
  have "cstr (bytes k2) (resolution_format im) ?f"
    by (rule resolution_kept [OF assms(8)]) (simp add: k2 init(5) assms(9) del: mem_span)
  moreover have "length ?shown < 2147483647"
    using decimal_length [of "of_nat (length (framebuffers b))"] decimal_length [of "ucast width"] decimal_length [of "ucast height"] by simp
  ultimately have "on_screen (printf (resolution_format im) args) k2 =
    ret (of_nat (render_count args (\<lambda>_. []) 0 ?f), show_text ?shown k2)"
    using assms(9) init k2
    by (intro on_screen_printf [of k2 "resolution_format im" ?f args "\<lambda>_. []", unfolded shown]) (simp_all del: mem_span)
  with start have run: "start_console b im k = ret (show_text ?shown k2)" by simp
  have "k_screen (show_text ?shown k2) = fold terminal_emit ?shown s"
    by (simp add: show_text_def k2_def)
  moreover have "\<forall>a. a \<notin> ?fb \<longrightarrow> bytes (show_text ?shown k2) a = bytes k a"
    using show_text_screen(3) [of k2] init by (simp add: k2 del: mem_span)
  moreover have "(address, width, height) \<in> set (framebuffers b) \<and> (\<forall>fb \<in> set (framebuffers b). fst (snd fb) \<le> width)"
    using pick_framebuffer_widest [of 0 "[]" 0 "framebuffers b"] assms(1,2) by (auto dest: nth_mem)
  ultimately show ?thesis
    using run show_text_screen(1,4) [of k2 ?shown] init by (simp add: k2 s_def del: mem_span)
qed

lemma screen_update [simp]:
  fixes k :: kernel_state
  shows "k_screen (k\<lparr>bytes := m\<rparr>) = k_screen k" "k_screen (k\<lparr>next_running_thread := p\<rparr>) = k_screen k"
    "k_screen (k\<lparr>current_running_thread := p\<rparr>) = k_screen k" "k_screen (k\<lparr>empty_scheduling := e\<rparr>) = k_screen k"
  by (cases k; simp)+

lemma syscall_screen:
  fixes k :: kernel_state
  assumes "pop_next_and_readd_running rsp k = ret (t, k')"
  shows "k_screen k' = k_screen k"
  using assms
  by (auto simp: pop_next_and_readd_running_def call_policy_def pop_next_thread_def Let_def split: if_splits option.splits)

text \<open>Printing is not seen by a scheduler whose nodes and threads lie outside the frame buffer.\<close>

lemma show_text_sched_ok:
  assumes "sched_ok k c qs" "tty_wf (k_screen k)"
    and "\<And>p. p \<in> set (c # qs) \<Longrightarrow> (span p 24 \<union> span (l_thread (bytes k) p) 40) \<inter> frame (k_screen k) = {}"
  shows "sched_ok (show_text cs k) c qs"
    and "p \<in> set (c # qs) \<Longrightarrow> l_thread (bytes (show_text cs k)) p = l_thread (bytes k) p"
    and "p \<in> set (c # qs) \<Longrightarrow> t_rsp (bytes (show_text cs k)) (l_thread (bytes k) p) = t_rsp (bytes k) (l_thread (bytes k) p)"
proof -
  let ?m = "bytes (show_text cs k)"
  have node: "\<And>x. x \<in> span p 24 \<Longrightarrow> ?m x = bytes k x" and thread: "\<And>x. x \<in> span (l_thread (bytes k) p) 40 \<Longrightarrow> ?m x = bytes k x"
    if "p \<in> set (c # qs)" for p
    using show_text_screen(3) [OF assms(2)] assms(3) [OF that] by blast+
  have l: "l_thread ?m p = l_thread (bytes k) p" "l_next ?m p = l_next (bytes k) p" if "p \<in> set (c # qs)" for p
    using node_cong [of p ?m "bytes k"] node [OF that] by blast+
  then have "queue ?m (next_running_thread k) qs = queue (bytes k) (next_running_thread k) qs"
    by (intro queue_cong) simp
  moreover have "sep ?m (c # qs)" by (rule sep_cong [of "bytes k" "c # qs"]) (use assms(1) l in \<open>auto simp: sched_ok_def\<close>)
  ultimately show "sched_ok (show_text cs k) c qs"
    using assms(1) l [of c] by (simp add: sched_ok_def)
  show "l_thread ?m p = l_thread (bytes k) p" if "p \<in> set (c # qs)" using l [OF that] by simp
  show "t_rsp ?m (l_thread (bytes k) p) = t_rsp (bytes k) (l_thread (bytes k) p)" if "p \<in> set (c # qs)"
    using thread_cong(1) [of "l_thread (bytes k) p" ?m "bytes k"] thread [OF that] by blast
qed

text \<open>
  A system call gives the processor to the next thread. With node \<open>c\<close> running and \<open>q # qs\<close> queued under
  \<open>standart_FCFS_scheduler\<close>, nodes and threads outside the frame buffer, \<open>syscall_handler\<close> prints its message and returns the
  stack pointer that the thread of \<open>q\<close> had; \<open>q\<close> runs then, \<open>c\<close> waits at the end of the queue with the stack pointer it called
  with.
\<close>

lemma syscall_switches:
  assumes "sched_ok k c (q # qs)" "scheduler_function k = standart_FCFS_scheduler"
    and "tty_wf (k_screen k)" "buf (k_screen k) = replicate 32 0"
    and "cstr (bytes k) (syscall_format im) [83, 121, 115, 99, 97, 108, 108, 10]"
    and "\<And>i. i \<le> 8 \<Longrightarrow> syscall_format im + of_nat i \<notin> frame (k_screen k)"
    and "\<And>p. p \<in> set (c # q # qs) \<Longrightarrow> (span p 24 \<union> span (l_thread (bytes k) p) 40) \<inter> frame (k_screen k) = {}"
  shows "\<exists>k'. syscall_handler im rsp k = ret (t_rsp (bytes k) (l_thread (bytes k) q), k') \<and> sched_ok k' q (qs @ [c]) \<and>
    t_rsp (bytes k') (l_thread (bytes k) c) = rsp \<and>
    k_screen k' = fold terminal_emit [83, 121, 115, 99, 97, 108, 108, 10] (share k (k_screen k))"
proof -
  let ?f = "[83, 121, 115, 99, 97, 108, 108, 10] :: u8 list"
  let ?k = "show_text ?f k"
  have "render (stack_junk im) (\<lambda>_. []) 0 ?f = ?f" by simp
  moreover have "\<exists>n. on_screen (printf (syscall_format im) (stack_junk im)) k = ret (n, show_text (render (stack_junk im) (\<lambda>_. []) 0 ?f) k)"
    using assms(3-6) by (intro exI) (rule on_screen_printf [where f = ?f and strs = "\<lambda>_. []"], simp_all del: mem_span)
  ultimately obtain n where shown: "on_screen (printf (syscall_format im) (stack_junk im)) k = ret (n, ?k)" by metis
  have ok: "sched_ok ?k c (q # qs)" and l: "\<And>p. p \<in> set (c # q # qs) \<Longrightarrow> l_thread (bytes ?k) p = l_thread (bytes k) p"
    and r: "t_rsp (bytes ?k) (l_thread (bytes k) q) = t_rsp (bytes k) (l_thread (bytes k) q)"
    using show_text_sched_ok [OF assms(1,3,7), where cs = ?f] by auto
  from fcfs.tick [OF ok, of rsp] assms(2) obtain k' where k': "pop_next_and_readd_running rsp ?k = ret (l_thread (bytes ?k) q, k')"
      "sched_ok k' q (qs @ [c])" "t_rsp (bytes k') (l_thread (bytes ?k) c) = rsp"
      "t_rsp (bytes k') (l_thread (bytes ?k) q) = t_rsp (bytes ?k) (l_thread (bytes ?k) q)"
    by auto
  moreover have "k_screen k' = k_screen ?k" by (rule syscall_screen [OF k'(1)])
  ultimately show ?thesis
    using shown l r by (intro exI [of _ k']) (simp add: syscall_handler_def show_text_def)
qed

section \<open>A kernel at work\<close>

text \<open>Three threads, a screen of 32 by 32 pixels, and the two formats in memory; the other components are arbitrary.\<close>

definition demo_bytes :: mem where
  "demo_bytes = (bytes three_threads)
     (0x20000 := 83, 0x20001 := 121, 0x20002 := 115, 0x20003 := 99, 0x20004 := 97, 0x20005 := 108, 0x20006 := 108, 0x20007 := 10, 0x20008 := 0,
      0x20010 := 37, 0x20011 := 100, 0x20012 := 58, 0x20013 := 37, 0x20014 := 100, 0x20015 := 58, 0x20016 := 37, 0x20017 := 100,
      0x20018 := 10, 0x20019 := 0)"

definition demo_kernel :: "page_state \<Rightarrow> acpi_state \<Rightarrow> cpu_state \<Rightarrow> kernel_state" where
  "demo_kernel p a c =
     \<lparr>bytes = demo_bytes, cr3 = 0, console = [], msr = (\<lambda>_. 0), free_mem_next = 0, free_mem_size = 0, empty_scheduling = False,
      next_running_thread = 0x118, next_count = 2, next_waiting_thread = 0, waiting_count = 0, next_sleeping_thread = 0,
      sleeping_count = 0, empty_thread_data = 0x148, empty_count = 1, current_running_thread = 0x100, thread_id_inc = 3,
      scheduler_function = standart_FCFS_scheduler, mmio = [], ticks_per_ms = 0, waiting_list = 0, timer_waiting_count = 0,
      empty_list = 0, timer_empty_count = 0, k_pages = p, k_acpi = a, k_screen = demo_keyboard 0, k_cpu = c, highestPID = 0\<rparr>"

definition demo_image :: kernel_image where
  "demo_image =
     \<lparr>kernel_process = 0, heap_at = 0, gdt_at = 0, tss_at = 0, idt_at = 0, vectors_at = 0, entry_points = (\<lambda>_. 0), facp_literal = 0,
      apic_literal = 0, resolution_format = 0x20010, name_format = 0, timer_format = 0, thread_format = 0, thread2_format = 0, back_format = 0, syscall_format = 0x20000,
      keyboard_callback = 0, testMultithreading = 0, stack_junk = (\<lambda>_. 0), uninitialised = 0\<rparr>"

definition demo_loader :: boot_loader where
  "demo_loader =
     \<lparr>base_revision_supported = True, memmap = Some [], framebuffers = [(0x9000, 16, 16), (0x1000, 32, 32), (0x1000, 32, 16)],
      smp_flags = Some 1, bsp_lapic_id = 0, rsdp = Some 0, virtual_base = 0, physical_base = 0\<rparr>"

lemma demo_screen: "tty_wf (k_screen (demo_kernel p a c))" "frame (k_screen (demo_kernel p a c)) = span 0x1000 4096"
    "buf (k_screen (demo_kernel p a c)) = replicate 32 0"
  by (simp_all add: demo_kernel_def demo_keyboard_def tty_wf_def frame_def)

lemma demo_load64: "unat x < 4096 \<Longrightarrow> load64 demo_bytes x = load64 (bytes three_threads) x"
proof (rule load64_cong)
  fix y assume "unat x < 4096" "y \<in> span x 8"
  moreover from this have "span x 8 \<inter> span 0x20000 32 = {}" by (intro span_disjoint_no_wrap) simp_all
  ultimately have "y \<notin> span 0x20000 32" by blast
  then show "demo_bytes y = bytes three_threads y" by (auto simp: demo_bytes_def)
qed

lemma demo_sched:
  "sched_ok (demo_kernel p a c) 0x100 [0x118, 0x130]"
  "l_thread (bytes (demo_kernel p a c)) 0x100 = 0x200" "l_thread (bytes (demo_kernel p a c)) 0x118 = 0x228"
  "l_thread (bytes (demo_kernel p a c)) 0x130 = 0x250"
  by (simp_all add: sched_ok_def demo_kernel_def demo_load64 sep_def nodes_def l_next_def l_thread_def)
    (simp_all add: three_threads_def)

lemma syscall_switches_example:
  "\<forall>p a c. \<exists>k'. syscall_handler demo_image 0x7000 (demo_kernel p a c) = ret (0, k') \<and> sched_ok k' 0x118 [0x130, 0x100]"
proof (intro allI)
  fix p a c
  let ?k = "demo_kernel p a c"
  have fmt: "cstr (bytes ?k) (syscall_format demo_image) [83, 121, 115, 99, 97, 108, 108, 10]"
    by (simp add: demo_kernel_def demo_image_def demo_bytes_def load8_def)
  have out: "syscall_format demo_image + of_nat i \<notin> frame (k_screen ?k)" if "i \<le> 8" for i
  proof -
    have "i \<in> {0, 1, 2, 3, 4, 5, 6, 7, 8}" using that by auto
    then show ?thesis unfolding demo_screen by (auto simp: demo_image_def)
  qed
  have far: "(span q 24 \<union> span (l_thread (bytes ?k) q) 40) \<inter> frame (k_screen ?k) = {}" if "q \<in> set (0x100 # 0x118 # [0x130])" for q
  proof -
    have "span x n \<inter> span 0x1000 4096 = {}" if "unat x + n \<le> 4096" for x :: u64 and n
      by (rule span_disjoint_no_wrap) (use that in simp_all)
    moreover have "q = 0x100 \<or> q = 0x118 \<or> q = 0x130" using that by simp
    ultimately show ?thesis
      unfolding demo_screen by (elim disjE) (simp_all add: Int_Un_distrib2 demo_sched del: mem_span)
  qed
  have f: "scheduler_function ?k = standart_FCFS_scheduler" by (simp add: demo_kernel_def)
  have rsp: "t_rsp (bytes ?k) 0x228 = 0"
    by (simp add: t_rsp_def demo_kernel_def demo_load64) (simp add: three_threads_def)
  from syscall_switches [OF demo_sched(1) f demo_screen(1,3) fmt out far, of "0x7000"]
  show "\<exists>k'. syscall_handler demo_image 0x7000 ?k = ret (0, k') \<and> sched_ok k' 0x118 [0x130, 0x100]"
    by (auto simp: demo_sched rsp)
qed

theorem console_comes_up_witness:
  "\<forall>p a c. \<exists>k'. start_console demo_loader demo_image (demo_kernel p a c) = ret k' \<and>
    k_screen k' = fold terminal_emit [51, 58, 51, 50, 58, 51, 50, 10]
      (terminal_initialize 0x1000 32 32 (pic_disable (share (demo_kernel p a c) (demo_keyboard 0))))"
proof (intro allI)
  fix p a c
  let ?k = "demo_kernel p a c"
  have fmt: "cstr (bytes ?k) (resolution_format demo_image) [37, 100, 58, 37, 100, 58, 37, 100, 10]"
    by (simp add: demo_kernel_def demo_image_def demo_bytes_def load8_def)
  have out: "resolution_format demo_image + of_nat i \<notin> span 0x1000 (4 * (unat (32 :: u64) * unat (32 :: u64)))" if "i \<le> 9" for i
  proof -
    have "i \<in> {0, 1, 2, 3, 4, 5, 6, 7, 8, 9}" using that by auto
    then show ?thesis by (auto simp: demo_image_def)
  qed
  have choice: "framebuffers demo_loader \<noteq> []"
    "framebuffers demo_loader ! pick_framebuffer (framebuffers demo_loader) 0 0 0 = (0x1000, 32, 32)"
    by (simp_all add: demo_loader_def)
  have shown: "decimal 3 = [51]" "decimal 32 = [51, 50]"
    by (simp_all add: decimal_def digits.simps signed_divide_int_def signed_modulo_int_def)
  have args: "sint (of_nat (length (framebuffers demo_loader)) :: u32) = 3" "sint (ucast (32 :: u64) :: u32) = 32"
    by (simp_all add: demo_loader_def)
  have "k_screen ?k = demo_keyboard 0" by (simp add: demo_kernel_def)
  with console_comes_up [OF choice _ _ _ _ demo_screen(3) fmt out] show "\<exists>k'. start_console demo_loader demo_image ?k = ret k' \<and>
      k_screen k' = fold terminal_emit [51, 58, 51, 50, 58, 51, 50, 10]
        (terminal_initialize 0x1000 32 32 (pic_disable (share ?k (demo_keyboard 0))))"
    unfolding args shown by auto
qed

text \<open>A page manager that has one page left, and its allocator: the table is loaded with that page as the stack.\<close>

definition one_page :: page_state where
  "one_page =
     \<lparr>bytes = \<lambda>_. 0, cr3 = 0, console = [], msr = (\<lambda>_. 0), free_mem_next = 0, free_mem_size = 0, same_mem = 0, mem_used = 0,
      mem_used_size = 0, same_next_free = 0, obj_size = 0, kernel_virt_offset = 0, mv_pml4 = 0, mv_pdpt = 0, mv_pd = 0, mv_pt = 0,
      sections = 0x700, mem_lenght = 1, first_free_mem = 0, first_free_page = 0, current_process = 0x400, translator = 0x500,
      INTERNAL_MEMORY_OFFSET = 0, paging_pml4 = 0, paging_pdpt = 0, paging_pd = 0, paging_pt = 0\<rparr>"

definition paged_kernel :: "acpi_state \<Rightarrow> cpu_state \<Rightarrow> kernel_state" where
  "paged_kernel a c = (demo_kernel one_page a c)\<lparr>bytes := paged_bytes, cr3 := 0x10000, free_mem_next := 0x1000\<rparr>"

definition paged_image :: kernel_image where
  "paged_image = demo_image\<lparr>gdt_at := 0x100, tss_at := 0x200\<rparr>"

theorem kernel_gdt_table_witness:
  "\<forall>a c. \<exists>k'. on_cpu (step_run (setupGDT 0x100 0x200 (\<lambda>fl. from_cpu (alloc_page fl)))) (paged_kernel a c) = ret ((), k') \<and>
     tss_in_place (bytes k') 0x100 0x200 0xFFFF800000002000 \<and> gdtr_base (k_cpu k') = 0x100 \<and> task_register (k_cpu k') = 40"
proof (intro allI)
  fix a c
  let ?k = "paged_kernel a c"
  have sep: "apart (gdt_at paged_image) 56 (tss_at paged_image) 104"
    by (simp add: paged_image_def)
  have at: "gdt_at paged_image = 0x100" "tss_at paged_image = 0x200" by (simp_all add: paged_image_def)
  have alloc: "\<exists>k1. alloc_page 3 (?k\<lparr>bytes := m\<rparr>) = ret (0xFFFF800000002000, k1)"
    if m: "\<forall>x. x \<notin> span 0x100 44 \<longrightarrow> m x = bytes ?k x" for m
  proof -
    let ?s = "share_heap (?k\<lparr>bytes := m\<rparr>) one_page"
    have "paged m" using paged_cong [OF paged_bytes, of m] m by (simp add: paged_kernel_def)
    then have "\<exists>m'. alloc_next_page 3 ?s = ret (0xFFFF800000002000, ?s\<lparr>bytes := m'\<rparr>)"
      by (intro paged_page)
        (simp_all add: at_pages_def share_heap_def share_def paged_kernel_def one_page_def demo_kernel_def)
    moreover have "k_pages (?k\<lparr>bytes := m\<rparr>) = one_page" by (simp add: paged_kernel_def demo_kernel_def)
    ultimately show ?thesis by (auto simp: alloc_page_def on_pages_def)
  qed
  from kernel_gdt_table [OF sep, of ?k]
  show "\<exists>k'. on_cpu (step_run (setupGDT 0x100 0x200 (\<lambda>fl. from_cpu (alloc_page fl)))) ?k = ret ((), k') \<and>
     tss_in_place (bytes k') 0x100 0x200 0xFFFF800000002000 \<and> gdtr_base (k_cpu k') = 0x100 \<and> task_register (k_cpu k') = 40"
    unfolding at by (elim exE conjE) (frule alloc, auto simp: ret_def simp del: mem_span)
qed

end
