(* ===== verification/Video.thy ===== *)
theory Video
  imports Terminal
begin

text \<open>
  The drawing routines of \<open>kernel/arch/x86_64/vtty.c\<close>: clearing the screen, pictures, text and rectangles, at positions
  given in a virtual resolution of 3840 by 2160. A division by zero is the machine's exception, \<open>Hcf\<close>.
  The last sections show what a picture drawn in its own size leaves on the screen.
\<close>

section \<open>State\<close>

record video_state = tty_state +
  v_bpp :: u8
  vbuffer :: u64
  v_height :: u64
  v_width :: u64

definition virt_x :: u64 where "virt_x = 3840"
definition virt_y :: u64 where "virt_y = 2160"

text \<open>\<open>struct video_Image\<close>, \<open>struct video_Text\<close> and \<open>struct video_Rect\<close>.\<close>

definition img_pixels :: "mem \<Rightarrow> u64 \<Rightarrow> u64" where "img_pixels m p = load64 m p"
definition img_width :: "mem \<Rightarrow> u64 \<Rightarrow> u32" where "img_width m p = load32 m (p + 8)"
definition img_height :: "mem \<Rightarrow> u64 \<Rightarrow> u32" where "img_height m p = load32 m (p + 12)"
definition txt_txt :: "mem \<Rightarrow> u64 \<Rightarrow> u64" where "txt_txt m p = load64 m p"
definition txt_color :: "mem \<Rightarrow> u64 \<Rightarrow> u32" where "txt_color m p = load32 m (p + 8)"
definition txt_size :: "mem \<Rightarrow> u64 \<Rightarrow> u32" where "txt_size m p = load32 m (p + 12)"
definition rect_color :: "mem \<Rightarrow> u64 \<Rightarrow> u32" where "rect_color m p = load32 m p"
definition rect_width :: "mem \<Rightarrow> u64 \<Rightarrow> u32" where "rect_width m p = load32 m (p + 4)"
definition rect_height :: "mem \<Rightarrow> u64 \<Rightarrow> u32" where "rect_height m p = load32 m (p + 8)"

text \<open>A virtual coordinate on the screen, computed in 64 bits and stored in 32.\<close>

definition scale :: "u32 \<Rightarrow> u64 \<Rightarrow> u64 \<Rightarrow> u32" where
  "scale x extent virt = ucast (ucast x * extent div virt)"

section \<open>Clearing\<close>

definition video_clear :: "u32 \<Rightarrow> 'a video_state_scheme \<Rightarrow> 'a video_state_scheme" where
  "video_clear col s =
     s\<lparr>bytes := fold (\<lambda>i m. store32 m (vbuffer s + 4 * of_nat i) col) [0..<unat (v_height s * v_width s)] (bytes s)\<rparr>"

definition video_init :: "u64 \<Rightarrow> u64 \<Rightarrow> u64 \<Rightarrow> 'a video_state_scheme \<Rightarrow> 'a video_state_scheme" where
  "video_init address width height s =
     video_clear 0 (s\<lparr>vbuffer := address, v_height := height, v_width := width, v_bpp := 32\<rparr>)"

definition get_res_x :: "'a video_state_scheme \<Rightarrow> u32" where "get_res_x s = ucast (v_width s)"
definition get_res_y :: "'a video_state_scheme \<Rightarrow> u32" where "get_res_y s = ucast (v_height s)"

section \<open>Pictures\<close>

text \<open>A colour byte \<open>p\<close> with opacity \<open>a\<close> over the byte \<open>c\<close> that is there, computed in \<open>int\<close> and stored in 8 bits.\<close>

definition blend :: "u8 \<Rightarrow> u8 \<Rightarrow> u8 \<Rightarrow> u8" where
  "blend p a c =
     of_nat ((if a = 0 then 0 else unat p * 255 div unat a) + (if a = 255 then 0 else unat c * 255 div (255 - unat a)))"

definition blend_pixel :: "u64 \<Rightarrow> u64 \<Rightarrow> mem \<Rightarrow> mem" where
  "blend_pixel src dst m =
     (let m = store8 m dst (blend (load8 m src) (load8 m (src + 3)) (load8 m dst));
          m = store8 m (dst + 1) (blend (load8 m (src + 1)) (load8 m (src + 3)) (load8 m (dst + 1)))
      in store8 m (dst + 2) (blend (load8 m (src + 2)) (load8 m (src + 3)) (load8 m (dst + 2))))"

text \<open>The loops read the sz of the picture in every iteration. \<open>i\<close> is the index of the next pixel of the picture.\<close>

partial_function (option) image_row :: "u64 \<Rightarrow> u64 \<Rightarrow> u64 \<Rightarrow> u32 \<Rightarrow> u64 \<Rightarrow> mem \<Rightarrow> (u64 \<times> mem) option" where
  "image_row img pixels cur j i m =
     (if j < img_width m img
      then image_row img pixels cur (j + 1) (i + 1) (blend_pixel (pixels + i * 4) (cur + i * 4) m)
      else Some (i, m))"

partial_function (option) image_rows :: "u64 \<Rightarrow> u64 \<Rightarrow> u64 \<Rightarrow> u64 \<Rightarrow> u32 \<Rightarrow> u64 \<Rightarrow> mem \<Rightarrow> mem option" where
  "image_rows img pixels width cur k i m =
     (if k < img_height m img then
        (case image_row img pixels cur 0 i m of
           None \<Rightarrow> None
         | Some (i', m') \<Rightarrow> image_rows img pixels width (cur + (width - ucast (img_width m' img)) * 4) (k + 1) i' m')
      else Some m)"

text \<open>The enlarged picture: a block of \<open>u\<close> lines of \<open>v\<close> pixels for each pixel.\<close>

definition image_block :: "u64 \<Rightarrow> u64 \<Rightarrow> u64 \<Rightarrow> u32 \<Rightarrow> u32 \<Rightarrow> mem \<Rightarrow> mem" where
  "image_block src dst width u v m =
     fold (\<lambda>l. fold (\<lambda>c. blend_pixel src (dst + 4 * (width * of_nat l) + of_nat c * 4)) [0..<unat v]) [0..<unat u] m"

partial_function (option) block_row :: "u64 \<Rightarrow> u64 \<Rightarrow> u64 \<Rightarrow> u64 \<Rightarrow> u32 \<Rightarrow> u32 \<Rightarrow> u32 \<Rightarrow> u64 \<Rightarrow> mem \<Rightarrow> (u64 \<times> mem) option" where
  "block_row img pixels width buffer u v j i m =
     (if j < img_width m img
      then block_row img pixels width (buffer + 4 * ucast u) u v (j + 1) (i + 1) (image_block (pixels + i * 4) buffer width u v m)
      else Some (i, m))"

partial_function (option) block_rows :: "u64 \<Rightarrow> u64 \<Rightarrow> u64 \<Rightarrow> u64 \<Rightarrow> u32 \<Rightarrow> u32 \<Rightarrow> u32 \<Rightarrow> u64 \<Rightarrow> mem \<Rightarrow> mem option" where
  "block_rows img pixels width buf2 u v k i m =
     (if k < img_height m img then
        (case block_row img pixels width buf2 u v 0 i m of
           None \<Rightarrow> None
         | Some (i', m') \<Rightarrow> block_rows img pixels width (buf2 + 4 * (width * ucast u)) u v (k + 1) i' m')
      else Some m)"

definition video_image :: "u64 \<Rightarrow> u32 \<Rightarrow> u32 \<Rightarrow> u32 \<Rightarrow> u32 \<Rightarrow> 'a video_state_scheme \<Rightarrow> 'a video_state_scheme run" where
  "video_image img x y u v s =
     (let m = bytes s;
          x = scale x (v_width s) virt_x;
          y = scale y (v_height s) virt_y
      in if img_width m img = 0 \<or> img_height m img = 0 then stop Hcf
         else
           let u = u div img_width m img;
               v = v div img_height m img;
               state = (if u = 0 \<and> v = 0 then 1 else 0) OR (if u = 1 \<and> v = 1 then 0b10 else 0) OR (if u > 1 \<and> v > 0 then 0b100 else 0) :: u8;
               buffer = vbuffer s + (ucast y * v_width s + ucast x) * 4;
               pixels = img_pixels m img
           in if state = 0 then stop Hcf
              else if state = 0b10 then
                (case image_rows img pixels (v_width s) buffer 0 0 m of None \<Rightarrow> None | Some m' \<Rightarrow> ret (s\<lparr>bytes := m'\<rparr>))
              else if state = 0b100 then
                (case block_rows img pixels (v_width s) buffer u v 0 0 m of None \<Rightarrow> None | Some m' \<Rightarrow> ret (s\<lparr>bytes := m'\<rparr>))
              else ret s)"

section \<open>Text\<close>

text \<open>A pixel of a glyph is \<open>sz\<close> columns wide, each drawn over \<open>sz\<close> lines.\<close>

definition text_column :: "u64 \<Rightarrow> u32 \<Rightarrow> u32 \<Rightarrow> u64 \<times> mem \<Rightarrow> u64 \<times> mem" where
  "text_column width sz col b =
     (case b of (p, m) \<Rightarrow>
        (p + 4, fold (\<lambda>k m. store32 m (p + 4 * (width * of_nat k)) col) [0..<unat sz] (store32 m p col)))"

definition text_pixel :: "u64 \<Rightarrow> u64 \<Rightarrow> u32 \<Rightarrow> u32 \<Rightarrow> nat \<Rightarrow> nat \<Rightarrow> u64 \<times> mem \<Rightarrow> u64 \<times> mem" where
  "text_pixel bits width sz col i j b =
     (let set = load8 (snd b) (bits + of_nat (12 - i)) AND drop_bit j 0x80 \<noteq> 0;
          c = (if set then 1 else 0) * col
      in (text_column width sz c ^^ unat sz) b)"

definition text_row :: "u64 \<Rightarrow> u64 \<Rightarrow> u32 \<Rightarrow> u32 \<Rightarrow> nat \<Rightarrow> u64 \<times> mem \<Rightarrow> u64 \<times> mem" where
  "text_row bits width sz col i b =
     (case fold (text_pixel bits width sz col i) [0..<8] b of (p, m) \<Rightarrow> (p + 4 * ((width - 8) * ucast sz), m))"

partial_function (option) text_chars :: "u64 \<Rightarrow> u64 \<Rightarrow> u32 \<Rightarrow> u32 \<Rightarrow> 'a video_state_scheme \<Rightarrow> 'a video_state_scheme option" where
  "text_chars txt buffer sz k s =
     (case strlen (bytes s) (txt_txt (bytes s) txt) of
        None \<Rightarrow> None
      | Some n \<Rightarrow>
          if ucast k < n then
            (let c = load8 (bytes s) (txt_txt (bytes s) txt + ucast k);
                 start = buffer + 4 * ucast (12 * k * sz)
             in text_chars txt buffer sz (k + 1)
                  (s\<lparr>bytes := snd (fold (text_row (get_char_bitmap c s) (v_width s) sz (txt_color (bytes s) txt)) [0..<13] (start, bytes s))\<rparr>))
          else Some s)"

definition video_text :: "u64 \<Rightarrow> u32 \<Rightarrow> u32 \<Rightarrow> 'a video_state_scheme \<Rightarrow> 'a video_state_scheme run" where
  "video_text txt x y s =
     (let x = scale x (v_width s) virt_x;
          y = scale y (v_height s) virt_y;
          sz = ucast (ucast (txt_size (bytes s) txt) * (v_height s div (virt_y div 4)));
          buffer = vbuffer s + (ucast y * v_width s + ucast x) * 4
      in case text_chars txt buffer sz 0 s of None \<Rightarrow> None | Some s' \<Rightarrow> ret s')"

section \<open>Rectangles\<close>

text \<open>
  A colour byte \<open>p\<close> of a rectangle of opacity \<open>sh\<close>: the divisor of the second part is computed from the colour
  byte, not from the opacity; \<open>None\<close> is a division by zero.
\<close>

definition rect_byte :: "u8 \<Rightarrow> u8 \<Rightarrow> u8 \<Rightarrow> u8 option" where
  "rect_byte p sh c =
     (if sh \<noteq> 255 \<and> p = 255 then None
      else Some (of_nat ((if sh = 0 then 0 else unat p * 255 div unat sh) + (if sh = 255 then 0 else unat c * 255 div (255 - unat p)))))"

definition rect_pixel :: "u32 \<Rightarrow> u64 \<Rightarrow> mem \<Rightarrow> mem run" where
  "rect_pixel col cur m =
     (let sh = ucast (drop_bit 24 col); r = ucast (drop_bit 16 col); g = ucast (drop_bit 8 col); b = ucast col;
          put = (\<lambda>a p m. case rect_byte p sh (load8 m a) of None \<Rightarrow> stop Hcf | Some v \<Rightarrow> ret (store8 m a v))
      in run_bind (put cur r m) (\<lambda>m1. run_bind (put (cur + 1) g m1) (put (cur + 2) b)))"

partial_function (option) rect_row :: "u64 \<Rightarrow> u64 \<Rightarrow> u32 \<Rightarrow> u64 \<Rightarrow> u32 \<Rightarrow> mem \<Rightarrow> (halt + mem) option" where
  "rect_row rect width col cur j m =
     (if ucast j < ucast (rect_width m rect) * width div virt_x
      then run_bind (rect_pixel col cur m) (rect_row rect width col (cur + 4) (j + 1))
      else ret m)"

partial_function (option) rect_rows :: "u64 \<Rightarrow> u64 \<Rightarrow> u64 \<Rightarrow> u32 \<Rightarrow> u64 \<Rightarrow> u32 \<Rightarrow> mem \<Rightarrow> (halt + mem) option" where
  "rect_rows rect width height col buffer i m =
     (if ucast i < ucast (rect_height m rect) * height div virt_y
      then run_bind (rect_row rect width col (buffer + 4 * (width * ucast i)) 0 m) (rect_rows rect width height col buffer (i + 1))
      else ret m)"

definition video_rect :: "u64 \<Rightarrow> u32 \<Rightarrow> u32 \<Rightarrow> 'a video_state_scheme \<Rightarrow> 'a video_state_scheme run" where
  "video_rect rect x y s =
     (let x = scale x (v_width s) virt_x;
          y = scale y (v_height s) virt_y;
          buffer = vbuffer s + (ucast y * v_width s + ucast x) * 4
      in run_bind (rect_rows rect (v_width s) (v_height s) (rect_color (bytes s) rect) buffer 0 (bytes s)) (\<lambda>m.
           ret (s\<lparr>bytes := m\<rparr>)))"

text \<open>A rectangle with a full colour that is not opaque stops the machine at its first pixel.\<close>

lemma full_colour_divides_by_zero:
  assumes "ucast (drop_bit 24 col) \<noteq> (255 :: u8)"
    and "ucast (drop_bit 16 col) = (255 :: u8) \<or> ucast (drop_bit 8 col) = (255 :: u8) \<or> ucast col = (255 :: u8)"
  shows "rect_pixel col cur m = stop Hcf"
  using assms by (auto simp: rect_pixel_def rect_byte_def Let_def split: option.splits if_splits)

text \<open>A picture of a width and height that divides neither box is not drawn: the code stops.\<close>

lemma image_wider_than_high_stops:
  assumes "img_width (bytes s) img \<noteq> 0" "img_height (bytes s) img \<noteq> 0"
    and "u div img_width (bytes s) img = 1" "v div img_height (bytes s) img > 1"
  shows "video_image img x y u v s = stop Hcf"
  using assms by (auto simp: video_image_def Let_def)

text \<open>Opaque pixels replace what is there, transparent ones scale it by 255/255.\<close>

lemma blend_opaque: "blend p 255 c = p" and blend_transparent: "blend p 0 c = c"
  by (simp_all add: blend_def)

section \<open>A picture in its own size\<close>

text \<open>
  Pixel \<open>n\<close> of a picture of width \<open>w\<close>, read row by row: where it is stored and where it goes on a
  screen of width \<open>W\<close>.
\<close>

definition source_pixel :: "u64 \<Rightarrow> nat \<Rightarrow> u64" where
  "source_pixel pixels n = pixels + of_nat (4 * n)"

definition screen_offset :: "nat \<Rightarrow> nat \<Rightarrow> nat \<Rightarrow> nat" where
  "screen_offset W w n = 4 * ((n div w) * W + n mod w)"

definition screen_pixel :: "u64 \<Rightarrow> nat \<Rightarrow> nat \<Rightarrow> nat \<Rightarrow> u64" where
  "screen_pixel buffer W w n = buffer + of_nat (screen_offset W w n)"

lemma screen_offset_mono:
  assumes "n < k" "0 < w" "w \<le> W"
  shows "screen_offset W w n + 4 \<le> screen_offset W w k"
proof -
  have "n div w \<le> k div w" using assms(1) by (simp add: div_le_mono)
  moreover have "n mod w < W" using assms(2,3) mod_less_divisor [of w n] by linarith
  moreover have lt: "n div w * w + n mod w < k div w * w + k mod w" using assms(1) by simp
  ultimately have "n div w * W + n mod w + 1 \<le> k div w * W + k mod w"
  proof (cases "n div w = k div w")
    case True
    with lt have "n mod w < k mod w" by (metis nat_add_left_cancel_less)
    with True show ?thesis by simp
  next
    case False
    with \<open>n div w \<le> k div w\<close> have "Suc (n div w) * W \<le> k div w * W" by (intro mult_right_mono) auto
    then show ?thesis using \<open>n mod w < W\<close> by simp
  qed
  then show ?thesis by (simp add: screen_offset_def)
qed

lemma screen_offset_bound:
  assumes "n < w * h" "w \<le> W"
  shows "screen_offset W w n + 4 \<le> 4 * (W * h)"
proof -
  have w: "0 < w" using assms(1) by (cases w) auto
  have "n div w < h" using assms(1) w by (simp add: less_mult_imp_div_less mult.commute)
  then have "Suc (n div w) * W \<le> h * W" by (intro mult_right_mono) auto
  moreover have "n mod w < W" using assms(2) w mod_less_divisor [of w n] by linarith
  ultimately show ?thesis by (simp add: screen_offset_def mult.commute)
qed

text \<open>
  The memory after the first \<open>i\<close> pixels. The screen \<open>[buffer, buffer + 4 W h)\<close>, the picture's header and its
  pixels do not overlap.
\<close>

definition drawn :: "u64 \<Rightarrow> u64 \<Rightarrow> nat \<Rightarrow> nat \<Rightarrow> nat \<Rightarrow> mem \<Rightarrow> nat \<Rightarrow> mem \<Rightarrow> bool" where
  "drawn pixels buffer W w h m i m' \<longleftrightarrow>
     (\<forall>n < w * h. \<forall>c < 3. m' (screen_pixel buffer W w n + of_nat c) =
        (if n < i then blend (m (source_pixel pixels n + of_nat c)) (m (source_pixel pixels n + 3)) (m (screen_pixel buffer W w n + of_nat c))
         else m (screen_pixel buffer W w n + of_nat c))) \<and>
     (\<forall>x. (\<forall>n < w * h. \<forall>c < 3. x \<noteq> screen_pixel buffer W w n + of_nat c) \<longrightarrow> m' x = m x)"

definition picture_apart :: "u64 \<Rightarrow> u64 \<Rightarrow> u64 \<Rightarrow> nat \<Rightarrow> nat \<Rightarrow> nat \<Rightarrow> bool" where
  "picture_apart img pixels buffer W w h \<longleftrightarrow>
     0 < w \<and> w \<le> W \<and> 4 * (W * h) \<le> 18446744073709551616 \<and>
     span img 16 \<inter> span buffer (4 * (W * h)) = {} \<and> span pixels (4 * (w * h)) \<inter> span buffer (4 * (W * h)) = {}"

lemma screen_byte:
  assumes "picture_apart img pixels buffer W w h" "n < w * h" "c < 4"
  shows "unat (screen_pixel buffer W w n + of_nat c - buffer) = screen_offset W w n + c"
    "screen_pixel buffer W w n + of_nat c \<in> span buffer (4 * (W * h))"
proof -
  have b: "screen_offset W w n + 4 \<le> 4 * (W * h)" "4 * (W * h) \<le> 18446744073709551616"
    using assms screen_offset_bound by (auto simp: picture_apart_def)
  have "screen_pixel buffer W w n + of_nat c - buffer = of_nat (screen_offset W w n + c)"
    by (simp add: screen_pixel_def)
  then show "unat (screen_pixel buffer W w n + of_nat c - buffer) = screen_offset W w n + c"
    using b assms(3) by (simp only: unat_of_nat_u64)
  then show "screen_pixel buffer W w n + of_nat c \<in> span buffer (4 * (W * h))"
    using b assms(3) by simp
qed

lemma screen_bytes_distinct:
  assumes "picture_apart img pixels buffer W w h" "n < w * h" "k < w * h" "c < 4" "d < 4"
    "screen_pixel buffer W w n + of_nat c = screen_pixel buffer W w k + of_nat d"
  shows "n = k \<and> c = d"
proof -
  have w: "0 < w" "w \<le> W" using assms(1) by (simp_all add: picture_apart_def)
  have "screen_offset W w n + c = screen_offset W w k + d"
    using screen_byte(1) [OF assms(1,2,4)] screen_byte(1) [OF assms(1,3,5)] assms(6) by simp
  then show ?thesis
    using screen_offset_mono [of n k w W] screen_offset_mono [of k n w W] w assms(4,5)
    by (cases n k rule: linorder_cases) auto
qed

text \<open>Bytes off the screen keep their value while the picture is drawn.\<close>

lemma drawn_off_screen:
  assumes "drawn pixels buffer W w h m i m'" "picture_apart img pixels buffer W w h" "x \<notin> span buffer (4 * (W * h))"
  shows "m' x = m x"
proof -
  have "x \<noteq> screen_pixel buffer W w n + of_nat c" if "n < w * h" "c < 3" for n c
    using screen_byte(2) [OF assms(2) that(1), of c] that(2) assms(3) by auto
  then show ?thesis using assms(1) by (auto simp: drawn_def)
qed

lemma drawn_header:
  assumes "drawn pixels buffer W w h m i m'" "picture_apart img pixels buffer W w h"
  shows "img_width m' img = img_width m img" "img_height m' img = img_height m img"
proof -
  have "m' x = m x" if "x \<in> span img 16" for x
    using drawn_off_screen [OF assms] assms(2) that unfolding picture_apart_def by blast
  then have "m' x = m x" if "x \<in> span (img + 8) 4 \<or> x \<in> span (img + 12) 4" for x
    using that span_sub [of 8 4 16 img] span_sub [of 12 4 16 img] by auto
  then show "img_width m' img = img_width m img" "img_height m' img = img_height m img"
    unfolding img_width_def img_height_def by (intro load32_cong; blast)+
qed

lemma lt_3: "(c :: nat) < 3 \<longleftrightarrow> c = 0 \<or> c = 1 \<or> c = 2"
  by auto

lemma blend_pixel_bytes:
  assumes "\<forall>c < 4. \<forall>d < 3. src + of_nat c \<noteq> dst + of_nat d"
  shows "c < 3 \<Longrightarrow> blend_pixel src dst m (dst + of_nat c) = blend (m (src + of_nat c)) (m (src + 3)) (m (dst + of_nat c))"
    "(\<And>c. c < 3 \<Longrightarrow> x \<noteq> dst + of_nat c) \<Longrightarrow> blend_pixel src dst m x = m x"
proof -
  have ne: "src \<noteq> dst" "src + 1 \<noteq> dst" "src + 2 \<noteq> dst" "src + 3 \<noteq> dst" "src \<noteq> dst + 1" "src + 1 \<noteq> dst + 1" "src + 2 \<noteq> dst + 1"
    "src + 3 \<noteq> dst + 1" "src \<noteq> dst + 2" "src + 1 \<noteq> dst + 2" "src + 2 \<noteq> dst + 2" "src + 3 \<noteq> dst + 2"
    using assms by (simp_all add: numeral_eq_Suc All_less_Suc)
  show "c < 3 \<Longrightarrow> blend_pixel src dst m (dst + of_nat c) = blend (m (src + of_nat c)) (m (src + 3)) (m (dst + of_nat c))"
    using ne unfolding lt_3 by (auto simp: blend_pixel_def Let_def load8_def store8_def)
  show "blend_pixel src dst m x = m x" if "\<And>c. c < 3 \<Longrightarrow> x \<noteq> dst + of_nat c"
    using that [of 0] that [of 1] that [of 2] by (simp add: blend_pixel_def Let_def store8_def)
qed

lemma source_byte:
  assumes "picture_apart img pixels buffer W w h" "n < w * h" "c < 4"
  shows "source_pixel pixels n + of_nat c \<notin> span buffer (4 * (W * h))"
proof -
  have "w * h \<le> W * h" using assms(1) by (simp add: picture_apart_def)
  moreover have "4 * (W * h) \<le> 18446744073709551616" using assms(1) by (simp add: picture_apart_def)
  ultimately have b: "4 * n + c < 4 * (w * h)" "4 * (w * h) \<le> 18446744073709551616"
    using assms(2,3) by linarith+
  have "source_pixel pixels n + of_nat c = pixels + of_nat (4 * n + c)"
    by (simp add: source_pixel_def)
  then have "source_pixel pixels n + of_nat c \<in> span pixels (4 * (w * h))"
    using span_offset_mem [OF b] by simp
  then show ?thesis using assms(1) unfolding picture_apart_def by blast
qed

lemma drawn_step:
  assumes d: "drawn pixels buffer W w h m n m'" and a: "picture_apart img pixels buffer W w h" and n: "n < w * h"
  shows "drawn pixels buffer W w h m (Suc n) (blend_pixel (source_pixel pixels n) (screen_pixel buffer W w n) m')"
proof -
  let ?src = "source_pixel pixels n" and ?dst = "screen_pixel buffer W w n"
  have ne: "\<forall>c < 4. \<forall>d < 3. ?src + of_nat c \<noteq> ?dst + of_nat d"
  proof (intro allI impI)
    fix c d :: nat
    assume "c < 4" "d < 3"
    then show "?src + of_nat c \<noteq> ?dst + of_nat d"
      using source_byte [OF a n, of c] screen_byte(2) [OF a n, of d] by auto
  qed
  have src: "m' (?src + of_nat c) = m (?src + of_nat c)" if "c < 4" for c
    by (rule drawn_off_screen [OF d a source_byte [OF a n that]])
  note px = blend_pixel_bytes [where src = ?src and dst = ?dst and m = m', OF ne]
  show ?thesis
    unfolding drawn_def
  proof (intro conjI allI impI)
    fix k c :: nat
    assume k: "k < w * h" "c < 3"
    show "blend_pixel ?src ?dst m' (screen_pixel buffer W w k + of_nat c) =
        (if k < Suc n then blend (m (source_pixel pixels k + of_nat c)) (m (source_pixel pixels k + 3)) (m (screen_pixel buffer W w k + of_nat c))
         else m (screen_pixel buffer W w k + of_nat c))"
    proof (cases "k = n")
      case True
      then show ?thesis
        using px(1) [OF k(2)] src [of c] src [of 3] d k by (simp add: drawn_def)
    next
      case False
      have "blend_pixel ?src ?dst m' (screen_pixel buffer W w k + of_nat c) = m' (screen_pixel buffer W w k + of_nat c)"
      proof (rule px(2))
        show "screen_pixel buffer W w k + of_nat c \<noteq> ?dst + of_nat d" if "d < 3" for d
          using screen_bytes_distinct [OF a k(1) n, of c d] k(2) that False by auto
      qed
      then show ?thesis using d k False by (auto simp: drawn_def)
    qed
  next
    fix x
    assume x: "\<forall>n < w * h. \<forall>c < 3. x \<noteq> screen_pixel buffer W w n + of_nat c"
    then have "blend_pixel ?src ?dst m' x = m' x" using n by (intro px(2)) auto
    then show "blend_pixel ?src ?dst m' x = m x" using d x by (auto simp: drawn_def)
  qed
qed

text \<open>One line of the picture, from column \<open>j\<close> on.\<close>

lemma image_row_draws:
  assumes "drawn pixels buffer W w h m (k * w + j) m'" "picture_apart img pixels buffer W w h" "k < h" "j \<le> w"
    "unat (img_width m img) = w" "w < 4294967296"
  shows "\<exists>m''. image_row img pixels (buffer + of_nat (4 * (k * (W - w)))) (of_nat j) (of_nat (k * w + j)) m' =
      Some (of_nat (Suc k * w), m'') \<and> drawn pixels buffer W w h m (Suc k * w) m''"
  using assms
proof (induction "w - j" arbitrary: j m')
  case 0
  then have j: "j = w" by simp
  have "unat (img_width m' img) = w"
    using drawn_header [OF 0(2,3)] 0(6) by simp
  then have "image_row img pixels (buffer + of_nat (4 * (k * (W - w)))) (of_nat j) (of_nat (k * w + j)) m' = Some (of_nat (k * w + j), m')"
    using j 0(7) by (subst image_row.simps) (simp add: word_less_nat_alt unat_of_nat_small)
  with 0(2) j show ?case by (simp add: add.commute)
next
  case (Suc d)
  then have j: "j < w" by simp
  let ?n = "k * w + j"
  have "Suc k * w \<le> h * w" using Suc.prems(3) by (intro mult_right_mono) auto
  then have n: "?n < w * h" using j by (simp add: mult.commute)
  have width: "unat (img_width m' img) = w"
    using drawn_header [OF Suc.prems(1,2)] Suc.prems(5) by simp
  have div: "?n div w = k" "?n mod w = j" using j by simp_all
  have wW: "w \<le> W" using Suc.prems(2) by (simp add: picture_apart_def)
  have "k * (W - w) + ?n = k * W + j"
    using wW by (simp add: diff_mult_distrib2)
  then have off: "4 * (k * (W - w)) + 4 * ?n = screen_offset W w ?n"
    unfolding screen_offset_def div by simp
  have dst: "buffer + of_nat (4 * (k * (W - w))) + of_nat ?n * 4 = screen_pixel buffer W w ?n"
    unfolding screen_pixel_def off [symmetric] by (simp add: algebra_simps)
  have src: "pixels + of_nat ?n * 4 = source_pixel pixels ?n"
    by (simp add: source_pixel_def algebra_simps)
  have c: "of_nat j < img_width m' img"
    using j width Suc.prems(6) by (simp add: word_less_nat_alt unat_of_nat_small)
  have inc: "of_nat j + 1 = (of_nat (Suc j) :: u32)" "of_nat ?n + 1 = (of_nat (k * w + Suc j) :: u64)"
    by simp_all
  have "image_row img pixels (buffer + of_nat (4 * (k * (W - w)))) (of_nat j) (of_nat ?n) m' =
      image_row img pixels (buffer + of_nat (4 * (k * (W - w)))) (of_nat (Suc j)) (of_nat (k * w + Suc j))
        (blend_pixel (source_pixel pixels ?n) (screen_pixel buffer W w ?n) m')"
    by (subst image_row.simps) (simp only: c if_True inc src dst)
  moreover have "drawn pixels buffer W w h m (k * w + Suc j) (blend_pixel (source_pixel pixels ?n) (screen_pixel buffer W w ?n) m')"
    using drawn_step [OF Suc.prems(1,2) n] by simp
  ultimately show ?case
    using Suc.hyps(1) [of "Suc j"] Suc.hyps(2) Suc.prems j by simp
qed

lemma image_rows_draws:
  assumes "drawn pixels buffer W w h m (k * w) m'" "picture_apart img pixels buffer W w h" "k \<le> h"
    "unat (img_width m img) = w" "unat (img_height m img) = h" "w < 4294967296" "h < 4294967296" "W < 18446744073709551616"
  shows "\<exists>m''. image_rows img pixels (of_nat W) (buffer + of_nat (4 * (k * (W - w)))) (of_nat k) (of_nat (k * w)) m' = Some m'' \<and>
    drawn pixels buffer W w h m (h * w) m''"
  using assms
proof (induction "h - k" arbitrary: k m')
  case 0
  then have k: "k = h" by simp
  have "unat (img_height m' img) = h"
    using drawn_header [OF 0(2,3)] 0(6) by simp
  then have "image_rows img pixels (of_nat W) (buffer + of_nat (4 * (k * (W - w)))) (of_nat k) (of_nat (k * w)) m' = Some m'"
    using k 0(8) by (subst image_rows.simps) (simp add: word_less_nat_alt unat_of_nat_small)
  with 0(2) k show ?case by simp
next
  case (Suc d)
  then have k: "k < h" by simp
  have c: "of_nat k < img_height m' img"
    using drawn_header [OF Suc.prems(1,2)] Suc.prems(5,7) k by (simp add: word_less_nat_alt unat_of_nat_small)
  have start: "drawn pixels buffer W w h m (k * w + 0) m'" using Suc.prems(1) by simp
  obtain m1 where m1: "image_row img pixels (buffer + of_nat (4 * (k * (W - w)))) 0 (of_nat (k * w)) m' =
      Some (of_nat (Suc k * w), m1)" "drawn pixels buffer W w h m (Suc k * w) m1"
    using image_row_draws [OF start Suc.prems(2) k _ Suc.prems(4,6)] unfolding semiring_1_class.of_nat_0 add_0_right by blast
  have wW: "w \<le> W" using Suc.prems(2) by (simp add: picture_apart_def)
  have "unat (img_width m1 img) = w"
    using drawn_header [OF m1(2) Suc.prems(2)] Suc.prems(4) by simp
  then have "ucast (img_width m1 img) = (of_nat w :: u64)"
    by (metis of_nat_unat)
  moreover have "of_nat W - of_nat w = (of_nat (W - w) :: u64)" using wW by (simp add: of_nat_diff)
  moreover have "buffer + of_nat (4 * (k * D)) + of_nat D * 4 = buffer + of_nat (4 * (Suc k * D))" for D
    by (simp add: algebra_simps)
  ultimately have cur: "buffer + of_nat (4 * (k * (W - w))) + (of_nat W - ucast (img_width m1 img)) * 4 = buffer + of_nat (4 * (Suc k * (W - w)))"
    by (simp only:)
  have inc: "of_nat k + 1 = (of_nat (Suc k) :: u32)" by simp
  have "image_rows img pixels (of_nat W) (buffer + of_nat (4 * (k * (W - w)))) (of_nat k) (of_nat (k * w)) m' =
      image_rows img pixels (of_nat W) (buffer + of_nat (4 * (Suc k * (W - w)))) (of_nat (Suc k)) (of_nat (Suc k * w)) m1"
    by (subst image_rows.simps) (simp only: c if_True m1(1) option.case prod.case cur inc)
  then show ?case
    using Suc.hyps(1) [OF _ m1(2) Suc.prems(2) _ Suc.prems(4-8)] Suc.hyps(2) k by simp
qed

section \<open>Properties\<close>

text \<open>
  C40: A picture in its own size appears pixel by pixel. When the box asked for is between one and two times as wide and
  as high as the picture, \<open>video_image\<close> returns; line \<open>k\<close>, column \<open>j\<close> of the picture is blended over the pixel
  \<open>k\<close> lines below and \<open>j\<close> columns right of the scaled position, colour byte by colour byte, with its own opacity;
  the fourth byte of each pixel and everything else stay as they were.
\<close>

theorem image_appears:
  assumes box: "u div img_width (bytes s) img = 1" "v div img_height (bytes s) img = 1"
    and names: "pixels = img_pixels (bytes s) img" "w = unat (img_width (bytes s) img)" "h = unat (img_height (bytes s) img)"
      "W = unat (v_width s)" "buffer = vbuffer s + (ucast (scale y (v_height s) virt_y) * v_width s + ucast (scale x (v_width s) virt_x)) * 4"
    and a: "picture_apart img pixels buffer W w h"
  shows "\<exists>m'. video_image img x y u v s = ret (s\<lparr>bytes := m'\<rparr>) \<and>
    (\<forall>k < h. \<forall>j < w. \<forall>c < 3. m' (buffer + of_nat (4 * (k * W + j) + c)) =
      blend (bytes s (pixels + of_nat (4 * (k * w + j) + c))) (bytes s (pixels + of_nat (4 * (k * w + j) + 3)))
        (bytes s (buffer + of_nat (4 * (k * W + j) + c)))) \<and>
    (\<forall>z. (\<forall>k < h. \<forall>j < w. \<forall>c < 3. z \<noteq> buffer + of_nat (4 * (k * W + j) + c)) \<longrightarrow> m' z = bytes s z)"
proof -
  let ?m = "bytes s"
  have nz: "img_width ?m img \<noteq> 0" "img_height ?m img \<noteq> 0" using box by auto
  have "drawn pixels buffer W w h ?m (0 * w) ?m" by (simp add: drawn_def)
  from image_rows_draws [OF this a _ names(2,3) [symmetric]]
  obtain m' where m': "image_rows img pixels (of_nat W) buffer 0 0 ?m = Some m'" "drawn pixels buffer W w h ?m (h * w) m'"
    using names unat_lt_2p [of "img_width ?m img"] unat_lt_2p [of "img_height ?m img"] unat_u64_lt [of "v_width s"] by auto
  have run: "video_image img x y u v s = ret (s\<lparr>bytes := m'\<rparr>)"
    using box nz m'(1) names by (simp add: video_image_def Let_def)
  have at: "screen_pixel buffer W w (k * w + j) + of_nat c = buffer + of_nat (4 * (k * W + j) + c)"
    "source_pixel pixels (k * w + j) + of_nat c = pixels + of_nat (4 * (k * w + j) + c)"
    "source_pixel pixels (k * w + j) + 3 = pixels + of_nat (4 * (k * w + j) + 3)" if "j < w" for k j c
    using that by (simp_all add: screen_pixel_def screen_offset_def source_pixel_def)
  have ix: "k * w + j < w * h" if "k < h" "j < w" for k j
  proof -
    have "Suc k * w \<le> h * w" using that(1) by (intro mult_right_mono) auto
    then show ?thesis using that(2) by (simp add: mult.commute)
  qed
  have inside: "m' (buffer + of_nat (4 * (k * W + j) + c)) =
      blend (?m (pixels + of_nat (4 * (k * w + j) + c))) (?m (pixels + of_nat (4 * (k * w + j) + 3)))
        (?m (buffer + of_nat (4 * (k * W + j) + c)))" if "k < h" "j < w" "c < 3" for k j c
    using m'(2) ix [OF that(1,2)] that(3) unfolding at [OF that(2), symmetric] drawn_def by (simp add: mult.commute)
  have "m' z = ?m z" if z: "\<forall>k < h. \<forall>j < w. \<forall>c < 3. z \<noteq> buffer + of_nat (4 * (k * W + j) + c)" for z
  proof -
    have "z \<noteq> screen_pixel buffer W w n + of_nat c" if "n < w * h" "c < 3" for n c
    proof -
      have "0 < w" using that(1) by (cases w) auto
      then have "n div w < h" "n mod w < w" using that(1) by (simp_all add: less_mult_imp_div_less mult.commute)
      then show ?thesis using z that(2) at(1) [of "n mod w" "n div w" c] by (metis div_mult_mod_eq)
    qed
    then show ?thesis using m'(2) by (auto simp: drawn_def)
  qed
  with run inside show ?thesis by blast
qed

text \<open>A picture of two opaque pixels at the upper left corner of a screen of three by two pixels at \<open>0x1000\<close>.\<close>

definition two_pixels :: video_state where
  "two_pixels =
     \<lparr>bytes = store32 (store32 (store64 ((\<lambda>_. 0)(0x200 := 10, 0x201 := 20, 0x202 := 30, 0x203 := 255, 0x204 := 40, 0x205 := 50,
        0x206 := 60, 0x207 := 255)) 0x100 0x200) 0x108 2) 0x10C 1, cr3 = 0, console = [], msr = \<lambda>_. 0,
      fb_address = 0, fb_width = 0, fb_height = 0, terminal_row = 0, terminal_column = 0, tty_bpp = 0, terminal_buffer = 0,
      color = 0, font = 0, v_bpp = 32, vbuffer = 0x1000, v_height = 2, v_width = 3\<rparr>"

theorem image_appears_witness:
  "\<exists>m'. video_image 0x100 0 0 2 1 two_pixels = ret (two_pixels\<lparr>bytes := m'\<rparr>) \<and>
    m' 0x1000 = 10 \<and> m' 0x1004 = 40 \<and> m' 0x1006 = 60 \<and> m' 0x1008 = 0"
proof -
  let ?m = "bytes two_pixels"
  have hdr: "img_width ?m 0x100 = 2" "img_height ?m 0x100 = 1" "img_pixels ?m 0x100 = 0x200"
    by (simp_all add: two_pixels_def img_width_def img_height_def img_pixels_def)
  have px: "?m 0x200 = 10" "?m 0x203 = 255" "?m 0x204 = 40" "?m 0x206 = 60" "?m 0x207 = 255" "?m 0x1008 = 0"
    by (simp_all add: two_pixels_def store32_def store64_def store_le_def)
  have scr: "v_width two_pixels = 3" "v_height two_pixels = 2" "vbuffer two_pixels = 0x1000"
    by (simp_all add: two_pixels_def)
  have d: "span 0x100 16 \<inter> span 0x1000 (4 * (3 * 1)) = {}" "span 0x200 (4 * (2 * 1)) \<inter> span 0x1000 (4 * (3 * 1)) = {}"
    by (rule span_disjoint_no_wrap; simp)+
  have a: "picture_apart 0x100 0x200 0x1000 3 2 1"
    using d by (simp only: picture_apart_def) simp
  have buf: "0x1000 = vbuffer two_pixels + (ucast (scale 0 (v_height two_pixels) virt_y) * v_width two_pixels +
      ucast (scale 0 (v_width two_pixels) virt_x)) * 4"
    by (simp add: scr scale_def virt_x_def virt_y_def)
  have box: "2 div img_width ?m 0x100 = 1" "1 div img_height ?m 0x100 = 1"
    by (simp_all add: hdr)
  have names: "0x200 = img_pixels ?m 0x100" "2 = unat (img_width ?m 0x100)" "1 = unat (img_height ?m 0x100)" "3 = unat (v_width two_pixels)"
    by (simp_all add: hdr scr)
  obtain m' where m': "video_image 0x100 0 0 2 1 two_pixels = ret (two_pixels\<lparr>bytes := m'\<rparr>)"
    "\<forall>k < 1. \<forall>j < 2. \<forall>c < 3. m' (0x1000 + of_nat (4 * (k * 3 + j) + c)) =
      blend (?m (0x200 + of_nat (4 * (k * 2 + j) + c))) (?m (0x200 + of_nat (4 * (k * 2 + j) + 3))) (?m (0x1000 + of_nat (4 * (k * 3 + j) + c)))"
    "\<forall>z. (\<forall>k < 1. \<forall>j < 2. \<forall>c < 3. z \<noteq> 0x1000 + of_nat (4 * (k * 3 + j) + c)) \<longrightarrow> m' z = ?m z"
    using image_appears [OF box names buf a] by blast
  have "m' 0x1000 = 10" "m' 0x1004 = 40" "m' 0x1006 = 60"
    using m'(2) [rule_format, of 0 0 0] m'(2) [rule_format, of 0 1 0] m'(2) [rule_format, of 0 1 2] px by (simp_all add: blend_opaque)
  moreover have "m' 0x1008 = 0"
    using m'(3) [THEN spec, of "0x1008"] px by (auto simp: lt_3 less_2_cases_iff)
  ultimately show ?thesis using m'(1) by blast
qed

end
