(* ===== verification/Array_List.thy ===== *)
theory Array_List
  imports Kernel_Heap
begin

text \<open>
  The growing array of \<open>libc/src/lists/ArrayList.c\<close>, over byte memory and the kernel's allocator. Its test for a
  full array is the wrong way round: the theory shows that an array that is full is never extended.
\<close>

text \<open>\<open>struct ArrayList\<close>: content, size, capacity and bucket size, eight bytes each.\<close>

definition al_content :: "mem \<Rightarrow> u64 \<Rightarrow> u64" where "al_content m l = load64 m l"
definition al_size :: "mem \<Rightarrow> u64 \<Rightarrow> u64" where "al_size m l = load64 m (l + 8)"
definition al_capacity :: "mem \<Rightarrow> u64 \<Rightarrow> u64" where "al_capacity m l = load64 m (l + 16)"
definition al_bucketSize :: "mem \<Rightarrow> u64 \<Rightarrow> u64" where "al_bucketSize m l = load64 m (l + 24)"

definition ARRAY_LIST_STANDARD_BUCKET_SIZE :: u64 where "ARRAY_LIST_STANDARD_BUCKET_SIZE = 10"

definition ArrayList_init :: "u64 \<Rightarrow> 'a heap_state_scheme \<Rightarrow> 'a heap_state_scheme run" where
  "ArrayList_init list s =
     (let m = bytes s;
          m = (if al_bucketSize m list = 0 then store64 m (list + 24) ARRAY_LIST_STANDARD_BUCKET_SIZE else m);
          m = store64 m (list + 8) 0
      in run_bind (malloc (8 * al_bucketSize m list) (s\<lparr>bytes := m\<rparr>)) (\<lambda>(p, s1).
           ret (s1\<lparr>bytes := store64 (bytes s1) list p\<rparr>)))"

definition ArrayList_destroy :: "u64 \<Rightarrow> 'a heap_state_scheme \<Rightarrow> 'a heap_state_scheme run" where
  "ArrayList_destroy list s = free (al_content (bytes s) list) s"

definition ArrayList_clear :: "u64 \<Rightarrow> 'a heap_state_scheme \<Rightarrow> 'a heap_state_scheme" where
  "ArrayList_clear list s = s\<lparr>bytes := memset (al_content (bytes s) list) 0 (8 * al_size (bytes s) list) (bytes s)\<rparr>"

definition extend :: "u64 \<Rightarrow> 'a heap_state_scheme \<Rightarrow> 'a heap_state_scheme run" where
  "extend list s =
     run_bind (malloc ((al_capacity (bytes s) list + al_bucketSize (bytes s) list) * 8) s) (\<lambda>(newField, s1).
       let s2 = s1\<lparr>bytes := memcpy newField (al_content (bytes s1) list) (8 * al_size (bytes s1) list) (bytes s1)\<rparr>
       in run_bind (free (al_content (bytes s2) list) s2) (\<lambda>s3.
            let m = store64 (bytes s3) list newField
            in ret (s3\<lparr>bytes := store64 m (list + 16) (al_capacity m list + al_bucketSize m list)\<rparr>)))"

definition ArrayList_add :: "u64 \<Rightarrow> u64 \<Rightarrow> 'a heap_state_scheme \<Rightarrow> 'a heap_state_scheme run" where
  "ArrayList_add list item s =
     run_bind (if al_capacity (bytes s) list \<ge> al_size (bytes s) list + 1 then extend list s else ret s) (\<lambda>s1.
       let m = store64 (bytes s1) (al_content (bytes s1) list + 8 * al_size (bytes s1) list) item
       in ret (s1\<lparr>bytes := store64 m (list + 8) (al_size m list + 1)\<rparr>))"

text \<open>An array that has no room for one more item is not extended: the item goes behind its end.\<close>

lemma full_array_not_extended:
  assumes "al_size (bytes s) list = al_capacity (bytes s) list" "al_capacity (bytes s) list \<noteq> - 1"
    and "apart (al_content (bytes s) list + 8 * al_capacity (bytes s) list) 8 list 32"
  shows "\<exists>s'. ArrayList_add list item s = ret s' \<and> al_content (bytes s') list = al_content (bytes s) list \<and>
    al_capacity (bytes s') list = al_capacity (bytes s) list \<and> al_size (bytes s') list = al_capacity (bytes s) list + 1 \<and>
    load64 (bytes s') (al_content (bytes s) list + 8 * al_capacity (bytes s) list) = item"
proof -
  let ?c = "al_capacity (bytes s) list" and ?p = "al_content (bytes s) list + 8 * al_capacity (bytes s) list"
  have "unat ?c \<noteq> unat (- 1 :: u64)" using assms(2) by (simp only: word_eq_iff_unat [symmetric]) simp
  then have "unat ?c + unat (1 :: u64) < 18446744073709551616" using unat_u64_lt [of ?c] by simp
  then have "unat (?c + 1) = unat ?c + 1" by (subst unat_u64_add) simp_all
  then have "\<not> al_size (bytes s) list + 1 \<le> ?c" using assms(1) by (simp add: word_le_nat_alt)
  moreover have "apart list 8 ?p 8" "apart (list + 8) 8 ?p 8" "apart (list + 16) 8 ?p 8" "apart ?p 8 (list + 8) 8"
    using assms(3) apart_field_right [OF assms(3), of 0 8 8] apart_field_right [OF assms(3), of 8 8 8] apart_field_right [OF assms(3), of 16 8 8]
    by (simp_all add: apart_sym)
  ultimately show ?thesis
    using assms(1) by (simp add: ArrayList_add_def Let_def al_size_def al_content_def al_capacity_def)
qed

end
