(* ===== verification/Accessors.thy ===== *)
theory Accessors
  imports Layouts Kernel_Main Video Array_List
begin

text \<open>
  The offsets and widths of the other theories against the layout of the structures: every accessor reads the field it is named
  after, and the object sizes in the allocations are the sizes of the structures.
\<close>

section \<open>What an accessor reads\<close>

definition byte_field :: "ctype \<Rightarrow> string \<Rightarrow> nat \<Rightarrow> u64 option" where
  "byte_field t f w =
     (case field_at t f of Some (b, v) \<Rightarrow> if v = w \<and> 8 dvd b then Some (of_nat (b div 8)) else None | None \<Rightarrow> None)"

definition reads64 :: "(mem \<Rightarrow> u64 \<Rightarrow> u64) \<Rightarrow> ctype \<Rightarrow> string \<Rightarrow> bool" where
  "reads64 acc t f \<longleftrightarrow> (case byte_field t f 64 of Some d \<Rightarrow> \<forall>m p. acc m p = load64 m (p + d) | None \<Rightarrow> False)"

definition reads32 :: "(mem \<Rightarrow> u64 \<Rightarrow> u32) \<Rightarrow> ctype \<Rightarrow> string \<Rightarrow> bool" where
  "reads32 acc t f \<longleftrightarrow> (case byte_field t f 32 of Some d \<Rightarrow> \<forall>m p. acc m p = load32 m (p + d) | None \<Rightarrow> False)"

definition reads16 :: "(mem \<Rightarrow> u64 \<Rightarrow> u16) \<Rightarrow> ctype \<Rightarrow> string \<Rightarrow> bool" where
  "reads16 acc t f \<longleftrightarrow> (case byte_field t f 16 of Some d \<Rightarrow> \<forall>m p. acc m p = load16 m (p + d) | None \<Rightarrow> False)"

definition reads8 :: "(mem \<Rightarrow> u64 \<Rightarrow> u8) \<Rightarrow> ctype \<Rightarrow> string \<Rightarrow> bool" where
  "reads8 acc t f \<longleftrightarrow> (case byte_field t f 8 of Some d \<Rightarrow> \<forall>m p. acc m p = load8 m (p + d) | None \<Rightarrow> False)"

lemma byte_fieldI: "field_at t f = Some (8 * b, w) \<Longrightarrow> byte_field t f w = Some (of_nat b)"
  by (simp add: byte_field_def)

section \<open>Where the fields are\<close>

lemma translator_fields:
  "byte_field struct_address_space_translator ''size'' 32 = Some 0"
  "byte_field struct_address_space_translator ''first'' 64 = Some 8"
  "byte_field struct_address_space_translator ''cache'' 64 = Some 16"
  "byte_field struct_address_space_translator_entry ''virtual_address'' 64 = Some 0"
  "byte_field struct_address_space_translator_entry ''physical_address'' 64 = Some 8"
  "byte_field struct_address_space_translator_entry ''length'' 64 = Some 16"
  "byte_field struct_address_space_translator_entry ''next'' 64 = Some 24"
  by code_simp+

lemma section_fields:
  "byte_field struct_memory ''ptr'' 64 = Some 0"
  "byte_field struct_memory ''size'' 64 = Some 8"
  "byte_field struct_memory ''used_bits'' 64 = Some 16"
  "byte_field struct_memory ''used_bits_size'' 32 = Some 24"
  by code_simp+

lemma list_fields:
  "byte_field struct_ArrayList ''content'' 64 = Some 0"
  "byte_field struct_ArrayList ''size'' 64 = Some 8"
  "byte_field struct_ArrayList ''capacity'' 64 = Some 16"
  "byte_field struct_ArrayList ''bucketSize'' 64 = Some 24"
  by code_simp+

lemma thread_fields:
  "byte_field struct_list_data ''thread'' 64 = Some 0"
  "byte_field struct_list_data ''score'' 64 = Some 8"
  "byte_field struct_list_data ''next'' 64 = Some 16"
  "byte_field struct_thread ''tid'' 64 = Some 0"
  "byte_field struct_thread ''parent_pid'' 64 = Some 8"
  "byte_field struct_thread ''rsp'' 64 = Some 16"
  "byte_field struct_thread ''state'' 32 = Some 24"
  "byte_field struct_Timer_waits ''tID'' 64 = Some 0"
  "byte_field struct_Timer_waits ''relative_time'' 64 = Some 8"
  "byte_field struct_Timer_waits ''next'' 64 = Some 16"
  by code_simp+

lemma process_fields:
  "byte_field struct_process ''pml4'' 64 = Some 8"
  "byte_field struct_process ''pml4_entry_free'' 16 = Some 20"
  "byte_field struct_process ''pdpt_entry_free'' 16 = Some 22"
  "byte_field struct_process ''pd_entry_free'' 16 = Some 24"
  "byte_field struct_process ''pt_entry_free'' 16 = Some 26"
  by code_simp+

lemma drawing_fields:
  "byte_field struct_video_Image ''pixels'' 64 = Some 0"
  "byte_field struct_video_Image ''width'' 32 = Some 8"
  "byte_field struct_video_Image ''height'' 32 = Some 12"
  "byte_field struct_video_Text ''txt'' 64 = Some 0"
  "byte_field struct_video_Text ''color'' 32 = Some 8"
  "byte_field struct_video_Text ''size'' 32 = Some 12"
  "byte_field struct_video_Rect ''color'' 32 = Some 0"
  "byte_field struct_video_Rect ''width'' 32 = Some 4"
  "byte_field struct_video_Rect ''height'' 32 = Some 8"
  by code_simp+

lemma firmware_fields:
  "byte_field struct_ACPISDTHeader ''Length'' 32 = Some 4"
  "byte_field struct_RSDP_t ''RsdtAddress'' 32 = Some 16"
  "byte_field struct_PCIe_entry ''base_addr'' 64 = Some 0"
  "byte_field struct_PCIe_entry ''PCI_segment_group'' 16 = Some 8"
  "byte_field struct_PCIe_entry ''start_pci'' 8 = Some 10"
  "byte_field struct_PCIe_entry ''end_pci'' 8 = Some 11"
  by code_simp+

lemma device_fields:
  "byte_field struct_PCIe_device ''group'' 16 = Some 0"
  "byte_field struct_PCIe_device ''bus'' 8 = Some 2"
  "byte_field struct_PCIe_device ''device'' 8 = Some 3"
  "byte_field struct_PCIe_device ''supported_functions'' 16 = Some 4"
  "byte_field struct_PCIe_Header ''class_code'' 8 = Some 11"
  "byte_field struct_PCIe_Header ''subClass'' 8 = Some 10"
  "byte_field struct_PCIe_Header ''prog_IF'' 8 = Some 9"
  by code_simp+

lemmas field_positions = translator_fields section_fields list_fields thread_fields process_fields drawing_fields firmware_fields device_fields

lemmas accessor_defs =
  tr_size_def tr_first_def tr_cache_def e_virt_def e_phys_def e_len_def e_next_def sec_ptr_def sec_size_def
  sec_bits_def sec_bits_size_def al_content_def al_size_def al_capacity_def al_bucketSize_def l_thread_def
  l_score_def l_next_def t_tid_def t_parent_pid_def t_rsp_def t_state_def w_tID_def w_relative_time_def
  w_next_def p_pml4_def p_pml4_entry_free_def p_pdpt_entry_free_def p_pd_entry_free_def p_pt_entry_free_def
  img_pixels_def img_width_def img_height_def txt_txt_def txt_color_def txt_size_def rect_color_def
  rect_width_def rect_height_def table_length_def RsdtAddress_def e_base_addr_def e_segment_group_def
  e_start_pci_def e_end_pci_def d_group_def d_bus_def d_device_def d_functions_def h_class_code_def
  h_subClass_def h_prog_IF_def

lemma reads64I: "byte_field t f 64 = Some d \<Longrightarrow> (\<And>m p. acc m p = load64 m (p + d)) \<Longrightarrow> reads64 acc t f"
  by (simp add: reads64_def)

lemma reads32I: "byte_field t f 32 = Some d \<Longrightarrow> (\<And>m p. acc m p = load32 m (p + d)) \<Longrightarrow> reads32 acc t f"
  by (simp add: reads32_def)

lemma reads16I: "byte_field t f 16 = Some d \<Longrightarrow> (\<And>m p. acc m p = load16 m (p + d)) \<Longrightarrow> reads16 acc t f"
  by (simp add: reads16_def)

lemma reads8I: "byte_field t f 8 = Some d \<Longrightarrow> (\<And>m p. acc m p = load8 m (p + d)) \<Longrightarrow> reads8 acc t f"
  by (simp add: reads8_def)

text \<open>The sizes of objects, as the allocations and strides of the code use them.\<close>

lemma object_sizes:
  "size_of struct_list_data = 24" "size_of struct_thread = 40" "size_of struct_Timer_waits = 24" "size_of struct_process = 72"
  "size_of struct_memory = 28" "size_of struct_address_space_translator_entry = 32" "size_of struct_address_space_translator = 24"
  "size_of struct_free_memory = 16" "size_of struct_used_metadata = 8" "size_of struct_TaskStateSegment = 104"
  "size_of struct_idt_entry = 16" "size_of struct_key_line = 102" "size_of struct_PCIe_device = 6"
  by code_simp+

section \<open>Properties\<close>

text \<open>
  Every accessor of the model reads the field it is named after: at the offset and with the width that the C type has under the
  ABI, packed or aligned as declared. The strides of the arrays of sections and of PCI devices, the size of the task state
  segment in its descriptor and the place of the length behind the keys of a line are those of the structures too.
\<close>

lemma accessors_follow_layout:
  "reads32 tr_size struct_address_space_translator ''size'' \<and>
   reads64 tr_first struct_address_space_translator ''first'' \<and>
   reads64 tr_cache struct_address_space_translator ''cache'' \<and>
   reads64 e_virt struct_address_space_translator_entry ''virtual_address'' \<and>
   reads64 e_phys struct_address_space_translator_entry ''physical_address'' \<and>
   reads64 e_len struct_address_space_translator_entry ''length'' \<and>
   reads64 e_next struct_address_space_translator_entry ''next'' \<and> reads64 sec_ptr struct_memory ''ptr'' \<and>
   reads64 sec_size struct_memory ''size'' \<and> reads64 sec_bits struct_memory ''used_bits'' \<and>
   reads32 sec_bits_size struct_memory ''used_bits_size'' \<and> reads64 al_content struct_ArrayList ''content'' \<and>
   reads64 al_size struct_ArrayList ''size'' \<and> reads64 al_capacity struct_ArrayList ''capacity'' \<and>
   reads64 al_bucketSize struct_ArrayList ''bucketSize'' \<and> reads64 l_thread struct_list_data ''thread'' \<and>
   reads64 l_score struct_list_data ''score'' \<and> reads64 l_next struct_list_data ''next'' \<and>
   reads64 t_tid struct_thread ''tid'' \<and> reads64 t_parent_pid struct_thread ''parent_pid'' \<and>
   reads64 t_rsp struct_thread ''rsp'' \<and> reads32 t_state struct_thread ''state'' \<and>
   reads64 w_tID struct_Timer_waits ''tID'' \<and> reads64 w_relative_time struct_Timer_waits ''relative_time'' \<and>
   reads64 w_next struct_Timer_waits ''next'' \<and> reads64 p_pml4 struct_process ''pml4'' \<and>
   reads16 p_pml4_entry_free struct_process ''pml4_entry_free'' \<and>
   reads16 p_pdpt_entry_free struct_process ''pdpt_entry_free'' \<and>
   reads16 p_pd_entry_free struct_process ''pd_entry_free'' \<and>
   reads16 p_pt_entry_free struct_process ''pt_entry_free'' \<and> reads64 img_pixels struct_video_Image ''pixels'' \<and>
   reads32 img_width struct_video_Image ''width'' \<and> reads32 img_height struct_video_Image ''height'' \<and>
   reads64 txt_txt struct_video_Text ''txt'' \<and> reads32 txt_color struct_video_Text ''color'' \<and>
   reads32 txt_size struct_video_Text ''size'' \<and> reads32 rect_color struct_video_Rect ''color'' \<and>
   reads32 rect_width struct_video_Rect ''width'' \<and> reads32 rect_height struct_video_Rect ''height'' \<and>
   reads32 table_length struct_ACPISDTHeader ''Length'' \<and> reads32 RsdtAddress struct_RSDP_t ''RsdtAddress'' \<and>
   reads64 e_base_addr struct_PCIe_entry ''base_addr'' \<and>
   reads16 e_segment_group struct_PCIe_entry ''PCI_segment_group'' \<and>
   reads8 e_start_pci struct_PCIe_entry ''start_pci'' \<and> reads8 e_end_pci struct_PCIe_entry ''end_pci'' \<and>
   reads16 d_group struct_PCIe_device ''group'' \<and> reads8 d_bus struct_PCIe_device ''bus'' \<and>
   reads8 d_device struct_PCIe_device ''device'' \<and>
   reads16 d_functions struct_PCIe_device ''supported_functions'' \<and>
   reads8 h_class_code struct_PCIe_Header ''class_code'' \<and> reads8 h_subClass struct_PCIe_Header ''subClass'' \<and>
   reads8 h_prog_IF struct_PCIe_Header ''prog_IF'' \<and>
   section_at base i = base + of_nat (size_of struct_memory) * i \<and>
   device_at base i = base + of_nat (size_of struct_PCIe_device) * i \<and>
   tss_size = of_nat (size_of struct_TaskStateSegment) \<and>
   map_option (\<lambda>d. load16 (bytes s) (keys_at s + d)) (byte_field struct_key_line ''length'' 16) = Some (key_length s) \<and>
   map_option (\<lambda>d. load8 m (p + d) \<noteq> 0) (byte_field struct_process ''superviser'' 8) = Some (p_superviser m p)"
proof -
  have key: "byte_field struct_key_line ''length'' 16 = Some 100" "byte_field struct_process ''superviser'' 8 = Some 64"
    by code_simp+
  show ?thesis
    by (intro conjI; (rule reads64I reads32I reads16I reads8I, rule field_positions, simp only: accessor_defs add_0_right)?)
      (simp_all only: section_at_def device_at_def tss_size_def object_sizes key key_length_def p_superviser_def option.map of_nat_numeral)
qed

end
