(* ===== verification/Thread_Machine.thy ===== *)
theory Thread_Machine
  imports Scheduler
begin

text \<open>
  The scheduler as a machine whose steps are timer ticks and new threads, in any order: the run queue and the pool of empty nodes
  together, what a step may change, and an invariant of all runs.
\<close>

section \<open>What a step may change\<close>

text \<open>The links of the nodes and the thread structures.\<close>

definition footprint :: "mem \<Rightarrow> u64 list \<Rightarrow> u64 set" where
  "footprint m cs = (\<Union>p \<in> set cs. span (p + 16) 8 \<union> span (l_thread m p) 40)"

lemma tick_frame:
  assumes ok: "sched_ok s c (q # qs)" and pol: "scheduler_function s = standart_FCFS_scheduler"
    and run: "pop_next_and_readd_running rsp s = ret (t, s')"
  shows "x \<notin> footprint (bytes s) (c # q # qs) \<Longrightarrow> bytes s' x = bytes s x"
    "empty_thread_data s' = empty_thread_data s" "empty_count s' = empty_count s" "free_mem_next s' = free_mem_next s"
proof -
  let ?m = "bytes s" and ?tc = "l_thread (bytes s) c"
  define m1 where "m1 = store64 ?m (?tc + 16) rsp"
  define m2 where "m2 = set_thread_state (l_thread m1 c) ready m1"
  have f: "current_running_thread s = c" "next_running_thread s = q" "sep ?m (c # q # qs)" "\<not> empty_scheduling s"
    "queue ?m q (q # qs)"
    using ok by (auto simp: sched_ok_def)
  have m1: "m1 x = ?m x" if "x \<notin> span ?tc 40" for x
    using that thread_span(1) [of ?tc] unfolding m1_def by (intro store64_outside) blast
  have tc1: "l_thread m1 c = ?tc" by (rule thread_write(1) [OF f(3) _ m1]) simp_all
  have m2: "m2 x = ?m x" if "x \<notin> span ?tc 40" for x
    using that thread_span(2) [of ?tc] m1 [OF that] unfolding m2_def tc1 set_thread_state_def
    by (subst store32_outside) (blast, simp)
  obtain ps z where qs: "q # qs = ps @ [z]" by (metis list.discI rev_exhaust)
  have z: "z \<in> set (c # q # qs)" using qs by (metis in_set_conv_decomp list.set_intros(2))
  have "l_next m2 p = l_next ?m p" if "p \<in> set (q # qs)" for p
    by (rule thread_write(2) [OF f(3) _ m2]) (use that in auto)
  then have "queue m2 q (ps @ [z])" using f(5) queue_cong [of "q # qs" m2 ?m q] unfolding qs by blast
  then have pol2: "standart_FCFS_scheduler q c m2 = Some (store64 m2 (z + 16) c)"
    by (simp add: standart_FCFS_scheduler_def fcfs_last_queue)
  define m4 where "m4 = store64 (store64 m2 (z + 16) c) (q + 16) 0"
  have t: "t = l_thread ?m q" using fcfs.tick [OF ok pol, of rsp] run by auto
  have s': "bytes s' = set_thread_state t running m4" "empty_thread_data s' = empty_thread_data s" "empty_count s' = empty_count s"
    "free_mem_next s' = free_mem_next s"
    using run f(1,2,4) pol pol2
    by (auto simp: pop_next_and_readd_running_def call_policy_def pop_next_thread_def Let_def m1_def [symmetric] m2_def [symmetric]
        m4_def [symmetric])
  show "empty_thread_data s' = empty_thread_data s" "empty_count s' = empty_count s" "free_mem_next s' = free_mem_next s"
    by fact+
  show "bytes s' x = ?m x" if "x \<notin> footprint ?m (c # q # qs)"
  proof -
    have "x \<notin> span (p + 16) 8" "x \<notin> span (l_thread ?m p) 40" if "p \<in> set (c # q # qs)" for p
      using \<open>x \<notin> _\<close> that unfolding footprint_def by blast+
    then have "x \<notin> span (z + 16) 8" "x \<notin> span (q + 16) 8" "x \<notin> span ?tc 40" "x \<notin> span (t + 24) 4"
      using z t thread_span(2) [of t] by (metis, simp_all del: mem_span, blast)
    then show ?thesis by (simp add: s' set_thread_state_def m4_def store32_outside store64_outside m2 del: mem_span)
  qed
qed

section \<open>The machine\<close>

text \<open>The bytes of the list nodes and of the threads, and the threads with their saved stack pointers, in turn.\<close>

definition objects :: "mem \<Rightarrow> u64 list \<Rightarrow> u64 list \<Rightarrow> u64 set" where
  "objects m cs es = (\<Union>p \<in> set (cs @ es). span p 24) \<union> (\<Union>p \<in> set cs. span (l_thread m p) 40)"

definition contexts :: "mem \<Rightarrow> u64 list \<Rightarrow> (u64 \<times> u64) list" where
  "contexts m cs = map (\<lambda>p. (l_thread m p, t_rsp m (l_thread m p))) cs"

text \<open>
  Node \<open>c\<close> runs, \<open>qs\<close> are queued, \<open>es\<close> is the pool, everything is in use for the heap, and \<open>V\<close> is memory that
  is in use as well and that none of them touches: new threads live there.
\<close>

definition machine_nodes ::
  "nat \<Rightarrow> nat \<Rightarrow> 'a sched_state_scheme \<Rightarrow> u64 \<Rightarrow> u64 list \<Rightarrow> u64 list \<Rightarrow> u64 set \<Rightarrow> bool" where
  "machine_nodes lo hi s c qs es V \<longleftrightarrow>
     sched_ok s c qs \<and> scheduler_function s = standart_FCFS_scheduler \<and>
     queue (bytes s) (empty_thread_data s) es \<and> unat (empty_count s) = length es \<and> nodes (es @ c # qs) \<and>
     (\<forall>p \<in> set (c # qs). \<forall>q \<in> set es. apart (l_thread (bytes s) p) 40 q 24) \<and>
     objects (bytes s) (c # qs) es \<inter> V = {} \<and> heap_inv lo hi s (objects (bytes s) (c # qs) es \<union> V)"

definition machine_ok ::
  "nat \<Rightarrow> nat \<Rightarrow> 'a sched_state_scheme \<Rightarrow> (u64 \<times> u64) list \<Rightarrow> u64 set \<Rightarrow> bool" where
  "machine_ok lo hi s xs V \<longleftrightarrow> (\<exists>c qs es. machine_nodes lo hi s c qs es V \<and> xs = contexts (bytes s) (c # qs))"

lemma machine_nodesD:
  assumes "machine_nodes lo hi s c qs es V"
  shows "sched_ok s c qs" "scheduler_function s = standart_FCFS_scheduler"
    "queue (bytes s) (empty_thread_data s) es" "unat (empty_count s) = length es" "nodes (es @ c # qs)"
    "p \<in> set (c # qs) \<Longrightarrow> q \<in> set es \<Longrightarrow> apart (l_thread (bytes s) p) 40 q 24"
    "objects (bytes s) (c # qs) es \<inter> V = {}" "heap_inv lo hi s (objects (bytes s) (c # qs) es \<union> V)"
    "sep (bytes s) (c # qs)"
  using assms unfolding machine_nodes_def sched_ok_def by blast+

lemma heap_inv_cong:
  assumes "heap_inv lo hi s U" "free_mem_next s' = free_mem_next s" "\<And>x. x \<notin> U \<Longrightarrow> bytes s' x = bytes s x" "V \<subseteq> U"
  shows "heap_inv lo hi s' V" "heap_budget s' = heap_budget s"
proof -
  have "heap_inv lo hi (s\<lparr>bytes := bytes s'\<rparr>) U \<and> heap_budget (s\<lparr>bytes := bytes s'\<rparr>) = heap_budget s"
    by (rule kheap.inv_write [OF assms(1,3)])
  then have "heap_inv lo hi s' U" "heap_budget s' = heap_budget s"
    using assms(2) by (simp_all add: heap_inv_def heap_wf_def heap_budget_def)
  then show "heap_inv lo hi s' V" "heap_budget s' = heap_budget s" using kheap.inv_subset assms(4) by blast+
qed

lemma footprint_objects: "footprint m cs \<subseteq> objects m cs es"
  using node_span(1) by (auto simp: footprint_def objects_def simp del: mem_span)

lemma objects_cong:
  "mset cs' = mset cs \<Longrightarrow> (\<And>p. p \<in> set cs \<Longrightarrow> l_thread m' p = l_thread m p) \<Longrightarrow> objects m' cs' es = objects m cs es"
  by (auto simp: objects_def simp del: mem_span dest: mset_eq_setD)

text \<open>The pool is out of reach of a tick.\<close>

lemma pool_outside:
  assumes "nodes (es @ cs)" "\<And>p q. p \<in> set cs \<Longrightarrow> q \<in> set es \<Longrightarrow> apart (l_thread m p) 40 q 24" "q \<in> set es"
  shows "span q 24 \<inter> footprint m cs = {}"
proof -
  have "span q 24 \<inter> span (p + 16) 8 = {}" "span q 24 \<inter> span (l_thread m p) 40 = {}" if "p \<in> set cs" for p
  proof -
    have "p \<noteq> q" using assms(1,3) that by (auto simp: nodes_def)
    then have "span q 24 \<inter> span p 24 = {}" using assms(1,3) that by (intro nodes_apart [of "es @ cs"]) auto
    then show "span q 24 \<inter> span (p + 16) 8 = {}" using node_span(1) by blast
    show "span q 24 \<inter> span (l_thread m p) 40 = {}" using assms(2) [OF that assms(3)] apart_span by blast
  qed
  then show ?thesis unfolding footprint_def by blast
qed


section \<open>Each step implements the queue\<close>

datatype event = Tick u64 | Add u64

text \<open>
  The specification: threads with their stack pointers, the running one first. A tick stores the interrupted
  thread's stack pointer and sends the thread to the end; a new thread comes behind the last one.
\<close>

fun abs_event :: "(u64 \<Rightarrow> u64) \<Rightarrow> event \<Rightarrow> (u64 \<times> u64) list \<Rightarrow> (u64 \<times> u64) list" where
  "abs_event rsp_of (Tick rsp) [] = []"
| "abs_event rsp_of (Tick rsp) ((t, _) # xs) = xs @ [(t, rsp)]"
| "abs_event rsp_of (Add t) xs = xs @ [(t, rsp_of t)]"

text \<open>A single thread goes on.\<close>

lemma tick_alone:
  assumes ok: "sched_ok s c []"
  shows "\<exists>s'. pop_next_and_readd_running rsp s = ret (l_thread (bytes s) c, s') \<and> sched_ok s' c [] \<and>
    scheduler_function s' = scheduler_function s \<and> l_thread (bytes s') c = l_thread (bytes s) c \<and>
    t_rsp (bytes s') (l_thread (bytes s) c) = rsp \<and> empty_thread_data s' = empty_thread_data s \<and>
    empty_count s' = empty_count s \<and> free_mem_next s' = free_mem_next s \<and>
    (\<forall>x. x \<notin> footprint (bytes s) [c] \<longrightarrow> bytes s' x = bytes s x)"
proof -
  let ?m = "bytes s" and ?tc = "l_thread (bytes s) c"
  define m1 where "m1 = store64 ?m (?tc + 16) rsp"
  have f: "current_running_thread s = c" "sep ?m [c]" "empty_scheduling s" "l_next ?m c = 0"
    using ok by (auto simp: sched_ok_def)
  have m1: "m1 x = ?m x" if "x \<notin> span ?tc 40" for x
    using that thread_span(1) [of ?tc] unfolding m1_def by (intro store64_outside) blast
  have l: "l_thread m1 c = ?tc" "l_next m1 c = l_next ?m c"
    by (rule thread_write(1,2) [OF f(2) _ m1]; simp)+
  have "sep m1 [c]" by (rule sep_cong [OF f(2)]) (use l in auto)
  then have "sched_ok (s\<lparr>bytes := m1\<rparr>) c []" using ok l by (simp add: sched_ok_def)
  moreover have "pop_next_and_readd_running rsp s = ret (?tc, s\<lparr>bytes := m1\<rparr>)"
    using f(1,3) l(1) by (simp add: pop_next_and_readd_running_def Let_def m1_def [symmetric])
  moreover have "t_rsp m1 ?tc = rsp" by (simp add: m1_def t_rsp_def)
  moreover have "m1 x = ?m x" if "x \<notin> footprint ?m [c]" for x
    using that by (intro m1) (simp add: footprint_def)
  ultimately show ?thesis using l by (intro exI [of _ "s\<lparr>bytes := m1\<rparr>"]) (simp del: mem_span)
qed

text \<open>What a tick does, with or without other threads.\<close>

lemma tick_step:
  assumes ok: "sched_ok s c qs" and pol: "scheduler_function s = standart_FCFS_scheduler"
  obtains c' s' qs' where "pop_next_and_readd_running rsp s = ret (l_thread (bytes s) c', s')" "sched_ok s' c' qs'"
    "c' # qs' = qs @ [c]" "scheduler_function s' = standart_FCFS_scheduler"
    "empty_thread_data s' = empty_thread_data s" "empty_count s' = empty_count s" "free_mem_next s' = free_mem_next s"
    "\<And>p. p \<in> set (c # qs) \<Longrightarrow> l_thread (bytes s') p = l_thread (bytes s) p"
    "t_rsp (bytes s') (l_thread (bytes s) c) = rsp"
    "\<And>p. p \<in> set qs \<Longrightarrow> t_rsp (bytes s') (l_thread (bytes s) p) = t_rsp (bytes s) (l_thread (bytes s) p)"
    "\<And>x. x \<notin> footprint (bytes s) (c # qs) \<Longrightarrow> bytes s' x = bytes s x"
proof (cases qs)
  case Nil
  obtain s' where s': "pop_next_and_readd_running rsp s = ret (l_thread (bytes s) c, s')" "sched_ok s' c []"
    "scheduler_function s' = scheduler_function s" "l_thread (bytes s') c = l_thread (bytes s) c"
    "t_rsp (bytes s') (l_thread (bytes s) c) = rsp" "empty_thread_data s' = empty_thread_data s"
    "empty_count s' = empty_count s" "free_mem_next s' = free_mem_next s"
    "\<And>x. x \<notin> footprint (bytes s) [c] \<Longrightarrow> bytes s' x = bytes s x"
    using tick_alone [of s c rsp] ok unfolding Nil by blast
  show thesis by (rule that [OF s'(1,2)]) (use s' pol Nil in simp_all)
next
  case (Cons q rs)
  obtain s' where s': "pop_next_and_readd_running rsp s = ret (l_thread (bytes s) q, s')" "sched_ok s' q (rs @ [c])"
    "scheduler_function s' = standart_FCFS_scheduler"
    "\<And>p. p \<in> set (c # qs) \<Longrightarrow> l_thread (bytes s') p = l_thread (bytes s) p"
    "t_rsp (bytes s') (l_thread (bytes s) c) = rsp"
    "\<And>p. p \<in> set qs \<Longrightarrow> t_rsp (bytes s') (l_thread (bytes s) p) = t_rsp (bytes s) (l_thread (bytes s) p)"
    using fcfs.tick [of s c q rs rsp] ok pol unfolding Cons by blast
  have fr: "\<And>x. x \<notin> footprint (bytes s) (c # qs) \<Longrightarrow> bytes s' x = bytes s x"
    "empty_thread_data s' = empty_thread_data s" "empty_count s' = empty_count s" "free_mem_next s' = free_mem_next s"
    using tick_frame [OF ok [unfolded Cons] pol s'(1)] unfolding Cons by blast+
  show thesis by (rule that [OF s'(1,2) _ s'(3) fr(2-4) s'(4-6) fr(1)]) (simp_all add: Cons)
qed

lemma machine_tick:
  assumes ok: "machine_nodes lo hi s c qs es V"
  shows "\<exists>t s' c' qs'. pop_next_and_readd_running rsp s = ret (t, s') \<and> machine_nodes lo hi s' c' qs' es V \<and>
    contexts (bytes s') (c' # qs') = abs_event f (Tick rsp) (contexts (bytes s) (c # qs)) \<and>
    (\<forall>x \<in> V. bytes s' x = bytes s x) \<and> heap_budget s' = heap_budget s \<and> empty_count s' = empty_count s \<and>
    t = l_thread (bytes s') c'"
proof -
  let ?m = "bytes s" and ?cs = "c # qs"
  note m = machine_nodesD [OF ok]
  obtain c' s' qs' where s': "pop_next_and_readd_running rsp s = ret (l_thread ?m c', s')" "sched_ok s' c' qs'"
    "c' # qs' = qs @ [c]" "scheduler_function s' = standart_FCFS_scheduler"
    "empty_thread_data s' = empty_thread_data s" "empty_count s' = empty_count s" "free_mem_next s' = free_mem_next s"
    "\<And>p. p \<in> set ?cs \<Longrightarrow> l_thread (bytes s') p = l_thread ?m p" "t_rsp (bytes s') (l_thread ?m c) = rsp"
    "\<And>p. p \<in> set qs \<Longrightarrow> t_rsp (bytes s') (l_thread ?m p) = t_rsp ?m (l_thread ?m p)"
    "\<And>x. x \<notin> footprint ?m ?cs \<Longrightarrow> bytes s' x = ?m x"
    by (rule tick_step [OF m(1,2), where rsp = rsp], rule that)
  let ?O = "objects ?m ?cs es"
  have obj: "objects (bytes s') (c' # qs') es = ?O"
    unfolding s'(3) by (rule objects_cong) (use s'(8) in auto)
  have fp: "footprint ?m ?cs \<subseteq> ?O" by (rule footprint_objects)
  have heap: "heap_inv lo hi s' (?O \<union> V)" "heap_budget s' = heap_budget s"
    by (rule heap_inv_cong [OF m(8) s'(7)]; use s'(11) fp in blast)+
  have "l_next (bytes s') q = l_next ?m q" if "q \<in> set es" for q
  proof -
    have "span q 24 \<inter> footprint ?m ?cs = {}" by (rule pool_outside [OF m(5) _ that]) (rule m(6))
    then have "bytes s' x = ?m x" if "x \<in> span q 24" for x using that s'(11) by blast
    then show ?thesis by (rule node_cong)
  qed
  then have pool: "queue (bytes s') (empty_thread_data s') es" using m(3) queue_cong s'(5) by metis
  have "set (c' # qs') = set ?cs" unfolding s'(3) by auto
  then have "\<forall>p \<in> set (c' # qs'). \<forall>q \<in> set es. apart (l_thread (bytes s') p) 40 q 24"
    using m(6) s'(8) by metis
  moreover have "nodes (es @ c' # qs')" using m(5) unfolding s'(3) by (auto simp: nodes_def)
  ultimately have "machine_nodes lo hi s' c' qs' es V"
    using s'(2,4,6) pool m(4,7) heap(1) unfolding machine_nodes_def obj by simp
  moreover have "contexts (bytes s') (c' # qs') = abs_event f (Tick rsp) (contexts ?m ?cs)"
    unfolding s'(3) using s'(8-10) by (simp add: contexts_def)
  moreover have "bytes s' x = ?m x" if "x \<in> V" for x using that m(7) fp by (intro s'(11)) blast
  moreover have "l_thread ?m c' = l_thread (bytes s') c'"
    by (rule s'(8) [symmetric]) (use \<open>set (c' # qs') = set ?cs\<close> in \<open>metis list.set_intros(1)\<close>)
  ultimately show ?thesis using s'(1,6) heap(2) by blast
qed


text \<open>A new thread, with an empty node in the pool.\<close>

lemma objects_disjoint:
  assumes "objects m cs es \<inter> V = {}" "span t 40 \<subseteq> V"
  shows "p \<in> set (cs @ es) \<Longrightarrow> span t 40 \<inter> span p 24 = {}" "p \<in> set (cs @ es) \<Longrightarrow> apart t 40 p 24"
    "p \<in> set cs \<Longrightarrow> apart t 40 (l_thread m p) 40"
proof -
  have d: "span t 40 \<inter> objects m cs es = {}" using assms by blast
  show n: "span t 40 \<inter> span p 24 = {}" if "p \<in> set (cs @ es)" for p using d that unfolding objects_def by blast
  show "apart t 40 p 24" if "p \<in> set (cs @ es)" by (rule span_apart [OF n [OF that]]) simp_all
  show "apart t 40 (l_thread m p) 40" if "p \<in> set cs"
  proof (rule span_apart)
    show "span t 40 \<inter> span (l_thread m p) 40 = {}" using d that unfolding objects_def by blast
  qed simp_all
qed

lemma fresh_node_sep:
  assumes sp: "sep m cs" and n: "nodes (e # cs)" and ts: "\<And>p. p \<in> set cs \<Longrightarrow> apart (l_thread m p) 40 e 24"
    and t: "\<And>p. p \<in> set (e # cs) \<Longrightarrow> apart t 40 p 24" "\<And>p. p \<in> set cs \<Longrightarrow> apart t 40 (l_thread m p) 40"
  shows "sep (store64 m e t) (e # cs)" "p \<in> set cs \<Longrightarrow> l_thread (store64 m e t) p = l_thread m p"
proof -
  let ?m = "store64 m e t"
  show l: "l_thread ?m p = l_thread m p" if p: "p \<in> set cs" for p
  proof -
    have "span p 24 \<inter> span e 24 = {}" using n p by (intro nodes_apart [OF n]) (auto simp: nodes_def)
    then have "?m x = m x" if "x \<in> span p 24" for x
      using that node_span(3) [of e] by (intro store64_outside) blast
    then show ?thesis by (rule node_cong)
  qed
  have e: "l_thread ?m e = t" by (simp add: l_thread_def)
  show "sep ?m (e # cs)"
    using sp n ts t l e unfolding sep_def by (auto simp: apart_sym)
qed

text \<open>Adding a node writes the state of the thread, the node, and links: threads and stack pointers stay.\<close>

lemma added_node_frame:
  assumes n: "nodes (e # cs)" and sep: "sep m cs" "\<And>p. p \<in> set cs \<Longrightarrow> apart (l_thread m p) 40 e 24"
    and t: "\<And>p. p \<in> set (e # cs) \<Longrightarrow> span t 40 \<inter> span p 24 = {}" "\<And>p. p \<in> set cs \<Longrightarrow> apart t 40 (l_thread m p) 40"
    and same: "\<And>x. x \<notin> span (t + 24) 4 \<Longrightarrow> x \<notin> span e 24 \<Longrightarrow> (\<And>q. q \<in> set cs \<Longrightarrow> x \<notin> span (q + 16) 8) \<Longrightarrow> m' x = m x"
  shows "x \<notin> span (t + 24) 4 \<Longrightarrow> x \<notin> (\<Union>p \<in> set (e # cs). span p 24) \<Longrightarrow> m' x = m x"
    "p \<in> set cs \<Longrightarrow> l_thread m' p = l_thread m p"
    "p \<in> set cs \<Longrightarrow> t_rsp m' (l_thread m p) = t_rsp m (l_thread m p)"
    "t_rsp m' t = t_rsp m t"
proof -
  show other: "m' x = m x" if "x \<notin> span (t + 24) 4" "x \<notin> (\<Union>p \<in> set (e # cs). span p 24)" for x
    using that node_span(1) by (intro same) (auto simp del: mem_span)
  show "l_thread m' p = l_thread m p" if p: "p \<in> set cs"
    unfolding l_thread_def
  proof (intro load64_cong same)
    have far: "span p 24 \<inter> span q 24 = {}" if "q \<in> set (e # cs)" "q \<noteq> p" for q
      using that p by (intro nodes_apart [OF n]) auto
    fix x
    assume x: "x \<in> span p 8"
    then have x24: "x \<in> span p 24" using node_span(3) by blast
    have "span t 40 \<inter> span p 24 = {}" "span p 24 \<inter> span e 24 = {}"
      using t(1) [of p] p far [of e] n by (auto simp: nodes_def)
    then show "x \<notin> span (t + 24) 4" "x \<notin> span e 24" using thread_span(2) [of t] x24 by blast+
    show "x \<notin> span (q + 16) 8" if "q \<in> set cs" for q
    proof (cases "q = p")
      case True
      have "span p 8 \<inter> span (p + 16) 8 = {}" using apart_span [of p 8 "p + 16" 8] by simp
      then show ?thesis using x True by blast
    next
      case False
      then have "span p 24 \<inter> span q 24 = {}" using far [of q] that by simp
      then show ?thesis using x24 node_span(1) [of q] by blast
    qed
  qed
  show "t_rsp m' (l_thread m p) = t_rsp m (l_thread m p)" if p: "p \<in> set cs"
  proof -
    have "span (l_thread m p) 40 \<inter> span q 24 = {}" if "q \<in> set (e # cs)" for q
      using sep(2) [OF p] sep(1) p that by (intro apart_span) (auto simp: sep_def)
    moreover have "span t 40 \<inter> span (l_thread m p) 40 = {}" using t(2) [OF p] by (rule apart_span)
    ultimately have "m' x = m x" if "x \<in> span (l_thread m p) 40" for x
      using that thread_span(2) [of t] by (intro other) blast+
    then show ?thesis by (rule thread_cong)
  qed
  have "span (t + 16) 8 \<inter> span (t + 24) 4 = {}" using apart_span [of "t + 16" 8 "t + 24" 4] by simp
  then have "m' x = m x" if "x \<in> span (t + 16) 8" for x
    using that thread_span(1) [of t] t(1) by (intro other) (auto simp del: mem_span)
  then show "t_rsp m' t = t_rsp m t" unfolding t_rsp_def by (rule load64_cong)
qed

lemma machine_add_pool:
  assumes ok: "machine_nodes lo hi s c qs (e # es) V" and t: "span t 40 \<subseteq> V" and len: "length qs + 1 < 18446744073709551616"
  shows "\<exists>s'. add_thread_to_schedule t s = ret s' \<and> machine_nodes lo hi s' c (qs @ [e]) es (V - span t 40) \<and>
    contexts (bytes s') (c # qs @ [e]) = contexts (bytes s) (c # qs) @ [(t, t_rsp (bytes s) t)] \<and>
    (\<forall>x \<in> V - span t 40. bytes s' x = bytes s x) \<and> heap_budget s' = heap_budget s \<and> empty_count s' = empty_count s - 1"
proof -
  let ?m = "bytes s" and ?cs = "c # qs" and ?O = "objects (bytes s) (c # qs) (e # es)"
  note m = machine_nodesD [OF ok]
  note fresh = objects_disjoint [OF m(7) t]
  have n: "nodes (e # ?cs)" "nodes (e # es @ ?cs)" using m(5) by (auto simp: nodes_def)
  have sep: "sep (store64 ?m e t) (e # ?cs)"
    by (rule fresh_node_sep(1) [OF m(9) n(1)]) (use m(6) fresh(2,3) in auto)
  have cnt: "empty_count s \<noteq> 0" using m(4) by auto
  obtain s' where s': "add_thread_to_schedule t s = ret s'" "sched_ok s' c (qs @ [e])" "l_thread (bytes s') e = t"
    "queue (bytes s') (empty_thread_data s') es" "empty_count s' = empty_count s - 1"
    "scheduler_function s' = standart_FCFS_scheduler" "free_mem_next s' = free_mem_next s"
    "\<And>x. x \<notin> span (t + 24) 4 \<Longrightarrow> x \<notin> span e 24 \<Longrightarrow> (\<And>q. q \<in> set qs \<Longrightarrow> x \<notin> span (q + 16) 8) \<Longrightarrow> bytes s' x = ?m x"
    using fcfs.add_thread [OF m(1) len m(2,3) cnt n(2) sep] fresh(2) by (auto simp del: mem_span)
  have "apart (l_thread ?m p) 40 e 24" if "p \<in> set ?cs" for p using m(6) [OF that] by simp
  moreover have "span t 40 \<inter> span p 24 = {}" if "p \<in> set (e # ?cs)" for p using that by (intro fresh(1)) auto
  moreover have "bytes s' x = ?m x" if "x \<notin> span (t + 24) 4" "x \<notin> span e 24" "\<And>q. q \<in> set ?cs \<Longrightarrow> x \<notin> span (q + 16) 8" for x
    using that by (intro s'(8)) (auto simp del: mem_span)
  ultimately have other: "\<And>x. x \<notin> span (t + 24) 4 \<Longrightarrow> x \<notin> (\<Union>p \<in> set (e # ?cs). span p 24) \<Longrightarrow> bytes s' x = ?m x"
    and thr: "\<And>p. p \<in> set ?cs \<Longrightarrow> l_thread (bytes s') p = l_thread ?m p"
      "\<And>p. p \<in> set ?cs \<Longrightarrow> t_rsp (bytes s') (l_thread ?m p) = t_rsp ?m (l_thread ?m p)"
    and trsp: "t_rsp (bytes s') t = t_rsp ?m t"
    using added_node_frame [OF n(1) m(9) _ _ fresh(3), of "bytes s'"] by blast+
  have obj: "objects (bytes s') (c # qs @ [e]) es = ?O \<union> span t 40"
    using thr s'(3) by (auto simp: objects_def simp del: mem_span)
  have out: "bytes s' x = ?m x" if "x \<notin> ?O \<union> span t 40" for x
    using that thread_span(2) [of t] by (intro other) (auto simp: objects_def simp del: mem_span)
  have heap: "heap_inv lo hi s' (?O \<union> span t 40 \<union> (V - span t 40))" "heap_budget s' = heap_budget s"
    by (rule heap_inv_cong [OF m(8) s'(7)]; use out t in blast)+
  have "nodes (es @ c # qs @ [e])" using m(5) by (auto simp: nodes_def)
  moreover have "\<forall>p \<in> set (c # qs @ [e]). \<forall>q \<in> set es. apart (l_thread (bytes s') p) 40 q 24"
    using m(6) thr s'(3) fresh(2) by auto
  moreover have "unat (empty_count s') = length es"
    using m(4) cnt s'(5) by (simp add: unat_minus_one)
  ultimately have "machine_nodes lo hi s' c (qs @ [e]) es (V - span t 40)"
    using s'(2,4,6) m(7) heap(1) unfolding machine_nodes_def obj by (auto simp del: mem_span)
  moreover have "contexts (bytes s') (c # qs @ [e]) = contexts ?m ?cs @ [(t, t_rsp ?m t)]"
    using thr s'(3) trsp by (auto simp: contexts_def)
  moreover have "bytes s' x = ?m x" if "x \<in> V - span t 40" for x using that m(7) by (intro out) blast
  ultimately show ?thesis using s'(1,5) heap(2) by blast
qed


text \<open>With an empty pool the heap is asked for ten nodes first.\<close>

lemma set_thread_state_again:
  assumes "\<And>x. x \<in> span (t + 24) 4 \<Longrightarrow> m' x = set_thread_state t st m x"
  shows "set_thread_state t st m' = m'"
  using assms by (auto simp: set_thread_state_def store32_def store_le_def)

lemma machine_frame:
  assumes ok: "machine_nodes lo hi s c qs es V" and same: "\<And>x. x \<in> objects (bytes s) (c # qs) es \<Longrightarrow> m' x = bytes s x"
  shows "sched_ok (s\<lparr>bytes := m', empty_thread_data := b, empty_count := k\<rparr>) c qs"
    "p \<in> set (c # qs) \<Longrightarrow> l_thread m' p = l_thread (bytes s) p"
    "contexts m' (c # qs) = contexts (bytes s) (c # qs)" "queue m' (empty_thread_data s) es"
proof -
  let ?m = "bytes s"
  note m = machine_nodesD [OF ok]
  have "m' x = ?m x" if "x \<in> span p 24" "p \<in> set (c # qs @ es)" for x p
    using that by (intro same) (auto simp: objects_def simp del: mem_span)
  then have n: "l_thread m' p = l_thread ?m p" "l_next m' p = l_next ?m p" if "p \<in> set (c # qs @ es)" for p
    using that node_cong [of p m' ?m] by blast+
  show l: "l_thread m' p = l_thread ?m p" if "p \<in> set (c # qs)" for p by (rule n(1)) (use that in auto)
  have "t_rsp m' (l_thread ?m p) = t_rsp ?m (l_thread ?m p)" if "p \<in> set (c # qs)" for p
    by (rule thread_cong, rule same) (use that in \<open>auto simp: objects_def simp del: mem_span\<close>)
  then show "contexts m' (c # qs) = contexts ?m (c # qs)" using l unfolding contexts_def by simp
  show "queue m' (empty_thread_data s) es" by (rule iffD2 [OF queue_cong m(3)]) (rule n(2), simp)
  have "queue m' (next_running_thread s) qs"
    using m(1) n(2) queue_cong [of qs m' ?m] by (auto simp: sched_ok_def)
  moreover have "sep m' (c # qs)" by (rule sep_cong [OF m(9) refl l])
  ultimately show "sched_ok (s\<lparr>bytes := m', empty_thread_data := b, empty_count := k\<rparr>) c qs"
    using m(1) n(2) [of c] by (simp add: sched_ok_def)
qed

lemma nodes_append:
  assumes "nodes xs" "nodes ys" "\<And>x y. y \<in> set ys \<Longrightarrow> x \<in> set xs \<Longrightarrow> apart x 24 y 24"
  shows "nodes (xs @ ys)"
proof -
  have "x \<noteq> y" if "x \<in> set xs" "y \<in> set ys" for x y using assms(3) [OF that(2,1)] by (auto simp: apart_def)
  moreover have "apart y 24 x 24" if "x \<in> set xs" "y \<in> set ys" for x y using assms(3) [OF that(2,1)] by (simp add: apart_sym)
  ultimately show ?thesis using assms unfolding nodes_def by auto
qed

lemma bucket_nodes_span: "p \<in> set (bucket_nodes b) \<Longrightarrow> span p 24 \<subseteq> span b 240"
  using span_mono [of 24 240 b] span_sub [of 24 24 240 b] span_sub [of 48 24 240 b] span_sub [of 72 24 240 b]
    span_sub [of 96 24 240 b] span_sub [of 120 24 240 b] span_sub [of 144 24 240 b] span_sub [of 168 24 240 b]
    span_sub [of 192 24 240 b] span_sub [of 216 24 240 b] by auto

lemma machine_refill:
  assumes ok: "machine_nodes lo hi s c qs [] V" and room: "264 \<le> heap_budget s" and t: "span t 40 \<subseteq> V"
  shows "\<exists>b s'. add_thread_to_schedule t s = add_thread_to_schedule t s' \<and>
    machine_nodes lo hi s' c qs (bucket_nodes b) V \<and> contexts (bytes s') (c # qs) = contexts (bytes s) (c # qs) \<and>
    (\<forall>x \<in> V. x \<notin> span (t + 24) 4 \<longrightarrow> bytes s' x = bytes s x) \<and> heap_budget s' = heap_budget s - 248 \<and>
    empty_count s' = 10"
proof -
  let ?m = "bytes s" and ?O = "objects (bytes s) (c # qs) []"
  note m = machine_nodesD [OF ok]
  define m0 where "m0 = set_thread_state t ready ?m"
  have m0: "m0 x = ?m x" if "x \<notin> span (t + 24) 4" for x
    using that by (simp add: m0_def set_thread_state_def store32_outside del: mem_span)
  have tV: "span (t + 24) 4 \<subseteq> V" using thread_span(2) t by blast
  have h0: "heap_inv lo hi (s\<lparr>bytes := m0\<rparr>) (?O \<union> V)" "heap_budget (s\<lparr>bytes := m0\<rparr>) = heap_budget s"
    by (rule heap_inv_cong [OF m(8)]; use m0 tV in \<open>auto simp del: mem_span\<close>)+
  obtain b m1 where b: "malloc_empty_bucket (s\<lparr>bytes := m0\<rparr>) =
      ret (s\<lparr>bytes := m1, empty_thread_data := b, empty_count := empty_count s + 10\<rparr>)"
    "queue m1 b (bucket_nodes b)" "span b 240 \<inter> (?O \<union> V) = {}" "\<And>x. x \<in> ?O \<union> V \<Longrightarrow> m1 x = m0 x"
    "heap_inv lo hi (s\<lparr>bytes := m1\<rparr>) (?O \<union> V \<union> span b 240)" "heap_budget (s\<lparr>bytes := m1\<rparr>) = heap_budget s - 248"
    using bucket_fills_pool [OF h0(1), of "[]"] room h0(2) m(3) by (auto simp del: mem_span)
  have cnt: "empty_count s = 0" using m(4) by (simp add: unat_eq_0)
  define s' where "s' = s\<lparr>bytes := m1, empty_thread_data := b, empty_count := 10\<rparr>"
  have "m1 x = set_thread_state t ready ?m x" if "x \<in> span (t + 24) 4" for x
    using b(4) tV that unfolding m0_def by blast
  then have again: "set_thread_state t ready m1 = m1" by (rule set_thread_state_again)
  have "add_thread_to_schedule t s = add_thread_to_schedule t s'"
    using b(1) cnt by (simp add: add_thread_to_schedule_def Let_def m0_def [symmetric] s'_def again)
  moreover have same: "m1 x = ?m x" if "x \<in> ?O" for x
  proof -
    have "x \<notin> span (t + 24) 4" using that m(7) tV by blast
    then show ?thesis using b(4) [of x] m0 that by (simp del: mem_span)
  qed
  note fr = machine_frame [OF ok same]
  have thr: "span (l_thread m1 p) 40 \<inter> span q 24 = {} \<and> span q 24 \<inter> span p 24 = {}"
    if p: "p \<in> set (c # qs)" and q: "q \<in> set (bucket_nodes b)" for p q
  proof -
    have "span (l_thread m1 p) 40 \<subseteq> ?O" "span p 24 \<subseteq> ?O" using p fr(2) [OF _ p] by (auto simp: objects_def simp del: mem_span)
    then show ?thesis using bucket_nodes_span [OF q] b(3) by blast
  qed
  have apart: "apart (l_thread m1 p) 40 q 24" "apart q 24 p 24"
    if "p \<in> set (c # qs)" "q \<in> set (bucket_nodes b)" for p q
  proof -
    show "apart (l_thread m1 p) 40 q 24" by (rule span_apart [OF conjunct1 [OF thr [OF that]]]) simp_all
    show "apart q 24 p 24" by (rule span_apart [OF conjunct2 [OF thr [OF that]]]) simp_all
  qed
  have "nodes (c # qs)" using m(5) by simp
  then have nod: "nodes (bucket_nodes b @ c # qs)" by (rule nodes_append [OF bucket_apart_nodes]) (rule apart(2))
  have obj: "objects m1 (c # qs) (bucket_nodes b) \<subseteq> ?O \<union> span b 240"
    using fr(2) bucket_nodes_span [of _ b] by (auto simp: objects_def simp del: mem_span)
  have heap: "heap_inv lo hi s' (objects m1 (c # qs) (bucket_nodes b) \<union> V)" "heap_budget s' = heap_budget (s\<lparr>bytes := m1\<rparr>)"
    by (rule heap_inv_cong [OF b(5)]; use obj in \<open>auto simp: s'_def simp del: mem_span\<close>)+
  have "objects m1 (c # qs) (bucket_nodes b) \<inter> V = {}" using obj m(7) b(3) by blast
  then have "machine_nodes lo hi s' c qs (bucket_nodes b) V"
    using fr(1) [where b = b and k = 10] m(2) b(2) nod apart(1) heap(1) unfolding machine_nodes_def by (simp add: s'_def)
  moreover have "bytes s' x = ?m x" if "x \<in> V" "x \<notin> span (t + 24) 4" for x
    using that b(4) m0 by (simp add: s'_def del: mem_span)
  ultimately show ?thesis using fr(3) heap(2) b(6) by (intro exI [of _ b] exI [of _ s']) (simp add: s'_def)
qed


text \<open>How many times \<open>n\<close> new threads need the heap with \<open>k\<close> nodes in the pool.\<close>

definition refills :: "nat \<Rightarrow> nat \<Rightarrow> nat" where
  "refills n k = (n + 9 - k) div 10"

lemma refills_step:
  "0 < k \<Longrightarrow> refills n (k - 1) \<le> refills (Suc n) k" "refills (Suc n) 0 = Suc (refills n 9)"
  by (auto simp: refills_def intro!: div_le_mono)

lemma machine_add:
  assumes ok: "machine_nodes lo hi s c qs es V" and t: "span t 40 \<subseteq> V" and len: "length qs + 1 < 18446744073709551616"
    and room: "264 * refills (Suc n) (unat (empty_count s)) \<le> heap_budget s"
  shows "\<exists>s' e es'. add_thread_to_schedule t s = ret s' \<and> machine_nodes lo hi s' c (qs @ [e]) es' (V - span t 40) \<and>
    contexts (bytes s') (c # qs @ [e]) = contexts (bytes s) (c # qs) @ [(t, t_rsp (bytes s) t)] \<and>
    (\<forall>x \<in> V - span t 40. bytes s' x = bytes s x) \<and> 264 * refills n (unat (empty_count s')) \<le> heap_budget s'"
proof (cases es)
  case (Cons e es')
  have cnt: "0 < unat (empty_count s)" using machine_nodesD(4) [OF ok] Cons by simp
  then have "unat (empty_count s - 1) = unat (empty_count s) - 1" by (simp add: unat_minus_one unat_eq_0 [symmetric])
  then have "refills n (unat (empty_count s - 1)) \<le> refills (Suc n) (unat (empty_count s))"
    using refills_step(1) [OF cnt] by metis
  then show ?thesis using machine_add_pool [OF ok [unfolded Cons] t len] room by fastforce
next
  case Nil
  let ?rsp = "\<lambda>m. t_rsp m t"
  have cnt: "unat (empty_count s) = 0" using machine_nodesD(4) [OF ok] Nil by simp
  have b264: "264 + 264 * refills n 9 \<le> heap_budget s" using room by (simp add: cnt refills_step)
  obtain b s1 where s1: "add_thread_to_schedule t s = add_thread_to_schedule t s1"
    "machine_nodes lo hi s1 c qs (bucket_nodes b) V" "contexts (bytes s1) (c # qs) = contexts (bytes s) (c # qs)"
    "\<And>x. x \<in> V \<Longrightarrow> x \<notin> span (t + 24) 4 \<Longrightarrow> bytes s1 x = bytes s x" "heap_budget s1 = heap_budget s - 248" "empty_count s1 = 10"
    using machine_refill [OF ok [unfolded Nil] _ t] b264 by (metis add_leD1)
  obtain s' where s': "add_thread_to_schedule t s1 = ret s'"
    "machine_nodes lo hi s' c (qs @ [b]) [b + 24, b + 48, b + 72, b + 96, b + 120, b + 144, b + 168, b + 192, b + 216] (V - span t 40)"
    "contexts (bytes s') (c # qs @ [b]) = contexts (bytes s1) (c # qs) @ [(t, t_rsp (bytes s1) t)]"
    "\<And>x. x \<in> V - span t 40 \<Longrightarrow> bytes s' x = bytes s1 x" "heap_budget s' = heap_budget s1" "empty_count s' = empty_count s1 - 1"
    using machine_add_pool [OF s1(2) t len] by blast
  have "?rsp (bytes s1) = ?rsp (bytes s)"
    unfolding t_rsp_def
  proof (intro load64_cong s1(4))
    fix x
    assume x: "x \<in> span (t + 16) 8"
    then show "x \<in> V" using t thread_span(1) by blast
    have "span (t + 16) 8 \<inter> span (t + 24) 4 = {}" using apart_span [of "t + 16" 8 "t + 24" 4] by simp
    then show "x \<notin> span (t + 24) 4" using x by blast
  qed
  moreover have "bytes s' x = bytes s x" if "x \<in> V - span t 40" for x
  proof -
    have "x \<notin> span (t + 24) 4" using that thread_span(2) by blast
    then show ?thesis using that s'(4) [OF that] s1(4) [of x] by (simp del: mem_span)
  qed
  moreover have "264 * refills n (unat (empty_count s')) \<le> heap_budget s'"
    using b264 s1(5,6) s'(5,6) by simp
  ultimately show ?thesis using s1(1,3) s'(1-3) by metis
qed

section \<open>Runs\<close>

inductive sched_step :: "event \<Rightarrow> 'a sched_state_scheme \<Rightarrow> 'a sched_state_scheme \<Rightarrow> bool" where
  tick: "pop_next_and_readd_running rsp s = ret (t, s') \<Longrightarrow> sched_step (Tick rsp) s s'"
| add: "add_thread_to_schedule t s = ret s' \<Longrightarrow> sched_step (Add t) s s'"

inductive sched_run :: "event list \<Rightarrow> 'a sched_state_scheme \<Rightarrow> 'a sched_state_scheme \<Rightarrow> bool" where
  stay: "sched_run [] s s"
| move: "sched_step ev s s1 \<Longrightarrow> sched_run evs s1 s2 \<Longrightarrow> sched_run (ev # evs) s s2"

inductive_cases sched_stepE: "sched_step ev s s'"
inductive_simps sched_step_simps: "sched_step (Tick rsp) s s'" "sched_step (Add t) s s'"
inductive_simps sched_run_simps: "sched_run [] s s'" "sched_run (ev # evs) s s'"

lemma sched_step_det: "sched_step ev s s1 \<Longrightarrow> sched_step ev s s2 \<Longrightarrow> s1 = s2"
  by (cases ev) (auto simp: sched_step_simps)

lemma sched_run_det: "sched_run evs s s1 \<Longrightarrow> sched_run evs s s2 \<Longrightarrow> s1 = s2"
proof (induction rule: sched_run.induct)
  case (move ev s s1 evs s2)
  then show ?case by (metis sched_run_simps(2) sched_step_det)
qed (simp add: sched_run_simps)

primrec added :: "event list \<Rightarrow> u64 list" where
  "added [] = []"
| "added (ev # evs) = (case ev of Tick _ \<Rightarrow> added evs | Add t \<Rightarrow> t # added evs)"

primrec ticks_in :: "event list \<Rightarrow> nat" where
  "ticks_in [] = 0"
| "ticks_in (ev # evs) = (case ev of Tick _ \<Rightarrow> Suc (ticks_in evs) | Add t \<Rightarrow> ticks_in evs)"

text \<open>The new threads are separate objects in the memory \<open>V\<close> set aside for them.\<close>

primrec threads_in :: "u64 list \<Rightarrow> u64 set \<Rightarrow> bool" where
  "threads_in [] V = True"
| "threads_in (t # ts) V \<longleftrightarrow> span t 40 \<subseteq> V \<and> threads_in ts (V - span t 40)"

lemma threads_in_V: "threads_in ts V \<Longrightarrow> t \<in> set ts \<Longrightarrow> span t 40 \<subseteq> V"
  by (induction ts arbitrary: V) auto

lemma abs_event_cong: "(\<And>t. t \<in> set (added [ev]) \<Longrightarrow> f t = g t) \<Longrightarrow> abs_event f ev xs = abs_event g ev xs"
  by (cases ev; cases xs) auto

lemma abs_events_cong:
  "(\<And>t. t \<in> set (added evs) \<Longrightarrow> f t = g t) \<Longrightarrow> fold (abs_event f) evs xs = fold (abs_event g) evs xs"
proof (induction evs arbitrary: xs)
  case (Cons ev evs)
  have "abs_event f ev xs = abs_event g ev xs" by (rule abs_event_cong, rule Cons.prems) (auto split: event.splits)
  moreover have "fold (abs_event f) evs ys = fold (abs_event g) evs ys" for ys
    by (rule Cons.IH, rule Cons.prems) (auto split: event.splits)
  ultimately show ?case by simp
qed simp

lemma machine_run:
  assumes "machine_ok lo hi s xs V" "threads_in (added evs) V" "length xs + length (added evs) < 18446744073709551616"
    "264 * refills (length (added evs)) (unat (empty_count s)) \<le> heap_budget s"
  shows "\<exists>s' V'. sched_run evs s s' \<and> machine_ok lo hi s' (fold (abs_event (t_rsp (bytes s))) evs xs) V'"
  using assms
proof (induction evs arbitrary: s xs V)
  case Nil
  then show ?case using sched_run.stay by auto
next
  case (Cons ev evs)
  obtain c qs es where ok: "machine_nodes lo hi s c qs es V" and xs: "xs = contexts (bytes s) (c # qs)"
    using Cons.prems(1) unfolding machine_ok_def by blast
  have go: ?case
    if s1: "sched_step ev s s1" "machine_ok lo hi s1 (abs_event (t_rsp (bytes s)) ev xs) W" "threads_in (added evs) W"
      "\<And>x. x \<in> W \<Longrightarrow> bytes s1 x = bytes s x" "264 * refills (length (added evs)) (unat (empty_count s1)) \<le> heap_budget s1"
      "length (abs_event (t_rsp (bytes s)) ev xs) + length (added evs) < 18446744073709551616" for s1 W
  proof -
    have "t_rsp (bytes s1) t = t_rsp (bytes s) t" if "t \<in> set (added evs)" for t
      using threads_in_V [OF s1(3) that] s1(4) by (intro thread_cong) blast
    then have "fold (abs_event (t_rsp (bytes s1))) evs ys = fold (abs_event (t_rsp (bytes s))) evs ys" for ys
      by (intro abs_events_cong) simp
    then show ?thesis using Cons.IH [OF s1(2,3,6,5)] sched_run.move [OF s1(1)] by auto
  qed
  show ?case
  proof (cases ev)
    case (Tick rsp)
    obtain t s1 c' qs' where s1: "pop_next_and_readd_running rsp s = ret (t, s1)" "machine_nodes lo hi s1 c' qs' es V"
      "contexts (bytes s1) (c' # qs') = abs_event (t_rsp (bytes s)) (Tick rsp) xs"
      "\<And>x. x \<in> V \<Longrightarrow> bytes s1 x = bytes s x" "heap_budget s1 = heap_budget s" "empty_count s1 = empty_count s"
      using machine_tick [OF ok] unfolding xs by blast
    show ?thesis
    proof (rule go)
      show "sched_step ev s s1" using s1(1) Tick by (simp add: sched_step.tick)
      show "machine_ok lo hi s1 (abs_event (t_rsp (bytes s)) ev xs) V"
        using s1(2,3) Tick unfolding machine_ok_def by metis
    qed (use Cons.prems s1 Tick xs in \<open>auto simp: contexts_def\<close>)
  next
    case (Add t)
    have t: "span t 40 \<subseteq> V" using Cons.prems(2) Add by simp
    have len: "length qs + 1 < 18446744073709551616" using Cons.prems(3) xs by (simp add: contexts_def)
    have room: "264 * refills (Suc (length (added evs))) (unat (empty_count s)) \<le> heap_budget s"
      using Cons.prems(4) Add by simp
    obtain s1 e es' where s1: "add_thread_to_schedule t s = ret s1" "machine_nodes lo hi s1 c (qs @ [e]) es' (V - span t 40)"
      "contexts (bytes s1) (c # qs @ [e]) = xs @ [(t, t_rsp (bytes s) t)]"
      "\<And>x. x \<in> V - span t 40 \<Longrightarrow> bytes s1 x = bytes s x" "264 * refills (length (added evs)) (unat (empty_count s1)) \<le> heap_budget s1"
      using machine_add [OF ok t len room] unfolding xs by blast
    show ?thesis
    proof (rule go)
      show "sched_step ev s s1" using s1(1) Add by (simp add: sched_step.add)
      show "machine_ok lo hi s1 (abs_event (t_rsp (bytes s)) ev xs) (V - span t 40)"
        using s1(2,3) Add unfolding machine_ok_def by (metis abs_event.simps(3) append_Cons)
    qed (use Cons.prems s1(4,5) Add in \<open>auto simp del: mem_span\<close>)
  qed
qed


section \<open>Properties\<close>

lemma hd_abs_events:
  "ticks_in evs < length xs \<Longrightarrow> fst (hd (fold (abs_event f) evs xs)) = fst (xs ! ticks_in evs)"
proof (induction evs arbitrary: xs)
  case Nil
  then show ?case by (cases xs) auto
next
  case (Cons ev evs)
  then obtain x xs' where "xs = x # xs'" by (cases xs) auto
  with Cons show ?case by (cases ev; cases x) (auto simp: nth_append nth_Cons')
qed

lemma machine_runs:
  assumes "machine_ok lo hi s xs V" "threads_in (added evs) V" "length xs + length (added evs) < 18446744073709551616"
    "264 * refills (length (added evs)) (unat (empty_count s)) \<le> heap_budget s"
  obtains s' V' where "\<And>r. sched_run evs s r \<longleftrightarrow> r = s'" "machine_ok lo hi s' (fold (abs_event (t_rsp (bytes s))) evs xs) V'"
  using machine_run [OF assms] sched_run_det by metis

text \<open>
  C4: in every order of timer ticks and new threads, the scheduler is a queue of threads with their contexts. From a state with
  the threads \<open>xs\<close>, the running one first, any sequence of events has exactly one run, and it ends in a well-formed state
  with the threads that the specification \<open>abs_event\<close> computes: a tick stores the interrupted stack pointer and sends the thread
  to the end, a new thread comes in last with the stack pointer it was made with. So no thread and no context is lost or doubled, also
  when the pool of nodes runs empty in between and is refilled from the heap; the heap stays well formed with the nodes in use.
\<close>

theorem scheduler_refines_queue:
  assumes "machine_ok lo hi s xs V" "threads_in (added evs) V" "length xs + length (added evs) < 18446744073709551616"
    "264 * refills (length (added evs)) (unat (empty_count s)) \<le> heap_budget s"
  shows "\<exists>s' V'. (\<forall>r. sched_run evs s r \<longleftrightarrow> r = s') \<and> machine_ok lo hi s' (fold (abs_event (t_rsp (bytes s))) evs xs) V'"
  using machine_runs [OF assms] by metis

definition three_threads_heap :: sched_state where
  "three_threads_heap = init_heap 4096 4096 three_threads"

lemma three_threads_nodes:
  "machine_nodes 4096 8192 three_threads_heap 0x100 [0x118, 0x130] [0x148] (span 0x400 80)"
proof -
  let ?s = three_threads_heap and ?O = "objects (bytes three_threads_heap) [0x100, 0x118, 0x130] [0x148]"
  have "span a n \<subseteq> {x. unat x < 1024}" if "unat a + n \<le> 1024" for a n
    using that span_no_wrap [of a n] by (auto simp del: mem_span)
  then have O: "?O \<subseteq> {x. unat x < 1024}"
    unfolding objects_def by (simp add: three_threads_heap_def init_heap_def three_threads_def l_thread_def del: mem_span)
  have V: "span 0x400 80 \<subseteq> {x. 1024 \<le> unat x \<and> unat x < 4096}"
    using span_no_wrap [of "0x400" 80] by (auto simp del: mem_span)
  have "heap_wf 4096 8192 [(4096, 4096)] ?s"
    using init_heap_wf [of 4096 4096 three_threads] by (simp add: three_threads_heap_def)
  then have "heap_inv 4096 8192 ?s (?O \<union> span 0x400 80)"
    using O V unfolding heap_inv_def by (intro exI [of _ "[(4096, 4096)]"]) (fastforce simp: free_addr_def simp del: mem_span)
  moreover have "?O \<inter> span 0x400 80 = {}" using O V by fastforce
  ultimately show ?thesis
    unfolding machine_nodes_def
    by (simp add: sched_ok_def three_threads_heap_def init_heap_def three_threads_def sep_def nodes_def l_next_def l_thread_def)
qed

lemma three_threads_machine:
  "machine_ok 4096 8192 three_threads_heap [(0x200, 0), (0x228, 0), (0x250, 0)] (span 0x400 80)"
  unfolding machine_ok_def
  using three_threads_nodes
  by (intro exI [of _ "0x100"] exI [of _ "[0x118, 0x130]"] exI [of _ "[0x148]"])
    (simp add: contexts_def three_threads_heap_def init_heap_def three_threads_def l_thread_def t_rsp_def)

lemma three_threads_fit:
  "threads_in [0x400, 0x428] (span 0x400 80)" "264 * refills 2 (unat (empty_count three_threads_heap)) \<le> heap_budget three_threads_heap"
proof -
  have "span (0x400 + 40) 40 \<subseteq> span 0x400 80" "span 0x400 40 \<subseteq> span (0x400 :: u64) 80" by (rule span_sub span_mono; simp)+
  moreover have "span 0x400 40 \<inter> span (0x428 :: u64) 40 = {}" by (rule apart_span) simp
  ultimately show "threads_in [0x400, 0x428] (span 0x400 80)" by (auto simp del: mem_span)
  show "264 * refills 2 (unat (empty_count three_threads_heap)) \<le> heap_budget three_threads_heap"
    by (simp add: refills_def heap_budget_def three_threads_heap_def init_heap_def three_threads_def)
qed

theorem scheduler_refines_queue_witness:
  "\<exists>s' V'. sched_run [Tick 10, Add 0x400, Tick 20, Add 0x428, Tick 30] three_threads_heap s' \<and>
    machine_ok 4096 8192 s' [(0x200, 10), (0x400, 0), (0x228, 20), (0x428, 0), (0x250, 30)] V'"
proof -
  have "t_rsp (bytes three_threads_heap) 0x400 = 0" "t_rsp (bytes three_threads_heap) 0x428 = 0"
    by (simp_all add: three_threads_heap_def init_heap_def three_threads_def t_rsp_def)
  then show ?thesis
    using scheduler_refines_queue [OF three_threads_machine, of "[Tick 10, Add 0x400, Tick 20, Add 0x428, Tick 30]"]
      three_threads_fit by (auto simp: numeral_2_eq_2)
qed

lemma machine_current: "machine_ok lo hi s xs V \<Longrightarrow> l_thread (bytes s) (current_running_thread s) = fst (hd xs)"
  by (auto simp: machine_ok_def machine_nodes_def sched_ok_def contexts_def)

text \<open>
  C5: no thread waits for ever. The thread with \<open>k\<close> others before it, the running one counted, runs after the \<open>k\<close>-th tick, however many
  new threads come in between.
\<close>

theorem bounded_waiting:
  assumes "machine_ok lo hi s xs V" "threads_in (added evs) V" "length xs + length (added evs) < 18446744073709551616"
    "264 * refills (length (added evs)) (unat (empty_count s)) \<le> heap_budget s" "ticks_in evs < length xs"
  shows "\<exists>s'. sched_run evs s s' \<and> l_thread (bytes s') (current_running_thread s') = fst (xs ! ticks_in evs)"
proof -
  obtain s' V' where s': "\<And>r. sched_run evs s r \<longleftrightarrow> r = s'" "machine_ok lo hi s' (fold (abs_event (t_rsp (bytes s))) evs xs) V'"
    by (rule machine_runs [OF assms(1-4)], rule that)
  then show ?thesis using machine_current [OF s'(2)] hd_abs_events [OF assms(5)] by auto
qed

theorem bounded_waiting_witness:
  "\<exists>s'. sched_run [Tick 10, Add 0x400, Add 0x428, Tick 20] three_threads_heap s' \<and>
    l_thread (bytes s') (current_running_thread s') = 0x250"
  using bounded_waiting [OF three_threads_machine, of "[Tick 10, Add 0x400, Add 0x428, Tick 20]"]
    three_threads_fit by (auto simp: numeral_2_eq_2)


section \<open>A killed thread\<close>

text \<open>The search for the last node only ends at a node without a successor.\<close>

lemma fcfs_last_stops:
  assumes "fcfs_last m p = Some y" "p \<in> S" "\<And>x. x \<in> S \<Longrightarrow> l_next m x \<in> S"
  shows "y \<in> S \<and> l_next m y = 0"
proof -
  have "p \<in> S \<longrightarrow> (\<forall>x \<in> S. l_next m x \<in> S) \<longrightarrow> y \<in> S \<and> l_next m y = 0"
  proof (rule fcfs_last.raw_induct [OF _ assms(1)])
    fix f m p y
    assume "\<And>m p y. f m p = Some y \<Longrightarrow> p \<in> S \<longrightarrow> (\<forall>x \<in> S. l_next m x \<in> S) \<longrightarrow> y \<in> S \<and> l_next m y = 0"
      "(if l_next m p \<noteq> 0 then f m (l_next m p) else Some p) = Some y"
    then show "p \<in> S \<longrightarrow> (\<forall>x \<in> S. l_next m x \<in> S) \<longrightarrow> y \<in> S \<and> l_next m y = 0"
      by (metis option.inject)
  qed
  then show ?thesis using assms(2,3) by blast
qed

lemma fcfs_last_cycle:
  assumes "p \<in> S" "\<And>x. x \<in> S \<Longrightarrow> l_next m x \<in> S" "0 \<notin> S"
  shows "fcfs_last m p = None"
proof (cases "fcfs_last m p")
  case (Some y)
  then show ?thesis using fcfs_last_stops [OF Some assms(1,2)] assms(2,3) by metis
qed

lemma queue_closed:
  "queue m p (xs @ [c]) \<Longrightarrow> p \<in> set (xs @ [c]) \<and> 0 \<notin> set (xs @ [c]) \<and> (\<forall>x \<in> set xs. l_next m x \<in> set (xs @ [c]))"
  by (induction xs arbitrary: p) auto

text \<open>Nodes are out of reach of writes to thread structures.\<close>

lemma agree_node:
  assumes "span p 24 \<inter> W = {}" "\<And>x. x \<notin> W \<Longrightarrow> m' x = m x"
  shows "l_thread m' p = l_thread m p" "l_next m' p = l_next m p"
  using assms node_cong [of p m' m] by blast+

text \<open>A kill clears the node of the running thread and leaves all others.\<close>

lemma kill_nodes:
  assumes n: "nodes (c # qs)" and c: "current_running_thread s = c" and p: "p \<in> set qs"
    and t: "span p 24 \<inter> span (l_thread (bytes s) c) 40 = {}"
  shows "l_thread (bytes (this_kill s)) p = l_thread (bytes s) p" "l_next (bytes (this_kill s)) p = l_next (bytes s) p"
proof -
  let ?t = "l_thread (bytes s) c"
  define k1 where "k1 = set_thread_state ?t dead (bytes s)"
  have k1: "k1 x = bytes s x" if "x \<notin> span ?t 40" for x
    using that thread_span(2) [of ?t] unfolding k1_def set_thread_state_def by (intro store32_outside) blast
  have p: "p \<in> set (c # qs)" "p \<noteq> c" "c \<in> set (c # qs)" using p n by (auto simp: nodes_def)
  have "span p 24 \<inter> span (c + 8) 8 = {}" using nodes_apart [OF n p(1,3,2)] node_span(2) [of c] by blast
  then have "l_thread (store64 m (c + 8) v) p = l_thread m p" "l_next (store64 m (c + 8) v) p = l_next m p" for m v
    by (intro node_cong store64_outside; blast)+
  then show "l_thread (bytes (this_kill s)) p = l_thread (bytes s) p" "l_next (bytes (this_kill s)) p = l_next (bytes s) p"
    using store_node_other [OF n p(1,3,2)] agree_node [OF t k1] by (simp_all add: this_kill_def Let_def c k1_def)
qed

lemma kill_clears: "l_thread (bytes (this_kill s)) (current_running_thread s) = 0"
  by (simp add: this_kill_def Let_def)

text \<open>
  The tick when the running node has no thread: it writes the stack pointer and the state to the structure at address 0, below
  all nodes, links the node behind the last one of the run queue and takes the first.
\<close>

lemma tick_without_thread:
  assumes n: "nodes (c # q # qs)" and f: "current_running_thread s = c" "next_running_thread s = q" "\<not> empty_scheduling s"
      "queue (bytes s) q (q # qs)" "next_count s \<noteq> 0" "scheduler_function s = standart_FCFS_scheduler" "l_thread (bytes s) c = 0"
    and W: "\<And>p. p \<in> set (c # q # qs) \<Longrightarrow> span p 24 \<inter> (span 16 12 \<union> span (l_thread (bytes s) q) 40) = {}"
    and tq: "span (l_thread (bytes s) q) 40 \<inter> span 16 12 = {}"
  shows "\<exists>m'. pop_next_and_readd_running rsp s = ret (l_thread (bytes s) q, s\<lparr>bytes := m',
      next_running_thread := (if qs = [] then c else l_next (bytes s) q), empty_scheduling := False, current_running_thread := q\<rparr>) \<and>
    l_thread m' q = l_thread (bytes s) q \<and> t_rsp m' 0 = rsp \<and>
    (\<forall>p \<in> set qs. l_next m' p = (if p = last (q # qs) then c else l_next (bytes s) p))"
proof -
  let ?m = "bytes s" and ?N = "c # q # qs" and ?tq = "l_thread (bytes s) q"
  let ?W = "span 16 12 \<union> span ?tq 40"
  obtain ps z where qz: "q # qs = ps @ [z]" by (metis list.discI rev_exhaust)
  have z: "z \<in> set (q # qs)" "last (q # qs) = z" using qz by auto
  have c: "c \<notin> set (q # qs)" "q \<notin> set qs" using n by (auto simp: nodes_def)
  have cq: "c \<in> set ?N" "q \<in> set ?N" by simp_all
  define a1 where "a1 = store64 ?m 16 rsp"
  define a2 where "a2 = set_thread_state 0 ready a1"
  have "span 16 8 \<subseteq> span (16 :: u64) 12" "span (0 + 24) 4 \<subseteq> span (16 :: u64) 12"
    using span_mono [of 8 12 16] span_sub [of 8 4 12 16] by simp_all
  note low = this
  then have "x \<notin> span 16 8" "x \<notin> span (0 + 24) 4" if "x \<notin> ?W" for x using that by blast+
  then have a1: "a1 x = ?m x" and a2: "a2 x = a1 x" if "x \<notin> ?W" for x
    using that unfolding a1_def a2_def set_thread_state_def by (blast intro: store64_outside store32_outside)+
  have a: "l_thread a2 p = l_thread ?m p" "l_next a2 p = l_next ?m p" "l_thread a1 p = l_thread ?m p" if "p \<in> set ?N" for p
    using agree_node [OF W [OF that], of a1 ?m] agree_node [OF W [OF that], of a2 a1] a1 a2 by simp_all
  define a3 where "a3 = store64 a2 (z + 16) c"
  have a3: "l_thread a3 p = l_thread ?m p" "l_next a3 p = (if p = z then c else l_next ?m p)" if "p \<in> set (q # qs)" for p
    using store_node_other [OF n, of p z] that z(1) a(1,2) [of p] by (cases "p = z"; auto simp: a3_def)+
  have "queue a2 q (ps @ [z])" using f(4) a(2) queue_cong [of "q # qs" a2 ?m q] unfolding qz [symmetric] by auto
  then have pol2: "standart_FCFS_scheduler q c a2 = Some a3"
    by (simp add: standart_FCFS_scheduler_def fcfs_last_queue a3_def)
  define a5 where "a5 = set_thread_state ?tq running (store64 a3 (q + 16) 0)"
  have a5: "a5 x = store64 a3 (q + 16) 0 x" if "x \<notin> ?W" for x
    using that thread_span(2) [of ?tq] unfolding a5_def set_thread_state_def by (intro store32_outside) blast
  have a5n: "l_next a5 p = (if p = z then c else l_next ?m p)" if "p \<in> set qs" for p
  proof -
    have p: "p \<in> set ?N" "p \<noteq> q" "p \<in> set (q # qs)" using that c(2) by auto
    show ?thesis using agree_node(2) [OF W [OF p(1)] a5] store_node_other(1) [OF n p(1) cq(2) p(2)] a3(2) [OF p(3)] by simp
  qed
  have "load64 a5 16 = load64 a1 16"
  proof (rule load64_cong)
    fix x :: u64
    assume x: "x \<in> span 16 8"
    have xw: "x \<in> span 16 12" by (rule subsetD [OF low(1) x])
    have out: "x \<notin> span (p + 16) 8" if "p \<in> set ?N" for p
    proof -
      have "x \<notin> span p 24" using W [OF that] xw by blast
      then show ?thesis using node_span [of p] by blast
    qed
    have "x \<notin> span ?tq 40" using tq xw by blast
    then have out_tq: "x \<notin> span (?tq + 24) 4" using thread_span(2) [of ?tq] by (rule contra_subsetD [rotated])
    have "z \<in> set ?N" using z(1) by simp
    note out = out [OF this] out [OF cq(2)] out_tq
    have "span 16 8 \<inter> span 24 4 = ({} :: u64 set)" by (rule span_disjoint_no_wrap) simp_all
    then have "x \<notin> span (0 + 24) 4" using x by (simp del: mem_span) blast
    with out show "a5 x = a1 x"
      by (simp add: a5_def a3_def a2_def set_thread_state_def store64_outside store32_outside del: mem_span)
  qed
  then have null: "t_rsp a5 0 = rsp" by (simp add: t_rsp_def a1_def)
  have a5q: "l_thread a5 q = ?tq" using agree_node(1) [OF W [OF cq(2)] a5] a3(1) [of q] by simp
  have "q = z \<longleftrightarrow> qs = []" using qz c(2) by (cases ps) auto
  then have "l_next a3 q = (if qs = [] then c else l_next ?m q)" using a3(2) [of q] by simp
  then have "pop_next_and_readd_running rsp s = ret (?tq, s\<lparr>bytes := a5,
      next_running_thread := (if qs = [] then c else l_next ?m q), empty_scheduling := False, current_running_thread := q\<rparr>)"
    using f(1-3,5-7) a(3) [OF cq(1)] pol2 a3(1) [of q]
    by (simp add: pop_next_and_readd_running_def call_policy_def pop_next_thread_def Let_def a1_def [symmetric] a2_def [symmetric]
        a5_def [symmetric])
  then show ?thesis using a5q a5n z(2) null by auto
qed

text \<open>The tick after a kill: the node goes to the end of the run queue, in front of the pool it is the head of.\<close>

lemma tick_after_kill:
  assumes ok: "sched_ok s c (q # qs)" and pol: "scheduler_function s = standart_FCFS_scheduler"
    and low: "\<And>p. p \<in> set (c # q # qs) \<Longrightarrow> span p 24 \<inter> span 16 12 = {}"
    and tq: "span (l_thread (bytes s) q) 40 \<inter> span 16 12 = {}"
  shows "\<exists>s1. pop_next_and_readd_running rsp (this_kill s) = ret (l_thread (bytes s) q, s1) \<and>
    current_running_thread s1 = q \<and> l_thread (bytes s1) q = l_thread (bytes s) q \<and> t_rsp (bytes s1) 0 = rsp \<and>
    next_running_thread s1 = (if qs = [] then c else l_next (bytes s) q) \<and>
    next_count s1 = next_count s \<and> \<not> empty_scheduling s1 \<and> scheduler_function s1 = standart_FCFS_scheduler \<and>
    empty_thread_data s1 = c \<and> empty_count s1 = empty_count s + 1 \<and>
    (\<forall>p \<in> set qs. l_next (bytes s1) p = (if p = last (q # qs) then c else l_next (bytes s) p))"
proof -
  let ?m = "bytes s" and ?N = "c # q # qs" and ?k = "this_kill s"
  have f: "current_running_thread s = c" "next_running_thread s = q" "sep ?m ?N" "\<not> empty_scheduling s" "queue ?m q (q # qs)"
    "next_count s \<noteq> 0"
    using ok by (auto simp: sched_ok_def)
  have n: "nodes ?N" using f(3) by (simp add: sep_def)
  have W: "span p 24 \<inter> span (l_thread ?m r) 40 = {}" if "p \<in> set ?N" "r \<in> set ?N" for p r
  proof -
    have "apart (l_thread ?m r) 40 p 24" using f(3) that unfolding sep_def by blast
    then show ?thesis using apart_span by blast
  qed
  have k: "l_thread (bytes ?k) p = l_thread ?m p" "l_next (bytes ?k) p = l_next ?m p" if "p \<in> set (q # qs)" for p
    using kill_nodes [OF n f(1) that W] that by auto
  have "queue (bytes ?k) q (q # qs)" using f(5) k(2) queue_cong [of "q # qs" "bytes ?k" ?m q] by blast
  moreover have "current_running_thread ?k = c" "next_running_thread ?k = q" "\<not> empty_scheduling ?k" "next_count ?k \<noteq> 0"
    "scheduler_function ?k = standart_FCFS_scheduler" "empty_thread_data ?k = c" "empty_count ?k = empty_count s + 1"
    "next_count ?k = next_count s"
    using f pol by (simp_all add: this_kill_def Let_def)
  moreover have "l_thread (bytes ?k) c = 0" using kill_clears [of s] f(1) by simp
  moreover have "span p 24 \<inter> (span 16 12 \<union> span (l_thread (bytes ?k) q) 40) = {}" if "p \<in> set ?N" for p
    using low [OF that] W [OF that, of q] k(1) [of q] by auto
  ultimately show ?thesis
    using tick_without_thread [OF n, of ?k rsp] k tq by auto
qed

text \<open>When the last node of the run queue is its own successor, the next tick does not end.\<close>

lemma tick_hangs:
  assumes n: "nodes (c # q # qs)" and tq: "\<And>p. p \<in> set (c # q # qs) \<Longrightarrow> apart (l_thread (bytes s) q) 40 p 24"
    and s: "current_running_thread s = q" "\<not> empty_scheduling s" "scheduler_function s = standart_FCFS_scheduler"
    and c: "l_next (bytes s) c = c" and queue: "queue m (next_running_thread s) (qs @ [c])"
    and same: "\<And>p. p \<in> set qs \<Longrightarrow> l_next (bytes s) p = l_next m p"
  shows "pop_next_and_readd_running rsp s = None"
proof -
  let ?tq = "l_thread (bytes s) q"
  define d1 where "d1 = store64 (bytes s) (?tq + 16) rsp"
  define d2 where "d2 = set_thread_state ?tq ready d1"
  have d1: "d1 x = bytes s x" and d2: "d2 x = bytes s x" if "x \<notin> span ?tq 40" for x
  proof -
    have "x \<notin> span (?tq + 16) 8" "x \<notin> span (?tq + 24) 4" using that thread_span [of ?tq] by blast+
    then show "d1 x = bytes s x" "d2 x = bytes s x"
      by (simp_all add: d1_def d2_def set_thread_state_def store64_outside store32_outside del: mem_span)
  qed
  have span: "span p 24 \<inter> span ?tq 40 = {}" if "p \<in> set (c # q # qs)" for p using apart_span [OF tq [OF that]] by blast
  note chain = queue_closed [OF queue]
  have "l_next d2 p \<in> set (qs @ [c])" if "p \<in> set (qs @ [c])" for p
  proof -
    have "p \<in> set (c # q # qs)" using that by auto
    then have "l_next d2 p = l_next (bytes s) p" by (rule agree_node(2) [OF span d2])
    then show ?thesis using that c same chain by (cases "p = c") auto
  qed
  then have "fcfs_last d2 (next_running_thread s) = None" by (intro fcfs_last_cycle [of _ "set (qs @ [c])"]) (use chain in auto)
  moreover have "l_thread d1 q = ?tq" by (rule agree_node(1) [OF span d1]) simp_all
  ultimately show ?thesis
    using s by (simp add: pop_next_and_readd_running_def call_policy_def standart_FCFS_scheduler_def Let_def d1_def [symmetric]
        d2_def [symmetric])
qed

text \<open>
  A new thread after that tick: its node is the one at the end of the run queue, which becomes its own successor.
\<close>

lemma add_killed_again:
  assumes n: "nodes (c # q # qs)" "c \<noteq> 0" and tw: "\<And>p. p \<in> set (c # q # qs) \<Longrightarrow> span p 24 \<inter> span t 40 = {}"
    and s: "empty_thread_data s = c" "empty_count s \<noteq> 0" "next_count s \<noteq> 0" "scheduler_function s = standart_FCFS_scheduler"
      "next_running_thread s = (if qs = [] then c else l_next m q)"
    and queue: "queue m q (q # qs)" "\<And>p. p \<in> set qs \<Longrightarrow> l_next (bytes s) p = (if p = last (q # qs) then c else l_next m p)"
  shows "\<exists>s2 b. add_thread_to_schedule t s = ret s2 \<and> current_running_thread s2 = current_running_thread s \<and>
    \<not> empty_scheduling s2 \<and> scheduler_function s2 = standart_FCFS_scheduler \<and> l_next (bytes s2) c = c \<and>
    l_thread (bytes s2) q = l_thread (bytes s) q \<and> queue b (next_running_thread s2) (qs @ [c]) \<and>
    (\<forall>p \<in> set qs. l_next (bytes s2) p = l_next b p)"
proof -
  define b1 where "b1 = set_thread_state t ready (bytes s)"
  define b3 where "b3 = store64 (store64 b1 c t) (c + 16) 0"
  define b4 where "b4 = store64 b3 (c + 16) c"
  have b1: "b1 x = bytes s x" if "x \<notin> span t 40" for x
    using that thread_span(2) [of t] unfolding b1_def set_thread_state_def by (intro store32_outside) blast
  have b3: "l_next b3 p = l_next (bytes s) p" "l_thread b3 p = l_thread (bytes s) p"
    and b4: "l_next b4 p = l_next b3 p" "l_thread b4 p = l_thread b3 p" if "p \<in> set (q # qs)" for p
  proof -
    have p: "p \<in> set (c # q # qs)" "p \<noteq> c" "c \<in> set (c # q # qs)" using that n by (auto simp: nodes_def)
    show "l_next b3 p = l_next (bytes s) p" "l_thread b3 p = l_thread (bytes s) p"
      "l_next b4 p = l_next b3 p" "l_thread b4 p = l_thread b3 p"
      using agree_node [OF tw [OF p(1)] b1] store_node_other [OF n(1) p(1,3,2)] by (simp_all add: b3_def b4_def)
  qed
  have run: "queue b3 (next_running_thread s) (qs @ [c])"
  proof (cases qs rule: rev_cases)
    case Nil
    then show ?thesis using s(5) n(2) by (simp add: b3_def)
  next
    case (snoc ps z)
    have "queue m (l_next m q) (ps @ [z])" using queue(1) snoc by simp
    moreover have "l_next b3 p = l_next m p" if "p \<in> set ps" for p
    proof -
      have "p \<noteq> z" using n snoc that by (auto simp: nodes_def)
      then show ?thesis using b3(1) [of p] queue(2) [of p] snoc that by simp
    qed
    moreover have "l_next b3 z = c" using b3(1) [of z] queue(2) [of z] snoc by simp
    ultimately have "queue b3 (l_next m q) (ps @ [z, c])" using n(2) by (intro queue_append_end) (simp_all add: b3_def)
    then show ?thesis using s(5) snoc by simp
  qed
  have "add_thread_to_schedule t s = ret (s\<lparr>bytes := b4, empty_thread_data := l_next (store64 b1 c t) c,
      empty_count := empty_count s - 1, next_count := next_count s + 1, empty_scheduling := False\<rparr>)"
    using fcfs_last_queue [OF run] s(1-4)
    by (simp add: add_thread_to_schedule_def Let_def call_policy_def standart_FCFS_scheduler_def b1_def [symmetric]
        b3_def [symmetric] b4_def [symmetric])
  then show ?thesis
    using s(4) run b3(2) b4 by (intro exI conjI) (assumption | simp add: b4_def | auto)+
qed

text \<open>
  C37: a killed thread hangs the scheduler. \<open>this_kill\<close> clears the node of the running thread and puts it into the pool, but the thread
  keeps running. The next tick finds no thread in the node: it saves the stack pointer through a null pointer, at address 16 (and the
  state at 24), and queues the node. The memory of the model accepts these writes, which on the machine needs a mapped and writable page 0;
  where there is none, the tick faults at this point. When they succeed, the next new thread takes the node from the pool and is linked
  behind the last node of the run queue, which is the same node: it is its own successor now, and the search of the tick after that never ends.
  The nodes, the threads and the pool are assumed not to lie at the addresses 16 to 27.
\<close>

theorem kill_hangs_scheduler:
  assumes ok: "machine_nodes lo hi s c (q # qs) es V" and t: "span t 40 \<subseteq> V" and room: "empty_count s \<noteq> - 1"
    and low: "objects (bytes s) (c # q # qs) es \<inter> span 16 12 = {}"
  shows "l_thread (bytes (this_kill s)) c = 0 \<and> current_running_thread (this_kill s) = c \<and>
    (\<exists>s1 s2. pop_next_and_readd_running rsp (this_kill s) = ret (l_thread (bytes s) q, s1) \<and> t_rsp (bytes s1) 0 = rsp \<and>
      add_thread_to_schedule t s1 = ret s2 \<and> l_next (bytes s2) c = c \<and> pop_next_and_readd_running rsp' s2 = None)"
proof -
  let ?m = "bytes s" and ?N = "c # q # qs" and ?tq = "l_thread (bytes s) q"
  note m = machine_nodesD [OF ok]
  have n: "nodes ?N" "c \<noteq> 0" using m(1,9) by (auto simp: sep_def nodes_def sched_ok_def)
  have c: "current_running_thread s = c" using m(1) by (simp add: sched_ok_def)
  have low': "span p 24 \<inter> span 16 12 = {}" if "p \<in> set ?N" for p using low that unfolding objects_def by auto
  have tq: "span ?tq 40 \<inter> span 16 12 = {}" using low unfolding objects_def by auto
  have tw: "span p 24 \<inter> span t 40 = {}" if "p \<in> set ?N" for p using objects_disjoint(1) [OF m(7) t, of p] that by auto
  have cnt: "next_count s \<noteq> 0" "empty_count s + 1 \<noteq> 0" "queue ?m q (q # qs)"
    using m(1) room by (auto simp: sched_ok_def eq_neg_iff_add_eq_0)
  from tick_after_kill [OF m(1,2) low' tq, of rsp] obtain s1 where
    s1: "pop_next_and_readd_running rsp (this_kill s) = ret (?tq, s1)" "current_running_thread s1 = q"
    "l_thread (bytes s1) q = ?tq" "next_running_thread s1 = (if qs = [] then c else l_next ?m q)" "next_count s1 = next_count s"
    "scheduler_function s1 = standart_FCFS_scheduler" "empty_thread_data s1 = c" "empty_count s1 = empty_count s + 1"
    "\<And>p. p \<in> set qs \<Longrightarrow> l_next (bytes s1) p = (if p = last (q # qs) then c else l_next ?m p)" "t_rsp (bytes s1) 0 = rsp"
    by blast
  obtain s2 b where s2: "add_thread_to_schedule t s1 = ret s2" "current_running_thread s2 = q" "\<not> empty_scheduling s2"
    "scheduler_function s2 = standart_FCFS_scheduler" "l_next (bytes s2) c = c" "l_thread (bytes s2) q = ?tq"
    "queue b (next_running_thread s2) (qs @ [c])" "\<And>p. p \<in> set qs \<Longrightarrow> l_next (bytes s2) p = l_next b p"
    using add_killed_again [OF n tw s1(7) _ _ s1(6,4) cnt(3) s1(9)] s1(2,3,5,8) cnt(1,2) by auto
  have "apart (l_thread (bytes s2) q) 40 p 24" if "p \<in> set ?N" for p
  proof -
    have "q \<in> set ?N" by simp
    then have "apart ?tq 40 p 24" using m(9) that unfolding sep_def by blast
    then show ?thesis by (simp add: s2(6))
  qed
  then have "pop_next_and_readd_running rsp' s2 = None"
    by (rule tick_hangs [OF n(1) _ s2(2-5,7,8)])
  moreover have "l_thread (bytes (this_kill s)) c = 0" "current_running_thread (this_kill s) = c"
    using kill_clears [of s] c by (simp_all add: this_kill_def Let_def)
  ultimately show ?thesis using s1(1,10) s2(1,5) by blast
qed

theorem kill_hangs_scheduler_witness:
  "\<exists>s1 s2. pop_next_and_readd_running 1 (this_kill three_threads_heap) = ret (0x228, s1) \<and> t_rsp (bytes s1) 0 = 1 \<and>
    add_thread_to_schedule 0x400 s1 = ret s2 \<and> l_next (bytes s2) 0x100 = 0x100 \<and> pop_next_and_readd_running 2 s2 = None"
proof -
  let ?O = "objects (bytes three_threads_heap) [0x100, 0x118, 0x130] [0x148]"
  have "span a n \<subseteq> {x. 256 \<le> unat x}" if "256 \<le> unat a" "unat a + n \<le> 1024" for a n
    using that span_no_wrap [of a n] by (auto simp del: mem_span)
  then have "?O \<subseteq> {x. 256 \<le> unat x}"
    unfolding objects_def by (simp add: three_threads_heap_def init_heap_def three_threads_def l_thread_def del: mem_span)
  moreover have "span 16 12 \<subseteq> {x. unat x < 256}" using span_no_wrap [of 16 12] by (auto simp del: mem_span)
  ultimately have "?O \<inter> span 16 12 = {}" by fastforce
  then show ?thesis
    using kill_hangs_scheduler [OF three_threads_nodes, of "0x400" 1 2] three_threads_fit(1)
    by (auto simp: three_threads_heap_def init_heap_def three_threads_def l_thread_def)
qed

end
