(* ===== verification/Kernel_Run.thy ===== *)
theory Kernel_Run
  imports Kernel_Main Thread_Machine
begin

text \<open>
  Threads that give up the processor by system calls: the handler of \<open>syscall.c\<close>, with the console it prints on and the
  scheduler it asks, is shown to implement the queue of \<open>Thread_Machine\<close> in the state of the whole kernel.
\<close>

section \<open>Printing beside the scheduler\<close>

lemma show_text_pool [simp]:
  "empty_thread_data (show_text cs k) = empty_thread_data k" "empty_count (show_text cs k) = empty_count k"
  "free_mem_next (show_text cs k) = free_mem_next k"
  by (simp_all add: show_text_def with_screen_def share_def)

lemma show_text_buf [simp]: "buf (k_screen (show_text cs k)) = buf (k_screen k)"
  by (simp add: show_text_def)

text \<open>The frame buffer is memory in use that the scheduler does not touch, and the console touches nothing else.\<close>

lemma show_text_machine:
  assumes ok: "machine_nodes lo hi k c qs es V" and wf: "tty_wf (k_screen k)" and fr: "frame (k_screen k) \<subseteq> V"
  shows "machine_nodes lo hi (show_text cs k) c qs es V" "contexts (bytes (show_text cs k)) (c # qs) = contexts (bytes k) (c # qs)"
proof -
  let ?m = "bytes (show_text cs k)" and ?O = "objects (bytes k) (c # qs) es"
  note m = machine_nodesD [OF ok]
  have out: "?m x = bytes k x" if "x \<notin> V" for x using show_text_screen(3) [OF wf] that fr by blast
  have same: "?m x = bytes k x" if "x \<in> ?O" for x using that m(7) by (intro out) blast
  note fr' = machine_frame [OF ok same]
  have far: "(span p 24 \<union> span (l_thread (bytes k) p) 40) \<inter> frame (k_screen k) = {}" if "p \<in> set (c # qs)" for p
    using m(7) fr that unfolding objects_def by auto
  have obj: "objects ?m (c # qs) es = ?O" by (rule objects_cong [OF refl fr'(2)])
  have "heap_inv lo hi (show_text cs k) (?O \<union> V)"
    by (rule heap_inv_cong(1) [OF m(8)]) (use out in \<open>auto simp del: mem_span\<close>)
  then show "machine_nodes lo hi (show_text cs k) c qs es V"
    using show_text_sched_ok(1) [OF m(1) wf far] m(2,4-7) fr'(2,4) unfolding machine_nodes_def obj by simp
  show "contexts ?m (c # qs) = contexts (bytes k) (c # qs)" by (rule fr'(3))
qed

section \<open>A system call\<close>

abbreviation syscall_text :: "u8 list" where
  "syscall_text \<equiv> [83, 121, 115, 99, 97, 108, 108, 10]"

text \<open>A kernel with the threads \<open>xs\<close>, whose console and message literal lie in \<open>V\<close>.\<close>

definition system_ok ::
  "nat \<Rightarrow> nat \<Rightarrow> kernel_image \<Rightarrow> kernel_state \<Rightarrow> (u64 \<times> u64) list \<Rightarrow> u64 set \<Rightarrow> bool" where
  "system_ok lo hi im k xs V \<longleftrightarrow>
     machine_ok lo hi k xs V \<and> tty_wf (k_screen k) \<and> buf (k_screen k) = replicate 32 0 \<and> frame (k_screen k) \<subseteq> V \<and>
     cstr (bytes k) (syscall_format im) syscall_text \<and>
     (\<forall>i \<le> 8. syscall_format im + of_nat i \<in> V - frame (k_screen k))"

lemma machine_ok_tick:
  assumes "machine_ok lo hi s xs V"
  obtains t s' where "pop_next_and_readd_running rsp s = ret (t, s')"
    "machine_ok lo hi s' (abs_event f (Tick rsp) xs) V" "\<And>x. x \<in> V \<Longrightarrow> bytes s' x = bytes s x"
    "t_rsp (bytes s') t = snd (hd (abs_event f (Tick rsp) xs))"
proof -
  obtain c qs es where ok: "machine_nodes lo hi s c qs es V" and xs: "xs = contexts (bytes s) (c # qs)"
    using assms unfolding machine_ok_def by blast
  obtain t s' c' qs' where s': "pop_next_and_readd_running rsp s = ret (t, s')" "machine_nodes lo hi s' c' qs' es V"
    "contexts (bytes s') (c' # qs') = abs_event f (Tick rsp) xs" "\<And>x. x \<in> V \<Longrightarrow> bytes s' x = bytes s x"
    "t = l_thread (bytes s') c'"
    using machine_tick [OF ok, of rsp f] unfolding xs by blast
  have "machine_ok lo hi s' (abs_event f (Tick rsp) xs) V" using s'(2,3) unfolding machine_ok_def by metis
  moreover have "t_rsp (bytes s') t = snd (hd (abs_event f (Tick rsp) xs))"
    unfolding s'(3) [symmetric] by (simp add: s'(5) contexts_def)
  ultimately show thesis using that s'(1,4) by blast
qed

lemma system_call:
  assumes ok: "system_ok lo hi im k xs V"
  shows "\<exists>k'. syscall_handler im rsp k = ret (snd (hd (abs_event f (Tick rsp) xs)), k') \<and>
    system_ok lo hi im k' (abs_event f (Tick rsp) xs) V \<and>
    k_screen k' = fold terminal_emit syscall_text (share k (k_screen k))"
proof -
  let ?k = "show_text syscall_text k" and ?xs = "abs_event f (Tick rsp) xs"
  have k: "machine_ok lo hi k xs V" "tty_wf (k_screen k)" "buf (k_screen k) = replicate 32 0" "frame (k_screen k) \<subseteq> V"
    "cstr (bytes k) (syscall_format im) syscall_text" "\<And>i. i \<le> 8 \<Longrightarrow> syscall_format im + of_nat i \<in> V - frame (k_screen k)"
    using ok by (auto simp: system_ok_def simp del: mem_span)
  have "render (stack_junk im) (\<lambda>_. []) 0 syscall_text = syscall_text" by simp
  moreover have "\<exists>n. on_screen (printf (syscall_format im) (stack_junk im)) k =
      ret (n, show_text (render (stack_junk im) (\<lambda>_. []) 0 syscall_text) k)"
    using k(2,3,5,6)
    by (intro exI) (rule on_screen_printf [where f = syscall_text and strs = "\<lambda>_. []"], simp_all del: mem_span)
  ultimately obtain n where shown: "on_screen (printf (syscall_format im) (stack_junk im)) k = ret (n, ?k)" by metis
  have ok1: "machine_ok lo hi ?k xs V"
    using k(1) show_text_machine [OF _ k(2,4)] unfolding machine_ok_def by metis
  obtain t k' where k': "pop_next_and_readd_running rsp ?k = ret (t, k')" "machine_ok lo hi k' ?xs V"
    "\<And>x. x \<in> V \<Longrightarrow> bytes k' x = bytes ?k x" "t_rsp (bytes k') t = snd (hd ?xs)"
    by (rule machine_ok_tick [OF ok1, where rsp = rsp and f = f], rule that)
  have scr: "k_screen k' = k_screen ?k" by (rule syscall_screen [OF k'(1)])
  have frame: "frame (k_screen ?k) = frame (k_screen k)" by (rule show_text_screen(2) [OF k(2)])
  have "bytes k' (syscall_format im + of_nat i) = bytes k (syscall_format im + of_nat i)" if "i \<le> 8" for i
    using k(6) [OF that] k'(3) show_text_screen(3) [OF k(2)] by auto
  then have "cstr (bytes k') (syscall_format im) syscall_text"
    using k(5) cstr_agree [of syscall_text "bytes k'" "syscall_format im" "bytes k"] by simp
  then have "system_ok lo hi im k' ?xs V"
    using k' show_text_screen(1) [OF k(2)] k(3,4,6) unfolding system_ok_def scr frame by (simp del: mem_span)
  then show ?thesis
    using shown k'(1,4) scr by (intro exI [of _ k']) (simp add: syscall_handler_def show_text_def)
qed

section \<open>Sequences of system calls\<close>

text \<open>The code: each running thread calls with its stack pointer, the results are the stack pointers to go on with.\<close>

fun syscalls :: "kernel_image \<Rightarrow> u64 list \<Rightarrow> kernel_state \<Rightarrow> (u64 list \<times> kernel_state) run" where
  "syscalls im [] k = ret ([], k)"
| "syscalls im (rsp # rsps) k =
     run_bind (syscall_handler im rsp k) (\<lambda>(r, k1). run_bind (syscalls im rsps k1) (\<lambda>(rs, k2). ret (r # rs, k2)))"

text \<open>The specification: a turn of the queue, and what its new head was saved with.\<close>

fun turns :: "u64 list \<Rightarrow> (u64 \<times> u64) list \<Rightarrow> u64 list \<times> (u64 \<times> u64) list" where
  "turns [] xs = ([], xs)"
| "turns (rsp # rsps) xs =
     (let xs1 = abs_event (\<lambda>_. 0) (Tick rsp) xs; (rs, ys) = turns rsps xs1 in (snd (hd xs1) # rs, ys))"

lemma syscalls_turns:
  "system_ok lo hi im k xs V \<Longrightarrow> \<exists>k'. syscalls im rsps k = ret (fst (turns rsps xs), k') \<and> system_ok lo hi im k' (snd (turns rsps xs)) V"
proof (induction rsps arbitrary: k xs)
  case (Cons rsp rsps)
  let ?xs = "abs_event (\<lambda>_. 0) (Tick rsp) xs"
  obtain k1 where k1: "syscall_handler im rsp k = ret (snd (hd ?xs), k1)" "system_ok lo hi im k1 ?xs V"
    using system_call [OF Cons.prems] by blast
  then show ?case using Cons.IH [OF k1(2)] by (auto simp: split_beta Let_def)
qed simp

section \<open>Properties\<close>

text \<open>
  C6: system calls take turns. In a kernel whose scheduler, heap and console are well formed, with the threads \<open>xs\<close> and their
  saved stack pointers, the running one first, any sequence of system calls returns, and its results are those of the queue: each call saves the
  caller's stack pointer, sends the caller to the end and returns the stack pointer the next thread was saved with. The console stays
  inside the frame buffer, the message and the kernel stay well formed.
\<close>

theorem system_calls_take_turns:
  assumes "system_ok lo hi im k xs V"
  shows "\<exists>k'. syscalls im rsps k = ret (fst (turns rsps xs), k') \<and> system_ok lo hi im k' (snd (turns rsps xs)) V"
  using syscalls_turns [OF assms] .

text \<open>Three threads, a screen, the message and a heap of 4096 bytes at \<open>0x40000\<close>; the other components are arbitrary.\<close>

definition demo_system :: "page_state \<Rightarrow> acpi_state \<Rightarrow> cpu_state \<Rightarrow> kernel_state" where
  "demo_system p a c = init_heap 0x40000 4096 (demo_kernel p a c)"

abbreviation demo_used :: "u64 set" where
  "demo_used \<equiv> span 0x1000 4096 \<union> span 0x20000 9"

lemma demo_system_bytes:
  "unat x < 4096 \<Longrightarrow> load64 (bytes (demo_system p a c)) x = load64 (bytes three_threads) x"
  "unat x < 0x40000 \<Longrightarrow> bytes (demo_system p a c) x = demo_bytes x"
proof -
  have out: "bytes (demo_system p a c) x = demo_bytes x" if "unat x < 0x40000" for x
  proof -
    have "x \<notin> span 0x40000 8" "x \<notin> span 0x40008 8" using that by (simp_all add: span_no_wrap del: mem_span)
    then show ?thesis by (simp add: demo_system_def init_heap_def demo_kernel_def store64_outside del: mem_span)
  qed
  then show "unat x < 0x40000 \<Longrightarrow> bytes (demo_system p a c) x = demo_bytes x" .
  assume x: "unat x < 4096"
  then have "bytes (demo_system p a c) y = demo_bytes y" if "y \<in> span x 8" for y
    using that by (intro out) (simp add: span_no_wrap del: mem_span)
  then have "load64 (bytes (demo_system p a c)) x = load64 demo_bytes x" by (rule load64_cong)
  then show "load64 (bytes (demo_system p a c)) x = load64 (bytes three_threads) x" using demo_load64 [OF x] by simp
qed

lemma demo_system_fields [simp]:
  "k_screen (demo_system p a c) = k_screen (demo_kernel p a c)" "current_running_thread (demo_system p a c) = 0x100"
  "next_running_thread (demo_system p a c) = 0x118" "next_count (demo_system p a c) = 2" "\<not> empty_scheduling (demo_system p a c)"
  "scheduler_function (demo_system p a c) = standart_FCFS_scheduler" "empty_thread_data (demo_system p a c) = 0x148"
  "empty_count (demo_system p a c) = 1"
  by (simp_all add: demo_system_def init_heap_def demo_kernel_def)

lemma demo_system_threads:
  "l_thread (bytes (demo_system p a c)) 0x100 = 0x200" "l_thread (bytes (demo_system p a c)) 0x118 = 0x228"
  "l_thread (bytes (demo_system p a c)) 0x130 = 0x250"
  by (simp_all add: l_thread_def demo_system_bytes(1)) (simp_all add: three_threads_def)

lemma demo_system_nodes: "machine_nodes 0x40000 0x41000 (demo_system p a c) 0x100 [0x118, 0x130] [0x148] demo_used"
proof -
  let ?s = "demo_system p a c" and ?O = "objects (bytes (demo_system p a c)) [0x100, 0x118, 0x130] [0x148]"
  have low: "span a n \<subseteq> {x. unat x < 1024}" if "unat a + n \<le> 1024" for a n
    using that span_no_wrap [of a n] by (auto simp del: mem_span)
  have O: "?O \<subseteq> {x. unat x < 1024}"
    unfolding objects_def by (simp add: demo_system_threads low del: mem_span)
  have V: "demo_used \<subseteq> {x. 1024 \<le> unat x \<and> unat x < 0x40000}"
    using span_no_wrap [of "0x1000" 4096] span_no_wrap [of "0x20000" 9] by (auto simp del: mem_span)
  have "heap_wf 0x40000 0x41000 [(0x40000, 4096)] ?s"
    using init_heap_wf [of "0x40000" 4096 "demo_kernel p a c"] by (simp add: demo_system_def)
  then have "heap_inv 0x40000 0x41000 ?s (?O \<union> demo_used)"
    using O V unfolding heap_inv_def by (intro exI [of _ "[(0x40000, 4096)]"]) (fastforce simp: free_addr_def simp del: mem_span)
  moreover have "?O \<inter> demo_used = {}" using O V by fastforce
  ultimately show ?thesis
    unfolding machine_nodes_def
    by (simp add: sched_ok_def sep_def nodes_def l_next_def demo_system_threads demo_system_bytes(1) del: mem_span)
      (simp add: three_threads_def)
qed

lemma demo_system_ok: "system_ok 0x40000 0x41000 demo_image (demo_system p a c) [(0x200, 0), (0x228, 0), (0x250, 0)] demo_used"
proof -
  let ?s = "demo_system p a c"
  have "contexts (bytes ?s) [0x100, 0x118, 0x130] = [(0x200, 0), (0x228, 0), (0x250, 0)]"
    by (simp add: contexts_def demo_system_threads t_rsp_def demo_system_bytes(1)) (simp add: three_threads_def)
  then have ok: "machine_ok 0x40000 0x41000 ?s [(0x200, 0), (0x228, 0), (0x250, 0)] demo_used"
    unfolding machine_ok_def using demo_system_nodes [of p a c] by metis
  have fmt: "cstr (bytes ?s) (syscall_format demo_image) syscall_text"
    by (simp add: demo_system_bytes(2) demo_image_def demo_bytes_def load8_def)
  have "syscall_format demo_image + of_nat i \<in> demo_used - span 0x1000 4096" if "i \<le> 8" for i
  proof -
    have "i \<in> {0, 1, 2, 3, 4, 5, 6, 7, 8}" using that by auto
    then show ?thesis by (auto simp: demo_image_def)
  qed
  then have lit: "\<forall>i \<le> 8. syscall_format demo_image + of_nat i \<in> demo_used - span 0x1000 4096" by blast
  from ok fmt lit show ?thesis
    unfolding system_ok_def demo_system_fields(1) demo_screen(2,3) by (intro conjI refl Un_upper1 demo_screen(1))
qed

theorem system_calls_take_turns_witness:
  "\<forall>p a c. \<exists>k'. syscalls demo_image [0x7000, 0x7100, 0x7200, 0x7300] (demo_system p a c) = ret ([0, 0, 0x7000, 0x7100], k')"
proof (intro allI)
  fix p a c
  show "\<exists>k'. syscalls demo_image [0x7000, 0x7100, 0x7200, 0x7300] (demo_system p a c) = ret ([0, 0, 0x7000, 0x7100], k')"
    using system_calls_take_turns [OF demo_system_ok [of p a c], of "[0x7000, 0x7100, 0x7200, 0x7300]"]
    by (auto simp: Let_def simp del: syscalls.simps)
qed

end
