(* ===== verification/Flag_Bits.thy ===== *)
theory Flag_Bits
  imports Page_Manager
begin

text \<open>
  The bits of page entries (\<open>libc/include/memory.h\<close>) and of the processor's feature words
  (\<open>kernel/include/kernel/MSR.h\<close>): each flag with its position, no two flags of a word on one bit, and what the macros give where the
  code combines them.
\<close>

section \<open>Page entries\<close>

text \<open>\<open>PAGE_SIZE\<close> counts in the upper tables and \<open>PAT\<close> in the lowest one, so they share a bit.\<close>

datatype paging_flag =
  PRESENT | WRITE | ALL_ACCESS | WRITE_THROUGH | CACHE_DISABLED | ACCESSED | DIRTY | PAGE_SIZE | PAT | GLOBAL | NOT_EXECUTABLE

fun paging_bit :: "paging_flag \<Rightarrow> nat" where
  "paging_bit PRESENT = 0"
| "paging_bit WRITE = 1"
| "paging_bit ALL_ACCESS = 2"
| "paging_bit WRITE_THROUGH = 3"
| "paging_bit CACHE_DISABLED = 4"
| "paging_bit ACCESSED = 5"
| "paging_bit DIRTY = 6"
| "paging_bit PAGE_SIZE = 7"
| "paging_bit PAT = 7"
| "paging_bit GLOBAL = 8"
| "paging_bit NOT_EXECUTABLE = 63"

definition paging_word :: "paging_flag list \<Rightarrow> u64" where
  "paging_word fs = fold (\<lambda>f w. w OR push_bit (paging_bit f) 1) fs 0"

definition DEFAULT_KERNEL_PAGE_FLAGS :: u64 where "DEFAULT_KERNEL_PAGE_FLAGS = paging_word [WRITE, PRESENT]"
definition DEFAULT_USER_PAGE_FLAGS :: u64 where "DEFAULT_USER_PAGE_FLAGS = paging_word [ALL_ACCESS, WRITE, PRESENT]"

text \<open>The flags of an entry.\<close>

lemma bit_paging_word: "bit (paging_word fs) n \<longleftrightarrow> n < 64 \<and> n \<in> paging_bit ` set fs"
proof -
  have "bit (fold (\<lambda>f w. w OR push_bit (paging_bit f) 1) fs w) n \<longleftrightarrow> bit w n \<or> n < 64 \<and> n \<in> paging_bit ` set fs" for w :: u64
    by (induction fs arbitrary: w) (auto simp: bit_simps)
  then show ?thesis by (simp add: paging_word_def)
qed

lemma paging_bit_eq:
  "paging_bit f = paging_bit g \<longleftrightarrow> f = g \<or> {f, g} = {PAGE_SIZE, PAT}"
  by (cases f; cases g) auto

lemma entry_bits_not_address: "f \<noteq> NOT_EXECUTABLE \<Longrightarrow> paging_word [f] AND FRAME_MASK = 0"
  by (cases f) (simp_all add: paging_word_def FRAME_MASK_def)

text \<open>
  What the code writes into page entries: device pages are written through and not cached; the kernel's directories get the
  kernel's flags. A process that is not superviser gets \<open>WRITE_THROUGH\<close> for its directories instead of \<open>ALL_ACCESS\<close>: the macros
  have no parentheses, and \<open>+\<close> binds before \<open><<\<close>.
\<close>

lemma device_flags: "MEMORY_MAPPED_IO_FLAGS = paging_word [PRESENT, WRITE, WRITE_THROUGH, CACHE_DISABLED]"
  by (simp add: paging_word_def MEMORY_MAPPED_IO_FLAGS_def)

lemma user_directory_flags:
  "ucast (directory_flags True) = DEFAULT_KERNEL_PAGE_FLAGS"
  "ucast (directory_flags False) = paging_word [PRESENT, WRITE, WRITE_THROUGH]"
  "ucast (directory_flags False) \<noteq> DEFAULT_USER_PAGE_FLAGS"
  by (simp_all add: directory_flags_def DEFAULT_KERNEL_PAGE_FLAGS_def DEFAULT_USER_PAGE_FLAGS_def paging_word_def)

section \<open>Features of the processor\<close>

text \<open>The two words that \<open>cpuid\<close> reports, the bits that \<open>1 << n\<close> sets.\<close>

datatype cpuid_ecx =
  ECX_SSE3 | ECX_PCLMUL | ECX_DTES64 | ECX_MONITOR | ECX_DS_CPL | ECX_VMX | ECX_SMX | ECX_EST | ECX_TM2
    | ECX_SSSE3 | ECX_CID | ECX_SDBG | ECX_FMA | ECX_CX16 | ECX_XTPR | ECX_PDCM | ECX_PCID | ECX_DCA | ECX_SSE4_1
    | ECX_SSE4_2 | ECX_X2APIC | ECX_MOVBE | ECX_POPCNT | ECX_TSC | ECX_AES | ECX_XSAVE | ECX_OSXSAVE | ECX_AVX
    | ECX_F16C | ECX_RDRAND | ECX_HYPERVISOR

fun ecx_bit :: "cpuid_ecx \<Rightarrow> nat" where
  "ecx_bit ECX_SSE3 = 0"
| "ecx_bit ECX_PCLMUL = 1"
| "ecx_bit ECX_DTES64 = 2"
| "ecx_bit ECX_MONITOR = 3"
| "ecx_bit ECX_DS_CPL = 4"
| "ecx_bit ECX_VMX = 5"
| "ecx_bit ECX_SMX = 6"
| "ecx_bit ECX_EST = 7"
| "ecx_bit ECX_TM2 = 8"
| "ecx_bit ECX_SSSE3 = 9"
| "ecx_bit ECX_CID = 10"
| "ecx_bit ECX_SDBG = 11"
| "ecx_bit ECX_FMA = 12"
| "ecx_bit ECX_CX16 = 13"
| "ecx_bit ECX_XTPR = 14"
| "ecx_bit ECX_PDCM = 15"
| "ecx_bit ECX_PCID = 17"
| "ecx_bit ECX_DCA = 18"
| "ecx_bit ECX_SSE4_1 = 19"
| "ecx_bit ECX_SSE4_2 = 20"
| "ecx_bit ECX_X2APIC = 21"
| "ecx_bit ECX_MOVBE = 22"
| "ecx_bit ECX_POPCNT = 23"
| "ecx_bit ECX_TSC = 24"
| "ecx_bit ECX_AES = 25"
| "ecx_bit ECX_XSAVE = 26"
| "ecx_bit ECX_OSXSAVE = 27"
| "ecx_bit ECX_AVX = 28"
| "ecx_bit ECX_F16C = 29"
| "ecx_bit ECX_RDRAND = 30"
| "ecx_bit ECX_HYPERVISOR = 31"

datatype cpuid_edx =
  EDX_FPU | EDX_VME | EDX_DE | EDX_PSE | EDX_TSC | EDX_MSR | EDX_PAE | EDX_MCE | EDX_CX8 | EDX_APIC | EDX_SEP
    | EDX_MTRR | EDX_PGE | EDX_MCA | EDX_CMOV | EDX_PAT | EDX_PSE36 | EDX_PSN | EDX_CLFLUSH | EDX_DS | EDX_ACPI
    | EDX_MMX | EDX_FXSR | EDX_SSE | EDX_SSE2 | EDX_SS | EDX_HTT | EDX_TM | EDX_IA64 | EDX_PBE

fun edx_bit :: "cpuid_edx \<Rightarrow> nat" where
  "edx_bit EDX_FPU = 0"
| "edx_bit EDX_VME = 1"
| "edx_bit EDX_DE = 2"
| "edx_bit EDX_PSE = 3"
| "edx_bit EDX_TSC = 4"
| "edx_bit EDX_MSR = 5"
| "edx_bit EDX_PAE = 6"
| "edx_bit EDX_MCE = 7"
| "edx_bit EDX_CX8 = 8"
| "edx_bit EDX_APIC = 9"
| "edx_bit EDX_SEP = 11"
| "edx_bit EDX_MTRR = 12"
| "edx_bit EDX_PGE = 13"
| "edx_bit EDX_MCA = 14"
| "edx_bit EDX_CMOV = 15"
| "edx_bit EDX_PAT = 16"
| "edx_bit EDX_PSE36 = 17"
| "edx_bit EDX_PSN = 18"
| "edx_bit EDX_CLFLUSH = 19"
| "edx_bit EDX_DS = 21"
| "edx_bit EDX_ACPI = 22"
| "edx_bit EDX_MMX = 23"
| "edx_bit EDX_FXSR = 24"
| "edx_bit EDX_SSE = 25"
| "edx_bit EDX_SSE2 = 26"
| "edx_bit EDX_SS = 27"
| "edx_bit EDX_HTT = 28"
| "edx_bit EDX_TM = 29"
| "edx_bit EDX_IA64 = 30"
| "edx_bit EDX_PBE = 31"

text \<open>\<open>cpuid\<close> puts EAX above EDX: a feature of the second word is asked for in the low half.\<close>

definition cpuid_word :: "u32 \<Rightarrow> u32 \<Rightarrow> u64" where
  "cpuid_word a d = push_bit 32 (ucast a) OR ucast d"

definition has_edx :: "cpuid_edx \<Rightarrow> u64 \<Rightarrow> bool" where
  "has_edx f w \<longleftrightarrow> bit w (edx_bit f)"

lemma ecx_bit_inj: "ecx_bit f = ecx_bit g \<longleftrightarrow> f = g"
  by (cases f; cases g) simp_all

lemma edx_bit_inj: "edx_bit f = edx_bit g \<longleftrightarrow> f = g"
  by (cases f; cases g) simp_all

lemma feature_bits_fit: "ecx_bit f < 32" "edx_bit g < 32"
  by (cases f; simp) (cases g; simp)

lemma has_edx_word: "has_edx f (cpuid_word a d) \<longleftrightarrow> bit d (edx_bit f)"
  using feature_bits_fit(2) [of f] by (auto simp: has_edx_def cpuid_word_def bit_simps)

end
