(* ===== verification/Spec2Isabelle.thy ===== *)
theory Spec2Isabelle
  imports Heap_Machine Boot_Map Pci_Records Free_Regions Accessors Kernel_Run Flag_Bits
begin

text \<open>
  IgelKernel: a verification library for the kernel under \<open>src/kernel\<close> and its C library under \<open>src/libc\<close>.

  \<^bold>\<open>The program.\<close> A boot loader enters \<open>kmain\<close> (\<open>kernel/src/kernel/kernel.c\<close>), which brings up a text console in the frame
  buffer, a heap, the page manager, the descriptor tables, the interrupt controllers, the keyboard and a scheduler with two threads, and
  then gives up the processor. Everything else happens in interrupt handlers: timer ticks and system calls change the thread, key
  presses edit a command line. The parts share one memory: the heap gives the page manager, the translator, the scheduler and the timer
  their objects, the translator tells the page manager which addresses are mapped, the scheduler calls a policy through a pointer and the
  timer wakes its sleeping threads.

  \<^bold>\<open>The model.\<close> Memory is a byte for every 64-bit address (\<open>Byte_Memory\<close>). Pointers are \<open>64 word\<close> values, structures are read and
  written field by field, in the order and the width of the code; integers wrap as in C. The statics of a file are a record that
  extends the state of the files it calls; every routine takes and returns that state. A routine that may not return has the type
  \<open>'a run\<close> of \<open>Kernel_Prelude\<close>: \<open>None\<close> is a loop without end, \<open>Some (Inl h)\<close> a machine stopped by \<open>abort\<close>, \<open>hcf\<close> or a
  division by zero, \<open>Some (Inr v)\<close> a return. Loops over a counter are recursions over it; loops that may not end are
  \<open>partial_function (option)\<close>, so there is no fuel anywhere, and the theorems say that the loops they are about do return.

  \<^bold>\<open>Theories and sources.\<close>
  \<^item> \<open>Kernel_Prelude\<close>, \<open>Byte_Memory\<close>: machine integers, outcomes, loads and stores, spans of addresses and when they are apart.
  \<^item> \<open>C_String\<close>: \<open>libc/src/string\<close>, with a closed form for each loop.
  \<^item> \<open>Free_List\<close>, \<open>Kernel_Heap\<close>: \<open>libc/src/memory/heap.c\<close>. \<open>malloc\<close> and \<open>free\<close> refine carving and releasing of intervals; the
    locales \<open>allocator\<close> and \<open>scratch_allocator\<close> are what the clients use of them, interpreted on \<open>malloc\<close> and \<open>free\<close>.
    \<open>Heap_Machine\<close>: any sequence of calls and accesses of a client that keeps the rules is one on a store of separate objects.
  \<^item> \<open>Virtual_Address\<close>, \<open>Same_Heap\<close>, \<open>Page_Walk\<close>: \<open>kernel/arch/x86_64/memory.c\<close>, \<open>libc/src/memory/memory.c\<close> and
    \<open>same_sized_heap.c\<close>: addresses as table indices, the heap of page tables, table walks and new mappings.
  \<^item> \<open>Translator\<close>: \<open>libc/src/memory/address_translater_v3.c\<close>, a list of mappings with a cache, against the map it stands for; its
    lemmas are proved for any \<open>allocator\<close>. \<open>Boot_Map\<close>: the page tables of the boot loader as a list of mappings, which it takes over.
  \<^item> \<open>Phys_Pages\<close>, \<open>Page_Manager\<close>, \<open>Free_Regions\<close>: \<open>libc/src/memory/page_manager.c\<close>: physical pages, page tables of the process,
    and what the search for free virtual addresses finds.
  \<^item> \<open>Scheduler\<close>, \<open>Thread_Machine\<close>: \<open>kernel/src/kernel/scheduling\<close>. The locales \<open>sched_policy\<close> and \<open>fifo_policy\<close> are the
    contract of a policy, interpreted on \<open>standart_FCFS_scheduler\<close>. \<open>Thread_Machine\<close> takes ticks and new threads as the steps of a
    relation and shows that every run is that of a queue of threads and contexts, the heap behind the pool of nodes included.
  \<^item> \<open>Descriptors\<close>, \<open>Interrupt_Controller\<close>: \<open>gdt.c\<close>, \<open>interrupts.c\<close>, \<open>exceptions.c\<close>, \<open>APIC.c\<close>: descriptor tables, handlers,
    the registers of the controllers and the list of timed waits.
  \<^item> \<open>Terminal\<close>, \<open>Printf\<close>, \<open>Video\<close>: \<open>tty.c\<close>, \<open>bitmap.c\<close>, \<open>libc/src/stdio\<close>, \<open>abort.c\<close>, \<open>vtty.c\<close>. The console stays in
    the frame buffer; \<open>printf\<close> shows the text that a plain function computes.
  \<^item> \<open>Keyboard\<close>: \<open>drivers/keyboard.c\<close>, \<open>cmd.c\<close> and the line editor of \<open>kernel.c\<close>, for every device that answers the port reads.
  \<^item> \<open>Acpi\<close>, \<open>Pci\<close>: \<open>RSDP.c\<close>, \<open>PCI.c\<close>, \<open>SATA.c\<close>, \<open>USB.c\<close>; \<open>Pci_Records\<close>: what the scan of a bus segment records and counts. \<open>Array_List\<close>: \<open>libc/src/lists/ArrayList.c\<close>.
  \<^item> \<open>Kernel_Main\<close>: \<open>kernel.c\<close>, \<open>syscall.c\<close>, \<open>process.c\<close>: \<open>kmain\<close> as the composition of all of these on one state.
    \<open>Kernel_Run\<close>: any sequence of system calls in that state is a sequence of turns of the queue.
  \<^item> \<open>Layouts\<close>, \<open>Accessors\<close>: the structures of the headers as C types with the layout rules of the ABI, and the offsets the
    other theories use checked against them. \<open>Flag_Bits\<close>: page flags and processor features.

  \<^bold>\<open>Properties.\<close> A block before a theorem gives its number \<open>C\<close>\<^emph>\<open>n\<close> and says what it shows. Where the code does what it means to, this is
  a refinement, a round trip, an invariant or the result on all inputs of a described kind; where it does not, the theorem shows the
  behaviour it has, such as a full line that overwrites its own length or a waking thread that queues all sleepers. Each theorem with a
  hypothesis is followed by a use at a concrete state.

  \<^bold>\<open>Arguments of the model.\<close> What is not C code of the repository is an argument of the definitions that use it: what the assembly
  files do beyond loading registers (the interval timer, \<open>int $0x30\<close>), what a device answers to a port or shows in a configuration
  page, the responses of the boot loader (record \<open>boot_loader\<close>), and the addresses of statics, literals and entry points in the linked
  image (record \<open>kernel_image\<close>). Volatile writes to the interrupt controllers are recorded in order.

  \<^bold>\<open>Limits.\<close> The memory is flat: a store reaches the bytes at its address whatever the page tables say, every address can be
  read, also 0, and statics that are record fields do not lie in the byte memory, so a stray write of the program does not change them
  here. Compiler freedom with undefined behaviour is not modelled; casts and shifts are those of the machine. Cache invalidation has no
  effect. One processor runs, and handlers run to their end.

  \<^bold>\<open>Not modelled.\<close> The assembly files, the linker script and the build files, \<open>limine.h\<close> (a third-party header), the
  \<open>.unused\<close> translators, code in comments, the declarations of the headers, \<open>scheduler.c\<close> and \<open>linkedList.c\<close>, which are empty, and local
  variables and calls whose results nothing reads, as each component's note in the manifest says.
\<close>

end
